(* ===== verification/Prelude.thy ===== *)
theory Prelude
  imports "HOL-Library.Word"
begin

text \<open>
  Prelude of the liteco development: the types every component shares (addresses of
  nodes, results), the rule collections the component proofs draw on, and generic
  lemmas on lists, options and function updates.
\<close>

section \<open>Shared types\<close>

text \<open>Addresses of nodes. Address 0 is the null pointer (and, for the red-black tree,
  the address of the shared sentinel \<open>liteco_rbt_nil_instance\<close>).\<close>

type_synonym addr = nat

abbreviation NIL :: addr where "NIL \<equiv> 0"

type_synonym u64 = "64 word"
type_synonym u32 = "32 word"

section \<open>Rule collections\<close>

named_theorems frame_rules "reading an untouched address after a write leaves a structure alone"

section \<open>Lists\<close>

lemma distinct_snoc_iff: "distinct (xs @ [x]) \<longleftrightarrow> x \<notin> set xs \<and> distinct xs"
  by auto

lemma sorted_wrt_mid:
  "sorted_wrt R (xs @ x # ys) \<longleftrightarrow>
     sorted_wrt R xs \<and> sorted_wrt R ys \<and> (\<forall>a\<in>set xs. R a x) \<and> (\<forall>b\<in>set ys. R x b) \<and>
     (\<forall>a\<in>set xs. \<forall>b\<in>set ys. R a b)"
  by (auto simp: sorted_wrt_append)

lemma in_set_tlD: "x \<in> set (tl xs) \<Longrightarrow> x \<in> set xs"
  by (cases xs) auto

lemma option_bind_Some_iff: "Option.bind x f = Some y \<longleftrightarrow> (\<exists>z. x = Some z \<and> f z = Some y)"
  by (cases x) auto

end
