(* ===== verification/PtrTree.thy ===== *)
theory PtrTree
  imports Prelude
begin

text \<open>
  Binary trees laid out in a memory of nodes with parent pointers. The red-black tree and
  the binary heap of the library are both of this kind; the accessors of the node record
  (left, right, parent, payload) are arguments of the definitions here. A structure is
  described from its root (\<open>rep\<close>) and from a node in the middle of it (\<open>pctx\<close>, the
  path from the node up to the root), and \<open>rep_plug\<close> says that the two views agree.
\<close>

section \<open>Trees of addresses\<close>

datatype 'x ptree = PL | PN "'x ptree" addr 'x "'x ptree"

fun taddr :: "'x ptree \<Rightarrow> addr" where
  "taddr PL = NIL"
| "taddr (PN l a x r) = a"

fun addrs :: "'x ptree \<Rightarrow> addr list" where
  "addrs PL = []"
| "addrs (PN l a x r) = addrs l @ a # addrs r"

lemma taddr_in_addrs: "t \<noteq> PL \<Longrightarrow> taddr t \<in> set (addrs t)"
  by (cases t) auto

section \<open>Paths\<close>

text \<open>A step of a path from a hole to the root: the hole is the left (\<open>FL\<close>) or the right
  (\<open>FR\<close>) child of the node, whose payload and other subtree are recorded. The innermost
  step comes first.\<close>

datatype 'x frame = FL addr 'x "'x ptree" | FR "'x ptree" addr 'x

fun plug :: "'x frame list \<Rightarrow> 'x ptree \<Rightarrow> 'x ptree" where
  "plug [] t = t"
| "plug (FL a x r # fs) t = plug fs (PN t a x r)"
| "plug (FR l a x # fs) t = plug fs (PN l a x t)"

fun fpar :: "'x frame list \<Rightarrow> addr" where
  "fpar [] = NIL"
| "fpar (FL a x r # fs) = a"
| "fpar (FR l a x # fs) = a"

fun faddrs :: "'x frame list \<Rightarrow> addr list" where
  "faddrs [] = []"
| "faddrs (FL a x r # fs) = a # addrs r @ faddrs fs"
| "faddrs (FR l a x # fs) = a # addrs l @ faddrs fs"

fun lefts :: "'x frame list \<Rightarrow> addr list" where
  "lefts [] = []"
| "lefts (FL a x r # fs) = lefts fs"
| "lefts (FR l a x # fs) = lefts fs @ addrs l @ [a]"

fun rights :: "'x frame list \<Rightarrow> addr list" where
  "rights [] = []"
| "rights (FL a x r # fs) = a # addrs r @ rights fs"
| "rights (FR l a x # fs) = rights fs"

lemma addrs_plug: "addrs (plug fs t) = lefts fs @ addrs t @ rights fs"
  by (induction fs t rule: plug.induct) auto

lemma set_faddrs: "set (faddrs fs) = set (lefts fs) \<union> set (rights fs)"
  by (induction fs rule: faddrs.induct) auto

lemma distinct_faddrs: "distinct (faddrs fs) \<longleftrightarrow> distinct (lefts fs @ rights fs)"
  by (induction fs rule: faddrs.induct) (auto simp: set_faddrs)

lemma distinct_plug:
  "distinct (addrs (plug fs t)) \<longleftrightarrow>
     distinct (addrs t) \<and> distinct (faddrs fs) \<and> set (addrs t) \<inter> set (faddrs fs) = {}"
  by (auto simp: addrs_plug distinct_faddrs set_faddrs)

lemma set_addrs_plug: "set (addrs (plug fs t)) = set (addrs t) \<union> set (faddrs fs)"
  by (auto simp: addrs_plug set_faddrs)

lemma plug_append: "plug (fs @ gs) t = plug gs (plug fs t)"
  by (induction fs t rule: plug.induct) auto

lemma plug_eq_PL [simp]: "plug fs t = PL \<longleftrightarrow> fs = [] \<and> t = PL"
  by (induction fs t rule: plug.induct) auto

lemma fpar_in_faddrs: "fs \<noteq> [] \<Longrightarrow> fpar fs \<in> set (faddrs fs)"
  by (cases fs rule: faddrs.cases) auto

section \<open>Trees in memory\<close>

fun rep :: "('n \<Rightarrow> addr) \<Rightarrow> ('n \<Rightarrow> addr) \<Rightarrow> ('n \<Rightarrow> addr) \<Rightarrow> ('n \<Rightarrow> 'x) \<Rightarrow>
    (addr \<Rightarrow> 'n) \<Rightarrow> addr \<Rightarrow> 'x ptree \<Rightarrow> bool" where
  "rep L R P X h q PL \<longleftrightarrow> True"
| "rep L R P X h q (PN l a x r) \<longleftrightarrow>
     a \<noteq> NIL \<and> P (h a) = q \<and> X (h a) = x \<and> L (h a) = taddr l \<and> R (h a) = taddr r \<and>
     rep L R P X h a l \<and> rep L R P X h a r"

fun pctx :: "('n \<Rightarrow> addr) \<Rightarrow> ('n \<Rightarrow> addr) \<Rightarrow> ('n \<Rightarrow> addr) \<Rightarrow> ('n \<Rightarrow> 'x) \<Rightarrow>
    (addr \<Rightarrow> 'n) \<Rightarrow> addr \<Rightarrow> addr \<Rightarrow> 'x frame list \<Rightarrow> bool" where
  "pctx L R P X h rt p [] \<longleftrightarrow> rt = p"
| "pctx L R P X h rt p (FL a x r # fs) \<longleftrightarrow>
     a \<noteq> NIL \<and> P (h a) = fpar fs \<and> X (h a) = x \<and> L (h a) = p \<and> R (h a) = taddr r \<and>
     rep L R P X h a r \<and> pctx L R P X h rt a fs"
| "pctx L R P X h rt p (FR l a x # fs) \<longleftrightarrow>
     a \<noteq> NIL \<and> P (h a) = fpar fs \<and> X (h a) = x \<and> L (h a) = taddr l \<and> R (h a) = p \<and>
     rep L R P X h a l \<and> pctx L R P X h rt a fs"

lemma rep_plug:
  "rt = taddr (plug fs t) \<and> rep L R P X h NIL (plug fs t) \<longleftrightarrow>
   pctx L R P X h rt (taddr t) fs \<and> rep L R P X h (fpar fs) t"
  by (induction fs t rule: plug.induct) auto

lemma rep_addrs_nonnil: "rep L R P X h q t \<Longrightarrow> NIL \<notin> set (addrs t)"
  by (induction t arbitrary: q) auto

lemma pctx_faddrs_nonnil: "pctx L R P X h rt p fs \<Longrightarrow> NIL \<notin> set (faddrs fs)"
  by (induction fs arbitrary: p rule: faddrs.induct) (auto dest: rep_addrs_nonnil)

lemma rep_taddr_nil: "rep L R P X h q t \<Longrightarrow> taddr t = NIL \<longleftrightarrow> t = PL"
  by (cases t) auto

lemma pctx_fpar_nil: "pctx L R P X h rt p fs \<Longrightarrow> fpar fs = NIL \<longleftrightarrow> fs = []"
  by (cases fs rule: faddrs.cases) auto

section \<open>Frame lemmas\<close>

text \<open>A structure depends only on the fields of its own nodes.\<close>

lemma rep_cong:
  assumes "rep L R P X h q t"
    and "\<And>a. a \<in> set (addrs t) \<Longrightarrow>
      L (h' a) = L (h a) \<and> R (h' a) = R (h a) \<and> P (h' a) = P (h a) \<and> X (h' a) = X (h a)"
  shows "rep L R P X h' q t"
  using assms by (induction t arbitrary: q) auto

lemma pctx_cong:
  assumes "pctx L R P X h rt p fs"
    and "\<And>a. a \<in> set (faddrs fs) \<Longrightarrow>
      L (h' a) = L (h a) \<and> R (h' a) = R (h a) \<and> P (h' a) = P (h a) \<and> X (h' a) = X (h a)"
  shows "pctx L R P X h' rt p fs"
  using assms by (induction fs arbitrary: p rule: faddrs.induct) (auto intro: rep_cong)

lemma rep_upd [frame_rules]:
  "a \<notin> set (addrs t) \<Longrightarrow> rep L R P X (h(a := v)) q t = rep L R P X h q t"
  by (induction t arbitrary: q) auto

lemma pctx_upd [frame_rules]:
  "a \<notin> set (faddrs fs) \<Longrightarrow> pctx L R P X (h(a := v)) rt p fs = pctx L R P X h rt p fs"
  by (induction fs arbitrary: p rule: faddrs.induct) (auto simp: frame_rules)

text \<open>Giving a subtree a new parent is a write to its root only.\<close>

lemma rep_reparent:
  assumes "rep L R P X h q t" and "distinct (addrs t)"
    and "\<And>a. a \<in> set (addrs t) \<Longrightarrow> L (h' a) = L (h a) \<and> R (h' a) = R (h a) \<and> X (h' a) = X (h a)"
    and "\<And>a. a \<in> set (addrs t) \<Longrightarrow> a \<noteq> taddr t \<Longrightarrow> P (h' a) = P (h a)"
    and "t \<noteq> PL \<Longrightarrow> P (h' (taddr t)) = q'"
  shows "rep L R P X h' q' t"
proof (cases t)
  case PL
  then show ?thesis by simp
next
  case (PN l a x r)
  have "rep L R P X h' a l" and "rep L R P X h' a r"
    using assms PN by (auto intro!: rep_cong [of L R P X h])
  then show ?thesis using assms PN by auto
qed

text \<open>The innermost step of a path can be redirected to another hole.\<close>

lemma pctx_redirect:
  assumes "pctx L R P X h rt p fs" and "distinct (faddrs fs)"
    and "\<And>a. a \<in> set (faddrs fs) \<Longrightarrow> P (h' a) = P (h a) \<and> X (h' a) = X (h a)"
    and "\<And>a. a \<in> set (faddrs fs) \<Longrightarrow> a \<noteq> fpar fs \<Longrightarrow> L (h' a) = L (h a) \<and> R (h' a) = R (h a)"
    and "case fs of [] \<Rightarrow> rt' = p'
         | FL a x r # _ \<Rightarrow> L (h' a) = p' \<and> R (h' a) = R (h a) \<and> rt' = rt
         | FR l a x # _ \<Rightarrow> R (h' a) = p' \<and> L (h' a) = L (h a) \<and> rt' = rt"
  shows "pctx L R P X h' rt' p' fs"
proof (cases fs rule: faddrs.cases)
  case 1
  then show ?thesis using assms by simp
next
  case (2 a x r gs)
  then have "rep L R P X h' a r" and "pctx L R P X h' rt a gs"
    using assms by (auto intro!: rep_cong [of L R P X h] pctx_cong [of L R P X h])
  then show ?thesis using assms 2 by auto
next
  case (3 l a x gs)
  then have "rep L R P X h' a l" and "pctx L R P X h' rt a gs"
    using assms by (auto intro!: rep_cong [of L R P X h] pctx_cong [of L R P X h])
  then show ?thesis using assms 3 by auto
qed

section \<open>Finding a node\<close>

text \<open>Every node of a tree is the root of a subtree under some path.\<close>

lemma in_addrs_plug:
  assumes "a \<in> set (addrs t)"
  obtains fs l x r where "t = plug fs (PN l a x r)"
proof -
  have "\<exists>fs l x r. t = plug fs (PN l a x r)"
    using assms
  proof (induction t)
    case (PN l b x r)
    then consider "a = b" | "a \<in> set (addrs l)" | "a \<in> set (addrs r)" by auto
    then show ?case
    proof cases
      case 1
      then have "PN l b x r = plug [] (PN l a x r)" by simp
      then show ?thesis by blast
    next
      case 2
      then obtain fs l' x' r' where "l = plug fs (PN l' a x' r')" using PN.IH by blast
      then have "PN l b x r = plug (fs @ [FL b x r]) (PN l' a x' r')" by (simp add: plug_append)
      then show ?thesis by blast
    next
      case 3
      then obtain fs l' x' r' where "r = plug fs (PN l' a x' r')" using PN.IH by blast
      then have "PN l b x r = plug (fs @ [FR l b x]) (PN l' a x' r')" by (simp add: plug_append)
      then show ?thesis by blast
    qed
  qed simp
  then show thesis using that by blast
qed

end
