(* ===== verification/Rbt.thy ===== *)
theory Rbt
  imports PtrTree
begin

text \<open>
  The red-black tree of \<open>src/lc_rbt.c\<close> and \<open>include/liteco/lc_rbt.h\<close>: the node record, the
  memory of nodes, the comparison callbacks, search, rotations, insertion with its
  rebalancing loop and removal, each translated statement by statement over an explicit
  memory. Loops are \<open>partial_function (option)\<close>: \<open>None\<close> means that the loop does not end.
  The proofs about these definitions are in \<open>Rbt_Insert\<close> and \<open>Rbt_Remove\<close>.
\<close>

section \<open>Nodes and memory\<close>

datatype liteco_rbt_color = RBT_BLACK | RBT_RED

datatype liteco_rbt_cmp_result = RBT_EQ | RBT_LS | RBT_GT

record liteco_rbt =
  rb_p :: addr
  rb_r :: addr
  rb_l :: addr
  morris_link :: addr
  rb_color :: liteco_rbt_color

text \<open>The tree operations work on the root pointer (the \<open>liteco_rbt_t **root\<close> argument) and
  on the nodes in memory; the keys lie behind the nodes and are never written by them, so
  they are a separate map. The sentinel is the node at address \<open>NIL\<close>.\<close>

record rbt_state =
  root :: addr
  mem :: "addr \<Rightarrow> liteco_rbt"

definition liteco_rbt_nil_instance :: liteco_rbt where
  "liteco_rbt_nil_instance =
     \<lparr>rb_p = NIL, rb_r = NIL, rb_l = NIL, morris_link = NIL, rb_color = RBT_BLACK\<rparr>"

definition liteco_rbt_node_init :: liteco_rbt where
  "liteco_rbt_node_init =
     \<lparr>rb_p = NIL, rb_r = NIL, rb_l = NIL, morris_link = NIL, rb_color = RBT_RED\<rparr>"

abbreviation lft :: "rbt_state \<Rightarrow> addr \<Rightarrow> addr" where "lft s a \<equiv> rb_l (mem s a)"
abbreviation rgt :: "rbt_state \<Rightarrow> addr \<Rightarrow> addr" where "rgt s a \<equiv> rb_r (mem s a)"
abbreviation par :: "rbt_state \<Rightarrow> addr \<Rightarrow> addr" where "par s a \<equiv> rb_p (mem s a)"
abbreviation col :: "rbt_state \<Rightarrow> addr \<Rightarrow> liteco_rbt_color" where "col s a \<equiv> rb_color (mem s a)"

definition set_l :: "addr \<Rightarrow> addr \<Rightarrow> rbt_state \<Rightarrow> rbt_state" where
  "set_l a v s = s\<lparr>mem := (mem s)(a := (mem s a)\<lparr>rb_l := v\<rparr>)\<rparr>"

definition set_r :: "addr \<Rightarrow> addr \<Rightarrow> rbt_state \<Rightarrow> rbt_state" where
  "set_r a v s = s\<lparr>mem := (mem s)(a := (mem s a)\<lparr>rb_r := v\<rparr>)\<rparr>"

definition set_p :: "addr \<Rightarrow> addr \<Rightarrow> rbt_state \<Rightarrow> rbt_state" where
  "set_p a v s = s\<lparr>mem := (mem s)(a := (mem s a)\<lparr>rb_p := v\<rparr>)\<rparr>"

definition set_c :: "addr \<Rightarrow> liteco_rbt_color \<Rightarrow> rbt_state \<Rightarrow> rbt_state" where
  "set_c a v s = s\<lparr>mem := (mem s)(a := (mem s a)\<lparr>rb_color := v\<rparr>)\<rparr>"

lemmas rbt_setters = set_l_def set_r_def set_p_def set_c_def

section \<open>Comparison callbacks\<close>

text \<open>\<open>const void *key\<close> is read as a 64-bit value by both callbacks; the callback for \<open>int\<close>
  keys keeps its low 32 bits and compares them as signed values.\<close>

definition liteco_rbt_uint64_cmp_cb :: "u64 \<Rightarrow> u64 \<Rightarrow> liteco_rbt_cmp_result" where
  "liteco_rbt_uint64_cmp_cb spec_key node_key =
     (if spec_key = node_key then RBT_EQ
      else if spec_key < node_key then RBT_LS
      else RBT_GT)"

definition liteco_rbt_int_cmp_cb :: "u64 \<Rightarrow> u32 \<Rightarrow> liteco_rbt_cmp_result" where
  "liteco_rbt_int_cmp_cb key node_key =
     (let spec_key = (ucast key :: u32) in
      if spec_key = node_key then RBT_EQ
      else if sint spec_key < sint node_key then RBT_LS
      else RBT_GT)"

section \<open>Search\<close>

partial_function (option) rbt_find_loop ::
    "('k \<Rightarrow> addr \<Rightarrow> liteco_rbt_cmp_result) \<Rightarrow> 'k \<Rightarrow> rbt_state \<Rightarrow> addr \<Rightarrow> addr option" where
  "rbt_find_loop cb key s ret =
     (if ret \<noteq> NIL then
        (case cb key ret of
           RBT_EQ \<Rightarrow> Some ret
         | RBT_LS \<Rightarrow> rbt_find_loop cb key s (lft s ret)
         | RBT_GT \<Rightarrow> rbt_find_loop cb key s (rgt s ret))
      else Some NIL)"

definition liteco_rbt_find_impl ::
    "('k \<Rightarrow> addr \<Rightarrow> liteco_rbt_cmp_result) \<Rightarrow> 'k \<Rightarrow> rbt_state \<Rightarrow> addr option" where
  "liteco_rbt_find_impl cb key s = rbt_find_loop cb key s (root s)"

partial_function (option) rbt_min_loop :: "rbt_state \<Rightarrow> addr \<Rightarrow> addr option" where
  "rbt_min_loop s node =
     (if lft s node \<noteq> NIL then rbt_min_loop s (lft s node) else Some node)"

partial_function (option) rbt_min_impl_loop :: "rbt_state \<Rightarrow> addr \<Rightarrow> addr option" where
  "rbt_min_impl_loop s ret =
     (if ret \<noteq> NIL \<and> lft s ret \<noteq> NIL then rbt_min_impl_loop s (lft s ret) else Some ret)"

definition liteco_rbt_min_impl :: "rbt_state \<Rightarrow> addr option" where
  "liteco_rbt_min_impl s = rbt_min_impl_loop s (root s)"

section \<open>Rotations\<close>

definition rbt_lr :: "addr \<Rightarrow> rbt_state \<Rightarrow> rbt_state" where
  "rbt_lr node s0 =
     (let chd = rgt s0 node;
          s1 = set_r node (lft s0 chd) s0;
          s2 = (if lft s1 chd \<noteq> NIL then set_p (lft s1 chd) node s1 else s1);
          s3 = (if chd \<noteq> NIL then set_p chd (par s2 node) s2 else s2);
          s4 = (if par s3 node = NIL then s3\<lparr>root := chd\<rparr>
                else if node = lft s3 (par s3 node) then set_l (par s3 node) chd s3
                else set_r (par s3 node) chd s3);
          s5 = (if chd \<noteq> NIL then set_l chd node s4 else s4)
      in set_p node chd s5)"

definition rbt_rr :: "addr \<Rightarrow> rbt_state \<Rightarrow> rbt_state" where
  "rbt_rr node s0 =
     (let chd = lft s0 node;
          s1 = set_l node (rgt s0 chd) s0;
          s2 = (if rgt s1 chd \<noteq> NIL then set_p (rgt s1 chd) node s1 else s1);
          s3 = (if chd \<noteq> NIL then set_p chd (par s2 node) s2 else s2);
          s4 = (if par s3 node = NIL then s3\<lparr>root := chd\<rparr>
                else if node = lft s3 (par s3 node) then set_l (par s3 node) chd s3
                else set_r (par s3 node) chd s3);
          s5 = (if chd \<noteq> NIL then set_r chd node s4 else s4)
      in set_p node chd s5)"

section \<open>Insertion\<close>

text \<open>\<open>liteco_rbt_t **in\<close> points at the root pointer or at a child field of a node.\<close>

datatype slot = SRoot | SLeft addr | SRight addr

fun slot_get :: "slot \<Rightarrow> rbt_state \<Rightarrow> addr" where
  "slot_get SRoot s = root s"
| "slot_get (SLeft a) s = lft s a"
| "slot_get (SRight a) s = rgt s a"

fun slot_set :: "slot \<Rightarrow> addr \<Rightarrow> rbt_state \<Rightarrow> rbt_state" where
  "slot_set SRoot v s = s\<lparr>root := v\<rparr>"
| "slot_set (SLeft a) v s = set_l a v s"
| "slot_set (SRight a) v s = set_r a v s"

definition liteco_rbt_err_success :: int where "liteco_rbt_err_success = 0"
definition liteco_rbt_err_conflict :: int where "liteco_rbt_err_conflict = -1"

text \<open>One turn of the loop of \<open>__fix\<close> and the loop itself.\<close>

definition rbt_fix_body :: "rbt_state \<times> addr \<Rightarrow> rbt_state \<times> addr" where
  "rbt_fix_body sn =
     (case sn of (s, node) \<Rightarrow>
      if par s node = lft s (par s (par s node)) then
        let uncle = rgt s (par s (par s node)) in
        if col s uncle = RBT_RED then
          let s1 = set_c uncle RBT_BLACK s;
              s2 = set_c (par s1 node) RBT_BLACK s1;
              s3 = set_c (par s2 (par s2 node)) RBT_RED s2
          in (s3, par s3 (par s3 node))
        else
          let (s1, node1) = (if node = rgt s (par s node)
                             then (rbt_lr (par s node) s, par s node) else (s, node));
              s2 = set_c (par s1 node1) RBT_BLACK s1;
              s3 = set_c (par s2 (par s2 node1)) RBT_RED s2
          in (rbt_rr (par s3 (par s3 node1)) s3, node1)
      else
        let uncle = lft s (par s (par s node)) in
        if col s uncle = RBT_RED then
          let s1 = set_c uncle RBT_BLACK s;
              s2 = set_c (par s1 node) RBT_BLACK s1;
              s3 = set_c (par s2 (par s2 node)) RBT_RED s2
          in (s3, par s3 (par s3 node))
        else
          let (s1, node1) = (if node = lft s (par s node)
                             then (rbt_rr (par s node) s, par s node) else (s, node));
              s2 = set_c (par s1 node1) RBT_BLACK s1;
              s3 = set_c (par s2 (par s2 node1)) RBT_RED s2
          in (rbt_lr (par s3 (par s3 node1)) s3, node1))"

partial_function (option) rbt_fix_loop :: "rbt_state \<times> addr \<Rightarrow> rbt_state option" where
  "rbt_fix_loop sn =
     (if col (fst sn) (par (fst sn) (snd sn)) = RBT_RED
      then rbt_fix_loop (rbt_fix_body sn) else Some (fst sn))"

definition rbt_fix :: "addr \<Rightarrow> rbt_state \<Rightarrow> rbt_state option" where
  "rbt_fix node s =
     map_option (\<lambda>s'. set_c (root s') RBT_BLACK s') (rbt_fix_loop (s, node))"

partial_function (option) rbt_insert_loop ::
    "('k \<Rightarrow> addr \<Rightarrow> liteco_rbt_cmp_result) \<Rightarrow> 'k \<Rightarrow> rbt_state \<Rightarrow> addr \<Rightarrow> slot \<Rightarrow>
     (addr \<times> slot) option option" where
  "rbt_insert_loop cb key s p inn =
     (if slot_get inn s \<noteq> NIL then
        (case cb key (slot_get inn s) of
           RBT_EQ \<Rightarrow> Some None
         | RBT_LS \<Rightarrow> rbt_insert_loop cb key s (slot_get inn s) (SLeft (slot_get inn s))
         | RBT_GT \<Rightarrow> rbt_insert_loop cb key s (slot_get inn s) (SRight (slot_get inn s)))
      else Some (Some (p, inn)))"

definition liteco_rbt_insert_impl ::
    "('k \<Rightarrow> addr \<Rightarrow> liteco_rbt_cmp_result) \<Rightarrow> 'k \<Rightarrow> addr \<Rightarrow> rbt_state \<Rightarrow>
     (rbt_state \<times> int) option" where
  "liteco_rbt_insert_impl cb key node s =
     (case rbt_insert_loop cb key s NIL SRoot of
        None \<Rightarrow> None
      | Some None \<Rightarrow> Some (s, liteco_rbt_err_conflict)
      | Some (Some (p, inn)) \<Rightarrow>
          map_option (\<lambda>s'. (s', liteco_rbt_err_success))
            (rbt_fix node (slot_set inn node (set_p node p s))))"

section \<open>Removal\<close>

definition rbt_sib :: "addr \<Rightarrow> rbt_state \<Rightarrow> addr" where
  "rbt_sib node s =
     (if lft s (par s node) = node then rgt s (par s node) else lft s (par s node))"

text \<open>\<open>__assign\<close> copies a node record to another place and redirects the pointers of its
  neighbours to that place.\<close>

definition rbt_assign :: "addr \<Rightarrow> addr \<Rightarrow> rbt_state \<Rightarrow> rbt_state" where
  "rbt_assign tgt ref s0 =
     (let s1 = s0\<lparr>mem := (mem s0)(tgt := mem s0 ref)\<rparr>;
          s2 = (if par s1 ref = NIL then s1\<lparr>root := tgt\<rparr>
                else if lft s1 (par s1 ref) = ref then set_l (par s1 ref) tgt s1
                else set_r (par s1 ref) tgt s1);
          s3 = (if lft s2 ref \<noteq> NIL then set_p (lft s2 ref) tgt s2 else s2)
      in (if rgt s3 ref \<noteq> NIL then set_p (rgt s3 ref) tgt s3 else s3))"

definition rbt_rm6 :: "addr \<Rightarrow> rbt_state \<Rightarrow> rbt_state" where
  "rbt_rm6 node s0 =
     (let sib = rbt_sib node s0;
          s1 = set_c sib (col s0 (par s0 node)) s0;
          s2 = set_c (par s1 node) RBT_BLACK s1
      in if node = lft s2 (par s2 node)
         then (let s3 = set_c (rgt s2 sib) RBT_BLACK s2 in rbt_lr (par s3 node) s3)
         else (let s3 = set_c (lft s2 sib) RBT_BLACK s2 in rbt_rr (par s3 node) s3))"

definition rbt_rm5 :: "addr \<Rightarrow> rbt_state \<Rightarrow> rbt_state" where
  "rbt_rm5 node s =
     (let sib = rbt_sib node s in
      rbt_rm6 node
        (if lft s (par s node) = node \<and> col s sib = RBT_BLACK \<and>
            col s (lft s sib) = RBT_RED \<and> col s (rgt s sib) = RBT_BLACK then
           (let s1 = set_c sib RBT_RED s; s2 = set_c (lft s1 sib) RBT_BLACK s1 in rbt_rr sib s2)
         else if rgt s (par s node) = node \<and> col s sib = RBT_BLACK \<and>
            col s (rgt s sib) = RBT_RED \<and> col s (lft s sib) = RBT_BLACK then
           (let s1 = set_c sib RBT_RED s; s2 = set_c (rgt s1 sib) RBT_BLACK s1 in rbt_lr sib s2)
         else s))"

definition rbt_rm4 :: "addr \<Rightarrow> rbt_state \<Rightarrow> rbt_state" where
  "rbt_rm4 node s =
     (let sib = rbt_sib node s in
      if col s (par s node) = RBT_RED \<and> col s sib = RBT_BLACK \<and>
         col s (lft s sib) = RBT_BLACK \<and> col s (rgt s sib) = RBT_BLACK then
        (let s1 = set_c sib RBT_RED s in set_c (par s1 node) RBT_BLACK s1)
      else rbt_rm5 node s)"

text \<open>\<open>__rm1\<close>, \<open>__rm2\<close> and \<open>__rm3\<close> call each other up the tree; \<open>rm1\<close> stands for the call of
  \<open>__rm1\<close> in \<open>__rm3\<close>.\<close>

definition rbt_rm3 :: "(addr \<Rightarrow> rbt_state \<Rightarrow> rbt_state option) \<Rightarrow> addr \<Rightarrow> rbt_state \<Rightarrow>
    rbt_state option" where
  "rbt_rm3 rm1 node s =
     (let sib = rbt_sib node s in
      if col s (par s node) = RBT_BLACK \<and> col s sib = RBT_BLACK \<and>
         col s (lft s sib) = RBT_BLACK \<and> col s (rgt s sib) = RBT_BLACK then
        (let s1 = set_c sib RBT_RED s in rm1 (par s1 node) s1)
      else Some (rbt_rm4 node s))"

definition rbt_rm2 :: "(addr \<Rightarrow> rbt_state \<Rightarrow> rbt_state option) \<Rightarrow> addr \<Rightarrow> rbt_state \<Rightarrow>
    rbt_state option" where
  "rbt_rm2 rm1 node s =
     (let sib = rbt_sib node s in
      rbt_rm3 rm1 node
        (if col s sib = RBT_RED then
           (let s1 = set_c (par s node) RBT_RED s;
                s2 = set_c sib RBT_BLACK s1
            in if node = lft s2 (par s2 node) then rbt_lr (par s2 node) s2
               else rbt_rr (par s2 node) s2)
         else s))"

lemma rbt_rm2_mono [partial_function_mono]:
  "option.mono_body (\<lambda>f. rbt_rm2 (\<lambda>n s. f (n, s)) node s)"
  unfolding rbt_rm2_def rbt_rm3_def Let_def by (intro partial_function_mono)

partial_function (option) rbt_rm1p :: "addr \<times> rbt_state \<Rightarrow> rbt_state option" where
  "rbt_rm1p ns =
     (if par (snd ns) (fst ns) \<noteq> NIL
      then rbt_rm2 (\<lambda>n s. rbt_rm1p (n, s)) (fst ns) (snd ns) else Some (snd ns))"

definition rbt_rm1 :: "addr \<Rightarrow> rbt_state \<Rightarrow> rbt_state option" where
  "rbt_rm1 node s = rbt_rm1p (node, s)"

lemma rbt_rm1_rec:
  "rbt_rm1 node s = (if par s node \<noteq> NIL then rbt_rm2 rbt_rm1 node s else Some s)"
  unfolding rbt_rm1_def by (subst rbt_rm1p.simps) simp

definition rbt_replace :: "addr \<Rightarrow> addr \<Rightarrow> rbt_state \<Rightarrow> rbt_state" where
  "rbt_replace lf rt s0 =
     (let s1 = (if lf = root s0 then s0\<lparr>root := rt\<rparr>
                else if lf = lft s0 (par s0 lf) then set_l (par s0 lf) rt s0
                else set_r (par s0 lf) rt s0)
      in (if rt \<noteq> NIL then set_p rt (par s1 lf) s1 else s1))"

text \<open>\<open>mid\<close> is the address of the local node of \<open>liteco_rbt_remove_impl\<close>. The result is the new
  state and the new value of \<open>*node\<close>, which the code always sets to \<open>ref\<close>.\<close>

definition rbt_swap_nodes :: "addr \<Rightarrow> addr \<Rightarrow> addr \<Rightarrow> rbt_state \<Rightarrow> rbt_state" where
  "rbt_swap_nodes mid nex ref s =
     rbt_assign ref mid (rbt_assign nex ref (rbt_assign mid nex s))"

definition rbt_unlink :: "addr \<Rightarrow> rbt_state \<Rightarrow> rbt_state option" where
  "rbt_unlink ref s0 =
     (let chd = (if lft s0 ref \<noteq> NIL then lft s0 ref else rgt s0 ref) in
      Option.bind
        (if col s0 ref = RBT_BLACK then rbt_rm1 ref (set_c ref (col s0 chd) s0) else Some s0)
        (\<lambda>s1. let s2 = rbt_replace ref chd s1
              in Some (if par s2 ref = NIL \<and> chd \<noteq> NIL then set_c chd RBT_BLACK s2 else s2)))"

definition liteco_rbt_remove_impl ::
    "addr \<Rightarrow> addr \<Rightarrow> rbt_state \<Rightarrow> (rbt_state \<times> addr \<times> int) option" where
  "liteco_rbt_remove_impl mid ref s =
     Option.bind
       (if lft s ref \<noteq> NIL \<and> rgt s ref \<noteq> NIL
        then map_option (\<lambda>nex. rbt_swap_nodes mid nex ref s) (rbt_min_loop s ref)
        else Some s)
       (\<lambda>s1. map_option (\<lambda>s2. (s2, ref, liteco_rbt_err_success)) (rbt_unlink ref s1))"

declare rbt_find_loop.simps [code] rbt_min_loop.simps [code] rbt_min_impl_loop.simps [code]
declare rbt_fix_loop.simps [code] rbt_insert_loop.simps [code] rbt_rm1p.simps [code]

end
