(* ===== verification/Rbt_Tree.thy ===== *)
theory Rbt_Tree
  imports Rbt
begin

text \<open>
  The red-black tree in memory: \<open>foc s fs t\<close> says that the state \<open>s\<close> holds a tree, seen from
  its subtree \<open>t\<close> at the end of the path \<open>fs\<close>. The section on rotations shows that \<open>__lr\<close> and
  \<open>__rr\<close> implement the functional rotations under every path; the invariants of red-black
  trees (colours, black heights) are defined on the functional trees.
\<close>

type_synonym ctree = "liteco_rbt_color ptree"
type_synonym cpath = "liteco_rbt_color frame list"

abbreviation trep :: "rbt_state \<Rightarrow> addr \<Rightarrow> ctree \<Rightarrow> bool" where
  "trep s \<equiv> rep rb_l rb_r rb_p rb_color (mem s)"

abbreviation tctx :: "rbt_state \<Rightarrow> addr \<Rightarrow> cpath \<Rightarrow> bool" where
  "tctx s \<equiv> pctx rb_l rb_r rb_p rb_color (mem s) (root s)"

definition foc :: "rbt_state \<Rightarrow> cpath \<Rightarrow> ctree \<Rightarrow> bool" where
  "foc s fs t \<longleftrightarrow> tctx s (taddr t) fs \<and> trep s (fpar fs) t \<and> distinct (addrs (plug fs t)) \<and>
     mem s NIL = liteco_rbt_nil_instance"

text \<open>The state holds the tree \<open>t\<close>.\<close>

definition rbt_holds :: "rbt_state \<Rightarrow> ctree \<Rightarrow> bool" where
  "rbt_holds s t \<longleftrightarrow> root s = taddr t \<and> trep s NIL t \<and> distinct (addrs t) \<and>
     mem s NIL = liteco_rbt_nil_instance"

lemma foc_holds: "foc s fs t \<longleftrightarrow> rbt_holds s (plug fs t)"
  using rep_plug [of "root s" fs t rb_l rb_r rb_p rb_color "mem s"]
  by (auto simp: foc_def rbt_holds_def)

lemma foc_refocus: "foc s fs t \<Longrightarrow> plug fs t = plug fs' t' \<Longrightarrow> foc s fs' t'"
  by (simp add: foc_holds)

lemma foc_distinctD:
  assumes "foc s fs t"
  shows "distinct (addrs t)" "distinct (faddrs fs)" "set (addrs t) \<inter> set (faddrs fs) = {}"
    "NIL \<notin> set (addrs t)" "NIL \<notin> set (faddrs fs)"
  using assms by (auto simp: foc_def distinct_plug dest: rep_addrs_nonnil pctx_faddrs_nonnil)

section \<open>Reading the memory\<close>

lemma color_neq [simp]: "(c \<noteq> RBT_RED) = (c = RBT_BLACK)" "(c \<noteq> RBT_BLACK) = (c = RBT_RED)"
  by (cases c; simp)+

fun tcol :: "ctree \<Rightarrow> liteco_rbt_color" where
  "tcol PL = RBT_BLACK"
| "tcol (PN l a c r) = c"

fun fcol :: "cpath \<Rightarrow> liteco_rbt_color" where
  "fcol [] = RBT_BLACK"
| "fcol (FL a c r # fs) = c"
| "fcol (FR l a c # fs) = c"

lemma nil_fields:
  assumes "foc s fs t"
  shows "lft s NIL = NIL" "rgt s NIL = NIL" "par s NIL = NIL" "col s NIL = RBT_BLACK"
  using assms by (simp_all add: foc_def liteco_rbt_nil_instance_def)

lemma foc_node:
  assumes "foc s fs (PN l a c r)"
  shows "lft s a = taddr l" "rgt s a = taddr r" "par s a = fpar fs" "col s a = c" "a \<noteq> NIL"
  using assms by (simp_all add: foc_def)

lemma foc_col: "foc s fs t \<Longrightarrow> col s (taddr t) = tcol t"
  by (cases t) (simp_all add: foc_def liteco_rbt_nil_instance_def)

lemma foc_fcol: "foc s fs t \<Longrightarrow> col s (fpar fs) = fcol fs"
  by (cases fs rule: faddrs.cases) (simp_all add: foc_def liteco_rbt_nil_instance_def)

lemma foc_par: "foc s fs t \<Longrightarrow> t \<noteq> PL \<Longrightarrow> par s (taddr t) = fpar fs"
  by (cases t) (auto dest: foc_node)

lemma foc_nil_iff: "foc s fs t \<Longrightarrow> taddr t = NIL \<longleftrightarrow> t = PL"
  by (auto simp: foc_def rep_taddr_nil)

lemma foc_FL:
  assumes "foc s (FL p c r # fs) t"
  shows "lft s p = taddr t" "rgt s p = taddr r" "par s p = fpar fs" "col s p = c" "p \<noteq> NIL"
    "col s (taddr r) = tcol r" "col s (taddr t) = tcol t"
    "t \<noteq> PL \<Longrightarrow> taddr t \<noteq> taddr r" "r \<noteq> PL \<Longrightarrow> taddr r \<noteq> taddr t"
proof -
  have f: "foc s fs (PN t p c r)" using assms by (rule foc_refocus) simp
  have f': "foc s (FR t p c # fs) r" using assms by (rule foc_refocus) simp
  from foc_node [OF f] show "lft s p = taddr t" "rgt s p = taddr r" "par s p = fpar fs"
    "col s p = c" "p \<noteq> NIL" by auto
  from foc_col [OF f'] show "col s (taddr r) = tcol r" .
  from foc_col [OF assms] show "col s (taddr t) = tcol t" .
  have "set (addrs t) \<inter> set (addrs r) = {}" "NIL \<notin> set (addrs t)" "NIL \<notin> set (addrs r)"
    using foc_distinctD(1,4) [OF f] by auto
  then show "t \<noteq> PL \<Longrightarrow> taddr t \<noteq> taddr r" "r \<noteq> PL \<Longrightarrow> taddr r \<noteq> taddr t"
    using taddr_in_addrs [of t] taddr_in_addrs [of r] by (cases t; cases r; auto)+
qed

lemma foc_FR:
  assumes "foc s (FR l p c # fs) t"
  shows "lft s p = taddr l" "rgt s p = taddr t" "par s p = fpar fs" "col s p = c" "p \<noteq> NIL"
    "col s (taddr l) = tcol l" "col s (taddr t) = tcol t"
    "t \<noteq> PL \<Longrightarrow> taddr l \<noteq> taddr t" "t \<noteq> PL \<Longrightarrow> taddr t \<noteq> taddr l"
    "l \<noteq> PL \<Longrightarrow> taddr l \<noteq> taddr t"
proof -
  have f: "foc s (FL p c t # fs) l" using assms by (rule foc_refocus) simp
  from foc_FL [OF f] show "lft s p = taddr l" "rgt s p = taddr t" "par s p = fpar fs"
    "col s p = c" "p \<noteq> NIL" "col s (taddr l) = tcol l" "col s (taddr t) = tcol t"
    "t \<noteq> PL \<Longrightarrow> taddr l \<noteq> taddr t" "t \<noteq> PL \<Longrightarrow> taddr t \<noteq> taddr l"
    "l \<noteq> PL \<Longrightarrow> taddr l \<noteq> taddr t" by auto
qed

section \<open>Writing colours\<close>

lemma setter_fields:
  "lft (set_l a v s) b = (if b = a then v else lft s b)"
  "rgt (set_l a v s) b = rgt s b" "par (set_l a v s) b = par s b" "col (set_l a v s) b = col s b"
  "morris_link (mem (set_l a v s) b) = morris_link (mem s b)" "root (set_l a v s) = root s"
  "rgt (set_r a v s) b = (if b = a then v else rgt s b)"
  "lft (set_r a v s) b = lft s b" "par (set_r a v s) b = par s b" "col (set_r a v s) b = col s b"
  "morris_link (mem (set_r a v s) b) = morris_link (mem s b)" "root (set_r a v s) = root s"
  "par (set_p a v s) b = (if b = a then v else par s b)"
  "lft (set_p a v s) b = lft s b" "rgt (set_p a v s) b = rgt s b" "col (set_p a v s) b = col s b"
  "morris_link (mem (set_p a v s) b) = morris_link (mem s b)" "root (set_p a v s) = root s"
  "col (set_c a c s) b = (if b = a then c else col s b)"
  "lft (set_c a c s) b = lft s b" "rgt (set_c a c s) b = rgt s b" "par (set_c a c s) b = par s b"
  "morris_link (mem (set_c a c s) b) = morris_link (mem s b)" "root (set_c a c s) = root s"
  by (simp_all add: rbt_setters)

lemma mem_set_c_other: "b \<noteq> a \<Longrightarrow> mem (set_c a c s) b = mem s b"
  by (simp add: rbt_setters)

fun paint :: "liteco_rbt_color \<Rightarrow> ctree \<Rightarrow> ctree" where
  "paint c PL = PL"
| "paint c (PN l a d r) = PN l a c r"

lemma addrs_paint [simp]: "addrs (paint c t) = addrs t"
  by (cases t) auto

lemma taddr_paint [simp]: "taddr (paint c t) = taddr t"
  by (cases t) auto

lemma paint_PL_iff [simp]: "paint c t = PL \<longleftrightarrow> t = PL"
  by (cases t) auto

lemma foc_paint:
  assumes "foc s fs t" and "t \<noteq> PL"
  shows "foc (set_c (taddr t) c s) fs (paint c t)"
proof (cases t)
  case (PN l a d r)
  note D = foc_distinctD [OF assms(1)]
  have sub: "trep s a l" "trep s a r" and ctx: "tctx s a fs"
    using assms PN by (simp_all add: foc_def)
  have a: "a \<notin> set (addrs l)" "a \<notin> set (addrs r)" "a \<notin> set (faddrs fs)" "a \<noteq> NIL"
    using D PN by auto
  have "trep (set_c a c s) a l" "trep (set_c a c s) a r" "tctx (set_c a c s) a fs"
    using sub ctx a by (simp_all add: rbt_setters frame_rules)
  then show ?thesis
    using assms PN a by (simp add: foc_def setter_fields mem_set_c_other addrs_plug)
qed (use assms in simp)

section \<open>Rotations\<close>

text \<open>The guarded writes of the rotations, with the fields they change.\<close>

definition set_p' :: "addr \<Rightarrow> addr \<Rightarrow> rbt_state \<Rightarrow> rbt_state" where
  "set_p' a v s = (if a \<noteq> NIL then set_p a v s else s)"

definition redirect :: "addr \<Rightarrow> addr \<Rightarrow> rbt_state \<Rightarrow> rbt_state" where
  "redirect x y s =
     (if par s x = NIL then s\<lparr>root := y\<rparr>
      else if x = lft s (par s x) then set_l (par s x) y s
      else set_r (par s x) y s)"

lemma set_p'_fields:
  "par (set_p' a v s) b = (if b = a \<and> b \<noteq> NIL then v else par s b)"
  "lft (set_p' a v s) b = lft s b" "rgt (set_p' a v s) b = rgt s b" "col (set_p' a v s) b = col s b"
  "morris_link (mem (set_p' a v s) b) = morris_link (mem s b)" "root (set_p' a v s) = root s"
  by (simp_all add: set_p'_def setter_fields)

lemma redirect_fields:
  "lft (redirect x y s) a = (if a = par s x \<and> a \<noteq> NIL \<and> lft s a = x then y else lft s a)"
  "rgt (redirect x y s) a = (if a = par s x \<and> a \<noteq> NIL \<and> lft s a \<noteq> x then y else rgt s a)"
  "par (redirect x y s) a = par s a" "col (redirect x y s) a = col s a"
  "morris_link (mem (redirect x y s) a) = morris_link (mem s a)"
  "root (redirect x y s) = (if par s x = NIL then y else root s)"
  by (auto simp: redirect_def setter_fields)

lemmas write_fields = setter_fields set_p'_fields redirect_fields

text \<open>The addresses a rotation of \<open>u\<close> and \<open>v\<close> with the subtrees \<open>A\<close>, \<open>B\<close>, \<open>C\<close> meets are
  different.\<close>

lemma rot_distinct:
  assumes foc: "foc s fs t" and t: "addrs t = addrs A @ u # addrs B @ v # addrs C"
  shows "u \<noteq> v" "fpar fs \<noteq> u" "fpar fs \<noteq> v" "taddr B = NIL \<or> fpar fs \<noteq> taddr B"
    "taddr B \<noteq> u" "taddr B \<noteq> v" "distinct (addrs B)"
    and "a \<in> set (addrs A) \<union> set (addrs C) \<Longrightarrow> a \<noteq> u \<and> a \<noteq> v \<and> a \<noteq> fpar fs \<and> a \<noteq> taddr B"
    and "a \<in> set (addrs B) \<Longrightarrow> a \<noteq> u \<and> a \<noteq> v \<and> a \<noteq> fpar fs"
    and "a \<in> set (faddrs fs) \<Longrightarrow> a \<noteq> u \<and> a \<noteq> v \<and> a \<noteq> taddr B"
proof -
  note D = foc_distinctD [OF foc, unfolded t]
  have nil: "u \<noteq> NIL" "v \<noteq> NIL" "NIL \<notin> set (addrs A)" "NIL \<notin> set (addrs B)" "NIL \<notin> set (addrs C)"
    using D(4) by auto
  have uv: "u \<noteq> v" "u \<notin> set (faddrs fs)" "v \<notin> set (faddrs fs)"
    and dA: "u \<notin> set (addrs A)" "v \<notin> set (addrs A)" "set (addrs A) \<inter> set (faddrs fs) = {}"
      "set (addrs A) \<inter> set (addrs B) = {}"
    and dC: "u \<notin> set (addrs C)" "v \<notin> set (addrs C)" "set (addrs C) \<inter> set (faddrs fs) = {}"
      "set (addrs C) \<inter> set (addrs B) = {}"
    and dB: "u \<notin> set (addrs B)" "v \<notin> set (addrs B)" "set (addrs B) \<inter> set (faddrs fs) = {}"
      "distinct (addrs B)"
    using D(1,3) by auto
  have B: "taddr B = NIL \<or> taddr B \<in> set (addrs B)" by (cases B) auto
  have F: "fpar fs = NIL \<or> fpar fs \<in> set (faddrs fs)" using fpar_in_faddrs by (cases fs) auto
  show "u \<noteq> v" by (rule uv(1))
  show "fpar fs \<noteq> u" "fpar fs \<noteq> v" "taddr B = NIL \<or> fpar fs \<noteq> taddr B" "taddr B \<noteq> u" "taddr B \<noteq> v"
    using B F nil uv dB by auto
  show "distinct (addrs B)" by (rule dB)
  show "a \<in> set (addrs A) \<union> set (addrs C) \<Longrightarrow> a \<noteq> u \<and> a \<noteq> v \<and> a \<noteq> fpar fs \<and> a \<noteq> taddr B"
    using dA dC B F nil by auto
  show "a \<in> set (addrs B) \<Longrightarrow> a \<noteq> u \<and> a \<noteq> v \<and> a \<noteq> fpar fs"
    using dB F nil by auto
  show "a \<in> set (faddrs fs) \<Longrightarrow> a \<noteq> u \<and> a \<noteq> v \<and> a \<noteq> taddr B"
    using uv dB B D(5) by auto
qed

lemma rbt_lr_alt:
  assumes "rgt s x = y" "y \<noteq> NIL" "lft s y = b" "x \<noteq> y"
  shows "rbt_lr x s = set_p x y (set_l y x (redirect x y
    (set_p y (par (set_p' b x s) x) (set_p' b x (set_r x b s)))))"
  using assms by (simp add: rbt_lr_def redirect_def set_p'_def setter_fields Let_def)

lemma lr_fields:
  assumes "rgt s x = y" "y \<noteq> NIL" "x \<noteq> y" "lft s y \<noteq> x" "lft s y \<noteq> y" "x \<noteq> NIL"
    "par s x \<noteq> x" "par s x \<noteq> y" "lft s y = NIL \<or> par s x \<noteq> lft s y"
  shows "lft (rbt_lr x s) a = (if a = y then x else if a = par s x \<and> a \<noteq> NIL \<and> lft s a = x then y else lft s a)"
    "rgt (rbt_lr x s) a = (if a = x then lft s y else if a = par s x \<and> a \<noteq> NIL \<and> lft s a \<noteq> x then y else rgt s a)"
    "par (rbt_lr x s) a = (if a = x then y else if a = y then par s x
            else if a = lft s y \<and> a \<noteq> NIL then x else par s a)"
    "col (rbt_lr x s) a = col s a"
    "morris_link (mem (rbt_lr x s) a) = morris_link (mem s a)"
    "root (rbt_lr x s) = (if par s x = NIL then y else root s)"
  using assms by (auto simp: rbt_lr_alt [OF assms(1,2) refl assms(3)] write_fields)

lemma foc_lr:
  assumes foc: "foc s fs (PN A x cx (PN B y cy C))"
  shows "foc (rbt_lr x s) fs (PN (PN A x cx B) y cy C)"
proof -
  have "trep s (fpar fs) (PN A x cx (PN B y cy C))"
    and ctx: "tctx s x fs" and nil: "mem s NIL = liteco_rbt_nil_instance"
    using foc by (simp_all add: foc_def)
  then have rp: "rgt s x = y" "par s x = fpar fs" "lft s y = taddr B" "x \<noteq> NIL" "y \<noteq> NIL"
    "lft s x = taddr A" "rgt s y = taddr C" "col s x = cx" "col s y = cy"
    and sub: "trep s x A" "trep s y B" "trep s y C"
    by simp_all
  have t: "addrs (PN A x cx (PN B y cy C)) = addrs A @ x # addrs B @ y # addrs C" by simp
  note ne = rot_distinct [OF foc t]
  have xy: "x \<noteq> y" and pre: "lft s y \<noteq> x" "lft s y \<noteq> y" "par s x \<noteq> x" "par s x \<noteq> y"
      "lft s y = NIL \<or> par s x \<noteq> lft s y"
    using ne(1-6) unfolding rp by blast+
  note fl = lr_fields [OF rp(1) rp(5) xy pre(1,2) rp(4) pre(3-5), unfolded rp]
  have "trep (rbt_lr x s) x A"
    by (rule rep_cong [OF sub(1)]) (simp add: fl ne(8))
  moreover have "trep (rbt_lr x s) y C"
    by (rule rep_cong [OF sub(3)]) (simp add: fl ne(8))
  moreover have "trep (rbt_lr x s) x B"
    by (rule rep_reparent [OF sub(2) ne(7)]) (use sub(2) ne(5,6) in \<open>simp_all add: fl ne(9) rep_taddr_nil\<close>)
  moreover have "tctx (rbt_lr x s) y fs"
  proof (rule pctx_redirect [OF ctx])
    show "distinct (faddrs fs)" using foc by (rule foc_distinctD)
    show "case fs of [] \<Rightarrow> root (rbt_lr x s) = y
      | FL a c r # _ \<Rightarrow> lft (rbt_lr x s) a = y \<and> rgt (rbt_lr x s) a = rgt s a \<and> root (rbt_lr x s) = root s
      | FR l a c # _ \<Rightarrow> rgt (rbt_lr x s) a = y \<and> lft (rbt_lr x s) a = lft s a \<and> root (rbt_lr x s) = root s"
    proof (cases fs rule: faddrs.cases)
      case (3 l a c gs)
      then have "taddr l \<noteq> x" using ne(10) rp(4) by (cases l) auto
      with 3 show ?thesis using ctx ne(10) by (simp add: fl)
    qed (use ctx ne(10) in \<open>simp_all add: fl\<close>)
  qed (simp_all add: fl ne(10))
  ultimately show ?thesis
    using foc ne(2-6) rp nil xy liteco_rbt.equality [of "mem (rbt_lr x s) NIL" "mem s NIL"]
    by (simp add: foc_def addrs_plug fl liteco_rbt_nil_instance_def)
qed

lemma rbt_rr_alt:
  assumes "lft s x = y" "y \<noteq> NIL" "rgt s y = b" "x \<noteq> y"
  shows "rbt_rr x s = set_p x y (set_r y x (redirect x y
    (set_p y (par (set_p' b x s) x) (set_p' b x (set_l x b s)))))"
  using assms by (simp add: rbt_rr_def redirect_def set_p'_def setter_fields Let_def)

lemma rr_fields:
  assumes "lft s x = y" "y \<noteq> NIL" "x \<noteq> y" "rgt s y \<noteq> x" "rgt s y \<noteq> y" "x \<noteq> NIL"
    "par s x \<noteq> x" "par s x \<noteq> y" "rgt s y = NIL \<or> par s x \<noteq> rgt s y"
  shows "lft (rbt_rr x s) a = (if a = x then rgt s y else if a = par s x \<and> a \<noteq> NIL \<and> lft s a = x then y else lft s a)"
    "rgt (rbt_rr x s) a = (if a = y then x else if a = par s x \<and> a \<noteq> NIL \<and> lft s a \<noteq> x then y else rgt s a)"
    "par (rbt_rr x s) a = (if a = x then y else if a = y then par s x
            else if a = rgt s y \<and> a \<noteq> NIL then x else par s a)"
    "col (rbt_rr x s) a = col s a"
    "morris_link (mem (rbt_rr x s) a) = morris_link (mem s a)"
    "root (rbt_rr x s) = (if par s x = NIL then y else root s)"
  using assms by (auto simp: rbt_rr_alt [OF assms(1,2) refl assms(3)] write_fields)

lemma foc_rr:
  assumes foc: "foc s fs (PN (PN A y cy B) x cx C)"
  shows "foc (rbt_rr x s) fs (PN A y cy (PN B x cx C))"
proof -
  have "trep s (fpar fs) (PN (PN A y cy B) x cx C)"
    and ctx: "tctx s x fs" and nil: "mem s NIL = liteco_rbt_nil_instance"
    using foc by (simp_all add: foc_def)
  then have rp: "lft s x = y" "par s x = fpar fs" "rgt s y = taddr B" "x \<noteq> NIL" "y \<noteq> NIL"
    "rgt s x = taddr C" "lft s y = taddr A" "col s x = cx" "col s y = cy"
    and sub: "trep s y A" "trep s y B" "trep s x C"
    by simp_all
  have t: "addrs (PN (PN A y cy B) x cx C) = addrs A @ y # addrs B @ x # addrs C" by simp
  note ne = rot_distinct [OF foc t]
  have xy: "x \<noteq> y" and pre: "rgt s y \<noteq> x" "rgt s y \<noteq> y" "par s x \<noteq> x" "par s x \<noteq> y"
      "rgt s y = NIL \<or> par s x \<noteq> rgt s y"
    using ne(1-6) unfolding rp by blast+
  note fl = rr_fields [OF rp(1) rp(5) xy pre(1,2) rp(4) pre(3-5), unfolded rp]
  have "trep (rbt_rr x s) y A"
    by (rule rep_cong [OF sub(1)]) (simp add: fl ne(8))
  moreover have "trep (rbt_rr x s) x C"
    by (rule rep_cong [OF sub(3)]) (simp add: fl ne(8))
  moreover have "trep (rbt_rr x s) x B"
    by (rule rep_reparent [OF sub(2) ne(7)]) (use sub(2) ne(5,6) in \<open>simp_all add: fl ne(9) rep_taddr_nil\<close>)
  moreover have "tctx (rbt_rr x s) y fs"
  proof (rule pctx_redirect [OF ctx])
    show "distinct (faddrs fs)" using foc by (rule foc_distinctD)
    show "case fs of [] \<Rightarrow> root (rbt_rr x s) = y
      | FL a c r # _ \<Rightarrow> lft (rbt_rr x s) a = y \<and> rgt (rbt_rr x s) a = rgt s a \<and> root (rbt_rr x s) = root s
      | FR l a c # _ \<Rightarrow> rgt (rbt_rr x s) a = y \<and> lft (rbt_rr x s) a = lft s a \<and> root (rbt_rr x s) = root s"
    proof (cases fs rule: faddrs.cases)
      case (3 l a c gs)
      then have "taddr l \<noteq> x" using ne(10) rp(4) by (cases l) auto
      with 3 show ?thesis using ctx ne(10) by (simp add: fl)
    qed (use ctx ne(10) in \<open>simp_all add: fl\<close>)
  qed (simp_all add: fl ne(10))
  ultimately show ?thesis
    using foc ne(2-6) rp nil xy liteco_rbt.equality [of "mem (rbt_rr x s) NIL" "mem s NIL"]
    by (simp add: foc_def addrs_plug fl liteco_rbt_nil_instance_def)
qed

section \<open>The red-black invariants\<close>

fun bheight :: "ctree \<Rightarrow> nat" where
  "bheight PL = 0"
| "bheight (PN l a c r) = bheight l + (if c = RBT_BLACK then 1 else 0)"

fun invc :: "ctree \<Rightarrow> bool" where
  "invc PL = True"
| "invc (PN l a c r) =
     ((c = RBT_RED \<longrightarrow> tcol l = RBT_BLACK \<and> tcol r = RBT_BLACK) \<and> invc l \<and> invc r)"

fun invh :: "ctree \<Rightarrow> bool" where
  "invh PL = True"
| "invh (PN l a c r) = (bheight l = bheight r \<and> invh l \<and> invh r)"

definition rb_inv :: "ctree \<Rightarrow> bool" where
  "rb_inv t \<longleftrightarrow> invc t \<and> invh t \<and> tcol t = RBT_BLACK"

text \<open>The same invariants for a path: what the rest of the tree asks of the subtree in the
  hole. A red step of the path has a black step above it, so that the root is black.\<close>

fun pathc :: "cpath \<Rightarrow> bool" where
  "pathc [] = True"
| "pathc (FL a c r # fs) =
     (invc r \<and> (c = RBT_RED \<longrightarrow> tcol r = RBT_BLACK \<and> fs \<noteq> [] \<and> fcol fs = RBT_BLACK) \<and> pathc fs)"
| "pathc (FR l a c # fs) =
     (invc l \<and> (c = RBT_RED \<longrightarrow> tcol l = RBT_BLACK \<and> fs \<noteq> [] \<and> fcol fs = RBT_BLACK) \<and> pathc fs)"

fun pathh :: "cpath \<Rightarrow> nat \<Rightarrow> bool" where
  "pathh [] n = True"
| "pathh (FL a c r # fs) n =
     (invh r \<and> bheight r = n \<and> pathh fs (n + (if c = RBT_BLACK then 1 else 0)))"
| "pathh (FR l a c # fs) n =
     (invh l \<and> bheight l = n \<and> pathh fs (n + (if c = RBT_BLACK then 1 else 0)))"

lemma invh_plug: "invh (plug fs t) \<longleftrightarrow> invh t \<and> pathh fs (bheight t)"
proof (induction fs arbitrary: t rule: faddrs.induct)
  case (3 l a c fs)
  then show ?case by (cases "bheight l = bheight t") auto
qed auto

lemma invc_plug:
  "invc (plug fs t) \<and> tcol (plug fs t) = RBT_BLACK \<longleftrightarrow>
   invc t \<and> pathc fs \<and> ((fs = [] \<or> fcol fs = RBT_RED) \<longrightarrow> tcol t = RBT_BLACK)"
proof (induction fs arbitrary: t rule: faddrs.induct)
  case (2 a c r fs)
  show ?case using 2 [of "PN t a c r"] by (cases c) auto
next
  case (3 l a c fs)
  show ?case using 3 [of "PN l a c t"] by (cases c) auto
qed auto

lemma rb_inv_plug:
  "rb_inv (plug fs t) \<longleftrightarrow> invc t \<and> invh t \<and> pathc fs \<and> pathh fs (bheight t) \<and>
     ((fs = [] \<or> fcol fs = RBT_RED) \<longrightarrow> tcol t = RBT_BLACK)"
  using invc_plug [of fs t] invh_plug [of fs t] by (auto simp: rb_inv_def)

lemma paint_facts [simp]:
  "invh (paint c t) = invh t" "tcol (paint RBT_BLACK t) = RBT_BLACK"
  "invc t \<Longrightarrow> invc (paint RBT_BLACK t)"
  by (cases t; simp)+

text \<open>The height of a red-black tree is at most twice its black height, so the search depth
  is logarithmic.\<close>

fun theight :: "'x ptree \<Rightarrow> nat" where
  "theight PL = 0"
| "theight (PN l a x r) = Suc (max (theight l) (theight r))"

lemma theight_bheight:
  "invc t \<Longrightarrow> invh t \<Longrightarrow> theight t \<le> 2 * bheight t + (if tcol t = RBT_BLACK then 0 else 1)"
  by (induction t) (auto split: if_splits)

lemma bheight_size: "invc t \<Longrightarrow> invh t \<Longrightarrow> 2 ^ bheight t \<le> length (addrs t) + 1"
  by (induction t) auto

end
