(* ===== verification/Rbt_Search.thy ===== *)
theory Rbt_Search
  imports Rbt_Tree
begin

text \<open>
  Search in the red-black tree. The contract of a comparison callback is the locale
  \<open>rbt_cmp\<close>: the callback compares a key with the key stored at a node in some linear order.
  Both callbacks of the library are instances. \<open>descend\<close> is the path of a key in a tree; the
  search loop of \<open>liteco_rbt_find_impl\<close> and the loop of \<open>liteco_rbt_insert_impl\<close> follow it.
\<close>

section \<open>The contract of a comparison callback\<close>

locale rbt_cmp =
  fixes cb :: "'k \<Rightarrow> addr \<Rightarrow> liteco_rbt_cmp_result"
    and kv :: "'k \<Rightarrow> 'o::linorder"
    and nk :: "addr \<Rightarrow> 'o"
  assumes cb_eq: "cb k a = RBT_EQ \<longleftrightarrow> kv k = nk a"
    and cb_ls: "cb k a = RBT_LS \<longleftrightarrow> kv k < nk a"

text \<open>The order of the nodes of a tree.\<close>

definition key_sorted :: "(addr \<Rightarrow> 'o::linorder) \<Rightarrow> addr list \<Rightarrow> bool" where
  "key_sorted nk xs \<longleftrightarrow> sorted_wrt (\<lambda>a b. nk a < nk b) xs"

lemma key_sorted_mid:
  "key_sorted nk (xs @ x # ys) \<longleftrightarrow>
     key_sorted nk xs \<and> key_sorted nk ys \<and> (\<forall>a\<in>set xs. nk a < nk x) \<and> (\<forall>b\<in>set ys. nk x < nk b)"
  by (auto simp: key_sorted_def sorted_wrt_mid intro: less_trans)

lemma key_sorted_split:
  "key_sorted nk (xs @ ys) \<Longrightarrow> key_sorted nk xs \<and> key_sorted nk ys"
  by (simp add: key_sorted_def sorted_wrt_append)

section \<open>The path of a key\<close>

fun descend :: "('k \<Rightarrow> addr \<Rightarrow> liteco_rbt_cmp_result) \<Rightarrow> 'k \<Rightarrow> cpath \<Rightarrow> ctree \<Rightarrow> cpath \<times> ctree" where
  "descend cb k fs PL = (fs, PL)"
| "descend cb k fs (PN l a c r) =
     (case cb k a of
        RBT_EQ \<Rightarrow> (fs, PN l a c r)
      | RBT_LS \<Rightarrow> descend cb k (FL a c r # fs) l
      | RBT_GT \<Rightarrow> descend cb k (FR l a c # fs) r)"

lemma descend_plug: "descend cb k fs t = (gs, u) \<Longrightarrow> plug gs u = plug fs t"
  by (induction cb k fs t rule: descend.induct) (auto split: liteco_rbt_cmp_result.splits)

lemma descend_depth: "descend cb k fs t = (gs, u) \<Longrightarrow> length gs \<le> length fs + theight t"
  by (induction cb k fs t rule: descend.induct)
    (fastforce split: liteco_rbt_cmp_result.splits)+

lemma descend_found: "descend cb k fs t = (gs, PN l a c r) \<Longrightarrow> cb k a = RBT_EQ"
  by (induction cb k fs t rule: descend.induct) (auto split: liteco_rbt_cmp_result.splits)

text \<open>The search loop follows the path.\<close>

lemma find_loop_descend:
  assumes "foc s fs t"
  shows "rbt_find_loop cb k s (taddr t) = Some (taddr (snd (descend cb k fs t)))"
  using assms
proof (induction cb k fs t rule: descend.induct)
  case (1 cb k fs)
  show ?case by (simp add: rbt_find_loop.simps)
next
  case (2 cb k fs l a c r)
  note R = foc_node [OF "2.prems"]
  have "foc s (FL a c r # fs) l" "foc s (FR l a c # fs) r"
    using "2.prems" by (auto elim: foc_refocus)
  then show ?case
    using 2 R by (cases "cb k a") (simp_all add: rbt_find_loop.simps [of _ _ _ a])
qed

text \<open>Where the pointer \<open>in\<close> points at the end of a path.\<close>

fun slot_of :: "cpath \<Rightarrow> slot" where
  "slot_of [] = SRoot"
| "slot_of (FL a c r # fs) = SLeft a"
| "slot_of (FR l a c # fs) = SRight a"

lemma slot_get_of: "foc s fs t \<Longrightarrow> slot_get (slot_of fs) s = taddr t"
  by (cases fs rule: faddrs.cases) (auto simp: foc_def)

lemma insert_loop_descend:
  assumes "foc s fs t"
  shows "rbt_insert_loop cb k s (fpar fs) (slot_of fs) =
    Some (case descend cb k fs t of (gs, PL) \<Rightarrow> Some (fpar gs, slot_of gs)
          | (gs, PN l a c r) \<Rightarrow> None)"
  using assms
proof (induction cb k fs t rule: descend.induct)
  case (1 cb k fs)
  then show ?case using slot_get_of [OF 1] by (simp add: rbt_insert_loop.simps)
next
  case (2 cb k fs l a c r)
  note R = foc_node [OF "2.prems"] slot_get_of [OF "2.prems"]
  have "foc s (FL a c r # fs) l" "foc s (FR l a c # fs) r"
    using "2.prems" by (auto elim: foc_refocus)
  then show ?case
    using 2 R
    by (cases "cb k a") (simp_all add: rbt_insert_loop.simps [of _ _ _ _ "slot_of fs"])
qed

section \<open>What a search finds\<close>

context rbt_cmp
begin

lemma cb_gt: "cb k a = RBT_GT \<longleftrightarrow> nk a < kv k"
  using cb_eq [of k a] cb_ls [of k a] by (cases "cb k a") auto

text \<open>At the end of the path every node to the left has a smaller key, every node to the
  right a larger one.\<close>

lemma descend_bounds:
  assumes "descend cb k fs t = (gs, u)" and "key_sorted nk (addrs (plug fs t))"
    and "\<forall>a\<in>set (lefts fs). nk a < kv k" and "\<forall>a\<in>set (rights fs). kv k < nk a"
  shows "(\<forall>a\<in>set (lefts gs). nk a < kv k) \<and> (\<forall>a\<in>set (rights gs). kv k < nk a)"
  using assms
proof (induction t arbitrary: fs)
  case (PN l a c r)
  have "\<forall>b\<in>set (addrs l). nk b < nk a" "\<forall>b\<in>set (addrs r). nk a < nk b"
    using PN.prems(2) key_sorted_mid [of nk "lefts fs @ addrs l" a "addrs r @ rights fs"]
    by (simp_all add: addrs_plug)
  note lr = this
  show ?case
  proof (cases "cb k a")
    case RBT_EQ
    then have "kv k = nk a" by (simp add: cb_eq)
    then show ?thesis using RBT_EQ PN.prems by auto
  next
    case RBT_LS
    then have "kv k < nk a" by (simp add: cb_ls)
    then have "\<forall>b\<in>set (addrs r). kv k < nk b" using lr(2) by (meson less_trans)
    then show ?thesis
      using RBT_LS PN.prems \<open>kv k < nk a\<close> by (intro PN.IH(1) [of "FL a c r # fs"]) auto
  next
    case RBT_GT
    then have "nk a < kv k" by (simp add: cb_gt)
    then have "\<forall>b\<in>set (addrs l). nk b < kv k" using lr(1) by (meson less_trans)
    then show ?thesis
      using RBT_GT PN.prems \<open>nk a < kv k\<close> by (intro PN.IH(2) [of "FR l a c # fs"]) auto
  qed
qed auto

text \<open>A search ends; it returns the node with the key, or \<open>NIL\<close> if there is none.\<close>

lemma find_spec:
  assumes "rbt_holds s t" and "key_sorted nk (addrs t)"
  shows "\<exists>a. liteco_rbt_find_impl cb k s = Some a \<and>
    (if kv k \<in> nk ` set (addrs t) then a \<noteq> NIL \<and> a \<in> set (addrs t) \<and> nk a = kv k else a = NIL)"
proof -
  obtain gs u where d: "descend cb k [] t = (gs, u)" by fastforce
  have f: "foc s [] t" using assms(1) by (simp add: foc_holds)
  have root: "root s = taddr t" using assms(1) by (simp add: rbt_holds_def)
  have r: "liteco_rbt_find_impl cb k s = Some (taddr u)"
    using find_loop_descend [OF f, of cb k] d by (simp add: liteco_rbt_find_impl_def root)
  have pl: "t = plug gs u" using descend_plug [OF d] by simp
  show ?thesis
  proof (cases u)
    case PL
    have "\<forall>a\<in>set (addrs t). nk a \<noteq> kv k"
      using descend_bounds [OF d] assms(2) PL by (auto simp: pl addrs_plug)
    then show ?thesis using r PL by auto
  next
    case (PN l a c r')
    then have "nk a = kv k" using descend_found [of cb k "[]" t gs l a c r'] d by (simp add: cb_eq)
    moreover have a: "a \<in> set (addrs t)" using PN by (simp add: pl addrs_plug)
    moreover have "a \<noteq> NIL" using a foc_distinctD(4) [OF f] by metis
    ultimately have "a \<noteq> NIL \<and> a \<in> set (addrs t) \<and> nk a = kv k" and "kv k \<in> nk ` set (addrs t)"
      by (simp_all add: image_eqI [of _ nk a])
    then show ?thesis using r PN by simp
  qed
qed

text \<open>The keys of a tree are different, so the node is determined by the key.\<close>

lemma key_unique:
  assumes "key_sorted nk xs" "a \<in> set xs" "b \<in> set xs" "nk a = nk b"
  shows "a = b"
  using assms
proof (induction xs)
  case (Cons x xs)
  have "\<forall>y\<in>set xs. nk x < nk y" "key_sorted nk xs" using Cons.prems(1) by (simp_all add: key_sorted_def)
  then show ?case
    using Cons.IH Cons.prems(2-4) by (metis less_irrefl set_ConsD)
qed simp

end

section \<open>The callbacks of the library\<close>

text \<open>\<open>uint64_t\<close> keys: the order of unsigned 64-bit values.\<close>

interpretation uint64: rbt_cmp "\<lambda>k a. liteco_rbt_uint64_cmp_cb k (keys a)" id keys
  for keys :: "addr \<Rightarrow> u64"
  by unfold_locales (auto simp: liteco_rbt_uint64_cmp_cb_def)

text \<open>\<open>int\<close> keys: the signed order of 32-bit values. The callback reads 64 bits behind the key
  pointer; only the low 32 matter.\<close>

interpretation int32: rbt_cmp "\<lambda>k a. liteco_rbt_int_cmp_cb k (keys a)"
    "\<lambda>k. sint (ucast k :: u32)" "\<lambda>a. sint (keys a)"
  for keys :: "addr \<Rightarrow> u32"
  by unfold_locales (auto simp: liteco_rbt_int_cmp_cb_def Let_def signed_word_eqI)

end
