(* ===== verification/Rbt_Insert.thy ===== *)
theory Rbt_Insert
  imports Rbt_Search
begin

text \<open>
  Insertion into the red-black tree. \<open>zfix\<close> is the rebalancing loop of \<open>__fix\<close> on paths;
  \<open>fix_loop_zfix\<close> shows that the loop of the code ends and computes it, and the lemmas on
  \<open>zfix\<close> that it keeps the order of the nodes and restores the invariants. The search loop is
  handled by \<open>descend\<close>, the path of a key, and the two are put together in
  \<open>insert_implements\<close>.
\<close>

section \<open>The rebalancing loop on paths\<close>

fun zfix :: "cpath \<Rightarrow> ctree \<Rightarrow> ctree" where
  "zfix (FL p RBT_RED u # FL g cg v # fs) t =
     (if tcol v = RBT_RED
      then zfix fs (PN (PN t p RBT_BLACK u) g RBT_RED (paint RBT_BLACK v))
      else plug fs (PN t p RBT_BLACK (PN u g RBT_RED v)))"
| "zfix (FR u p RBT_RED # FL g cg v # fs) (PN l n c r) =
     (if tcol v = RBT_RED
      then zfix fs (PN (PN u p RBT_BLACK (PN l n c r)) g RBT_RED (paint RBT_BLACK v))
      else plug fs (PN (PN u p RBT_RED l) n RBT_BLACK (PN r g RBT_RED v)))"
| "zfix (FR u p RBT_RED # FR v g cg # fs) t =
     (if tcol v = RBT_RED
      then zfix fs (PN (paint RBT_BLACK v) g RBT_RED (PN u p RBT_BLACK t))
      else plug fs (PN (PN v g RBT_RED u) p RBT_BLACK t))"
| "zfix (FL p RBT_RED u # FR v g cg # fs) (PN l n c r) =
     (if tcol v = RBT_RED
      then zfix fs (PN (paint RBT_BLACK v) g RBT_RED (PN (PN l n c r) p RBT_BLACK u))
      else plug fs (PN (PN v g RBT_RED l) n RBT_BLACK (PN r p RBT_RED u)))"
| "zfix fs t = plug fs t"

text \<open>The shapes of a path the loop distinguishes.\<close>

lemma fix_path_cases [consumes 2, case_names black LL RL RR LR]:
  assumes "pathc fs" and "t \<noteq> PL"
  obtains "fcol fs = RBT_BLACK"
  | p u g cg v gs where "fs = FL p RBT_RED u # FL g cg v # gs"
  | u p g cg v gs l n c r where "fs = FR u p RBT_RED # FL g cg v # gs" "t = PN l n c r"
  | u p v g cg gs where "fs = FR u p RBT_RED # FR v g cg # gs"
  | p u v g cg gs l n c r where "fs = FL p RBT_RED u # FR v g cg # gs" "t = PN l n c r"
proof (cases "fcol fs = RBT_BLACK")
  case False
  then obtain f g gs where fs: "fs = f # g # gs" and f: "fcol [f] = RBT_RED"
    using assms(1) by (cases fs rule: pathc.cases) (auto simp: neq_Nil_conv)
  obtain l n c r where "t = PN l n c r" using assms(2) by (cases t) auto
  then show ?thesis using fs f that(2-5) by (cases f; cases g) auto
qed (use that in auto)

lemma zfix_black: "fcol fs = RBT_BLACK \<Longrightarrow> zfix fs t = plug fs t"
  by (cases "(fs, t)" rule: zfix.cases) auto

lemma pathc_grand:
  "pathc (f # g # fs) \<Longrightarrow> pathc fs"
  by (cases f; cases g) auto

text \<open>Rebalancing keeps the in-order sequence of the nodes.\<close>

lemma addrs_zfix: "addrs (zfix fs t) = addrs (plug fs t)"
  by (induction fs t rule: zfix.induct) (auto simp: addrs_plug)

text \<open>It repairs a red node under a red parent.\<close>

lemma zfix_inv:
  assumes "pathc fs" "pathh fs (bheight t)" "invc t" "invh t" "tcol t = RBT_RED"
  shows "invc (paint RBT_BLACK (zfix fs t)) \<and> invh (zfix fs t) \<and> zfix fs t \<noteq> PL"
  using assms
proof (induction "length fs" arbitrary: fs t rule: less_induct)
  case less
  have "t \<noteq> PL" using less.prems by auto
  have inv: "invc (paint RBT_BLACK T)" "invh T" if "rb_inv T" for T
    using that by (simp_all add: rb_inv_def)
  from less.prems(1) \<open>t \<noteq> PL\<close> show ?case
  proof (cases rule: fix_path_cases)
    case black
    show ?thesis
    proof (cases "fs = []")
      case True
      then show ?thesis using less.prems \<open>t \<noteq> PL\<close> by simp
    next
      case False
      then have "rb_inv (plug fs t)" using black less.prems by (simp add: rb_inv_plug)
      then show ?thesis using inv black \<open>t \<noteq> PL\<close> by (simp add: zfix_black)
    qed
  next
    case (LL p u g cg v gs)
    show ?thesis
    proof (cases "tcol v")
      case RBT_RED
      then show ?thesis
        using less.prems LL less.hyps [of gs "PN (PN t p RBT_BLACK u) g RBT_RED (paint RBT_BLACK v)"]
        by (cases v) (auto split: if_splits)
    qed (use less.prems LL in \<open>auto intro!: inv simp: rb_inv_plug\<close>)
  next
    case (RL u p g cg v gs l n c r)
    show ?thesis
    proof (cases "tcol v")
      case RBT_RED
      then show ?thesis
        using less.prems RL less.hyps [of gs "PN (PN u p RBT_BLACK t) g RBT_RED (paint RBT_BLACK v)"]
        by (cases v) (auto split: if_splits)
    qed (use less.prems RL in \<open>auto intro!: inv simp: rb_inv_plug\<close>)
  next
    case (RR u p v g cg gs)
    show ?thesis
    proof (cases "tcol v")
      case RBT_RED
      then show ?thesis
        using less.prems RR less.hyps [of gs "PN (paint RBT_BLACK v) g RBT_RED (PN u p RBT_BLACK t)"]
        by (cases v) (auto split: if_splits)
    qed (use less.prems RR in \<open>auto intro!: inv simp: rb_inv_plug\<close>)
  next
    case (LR p u v g cg gs l n c r)
    show ?thesis
    proof (cases "tcol v")
      case RBT_RED
      then show ?thesis
        using less.prems LR less.hyps [of gs "PN (paint RBT_BLACK v) g RBT_RED (PN t p RBT_BLACK u)"]
        by (cases v) (auto split: if_splits)
    qed (use less.prems LR in \<open>auto intro!: inv simp: rb_inv_plug\<close>)
  qed
qed

section \<open>The loop of the code\<close>

lemma fix_loop_stop: "col s (par s n) = RBT_BLACK \<Longrightarrow> rbt_fix_loop (s, n) = Some s"
  by (simp add: rbt_fix_loop.simps)

lemma fix_loop_turn:
  "col s (par s n) = RBT_RED \<Longrightarrow> rbt_fix_body (s, n) = sn' \<Longrightarrow>
   rbt_fix_loop (s, n) = rbt_fix_loop sn'"
  by (simp add: rbt_fix_loop.simps [of "(s, n)"])

text \<open>Colouring the grandparent's family as the red-uncle branch does.\<close>

lemma foc_recolour:
  assumes "foc s fs (PN (PN a p c b) g cg v)" and red: "tcol v = RBT_RED"
  shows "foc (set_c g RBT_RED (set_c p RBT_BLACK (set_c (taddr v) RBT_BLACK s))) fs
           (PN (PN a p RBT_BLACK b) g RBT_RED (paint RBT_BLACK v))"
proof -
  have "v \<noteq> PL" using red by auto
  have "foc s (FR (PN a p c b) g cg # fs) v" using assms(1) by (rule foc_refocus) simp
  from foc_paint [OF this \<open>v \<noteq> PL\<close>, of RBT_BLACK]
  have "foc (set_c (taddr v) RBT_BLACK s) (FL g cg (paint RBT_BLACK v) # fs) (PN a p c b)"
    by (rule foc_refocus) simp
  from foc_paint [OF this, of RBT_BLACK]
  have "foc (set_c p RBT_BLACK (set_c (taddr v) RBT_BLACK s)) fs
          (PN (PN a p RBT_BLACK b) g cg (paint RBT_BLACK v))"
    by (auto elim: foc_refocus)
  from foc_paint [OF this, of RBT_RED] show ?thesis by simp
qed

lemma foc_recolour':
  assumes "foc s fs (PN v g cg (PN a p c b))" and red: "tcol v = RBT_RED"
  shows "foc (set_c g RBT_RED (set_c p RBT_BLACK (set_c (taddr v) RBT_BLACK s))) fs
           (PN (paint RBT_BLACK v) g RBT_RED (PN a p RBT_BLACK b))"
proof -
  have "v \<noteq> PL" using red by auto
  have "foc s (FL g cg (PN a p c b) # fs) v" using assms(1) by (rule foc_refocus) simp
  from foc_paint [OF this \<open>v \<noteq> PL\<close>, of RBT_BLACK]
  have "foc (set_c (taddr v) RBT_BLACK s) (FR (paint RBT_BLACK v) g cg # fs) (PN a p c b)"
    by (rule foc_refocus) simp
  from foc_paint [OF this, of RBT_BLACK]
  have "foc (set_c p RBT_BLACK (set_c (taddr v) RBT_BLACK s)) fs
          (PN (paint RBT_BLACK v) g cg (PN a p RBT_BLACK b))"
    by (auto elim: foc_refocus)
  from foc_paint [OF this, of RBT_RED] show ?thesis by simp
qed

text \<open>Colouring parent and grandparent before the last rotation.\<close>

lemma foc_paint_two:
  assumes "foc s fs (PN (PN a p c b) g cg v)"
  shows "foc (set_c g RBT_RED (set_c p RBT_BLACK s)) fs (PN (PN a p RBT_BLACK b) g RBT_RED v)"
proof -
  have "foc s (FL g cg v # fs) (PN a p c b)" using assms by (rule foc_refocus) simp
  from foc_paint [OF this, of RBT_BLACK]
  have "foc (set_c p RBT_BLACK s) fs (PN (PN a p RBT_BLACK b) g cg v)"
    by (auto elim: foc_refocus)
  from foc_paint [OF this, of RBT_RED] show ?thesis by simp
qed

lemma foc_paint_two':
  assumes "foc s fs (PN v g cg (PN a p c b))"
  shows "foc (set_c g RBT_RED (set_c p RBT_BLACK s)) fs (PN v g RBT_RED (PN a p RBT_BLACK b))"
proof -
  have "foc s (FR v g cg # fs) (PN a p c b)" using assms by (rule foc_refocus) simp
  from foc_paint [OF this, of RBT_BLACK]
  have "foc (set_c p RBT_BLACK s) fs (PN v g cg (PN a p RBT_BLACK b))"
    by (auto elim: foc_refocus)
  from foc_paint [OF this, of RBT_RED] show ?thesis by simp
qed

text \<open>One turn of the loop in each of the four shapes, with a red and with a black uncle.\<close>

lemma fix_body_LL:
  assumes f: "foc s (FL p RBT_RED u # FL g cg v # gs) t" and t: "t \<noteq> PL"
  shows "tcol v = RBT_RED \<Longrightarrow> rbt_fix_body (s, taddr t) =
      (set_c g RBT_RED (set_c p RBT_BLACK (set_c (taddr v) RBT_BLACK s)), g)"
    and "tcol v = RBT_BLACK \<Longrightarrow> rbt_fix_body (s, taddr t) =
      (rbt_rr g (set_c g RBT_RED (set_c p RBT_BLACK s)), taddr t)"
proof -
  have f2: "foc s (FL g cg v # gs) (PN t p RBT_RED u)" using f by (rule foc_refocus) simp
  note R = foc_FL [OF f] foc_FL [OF f2] foc_par [OF f t]
  show "tcol v = RBT_RED \<Longrightarrow> rbt_fix_body (s, taddr t) =
      (set_c g RBT_RED (set_c p RBT_BLACK (set_c (taddr v) RBT_BLACK s)), g)"
    using R t by (simp add: rbt_fix_body_def Let_def setter_fields)
  show "tcol v = RBT_BLACK \<Longrightarrow> rbt_fix_body (s, taddr t) =
      (rbt_rr g (set_c g RBT_RED (set_c p RBT_BLACK s)), taddr t)"
    using R t by (simp add: rbt_fix_body_def Let_def setter_fields)
qed

lemma fix_body_RR:
  assumes f: "foc s (FR u p RBT_RED # FR v g cg # gs) t" and t: "t \<noteq> PL"
  shows "tcol v = RBT_RED \<Longrightarrow> rbt_fix_body (s, taddr t) =
      (set_c g RBT_RED (set_c p RBT_BLACK (set_c (taddr v) RBT_BLACK s)), g)"
    and "tcol v = RBT_BLACK \<Longrightarrow> rbt_fix_body (s, taddr t) =
      (rbt_lr g (set_c g RBT_RED (set_c p RBT_BLACK s)), taddr t)"
proof -
  have f2: "foc s (FR v g cg # gs) (PN u p RBT_RED t)" using f by (rule foc_refocus) simp
  note R = foc_FR [OF f] foc_FR [OF f2] foc_par [OF f t]
  show "tcol v = RBT_RED \<Longrightarrow> rbt_fix_body (s, taddr t) =
      (set_c g RBT_RED (set_c p RBT_BLACK (set_c (taddr v) RBT_BLACK s)), g)"
    using R t by (auto simp: rbt_fix_body_def Let_def setter_fields)
  show "tcol v = RBT_BLACK \<Longrightarrow> rbt_fix_body (s, taddr t) =
      (rbt_lr g (set_c g RBT_RED (set_c p RBT_BLACK s)), taddr t)"
    using R t by (auto simp: rbt_fix_body_def Let_def setter_fields)
qed

lemma fix_body_RL:
  assumes f: "foc s (FR u p RBT_RED # FL g cg v # gs) (PN l n c r)"
  shows "tcol v = RBT_RED \<Longrightarrow> rbt_fix_body (s, n) =
      (set_c g RBT_RED (set_c p RBT_BLACK (set_c (taddr v) RBT_BLACK s)), g)"
    and "tcol v = RBT_BLACK \<Longrightarrow> rbt_fix_body (s, n) =
      (rbt_rr g (set_c g RBT_RED (set_c n RBT_BLACK (rbt_lr p s))), p)"
proof -
  have f2: "foc s (FL g cg v # gs) (PN u p RBT_RED (PN l n c r))"
    using f by (rule foc_refocus) simp
  have f3: "foc (rbt_lr p s) (FL g cg v # gs) (PN (PN u p RBT_RED l) n c r)"
    using f2 by (rule foc_lr)
  have f4: "foc (rbt_lr p s) (FL n c r # FL g cg v # gs) (PN u p RBT_RED l)"
    using f3 by (rule foc_refocus) simp
  note R = foc_FR [OF f] foc_FL [OF f2] foc_node [OF f] foc_FL [OF f4] foc_node [OF f4]
    foc_node [OF f3]
  show "tcol v = RBT_RED \<Longrightarrow> rbt_fix_body (s, n) =
      (set_c g RBT_RED (set_c p RBT_BLACK (set_c (taddr v) RBT_BLACK s)), g)"
    using R by (simp add: rbt_fix_body_def Let_def setter_fields)
  show "tcol v = RBT_BLACK \<Longrightarrow> rbt_fix_body (s, n) =
      (rbt_rr g (set_c g RBT_RED (set_c n RBT_BLACK (rbt_lr p s))), p)"
    using R by (simp add: rbt_fix_body_def Let_def setter_fields)
qed

lemma fix_body_LR:
  assumes f: "foc s (FL p RBT_RED u # FR v g cg # gs) (PN l n c r)"
  shows "tcol v = RBT_RED \<Longrightarrow> rbt_fix_body (s, n) =
      (set_c g RBT_RED (set_c p RBT_BLACK (set_c (taddr v) RBT_BLACK s)), g)"
    and "tcol v = RBT_BLACK \<Longrightarrow> rbt_fix_body (s, n) =
      (rbt_lr g (set_c g RBT_RED (set_c n RBT_BLACK (rbt_rr p s))), p)"
proof -
  have f2: "foc s (FR v g cg # gs) (PN (PN l n c r) p RBT_RED u)"
    using f by (rule foc_refocus) simp
  have f3: "foc (rbt_rr p s) (FR v g cg # gs) (PN l n c (PN r p RBT_RED u))"
    using f2 by (rule foc_rr)
  have f4: "foc (rbt_rr p s) (FR l n c # FR v g cg # gs) (PN r p RBT_RED u)"
    using f3 by (rule foc_refocus) simp
  note R = foc_FL [OF f] foc_FR [OF f2] foc_node [OF f] foc_FR [OF f4] foc_node [OF f4]
    foc_node [OF f3]
  show "tcol v = RBT_RED \<Longrightarrow> rbt_fix_body (s, n) =
      (set_c g RBT_RED (set_c p RBT_BLACK (set_c (taddr v) RBT_BLACK s)), g)"
    using R by (auto simp: rbt_fix_body_def Let_def setter_fields)
  show "tcol v = RBT_BLACK \<Longrightarrow> rbt_fix_body (s, n) =
      (rbt_lr g (set_c g RBT_RED (set_c n RBT_BLACK (rbt_rr p s))), p)"
    using R by (auto simp: rbt_fix_body_def Let_def setter_fields)
qed

text \<open>After the last rotation the parent is black and the loop stops.\<close>

lemma fix_loop_stop_at:
  assumes "foc s gs (plug [f] t)" and "t \<noteq> PL" and "fcol [f] = RBT_BLACK"
  shows "rbt_fix_loop (s, taddr t) = Some s"
proof -
  have f: "foc s (f # gs) t" using assms(1) by (rule foc_refocus) (cases f; simp)
  have "col s (par s (taddr t)) = RBT_BLACK"
    using foc_par [OF f assms(2)] foc_fcol [OF f] assms(3) by (cases f) auto
  then show ?thesis by (rule fix_loop_stop)
qed

text \<open>One turn of the loop below a red parent: it goes on two nodes higher, or it has rotated and
  stops.\<close>

definition fix_turn :: "rbt_state \<Rightarrow> cpath \<Rightarrow> ctree \<Rightarrow> bool" where
  "fix_turn s fs t \<longleftrightarrow> (\<exists>s1 T gs. rbt_fix_body (s, taddr t) = (s1, taddr T) \<and> T \<noteq> PL \<and>
     (foc s1 gs T \<and> length gs < length fs \<and> pathc gs \<and> zfix fs t = zfix gs T \<or>
      (\<exists>fr. foc s1 gs (plug [fr] T) \<and> fcol [fr] = RBT_BLACK \<and> zfix fs t = plug gs (plug [fr] T))))"

lemma fix_turn_up:
  assumes "rbt_fix_body (s, taddr t) = (s1, taddr T)" "foc s1 gs T"
    "length gs < length fs" "pathc gs" "T \<noteq> PL" "zfix fs t = zfix gs T"
  shows "fix_turn s fs t"
  using assms unfolding fix_turn_def by blast

lemma fix_turn_last:
  assumes "rbt_fix_body (s, taddr t) = (s1, taddr T)" "foc s1 gs (plug [fr] T)"
    "T \<noteq> PL" "fcol [fr] = RBT_BLACK" "zfix fs t = plug gs (plug [fr] T)"
  shows "fix_turn s fs t"
  using assms unfolding fix_turn_def by blast

lemma turn_LL:
  assumes f: "foc s (FL p RBT_RED u # FL g cg v # gs) t" and pc: "pathc gs" and t: "t \<noteq> PL"
  shows "fix_turn s (FL p RBT_RED u # FL g cg v # gs) t"
proof -
  have F: "foc s gs (PN (PN t p RBT_RED u) g cg v)" using f by (rule foc_refocus) simp
  show ?thesis
  proof (cases "tcol v")
    case RBT_RED
    then show ?thesis
      using fix_body_LL(1) [OF f t] foc_recolour [OF F] pc
      by (intro fix_turn_up [where T = "PN (PN t p RBT_BLACK u) g RBT_RED (paint RBT_BLACK v)" and gs = gs]) auto
  next
    case RBT_BLACK
    then show ?thesis
      using fix_body_LL(2) [OF f t] foc_rr [OF foc_paint_two [OF F]] t
      by (intro fix_turn_last [where T = t and gs = gs and fr = "FL p RBT_BLACK (PN u g RBT_RED v)"]) auto
  qed
qed

lemma turn_RR:
  assumes f: "foc s (FR u p RBT_RED # FR v g cg # gs) t" and pc: "pathc gs" and t: "t \<noteq> PL"
  shows "fix_turn s (FR u p RBT_RED # FR v g cg # gs) t"
proof -
  have F: "foc s gs (PN v g cg (PN u p RBT_RED t))" using f by (rule foc_refocus) simp
  show ?thesis
  proof (cases "tcol v")
    case RBT_RED
    then show ?thesis
      using fix_body_RR(1) [OF f t] foc_recolour' [OF F] pc
      by (intro fix_turn_up [where T = "PN (paint RBT_BLACK v) g RBT_RED (PN u p RBT_BLACK t)" and gs = gs]) auto
  next
    case RBT_BLACK
    then show ?thesis
      using fix_body_RR(2) [OF f t] foc_lr [OF foc_paint_two' [OF F]] t
      by (intro fix_turn_last [where T = t and gs = gs and fr = "FR (PN v g RBT_RED u) p RBT_BLACK"]) auto
  qed
qed

lemma turn_RL:
  assumes f: "foc s (FR u p RBT_RED # FL g cg v # gs) (PN l n c r)" and pc: "pathc gs"
  shows "fix_turn s (FR u p RBT_RED # FL g cg v # gs) (PN l n c r)"
proof -
  have F: "foc s gs (PN (PN u p RBT_RED (PN l n c r)) g cg v)" using f by (rule foc_refocus) simp
  have "foc s (FL g cg v # gs) (PN u p RBT_RED (PN l n c r))" using f by (rule foc_refocus) simp
  from foc_lr [OF this] have G: "foc (rbt_lr p s) gs (PN (PN (PN u p RBT_RED l) n c r) g cg v)"
    by (rule foc_refocus) simp
  show ?thesis
  proof (cases "tcol v")
    case RBT_RED
    then show ?thesis
      using fix_body_RL(1) [OF f] foc_recolour [OF F] pc
      by (intro fix_turn_up [where T = "PN (PN u p RBT_BLACK (PN l n c r)) g RBT_RED (paint RBT_BLACK v)" and gs = gs]) auto
  next
    case RBT_BLACK
    then show ?thesis
      using fix_body_RL(2) [OF f] foc_rr [OF foc_paint_two [OF G]]
      by (intro fix_turn_last [where T = "PN u p RBT_RED l" and gs = gs and fr = "FL n RBT_BLACK (PN r g RBT_RED v)"]) auto
  qed
qed

lemma turn_LR:
  assumes f: "foc s (FL p RBT_RED u # FR v g cg # gs) (PN l n c r)" and pc: "pathc gs"
  shows "fix_turn s (FL p RBT_RED u # FR v g cg # gs) (PN l n c r)"
proof -
  have F: "foc s gs (PN v g cg (PN (PN l n c r) p RBT_RED u))" using f by (rule foc_refocus) simp
  have "foc s (FR v g cg # gs) (PN (PN l n c r) p RBT_RED u)" using f by (rule foc_refocus) simp
  from foc_rr [OF this] have G: "foc (rbt_rr p s) gs (PN v g cg (PN l n c (PN r p RBT_RED u)))"
    by (rule foc_refocus) simp
  show ?thesis
  proof (cases "tcol v")
    case RBT_RED
    then show ?thesis
      using fix_body_LR(1) [OF f] foc_recolour' [OF F] pc
      by (intro fix_turn_up [where T = "PN (paint RBT_BLACK v) g RBT_RED (PN (PN l n c r) p RBT_BLACK u)" and gs = gs]) auto
  next
    case RBT_BLACK
    then show ?thesis
      using fix_body_LR(2) [OF f] foc_lr [OF foc_paint_two' [OF G]]
      by (intro fix_turn_last [where T = "PN r p RBT_RED u" and gs = gs and fr = "FR (PN v g RBT_RED l) n RBT_BLACK"]) auto
  qed
qed

theorem fix_loop_zfix:
  assumes "foc s fs t" and "pathc fs" and "t \<noteq> PL"
  shows "\<exists>s'. rbt_fix_loop (s, taddr t) = Some s' \<and> rbt_holds s' (zfix fs t)"
  using assms
proof (induction "length fs" arbitrary: s fs t rule: less_induct)
  case less
  note f = less.prems(1) and t = less.prems(3)
  show ?case
  proof (cases "fcol fs = RBT_BLACK")
    case True
    then have "rbt_fix_loop (s, taddr t) = Some s"
      using foc_par [OF f t] foc_fcol [OF f] by (intro fix_loop_stop) simp
    then show ?thesis using f True by (simp add: zfix_black foc_holds)
  next
    case False
    then have red: "col s (par s (taddr t)) = RBT_RED"
      using foc_par [OF f t] foc_fcol [OF f] by (cases "fcol fs") simp_all
    from less.prems(2,3) have "fix_turn s fs t"
      by (cases rule: fix_path_cases)
        (use f t less.prems(2) False in \<open>auto intro: turn_LL turn_RL turn_RR turn_LR dest: pathc_grand\<close>)
    then obtain s1 T gs where turn: "rbt_fix_body (s, taddr t) = (s1, taddr T)" "T \<noteq> PL"
      "foc s1 gs T \<and> length gs < length fs \<and> pathc gs \<and> zfix fs t = zfix gs T \<or>
       (\<exists>fr. foc s1 gs (plug [fr] T) \<and> fcol [fr] = RBT_BLACK \<and> zfix fs t = plug gs (plug [fr] T))"
      unfolding fix_turn_def by blast
    from turn(3) show ?thesis
    proof (elim disjE conjE exE)
      assume "foc s1 gs T" "length gs < length fs" "pathc gs" "zfix fs t = zfix gs T"
      then show ?thesis using less.hyps [of gs s1 T] fix_loop_turn [OF red turn(1)] turn(2) by simp
    next
      fix fr assume l: "foc s1 gs (plug [fr] T)" "fcol [fr] = RBT_BLACK" "zfix fs t = plug gs (plug [fr] T)"
      then show ?thesis using fix_loop_stop_at [OF l(1) turn(2) l(2)] fix_loop_turn [OF red turn(1)]
        by (simp add: foc_holds)
    qed
  qed
qed

section \<open>Linking the new node\<close>

lemma foc_link_leaf:
  assumes f: "foc s fs PL" and n: "n \<noteq> NIL" "n \<notin> set (faddrs fs)"
    and init: "mem s n = liteco_rbt_node_init"
  shows "foc (slot_set (slot_of fs) n (set_p n (fpar fs) s)) fs (PN PL n RBT_RED PL)"
proof -
  let ?s1 = "set_p n (fpar fs) s" and ?s2 = "slot_set (slot_of fs) n (set_p n (fpar fs) s)"
  have ctx: "tctx s NIL fs" and nil: "mem s NIL = liteco_rbt_nil_instance"
    using f by (simp_all add: foc_def)
  have "tctx ?s1 NIL fs" using ctx n by (simp add: rbt_setters frame_rules)
  have F: "fpar fs \<noteq> n" using n fpar_in_faddrs [of fs] by (cases fs) auto
  have o: "mem ?s2 a = mem s a" if "a \<noteq> n" "a \<noteq> fpar fs" for a
    using that by (cases fs rule: faddrs.cases) (simp_all add: rbt_setters)
  have fp: "par ?s2 (fpar fs) = par s (fpar fs)" "col ?s2 (fpar fs) = col s (fpar fs)"
    using F by (cases fs rule: faddrs.cases; simp add: setter_fields)+
  have n2: "lft ?s2 n = NIL" "rgt ?s2 n = NIL" "par ?s2 n = fpar fs" "col ?s2 n = RBT_RED"
    using F init
    by (cases fs rule: faddrs.cases; simp add: setter_fields liteco_rbt_node_init_def)+
  have "tctx ?s2 n fs"
  proof (rule pctx_redirect [OF ctx])
    show "distinct (faddrs fs)" using f by (rule foc_distinctD)
    show "case fs of [] \<Rightarrow> root ?s2 = n
      | FL a c r # _ \<Rightarrow> lft ?s2 a = n \<and> rgt ?s2 a = rgt s a \<and> root ?s2 = root s
      | FR l a c # _ \<Rightarrow> rgt ?s2 a = n \<and> lft ?s2 a = lft s a \<and> root ?s2 = root s"
      using F by (cases fs rule: faddrs.cases) (simp_all add: setter_fields)
  next
    fix a assume a: "a \<in> set (faddrs fs)"
    have "a \<noteq> n" using a n by auto
    then show "par ?s2 a = par s a \<and> col ?s2 a = col s a"
      using fp o [of a] by (cases "a = fpar fs") simp_all
    show "a \<noteq> fpar fs \<Longrightarrow> lft ?s2 a = lft s a \<and> rgt ?s2 a = rgt s a"
      using o [OF \<open>a \<noteq> n\<close>] by simp
  qed
  moreover have "mem ?s2 NIL = mem s NIL"
    using n F pctx_fpar_nil [OF ctx] by (cases fs rule: faddrs.cases) (simp_all add: rbt_setters)
  ultimately show ?thesis
    using f n n2 nil by (auto simp: foc_def addrs_plug set_faddrs)
qed

section \<open>Insertion\<close>

lemma rbt_fix_zfix:
  assumes "foc s fs t" "pathc fs" "t \<noteq> PL" "zfix fs t \<noteq> PL"
  shows "\<exists>s'. rbt_fix (taddr t) s = Some s' \<and> rbt_holds s' (paint RBT_BLACK (zfix fs t))"
proof -
  obtain s' where s': "rbt_fix_loop (s, taddr t) = Some s'" "rbt_holds s' (zfix fs t)"
    using fix_loop_zfix [OF assms(1-3)] by blast
  then have "foc s' [] (zfix fs t)" by (simp add: foc_holds)
  from foc_paint [OF this assms(4), of RBT_BLACK] s' show ?thesis
    by (simp add: rbt_fix_def foc_holds) (simp add: rbt_holds_def)
qed

context rbt_cmp
begin

text \<open>The key is present: the tree is left alone and the conflict reported.\<close>

lemma insert_conflict:
  assumes "rbt_holds s t" "key_sorted nk (addrs t)" "kv k \<in> nk ` set (addrs t)"
  shows "liteco_rbt_insert_impl cb k node s = Some (s, liteco_rbt_err_conflict)"
proof -
  have f: "foc s [] t" using assms(1) by (simp add: foc_holds)
  obtain gs u where d: "descend cb k [] t = (gs, u)" by fastforce
  have "u \<noteq> PL"
    using descend_bounds [OF d] descend_plug [OF d] assms(2,3) by (auto simp: addrs_plug)
  then have "rbt_insert_loop cb k s NIL SRoot = Some None"
    using insert_loop_descend [OF f, of cb k] d by (cases u) auto
  then show ?thesis by (simp add: liteco_rbt_insert_impl_def)
qed

text \<open>The key is new: the node is put at its place in the order, and the tree stays a
  red-black tree.\<close>

lemma insert_success:
  assumes holds: "rbt_holds s t" and inv: "rb_inv t" and sorted: "key_sorted nk (addrs t)"
    and new: "kv k \<notin> nk ` set (addrs t)" and k: "kv k = nk node"
    and node: "node \<noteq> NIL" "node \<notin> set (addrs t)" "mem s node = liteco_rbt_node_init"
  shows "\<exists>s' t' xs ys. liteco_rbt_insert_impl cb k node s = Some (s', liteco_rbt_err_success) \<and>
    rbt_holds s' t' \<and> rb_inv t' \<and> addrs t = xs @ ys \<and> addrs t' = xs @ node # ys \<and>
    key_sorted nk (addrs t')"
proof -
  have f: "foc s [] t" using holds by (simp add: foc_holds)
  obtain gs u where d: "descend cb k [] t = (gs, u)" by fastforce
  have t: "t = plug gs u" using descend_plug [OF d] by simp
  have u: "u = PL"
  proof (rule ccontr)
    assume "u \<noteq> PL"
    then obtain l a c r where U: "u = PN l a c r" by (cases u) auto
    then have "nk a = kv k" using descend_found [of cb k "[]" t gs l a c r] d by (simp add: cb_eq)
    moreover have "a \<in> set (addrs t)" using U by (simp add: t addrs_plug)
    ultimately show False using new by (metis image_eqI)
  qed
  have loop: "rbt_insert_loop cb k s NIL SRoot = Some (Some (fpar gs, slot_of gs))"
    using insert_loop_descend [OF f, of cb k] d u by simp
  have fg: "foc s gs PL" using holds t u by (simp add: foc_holds)
  have ng: "node \<notin> set (faddrs gs)" using node(2) t u by (simp add: set_addrs_plug)
  let ?n = "PN PL node RBT_RED PL" and ?s1 = "slot_set (slot_of gs) node (set_p node (fpar gs) s)"
  have f1: "foc ?s1 gs ?n" by (rule foc_link_leaf [OF fg node(1) ng node(3)])
  have pc: "pathc gs" "pathh gs 0" using inv t u by (simp_all add: rb_inv_plug)
  have z: "invc (paint RBT_BLACK (zfix gs ?n)) \<and> invh (zfix gs ?n) \<and> zfix gs ?n \<noteq> PL"
    using pc by (intro zfix_inv) auto
  obtain s' where s': "rbt_fix node ?s1 = Some s'" "rbt_holds s' (paint RBT_BLACK (zfix gs ?n))"
    using rbt_fix_zfix [OF f1 pc(1)] z by auto
  have sp: "addrs t = lefts gs @ rights gs" using t u by (simp add: addrs_plug)
  moreover have "addrs (paint RBT_BLACK (zfix gs ?n)) = lefts gs @ node # rights gs"
    by (simp add: addrs_zfix addrs_plug)
  moreover have "key_sorted nk (lefts gs @ node # rights gs)"
    using descend_bounds [OF d] sorted k key_sorted_split [of nk "lefts gs" "rights gs"]
    by (simp add: key_sorted_mid t [symmetric] sp)
  moreover have "rb_inv (paint RBT_BLACK (zfix gs ?n))" using z by (simp add: rb_inv_def)
  ultimately show ?thesis using s' loop
    by (intro exI [of _ s'] exI [of _ "paint RBT_BLACK (zfix gs ?n)"]
        exI [of _ "lefts gs"] exI [of _ "rights gs"])
      (simp add: liteco_rbt_insert_impl_def)
qed

end

end
