(* ===== verification/Rbt_Remove.thy ===== *)
theory Rbt_Remove
  imports Rbt_Search
begin

text \<open>
  Removal from the red-black tree. \<open>zrm\<close> is the chain \<open>__rm1\<close> .. \<open>__rm6\<close> on paths: it takes the
  path of the node to be unlinked and returns the path after rebalancing. \<open>rm1_zrm\<close> shows that
  the code computes it; \<open>zrm_inv\<close> that the new path accepts a subtree whose black height is one
  less. \<open>rbt_assign\<close> renames one node, so the exchange of two nodes at the head of
  \<open>liteco_rbt_remove_impl\<close> is three renamings (\<open>foc_swap\<close>).
\<close>

section \<open>Rebalancing on paths\<close>

fun fsib :: "liteco_rbt_color frame \<Rightarrow> ctree" where
  "fsib (FL p c r) = r"
| "fsib (FR l p c) = l"

fun kids_black :: "ctree \<Rightarrow> bool" where
  "kids_black PL = True"
| "kids_black (PN l a c r) = (tcol l = RBT_BLACK \<and> tcol r = RBT_BLACK)"

text \<open>\<open>__rm4\<close>, \<open>__rm5\<close>, \<open>__rm6\<close>.\<close>

fun z6 :: "cpath \<Rightarrow> cpath" where
  "z6 (FL p cp (PN a v cv b) # fs) = FL p RBT_BLACK a # FL v cp (paint RBT_BLACK b) # fs"
| "z6 (FR (PN a v cv b) p cp # fs) = FR b p RBT_BLACK # FR (paint RBT_BLACK a) v cp # fs"
| "z6 fs = fs"

fun z5 :: "cpath \<Rightarrow> cpath" where
  "z5 (FL p cp (PN (PN x l cl y) v cv b) # fs) =
     (if cl = RBT_RED \<and> tcol b = RBT_BLACK
      then FL p cp (PN x l RBT_BLACK (PN y v RBT_RED b)) # fs
      else FL p cp (PN (PN x l cl y) v cv b) # fs)"
| "z5 (FR (PN a v cv (PN x r cr y)) p cp # fs) =
     (if cr = RBT_RED \<and> tcol a = RBT_BLACK
      then FR (PN (PN a v RBT_RED x) r RBT_BLACK y) p cp # fs
      else FR (PN a v cv (PN x r cr y)) p cp # fs)"
| "z5 fs = fs"

fun fblack_sibred :: "liteco_rbt_color frame \<Rightarrow> liteco_rbt_color frame" where
  "fblack_sibred (FL p c r) = FL p RBT_BLACK (paint RBT_RED r)"
| "fblack_sibred (FR l p c) = FR (paint RBT_RED l) p RBT_BLACK"

fun z4 :: "cpath \<Rightarrow> cpath" where
  "z4 (f # fs) =
     (if fcol [f] = RBT_RED \<and> kids_black (fsib f) then fblack_sibred f # fs else z6 (z5 (f # fs)))"
| "z4 [] = []"

text \<open>The rotation of \<open>__rm2\<close> around a red sibling.\<close>

fun z2 :: "cpath \<Rightarrow> cpath" where
  "z2 (FL p cp (PN a v cv b) # fs) = FL p RBT_RED a # FL v RBT_BLACK b # fs"
| "z2 (FR (PN a v cv b) p cp # fs) = FR b p RBT_RED # FR a v RBT_BLACK # fs"
| "z2 fs = fs"

text \<open>The whole chain: a red sibling is rotated away (then the parent is red and \<open>__rm3\<close> goes on
  to \<open>__rm4\<close>); a black family is coloured and the rest of the path is rebalanced.\<close>

fun zrm :: "cpath \<Rightarrow> cpath" where
  "zrm [] = []"
| "zrm (f # fs) =
     (if tcol (fsib f) = RBT_RED then z4 (z2 (f # fs))
      else if fcol [f] = RBT_BLACK \<and> kids_black (fsib f) then fblack_sibred f # zrm fs
      else z4 (f # fs))"

lemma z6_order: "lefts (z6 fs) = lefts fs" "rights (z6 fs) = rights fs"
  by (cases fs rule: z6.cases; simp)+

lemma z5_order: "lefts (z5 fs) = lefts fs" "rights (z5 fs) = rights fs"
  by (cases fs rule: z5.cases; simp)+

lemma z2_order: "lefts (z2 fs) = lefts fs" "rights (z2 fs) = rights fs"
  by (cases fs rule: z2.cases; simp)+

lemmas z_order = z6_order z5_order z2_order

lemma fblack_sibred_order:
  "lefts (fblack_sibred f # fs) = lefts (f # fs)" "rights (fblack_sibred f # fs) = rights (f # fs)"
  by (cases f; simp)+

lemma z4_order: "lefts (z4 fs) = lefts fs" "rights (z4 fs) = rights fs"
  by (cases fs; simp add: z_order fblack_sibred_order)+

lemma zrm_order: "lefts (zrm fs) = lefts fs" "rights (zrm fs) = rights fs"
proof (induction fs)
  case (Cons f fs)
  {
    case 1
    then show ?case using Cons fblack_sibred_order [of f fs] by (cases f) (auto simp: z4_order z_order)
  next
    case 2
    then show ?case using Cons fblack_sibred_order [of f fs] by (cases f) (auto simp: z4_order z_order)
  }
qed auto

lemma zrm_nil [simp]: "zrm fs = [] \<longleftrightarrow> fs = []"
proof (cases fs)
  case (Cons f gs)
  have 6: "z6 (h # hs) \<noteq> []" for h hs by (cases "h # hs" rule: z6.cases) auto
  have 5: "z5 (h # hs) \<noteq> []" for h hs by (cases "h # hs" rule: z5.cases) auto
  have 2: "z2 (h # hs) \<noteq> []" for h hs by (cases "h # hs" rule: z2.cases) auto
  have 65: "z6 (z5 (h # hs)) \<noteq> []" for h hs
    using 5 [of h hs] 6 by (cases "z5 (h # hs)") auto
  have 4: "z4 hs \<noteq> []" if "hs \<noteq> []" for hs
    using that 65 by (cases hs) auto
  show ?thesis using Cons 4 [OF 2 [of f gs]] 65 by simp
qed simp

text \<open>Under a black sibling with a red child, and under a red parent of a black family, the
  last steps give a path that is one black node shorter.\<close>

lemma bheight_pos_node:
  "bheight t = Suc n \<Longrightarrow> \<exists>l a c r. t = PN l a c r"
  by (cases t) auto

definition path_ok :: "cpath \<Rightarrow> nat \<Rightarrow> bool" where
  "path_ok fs n \<longleftrightarrow> pathc fs \<and> pathh fs n \<and> fcol fs = RBT_BLACK"

lemma z6_ok:
  assumes "pathc (f # fs)" "pathh (f # fs) (Suc n)" "tcol (fsib f) = RBT_BLACK"
    "case f of FL p c (PN a v cv b) \<Rightarrow> tcol b = RBT_RED | FR (PN a v cv b) p c \<Rightarrow> tcol a = RBT_RED
       | _ \<Rightarrow> False"
  shows "path_ok (z6 (f # fs)) n"
proof -
  have P: "bheight (paint RBT_BLACK t) = Suc (bheight t)" if "tcol t = RBT_RED" for t
    using that by (cases t) auto
  show ?thesis
    using assms P
    by (cases "f # fs" rule: z6.cases) (auto simp: path_ok_def split: ptree.splits)
qed

lemma z56_ok:
  assumes "pathc (f # fs)" "pathh (f # fs) (Suc n)" "tcol (fsib f) = RBT_BLACK"
    "\<not> kids_black (fsib f)"
  shows "path_ok (z6 (z5 (f # fs))) n"
proof (cases f)
  case (FL p c r)
  then obtain a v b where r: "r = PN a v RBT_BLACK b"
    using assms by (cases r) auto
  show ?thesis
  proof (cases "tcol b")
    case RBT_RED
    then have "z5 (f # fs) = f # fs" using FL r by (cases a) auto
    then show ?thesis using z6_ok [OF assms(1-3)] FL r RBT_RED by simp
  next
    case RBT_BLACK
    then obtain x l y where a: "a = PN x l RBT_RED y" using assms(4) FL r by (cases a) auto
    show ?thesis using assms FL r a RBT_BLACK by (auto simp: path_ok_def)
  qed
next
  case (FR l p c)
  then obtain a v b where l: "l = PN a v RBT_BLACK b"
    using assms by (cases l) auto
  show ?thesis
  proof (cases "tcol a")
    case RBT_RED
    then have "z5 (f # fs) = f # fs" using FR l by (cases b) auto
    then show ?thesis using z6_ok [OF assms(1-3)] FR l RBT_RED by simp
  next
    case RBT_BLACK
    then obtain x q y where b: "b = PN x q RBT_RED y" using assms(4) FR l by (cases b) auto
    show ?thesis using assms FR l b RBT_BLACK by (auto simp: path_ok_def)
  qed
qed

lemma fblack_sibred_ok:
  assumes "invc (fsib f)" "invh (fsib f)" "tcol (fsib f) = RBT_BLACK" "kids_black (fsib f)"
    "bheight (fsib f) = Suc n"
  shows "pathc (fblack_sibred f # fs) = pathc fs" "pathh (fblack_sibred f # fs) n = pathh fs (Suc n)"
    "fcol (fblack_sibred f # fs) = RBT_BLACK"
  using assms by (cases f; cases "fsib f"; auto)+

lemma z4_ok:
  assumes "pathc (f # fs)" "pathh (f # fs) (Suc n)" "tcol (fsib f) = RBT_BLACK"
    "fcol [f] = RBT_RED \<or> \<not> kids_black (fsib f)"
  shows "path_ok (z4 (f # fs)) n"
proof (cases "fcol [f] = RBT_RED \<and> kids_black (fsib f)")
  case True
  have "invc (fsib f)" "invh (fsib f)" "bheight (fsib f) = Suc n" "pathc fs" "pathh fs (Suc n)"
    using assms True by (cases f; auto)+
  then show ?thesis using fblack_sibred_ok assms True by (simp add: path_ok_def)
next
  case False
  then show ?thesis using z56_ok [OF assms(1-3)] assms(4) by auto
qed

lemma z2_ok:
  assumes "pathc (f # fs)" "pathh (f # fs) (Suc n)" "tcol (fsib f) = RBT_RED"
  obtains g gs where "z2 (f # fs) = g # gs" "pathc (g # gs)" "pathh (g # gs) (Suc n)"
    "tcol (fsib g) = RBT_BLACK" "fcol [g] = RBT_RED"
  using assms by (cases "f # fs" rule: z2.cases) auto

theorem zrm_inv: "pathc fs \<Longrightarrow> pathh fs (Suc n) \<Longrightarrow> path_ok (zrm fs) n"
proof (induction fs arbitrary: n)
  case Nil
  show ?case by (simp add: path_ok_def)
next
  case (Cons f fs)
  note P = Cons.prems
  consider (red) "tcol (fsib f) = RBT_RED"
    | (up) "tcol (fsib f) = RBT_BLACK" "fcol [f] = RBT_BLACK" "kids_black (fsib f)"
    | (last) "tcol (fsib f) = RBT_BLACK" "fcol [f] = RBT_RED \<or> \<not> kids_black (fsib f)"
    by (cases "tcol (fsib f)"; cases "fcol [f]") auto
  then show ?case
  proof cases
    case red
    obtain g gs where g: "z2 (f # fs) = g # gs" "pathc (g # gs)" "pathh (g # gs) (Suc n)"
      "tcol (fsib g) = RBT_BLACK" "fcol [g] = RBT_RED"
      by (rule z2_ok [OF P red])
    show ?thesis using red g z4_ok [OF g(2-4)] by simp
  next
    case up
    have s: "invc (fsib f)" "invh (fsib f)" "bheight (fsib f) = Suc n" "pathc fs"
      "pathh fs (Suc (Suc n))"
      using P up by (cases f; auto)+
    then have "path_ok (zrm fs) (Suc n)" using Cons.IH by blast
    then show ?thesis using up fblack_sibred_ok [OF s(1,2) up(1,3) s(3)] by (simp add: path_ok_def)
  next
    case last
    then show ?thesis using z4_ok [OF P last] by auto
  qed
qed

section \<open>The steps of the code\<close>

lemma foc_paint_in:
  assumes "foc s fs (plug gs u)" and "u \<noteq> PL"
  shows "foc (set_c (taddr u) c s) fs (plug gs (paint c u))"
proof -
  have "foc s (gs @ fs) u" using assms(1) by (rule foc_refocus) (simp add: plug_append)
  from foc_paint [OF this assms(2), of c] show ?thesis
    by (rule foc_refocus) (simp add: plug_append)
qed

text \<open>The sibling of a node at the end of a path.\<close>

lemma foc_sib_FL:
  assumes "foc s (FL p c r # fs) t" and "t \<noteq> PL"
  shows "rbt_sib (taddr t) s = taddr r" "par s (taddr t) = p" "lft s p = taddr t"
    "rgt s p = taddr r" "col s p = c" "rgt s p \<noteq> taddr t"
  using foc_FL [OF assms(1)] foc_par [OF assms] assms(2) by (simp_all add: rbt_sib_def)

lemma foc_sib_FR:
  assumes "foc s (FR l p c # fs) t" and "t \<noteq> PL"
  shows "rbt_sib (taddr t) s = taddr l" "par s (taddr t) = p" "lft s p = taddr l"
    "rgt s p = taddr t" "col s p = c" "lft s p \<noteq> taddr t"
  using foc_FR [OF assms(1)] foc_par [OF assms] assms(2) by (simp_all add: rbt_sib_def)

lemma rm6_FL:
  assumes f: "foc s (FL p cp (PN a v cv b) # fs) t" and t: "t \<noteq> PL" and b: "b \<noteq> PL"
  shows "foc (rbt_rm6 (taddr t) s) (z6 (FL p cp (PN a v cv b) # fs)) t"
proof -
  have f0: "foc s (FR t p cp # fs) (PN a v cv b)" using f by (rule foc_refocus) simp
  note R = foc_sib_FL [OF f t] foc_node [OF f0]
  have 1: "foc (set_c v cp s) fs (PN t p cp (PN a v cp b))"
    using foc_paint [OF f0, of cp] by (auto elim: foc_refocus)
  have 2: "foc (set_c p RBT_BLACK (set_c v cp s)) fs (PN t p RBT_BLACK (PN a v cp b))"
    using foc_paint [OF 1, of RBT_BLACK] by simp
  have 3: "foc (set_c (taddr b) RBT_BLACK (set_c p RBT_BLACK (set_c v cp s))) fs
     (PN t p RBT_BLACK (PN a v cp (paint RBT_BLACK b)))"
    using foc_paint_in [of _ fs "[FR a v cp, FR t p RBT_BLACK]", OF _ b] 2 by simp
  show ?thesis
    using foc_lr [OF 3] R
    by (auto simp: rbt_rm6_def Let_def setter_fields elim: foc_refocus)
qed

lemma rm6_FR:
  assumes f: "foc s (FR (PN a v cv b) p cp # fs) t" and t: "t \<noteq> PL" and a: "a \<noteq> PL"
  shows "foc (rbt_rm6 (taddr t) s) (z6 (FR (PN a v cv b) p cp # fs)) t"
proof -
  have f0: "foc s (FL p cp t # fs) (PN a v cv b)" using f by (rule foc_refocus) simp
  note R = foc_sib_FR [OF f t] foc_node [OF f0]
  have 1: "foc (set_c v cp s) fs (PN (PN a v cp b) p cp t)"
    using foc_paint [OF f0, of cp] by (auto elim: foc_refocus)
  have 2: "foc (set_c p RBT_BLACK (set_c v cp s)) fs (PN (PN a v cp b) p RBT_BLACK t)"
    using foc_paint [OF 1, of RBT_BLACK] by simp
  have 3: "foc (set_c (taddr a) RBT_BLACK (set_c p RBT_BLACK (set_c v cp s))) fs
     (PN (PN (paint RBT_BLACK a) v cp b) p RBT_BLACK t)"
    using foc_paint_in [of _ fs "[FL v cp b, FL p RBT_BLACK t]", OF _ a] 2 by simp
  show ?thesis
    using foc_rr [OF 3] R
    by (auto simp: rbt_rm6_def Let_def setter_fields elim: foc_refocus)
qed

lemma tcol_red_node: "tcol t = RBT_RED \<Longrightarrow> \<exists>l a r. t = PN l a RBT_RED r"
  by (cases t) auto

text \<open>\<open>__rm5\<close> under a black sibling with a red child.\<close>

lemma rm5_FL:
  assumes f: "foc s (FL p cp (PN a v RBT_BLACK b) # fs) t" and t: "t \<noteq> PL"
    and red: "tcol a = RBT_RED \<or> tcol b = RBT_RED"
  shows "foc (rbt_rm5 (taddr t) s) (z6 (z5 (FL p cp (PN a v RBT_BLACK b) # fs))) t"
proof -
  have f0: "foc s (FR t p cp # fs) (PN a v RBT_BLACK b)" using f by (rule foc_refocus) simp
  have fa: "foc s (FL v RBT_BLACK b # FR t p cp # fs) a" using f0 by (rule foc_refocus) simp
  note R = foc_sib_FL [OF f t] foc_node [OF f0] foc_FL [OF fa]
  show ?thesis
  proof (cases "tcol b")
    case RBT_RED
    then have "z5 (FL p cp (PN a v RBT_BLACK b) # fs) = FL p cp (PN a v RBT_BLACK b) # fs"
      by (cases a) auto
    moreover have "rbt_rm5 (taddr t) s = rbt_rm6 (taddr t) s"
      using R RBT_RED by (auto simp: rbt_rm5_def Let_def)
    moreover have "b \<noteq> PL" using RBT_RED by auto
    ultimately show ?thesis using rm6_FL [OF f t] by simp
  next
    case RBT_BLACK
    then obtain x l y where a: "a = PN x l RBT_RED y" using red tcol_red_node [of a] by auto
    have 1: "foc (set_c v RBT_RED s) (FR t p cp # fs) (PN a v RBT_RED b)"
      using foc_paint [OF f0, of RBT_RED] by simp
    have 2: "foc (set_c l RBT_BLACK (set_c v RBT_RED s)) (FR t p cp # fs)
        (PN (PN x l RBT_BLACK y) v RBT_RED b)"
      using foc_paint_in [of _ "FR t p cp # fs" "[FL v RBT_RED b]" a] 1 a by simp
    have 3: "foc (rbt_rr v (set_c l RBT_BLACK (set_c v RBT_RED s)))
        (FL p cp (PN x l RBT_BLACK (PN y v RBT_RED b)) # fs) t"
      using foc_rr [OF 2] by (rule foc_refocus) simp
    have "rbt_rm5 (taddr t) s = rbt_rm6 (taddr t) (rbt_rr v (set_c l RBT_BLACK (set_c v RBT_RED s)))"
      using R a RBT_BLACK by (simp add: rbt_rm5_def Let_def setter_fields)
    then show ?thesis using rm6_FL [OF 3 t] a RBT_BLACK by simp
  qed
qed

lemma rm5_FR:
  assumes f: "foc s (FR (PN a v RBT_BLACK b) p cp # fs) t" and t: "t \<noteq> PL"
    and red: "tcol a = RBT_RED \<or> tcol b = RBT_RED"
  shows "foc (rbt_rm5 (taddr t) s) (z6 (z5 (FR (PN a v RBT_BLACK b) p cp # fs))) t"
proof -
  have f0: "foc s (FL p cp t # fs) (PN a v RBT_BLACK b)" using f by (rule foc_refocus) simp
  have fa: "foc s (FL v RBT_BLACK b # FL p cp t # fs) a" using f0 by (rule foc_refocus) simp
  note R = foc_sib_FR [OF f t] foc_node [OF f0] foc_FL [OF fa]
  show ?thesis
  proof (cases "tcol a")
    case RBT_RED
    then have "z5 (FR (PN a v RBT_BLACK b) p cp # fs) = FR (PN a v RBT_BLACK b) p cp # fs"
      by (cases b) auto
    moreover have "rbt_rm5 (taddr t) s = rbt_rm6 (taddr t) s"
      using R RBT_RED by (auto simp: rbt_rm5_def Let_def)
    moreover have "a \<noteq> PL" using RBT_RED by auto
    ultimately show ?thesis using rm6_FR [OF f t] by simp
  next
    case RBT_BLACK
    then obtain x r y where b: "b = PN x r RBT_RED y" using red tcol_red_node [of b] by auto
    have 1: "foc (set_c v RBT_RED s) (FL p cp t # fs) (PN a v RBT_RED b)"
      using foc_paint [OF f0, of RBT_RED] by simp
    have 2: "foc (set_c r RBT_BLACK (set_c v RBT_RED s)) (FL p cp t # fs)
        (PN a v RBT_RED (PN x r RBT_BLACK y))"
      using foc_paint_in [of _ "FL p cp t # fs" "[FR a v RBT_RED]" b] 1 b by simp
    have 3: "foc (rbt_lr v (set_c r RBT_BLACK (set_c v RBT_RED s)))
        (FR (PN (PN a v RBT_RED x) r RBT_BLACK y) p cp # fs) t"
      using foc_lr [OF 2] by (rule foc_refocus) simp
    have "rbt_rm5 (taddr t) s = rbt_rm6 (taddr t) (rbt_lr v (set_c r RBT_BLACK (set_c v RBT_RED s)))"
      using R b RBT_BLACK by (simp add: rbt_rm5_def Let_def setter_fields)
    then show ?thesis using rm6_FR [OF 3 t] b RBT_BLACK by simp
  qed
qed

text \<open>The tests of \<open>__rm3\<close> and \<open>__rm4\<close>, and the colouring they do.\<close>

lemma foc_sibling:
  assumes f: "foc s (f # fs) t" and t: "t \<noteq> PL" and sib: "fsib f \<noteq> PL"
  shows "rbt_sib (taddr t) s = taddr (fsib f)" "par s (taddr t) = fpar (f # fs)"
    "col s (par s (taddr t)) = fcol [f]" "col s (taddr (fsib f)) = tcol (fsib f)"
    "col s (lft s (taddr (fsib f))) = RBT_BLACK \<and> col s (rgt s (taddr (fsib f))) = RBT_BLACK
       \<longleftrightarrow> kids_black (fsib f)"
proof -
  have "\<exists>gs. foc s gs (fsib f)"
  proof (cases f)
    case (FL p c r)
    then have "foc s (FR t p c # fs) r" using f by (auto elim: foc_refocus)
    then show ?thesis using FL by auto
  next
    case (FR l p c)
    then have "foc s (FL p c t # fs) l" using f by (auto elim: foc_refocus)
    then show ?thesis using FR by auto
  qed
  then obtain gs where g: "foc s gs (fsib f)" by blast
  obtain l a c r where u: "fsib f = PN l a c r" using sib by (cases "fsib f") auto
  have "foc s (FL a c r # gs) l" "foc s (FR l a c # gs) r"
    using g u by (auto elim: foc_refocus)
  then have "col s (taddr l) = tcol l" "col s (taddr r) = tcol r" by (auto dest: foc_col)
  then show "col s (lft s (taddr (fsib f))) = RBT_BLACK \<and> col s (rgt s (taddr (fsib f))) = RBT_BLACK
       \<longleftrightarrow> kids_black (fsib f)"
    using foc_node [OF g [unfolded u]] u by simp
  show "col s (taddr (fsib f)) = tcol (fsib f)" using foc_col [OF g] .
  show "rbt_sib (taddr t) s = taddr (fsib f)" "par s (taddr t) = fpar (f # fs)"
    "col s (par s (taddr t)) = fcol [f]"
    using f t by (cases f; simp add: foc_sib_FL foc_sib_FR)+
qed

lemma foc_sib_red:
  assumes f: "foc s (f # fs) t" and sib: "fsib f \<noteq> PL"
  shows "foc (set_c (taddr (fsib f)) RBT_RED s) fs
    (plug [case f of FL p c r \<Rightarrow> FL p c (paint RBT_RED r) | FR l p c \<Rightarrow> FR (paint RBT_RED l) p c] t)"
proof (cases f)
  case (FL p c r)
  then have "foc s (FR t p c # fs) r" using f by (auto elim: foc_refocus)
  from foc_paint [OF this, of RBT_RED] show ?thesis using FL sib by (auto elim: foc_refocus)
next
  case (FR l p c)
  then have "foc s (FL p c t # fs) l" using f by (auto elim: foc_refocus)
  from foc_paint [OF this, of RBT_RED] show ?thesis using FR sib by (auto elim: foc_refocus)
qed

lemma rm4_z4:
  assumes f: "foc s (f # fs) t" and t: "t \<noteq> PL" and sib: "fsib f \<noteq> PL" "tcol (fsib f) = RBT_BLACK"
    and c: "fcol [f] = RBT_RED \<or> \<not> kids_black (fsib f)"
  shows "foc (rbt_rm4 (taddr t) s) (z4 (f # fs)) t"
proof (cases "fcol [f] = RBT_RED \<and> kids_black (fsib f)")
  case True
  note R = foc_sibling [OF f t sib(1)]
  have "rbt_rm4 (taddr t) s =
    set_c (fpar (f # fs)) RBT_BLACK (set_c (taddr (fsib f)) RBT_RED s)"
    using R True sib by (auto simp: rbt_rm4_def Let_def setter_fields)
  moreover have "foc (set_c (fpar (f # fs)) RBT_BLACK (set_c (taddr (fsib f)) RBT_RED s))
      (fblack_sibred f # fs) t"
    using foc_paint [OF foc_sib_red [OF f sib(1)], of RBT_BLACK]
    by (cases f) (auto elim: foc_refocus)
  ultimately show ?thesis using True by simp
next
  case False
  then have k: "\<not> kids_black (fsib f)" using c by auto
  have "rbt_rm4 (taddr t) s = rbt_rm5 (taddr t) s"
    using foc_sibling [OF f t sib(1)] k by (auto simp: rbt_rm4_def Let_def)
  moreover have "foc (rbt_rm5 (taddr t) s) (z6 (z5 (f # fs))) t"
    using f t sib k rm5_FL rm5_FR by (cases f; cases "fsib f") auto
  ultimately show ?thesis using False by auto
qed

text \<open>\<open>__rm2\<close> and \<open>__rm3\<close>: the turn of the recursion.\<close>

lemma rm2_rotate:
  assumes f: "foc s (f # fs) t" and t: "t \<noteq> PL" and red: "tcol (fsib f) = RBT_RED"
  shows "\<exists>s'. rbt_rm2 rm1 (taddr t) s = rbt_rm3 rm1 (taddr t) s' \<and> foc s' (z2 (f # fs)) t"
proof -
  obtain a v b where sib: "fsib f = PN a v RBT_RED b" using red tcol_red_node by blast
  show ?thesis
  proof (cases f)
    case (FL p c r)
    then have r: "r = PN a v RBT_RED b" and f': "foc s (FL p c r # fs) t" using sib f by auto
    note R = foc_sib_FL [OF f' t]
    have 0: "foc s fs (PN t p c r)" using f' by (rule foc_refocus) simp
    have 1: "foc (set_c p RBT_RED s) fs (PN t p RBT_RED r)" using foc_paint [OF 0, of RBT_RED] by simp
    have 2: "foc (set_c v RBT_BLACK (set_c p RBT_RED s)) fs (PN t p RBT_RED (PN a v RBT_BLACK b))"
      using foc_paint_in [of _ fs "[FR t p RBT_RED]" r] 1 r by simp
    have "rbt_rm2 rm1 (taddr t) s =
        rbt_rm3 rm1 (taddr t) (rbt_lr p (set_c v RBT_BLACK (set_c p RBT_RED s)))"
      using R foc_sibling(4) [OF f t] sib r by (simp add: rbt_rm2_def Let_def setter_fields)
    moreover have "foc (rbt_lr p (set_c v RBT_BLACK (set_c p RBT_RED s))) (z2 (f # fs)) t"
      using foc_lr [OF 2] by (rule foc_refocus) (simp add: FL r)
    ultimately show ?thesis by auto
  next
    case (FR l p c)
    then have l: "l = PN a v RBT_RED b" and f': "foc s (FR l p c # fs) t" using sib f by auto
    note R = foc_sib_FR [OF f' t]
    have 0: "foc s fs (PN l p c t)" using f' by (rule foc_refocus) simp
    have 1: "foc (set_c p RBT_RED s) fs (PN l p RBT_RED t)" using foc_paint [OF 0, of RBT_RED] by simp
    have 2: "foc (set_c v RBT_BLACK (set_c p RBT_RED s)) fs (PN (PN a v RBT_BLACK b) p RBT_RED t)"
      using foc_paint_in [of _ fs "[FL p RBT_RED t]" l] 1 l by simp
    have "rbt_rm2 rm1 (taddr t) s =
        rbt_rm3 rm1 (taddr t) (rbt_rr p (set_c v RBT_BLACK (set_c p RBT_RED s)))"
      using R foc_sibling(4) [OF f t] sib l by (auto simp: rbt_rm2_def Let_def setter_fields)
    moreover have "foc (rbt_rr p (set_c v RBT_BLACK (set_c p RBT_RED s))) (z2 (f # fs)) t"
      using foc_rr [OF 2] by (rule foc_refocus) (simp add: FR l)
    ultimately show ?thesis by auto
  qed
qed

lemma rm3_last:
  assumes f: "foc s (f # fs) t" and t: "t \<noteq> PL" and sib: "fsib f \<noteq> PL"
    and c: "fcol [f] = RBT_RED \<or> \<not> kids_black (fsib f)"
  shows "rbt_rm3 rm1 (taddr t) s = Some (rbt_rm4 (taddr t) s)"
  using foc_sibling [OF f t sib] c by (auto simp: rbt_rm3_def Let_def)

lemma rm3_up:
  assumes f: "foc s (f # fs) t" and t: "t \<noteq> PL" and sib: "fsib f \<noteq> PL" "tcol (fsib f) = RBT_BLACK"
    and c: "fcol [f] = RBT_BLACK" "kids_black (fsib f)"
  shows "\<exists>s'. rbt_rm3 rm1 (taddr t) s = rm1 (fpar (f # fs)) s' \<and>
    foc s' fs (plug [fblack_sibred f] t)"
proof -
  have "rbt_rm3 rm1 (taddr t) s = rm1 (fpar (f # fs)) (set_c (taddr (fsib f)) RBT_RED s)"
    using foc_sibling [OF f t sib(1)] sib c by (simp add: rbt_rm3_def Let_def setter_fields)
  moreover have "foc (set_c (taddr (fsib f)) RBT_RED s) fs (plug [fblack_sibred f] t)"
    using foc_sib_red [OF f sib(1)] c(1) by (cases f) auto
  ultimately show ?thesis by blast
qed

theorem rm1_zrm:
  "foc s fs t \<Longrightarrow> t \<noteq> PL \<Longrightarrow> pathc fs \<Longrightarrow> pathh fs (Suc n) \<Longrightarrow>
    \<exists>s'. rbt_rm1 (taddr t) s = Some s' \<and> foc s' (zrm fs) t"
proof (induction fs arbitrary: s t n)
  case Nil
  then have "par s (taddr t) = NIL" using foc_par by fastforce
  then show ?case using Nil by (simp add: rbt_rm1_rec)
next
  case (Cons f fs)
  note F = Cons.prems(1) and t = Cons.prems(2)
  have "bheight (fsib f) = Suc n" using Cons.prems by (cases f) auto
  then have sib: "fsib f \<noteq> PL" by auto
  have "par s (taddr t) \<noteq> NIL"
    using foc_par [OF F t] foc_FL(5) [of s] foc_FR(5) [of s] F by (cases f) auto
  then have 1: "rbt_rm1 (taddr t) s = rbt_rm2 rbt_rm1 (taddr t) s" by (simp add: rbt_rm1_rec)
  have 2: "rbt_rm2 rbt_rm1 (taddr t) s = rbt_rm3 rbt_rm1 (taddr t) s" if "tcol (fsib f) = RBT_BLACK"
    using foc_sibling(1,4) [OF F t sib] that by (simp add: rbt_rm2_def Let_def)
  consider (red) "tcol (fsib f) = RBT_RED"
    | (up) "tcol (fsib f) = RBT_BLACK" "fcol [f] = RBT_BLACK" "kids_black (fsib f)"
    | (last) "tcol (fsib f) = RBT_BLACK" "fcol [f] = RBT_RED \<or> \<not> kids_black (fsib f)"
    by (cases "tcol (fsib f)"; cases "fcol [f]") auto
  then show ?case
  proof cases
    case red
    obtain g gs where g: "z2 (f # fs) = g # gs" "pathc (g # gs)" "pathh (g # gs) (Suc n)"
      "tcol (fsib g) = RBT_BLACK" "fcol [g] = RBT_RED"
      by (rule z2_ok [OF Cons.prems(3,4) red])
    have "fsib g \<noteq> PL" using g(3) by (cases g) auto
    moreover obtain s1 where s1: "rbt_rm2 rbt_rm1 (taddr t) s = rbt_rm3 rbt_rm1 (taddr t) s1"
      "foc s1 (g # gs) t"
      using rm2_rotate [OF F t red] g(1) by auto
    ultimately show ?thesis
      using rm3_last [OF s1(2) t] rm4_z4 [OF s1(2) t _ g(4)] g(1,5) red 1 by simp
  next
    case up
    obtain s1 where s1: "rbt_rm3 rbt_rm1 (taddr t) s = rbt_rm1 (fpar (f # fs)) s1"
      "foc s1 fs (plug [fblack_sibred f] t)"
      using rm3_up [OF F t sib up] by blast
    have T: "taddr (plug [fblack_sibred f] t) = fpar (f # fs)" "plug [fblack_sibred f] t \<noteq> PL"
      by (cases f; simp)+
    have p: "pathc fs" "pathh fs (Suc (Suc n))" using Cons.prems up by (cases f; auto)+
    obtain s' where s': "rbt_rm1 (fpar (f # fs)) s1 = Some s'"
      "foc s' (zrm fs) (plug [fblack_sibred f] t)"
      using Cons.IH [OF s1(2) T(2) p] T(1) by auto
    have "foc s' (fblack_sibred f # zrm fs) t" using s'(2) by (rule foc_refocus) (cases f; simp)
    then show ?thesis using s' s1 up 1 2 by simp
  next
    case last
    have z: "zrm (f # fs) = z4 (f # fs)" using last by auto
    show ?thesis
      unfolding z using rm3_last [OF F t sib last(2)] rm4_z4 [OF F t sib last] 1 2 last by simp
  qed
qed

section \<open>Unlinking a node with at most one child\<close>

lemma taddr_plug_outer: "fs \<noteq> [] \<Longrightarrow> taddr (plug fs t) \<in> set (faddrs fs)"
proof (induction fs arbitrary: t)
  case (Cons f fs)
  then show ?case by (cases f; cases fs) auto
qed simp

lemma redirect_eq_replace:
  assumes f: "foc s fs (PN l a c r)" and one: "l = PL \<or> r = PL"
  shows "rbt_replace a (taddr (if l = PL then r else l)) s =
    set_p' (taddr (if l = PL then r else l)) (fpar fs)
      (redirect a (taddr (if l = PL then r else l)) s)"
proof -
  have ctx: "tctx s a fs" using f by (simp add: foc_def)
  have "a \<notin> set (faddrs fs)" "a \<noteq> NIL" using foc_distinctD [OF f] by auto
  moreover have "root s = taddr (plug fs (PN l a c r))" using f by (simp add: foc_holds rbt_holds_def)
  ultimately have root: "a = root s \<longleftrightarrow> fs = []"
    using taddr_plug_outer [of fs "PN l a c r"] by (cases "fs = []") (simp, metis)
  have "a \<noteq> fpar fs" using \<open>a \<notin> set (faddrs fs)\<close> \<open>a \<noteq> NIL\<close> fpar_in_faddrs [of fs] by (cases fs) auto
  then show ?thesis
    using root foc_node [OF f] pctx_fpar_nil [OF ctx]
    by (auto simp: rbt_replace_def redirect_def set_p'_def Let_def setter_fields)
qed

lemma foc_replace:
  assumes f: "foc s fs (PN l a c r)" and one: "l = PL \<or> r = PL"
    and u: "u = (if l = PL then r else l)"
  shows "foc (rbt_replace a (taddr u) s) fs u" "par (rbt_replace a (taddr u) s) a = fpar fs"
proof -
  let ?s1 = "set_p' (taddr u) (fpar fs) (redirect a (taddr u) s)"
  have eq: "rbt_replace a (taddr u) s = ?s1" using redirect_eq_replace [OF f one] u by simp
  note D = foc_distinctD [OF f]
  have ctx: "tctx s a fs" and sub: "trep s a u" and nil: "mem s NIL = liteco_rbt_nil_instance"
    using f u by (auto simp: foc_def)
  have a: "a \<notin> set (faddrs fs)" "a \<noteq> NIL" "a \<notin> set (addrs u)" "distinct (addrs u)"
    "set (addrs u) \<inter> set (faddrs fs) = {}" "NIL \<notin> set (addrs u)"
    using D u by auto
  have U: "taddr u = NIL \<or> taddr u \<in> set (addrs u)" by (cases u) auto
  have F: "fpar fs = NIL \<or> fpar fs \<in> set (faddrs fs)" using fpar_in_faddrs [of fs] by (cases fs) auto
  have fu: "taddr u \<noteq> NIL \<Longrightarrow> fpar fs \<noteq> taddr u" "taddr u \<noteq> a" "fpar fs \<noteq> a" using U F a by auto
  have nu: "b \<noteq> a" "b \<noteq> fpar fs" if "b \<in> set (addrs u)" for b using that a F by auto
  have nF: "b \<noteq> a" "taddr u \<noteq> NIL \<Longrightarrow> b \<noteq> taddr u" "b \<noteq> NIL" if "b \<in> set (faddrs fs)" for b
    using that a U D(5) by auto
  have nF': "(b = taddr u \<and> NIL < b) = False" if "b \<in> set (faddrs fs)" for b
    using nF(2) [OF that] by auto
  note R = foc_node [OF f]
  note fl = write_fields R(3)
  show "par (rbt_replace a (taddr u) s) a = fpar fs" unfolding eq using fu R by (simp add: fl)
  have "trep ?s1 (fpar fs) u"
    by (rule rep_reparent [OF sub a(4)]) (use sub a(6) U in \<open>auto simp: fl nu rep_taddr_nil\<close>)
  moreover have "tctx ?s1 (taddr u) fs"
  proof (rule pctx_redirect [OF ctx D(2)])
    show "case fs of [] \<Rightarrow> root ?s1 = taddr u
      | FL b c r # _ \<Rightarrow> lft ?s1 b = taddr u \<and> rgt ?s1 b = rgt s b \<and> root ?s1 = root s
      | FR l b c # _ \<Rightarrow> rgt ?s1 b = taddr u \<and> lft ?s1 b = lft s b \<and> root ?s1 = root s"
    proof (cases fs rule: faddrs.cases)
      case (3 q b c gs)
      then have "taddr q \<noteq> a" using nF(1) a(2) by (cases q) auto
      with 3 show ?thesis using ctx by (simp add: fl)
    qed (use ctx in \<open>simp_all add: fl\<close>)
  qed (simp_all add: fl nF' nF(1))
  moreover have "mem ?s1 NIL = mem s NIL"
    using fu R by (intro liteco_rbt.equality) (simp_all add: fl)
  moreover have "distinct (addrs (plug fs u))" using a D(2) by (simp add: distinct_plug)
  ultimately show "foc (rbt_replace a (taddr u) s) fs u" unfolding eq by (simp add: foc_def nil)
qed

text \<open>A red node has no child, so its parent simply drops it. A black node gives its colour to its
  only child, after the pass that repairs the black heights.\<close>

lemma unlink_parts:
  assumes f: "foc s fs (PN l a c r)" and inv: "rb_inv (plug fs (PN l a c r))"
    and one: "l = PL \<or> r = PL" and u_def: "u = (if l = PL then r else l)"
  shows "addrs u = addrs l @ addrs r" and "invc u" and "invh u" and "bheight u = 0"
    and "tcol u = RBT_BLACK \<Longrightarrow> u = PL" and "col s (taddr u) = tcol u"
    and "(if lft s a \<noteq> NIL then lft s a else rgt s a) = taddr u"
proof -
  show "addrs u = addrs l @ addrs r" using one by (auto simp: u_def)
  show "invc u" "invh u" "bheight u = 0" using inv one by (auto simp: rb_inv_plug u_def)
  then show "tcol u = RBT_BLACK \<Longrightarrow> u = PL" by (cases u) auto
  show "col s (taddr u) = tcol u"
    using foc_col [of s "FL a c r # fs" l] foc_col [of s "FR l a c # fs" r]
      foc_refocus [OF f, of "FL a c r # fs" l] foc_refocus [OF f, of "FR l a c # fs" r]
    by (auto simp: u_def)
  show "(if lft s a \<noteq> NIL then lft s a else rgt s a) = taddr u"
    using foc_node [OF f] foc_nil_iff [of s "FL a c r # fs" l] foc_refocus [OF f, of "FL a c r # fs" l]
    by (auto simp: u_def)
qed

lemma unlink_red:
  assumes f: "foc s fs (PN l a RBT_RED r)" and inv: "rb_inv (plug fs (PN l a RBT_RED r))"
    and one: "l = PL \<or> r = PL"
  shows "\<exists>s' t'. rbt_unlink a s = Some s' \<and> rbt_holds s' t' \<and> rb_inv t' \<and>
    addrs t' = lefts fs @ addrs l @ addrs r @ rights fs"
proof -
  define u where "u = (if l = PL then r else l)"
  note U = unlink_parts [OF f inv one u_def]
  have u_PL: "u = PL" using inv U(5) by (auto simp: rb_inv_plug u_def)
  have fs: "fs \<noteq> []" using inv by (auto simp: rb_inv_plug)
  have "rbt_unlink a s = Some (rbt_replace a (taddr u) s)"
    using foc_node [OF f] U(7) u_PL by (simp add: rbt_unlink_def Let_def)
  moreover have "rbt_holds (rbt_replace a (taddr u) s) (plug fs u)"
    using foc_replace(1) [OF f one u_def] by (simp add: foc_holds)
  moreover have "rb_inv (plug fs u)"
    using inv U u_PL fs one by (auto simp: rb_inv_plug u_def)
  ultimately show ?thesis by (auto simp: addrs_plug U(1))
qed

lemma unlink_black:
  assumes f: "foc s fs (PN l a RBT_BLACK r)" and inv: "rb_inv (plug fs (PN l a RBT_BLACK r))"
    and one: "l = PL \<or> r = PL"
  shows "\<exists>s' t'. rbt_unlink a s = Some s' \<and> rbt_holds s' t' \<and> rb_inv t' \<and>
    addrs t' = lefts fs @ addrs l @ addrs r @ rights fs"
proof -
  define u where "u = (if l = PL then r else l)"
  note U = unlink_parts [OF f inv one u_def]
  let ?t = "PN l a (tcol u) r"
  have P: "pathc fs" "pathh fs (Suc 0)" using inv one by (auto simp: rb_inv_plug)
  have f1: "foc (set_c a (tcol u) s) fs ?t" using foc_paint [OF f, of "tcol u"] by simp
  from rm1_zrm [OF f1 _ P] zrm_inv [OF P] obtain s1 where
    s1: "rbt_rm1 a (set_c a (tcol u) s) = Some s1" "foc s1 (zrm fs) ?t" "path_ok (zrm fs) 0"
    by auto
  define s2 where "s2 = rbt_replace a (taddr u) s1"
  have s2: "foc s2 (zrm fs) u" "par s2 a = fpar (zrm fs)"
    using foc_replace [OF s1(2) one u_def] by (simp_all add: s2_def)
  define s3 where "s3 = (if fs = [] \<and> u \<noteq> PL then set_c (taddr u) RBT_BLACK s2 else s2)"
  define t' where "t' = (if fs = [] then paint RBT_BLACK u else plug (zrm fs) u)"
  have "fpar (zrm fs) = NIL \<longleftrightarrow> fs = []"
    using s2(1) pctx_fpar_nil [of rb_l rb_r rb_p rb_color "mem s2" _ _ "zrm fs"]
    by (auto simp: foc_def)
  then have "rbt_unlink a s = Some s3"
    using s1(1) foc_node [OF f] U(6,7) s2(2) foc_nil_iff [OF s2(1)]
    by (auto simp: rbt_unlink_def Let_def s2_def [symmetric] s3_def)
  moreover have "rbt_holds s3 t'"
    using s2(1) foc_paint [OF s2(1), of RBT_BLACK] by (cases "u = PL") (auto simp: s3_def t'_def foc_holds)
  moreover have "rb_inv t'"
  proof (cases "fs = []")
    case True
    then show ?thesis using U(2-4) by (simp add: t'_def rb_inv_def)
  next
    case False
    then show ?thesis using U(2-4) s1(3) by (simp add: t'_def rb_inv_plug path_ok_def)
  qed
  moreover have "addrs t' = lefts fs @ addrs l @ addrs r @ rights fs"
    by (simp add: t'_def addrs_plug zrm_order U(1))
  ultimately show ?thesis by blast
qed

theorem unlink_spec:
  assumes "foc s fs (PN l a c r)" and "rb_inv (plug fs (PN l a c r))" and "l = PL \<or> r = PL"
  shows "\<exists>s' t'. rbt_unlink a s = Some s' \<and> rbt_holds s' t' \<and> rb_inv t' \<and>
    addrs t' = lefts fs @ addrs l @ addrs r @ rights fs"
  using assms unlink_red unlink_black by (cases c) blast+

section \<open>Exchanging two nodes\<close>

text \<open>\<open>__assign\<close> renames a node: the record is copied to a fresh place, which takes over the
  position in the tree.\<close>

definition copy_node :: "addr \<Rightarrow> addr \<Rightarrow> rbt_state \<Rightarrow> rbt_state" where
  "copy_node tgt a s = s\<lparr>mem := (mem s)(tgt := mem s a)\<rparr>"

lemma copy_fields:
  "mem (copy_node tgt a s) b = (if b = tgt then mem s a else mem s b)"
  "root (copy_node tgt a s) = root s"
  by (simp_all add: copy_node_def)

lemma assign_alt:
  assumes "tgt \<noteq> a" "par s a \<noteq> a"
  shows "rbt_assign tgt a s =
    set_p' (rgt s a) tgt (set_p' (lft s a) tgt (redirect a tgt (copy_node tgt a s)))"
proof -
  have 1: "(if par s1 a = NIL then s1\<lparr>root := tgt\<rparr> else if lft s1 (par s1 a) = a
      then set_l (par s1 a) tgt s1 else set_r (par s1 a) tgt s1) = redirect a tgt s1" for s1
    by (auto simp: redirect_def)
  have 2: "lft (redirect a tgt (copy_node tgt a s)) a = lft s a"
    "rgt (redirect a tgt (copy_node tgt a s)) a = rgt s a"
    using assms by (simp_all add: redirect_fields copy_fields)
  have 3: "rgt (set_p' x tgt s1) a = rgt s1 a" for x s1 by (simp add: set_p'_fields)
  show ?thesis
    unfolding rbt_assign_def copy_node_def [symmetric] Let_def 1
    using 2 3 by (auto simp: set_p'_def setter_fields)
qed

lemma assign_distinct:
  assumes f: "foc s fs (PN l a c r)" and new: "tgt \<notin> set (addrs (plug fs (PN l a c r)))" "tgt \<noteq> NIL"
  shows "tgt \<noteq> a" "fpar fs \<noteq> a" "fpar fs \<noteq> tgt" "taddr l \<noteq> a" "taddr r \<noteq> a" "taddr l \<noteq> tgt" "taddr r \<noteq> tgt"
    and "distinct (addrs l)" "distinct (addrs r)" "(taddr l = taddr r) = (l = PL \<and> r = PL)"
    and "b \<in> set (addrs l) \<Longrightarrow> b \<noteq> a \<and> b \<noteq> tgt \<and> b \<noteq> fpar fs \<and> b \<noteq> taddr r \<and> b \<noteq> NIL"
    and "b \<in> set (addrs r) \<Longrightarrow> b \<noteq> a \<and> b \<noteq> tgt \<and> b \<noteq> fpar fs \<and> b \<noteq> taddr l \<and> b \<noteq> NIL"
    and "b \<in> set (faddrs fs) \<Longrightarrow> b \<noteq> a \<and> b \<noteq> tgt \<and> \<not> (b = taddr l \<and> NIL < b) \<and> \<not> (b = taddr r \<and> NIL < b)"
proof -
  note D = foc_distinctD [OF f]
  have A: "a \<notin> set (faddrs fs)" "a \<noteq> NIL" "a \<notin> set (addrs l)" "a \<notin> set (addrs r)"
    and T: "tgt \<notin> set (faddrs fs)" "tgt \<noteq> a" "tgt \<notin> set (addrs l)" "tgt \<notin> set (addrs r)"
    and dj: "set (addrs l) \<inter> set (faddrs fs) = {}" "set (addrs r) \<inter> set (faddrs fs) = {}"
      "set (addrs l) \<inter> set (addrs r) = {}" "distinct (addrs l)" "distinct (addrs r)"
      "NIL \<notin> set (addrs l)" "NIL \<notin> set (addrs r)"
    using D new by (auto simp: set_addrs_plug)
  have L: "taddr l = NIL \<or> taddr l \<in> set (addrs l)" by (cases l) auto
  have R: "taddr r = NIL \<or> taddr r \<in> set (addrs r)" by (cases r) auto
  have F: "fpar fs = NIL \<or> fpar fs \<in> set (faddrs fs)" using fpar_in_faddrs [of fs] by (cases fs) auto
  show "tgt \<noteq> a" "distinct (addrs l)" "distinct (addrs r)" using T(2) dj(4,5) .
  show "fpar fs \<noteq> a" "fpar fs \<noteq> tgt" "taddr l \<noteq> a" "taddr r \<noteq> a" "taddr l \<noteq> tgt" "taddr r \<noteq> tgt"
    using F L R A T new(2) by auto
  show "(taddr l = taddr r) = (l = PL \<and> r = PL)"
    using L R dj(3,6,7) by (cases l; cases r) auto
  show "b \<in> set (addrs l) \<Longrightarrow> b \<noteq> a \<and> b \<noteq> tgt \<and> b \<noteq> fpar fs \<and> b \<noteq> taddr r \<and> b \<noteq> NIL"
    using A T dj F R by auto
  show "b \<in> set (addrs r) \<Longrightarrow> b \<noteq> a \<and> b \<noteq> tgt \<and> b \<noteq> fpar fs \<and> b \<noteq> taddr l \<and> b \<noteq> NIL"
    using A T dj F L by auto
  show "b \<in> set (faddrs fs) \<Longrightarrow> b \<noteq> a \<and> b \<noteq> tgt \<and> \<not> (b = taddr l \<and> NIL < b) \<and> \<not> (b = taddr r \<and> NIL < b)"
    using A T dj L R D(5) by auto
qed

lemma foc_assign:
  assumes f: "foc s fs (PN l a c r)" and new: "tgt \<notin> set (addrs (plug fs (PN l a c r)))" "tgt \<noteq> NIL"
  shows "foc (rbt_assign tgt a s) fs (PN l tgt c r)"
proof -
  note D = foc_distinctD [OF f] and X = assign_distinct [OF f new]
  have ctx: "tctx s a fs" and sub: "trep s a l" "trep s a r"
    and nil: "mem s NIL = liteco_rbt_nil_instance" and A: "a \<noteq> NIL"
    using f by (simp_all add: foc_def)
  note rd = foc_node [OF f]
  have par: "par s a \<noteq> a" using rd X(2) by simp
  let ?s1 = "set_p' (taddr r) tgt (set_p' (taddr l) tgt (redirect a tgt (copy_node tgt a s)))"
  have eq: "rbt_assign tgt a s = ?s1" using assign_alt [OF X(1) par] rd by simp
  note fl = write_fields copy_fields rd(3)
  have nF: "b \<noteq> a" "b \<noteq> tgt" "(b = taddr l \<and> NIL < b) = False" "(b = taddr r \<and> NIL < b) = False"
    if "b \<in> set (faddrs fs)" for b
    using X(13) [OF that] by blast+
  have "trep ?s1 tgt l"
    by (rule rep_reparent [OF sub(1) X(8)])
      (use X(1,10,11) sub(1) in \<open>auto simp: fl rep_taddr_nil\<close>)
  moreover have "trep ?s1 tgt r"
    by (rule rep_reparent [OF sub(2) X(9)])
      (use X(1,10,12) sub(2) in \<open>auto simp: fl rep_taddr_nil\<close>)
  moreover have "tctx ?s1 tgt fs"
  proof (rule pctx_redirect [OF ctx D(2)])
    show "case fs of [] \<Rightarrow> root ?s1 = tgt
      | FL b c r # _ \<Rightarrow> lft ?s1 b = tgt \<and> rgt ?s1 b = rgt s b \<and> root ?s1 = root s
      | FR l b c # _ \<Rightarrow> rgt ?s1 b = tgt \<and> lft ?s1 b = lft s b \<and> root ?s1 = root s"
    proof (cases fs rule: faddrs.cases)
      case (3 q b c gs)
      then have "taddr q \<noteq> a" using nF(1) A by (cases q) auto
      with 3 show ?thesis using ctx X(1) nF(2) by (simp add: fl)
    qed (use ctx X(1) nF(2) in \<open>simp_all add: fl\<close>)
  qed (use X(1) in \<open>simp_all add: fl nF\<close>)
  moreover have "mem ?s1 NIL = mem s NIL"
    using X(1-7) new(2) rd by (intro liteco_rbt.equality) (simp_all add: fl)
  moreover have "distinct (addrs (plug fs (PN l tgt c r)))"
    using D new by (auto simp: distinct_plug set_addrs_plug)
  moreover have "lft ?s1 tgt = taddr l" "rgt ?s1 tgt = taddr r" "par ?s1 tgt = fpar fs" "col ?s1 tgt = c"
    using X(1-7) rd new(2) by (auto simp: fl)
  ultimately show ?thesis unfolding eq by (simp add: foc_def nil new)
qed

text \<open>The leftmost node of a subtree, which \<open>__min\<close> finds.\<close>

fun lmost :: "ctree \<Rightarrow> addr" where
  "lmost PL = NIL"
| "lmost (PN l a c r) = (if l = PL then a else lmost l)"

lemma min_loop_lmost:
  "foc s fs t \<Longrightarrow> t \<noteq> PL \<Longrightarrow> rbt_min_loop s (taddr t) = Some (lmost t)"
proof (induction t arbitrary: fs)
  case (PN l a c r)
  have fl: "foc s (FL a c r # fs) l" using PN.prems(1) by (auto elim: foc_refocus)
  then show ?case
    using PN.IH(1) [OF fl] foc_node [OF PN.prems(1)] foc_nil_iff [OF fl]
    by (simp add: rbt_min_loop.simps [of s a])
qed simp

lemma lmost_split:
  "t \<noteq> PL \<Longrightarrow> \<exists>ps c r. t = plug ps (PN PL (lmost t) c r) \<and> lefts ps = []"
proof (induction t)
  case (PN l a c r)
  show ?case
  proof (cases "l = PL")
    case True
    then have "PN l a c r = plug [] (PN PL (lmost (PN l a c r)) c r)" by simp
    then show ?thesis by (metis lefts.simps(1))
  next
    case False
    then obtain ps c' r' where l: "l = plug ps (PN PL (lmost l) c' r')" "lefts ps = []"
      using PN.IH by blast
    have "PN l a c r = plug (ps @ [FL a c r]) (PN PL (lmost (PN l a c r)) c' r')"
      using l(1) False by (simp add: plug_append)
    moreover have "lefts (ps @ [FL a c r]) = []"
      using l(2) by (induction ps rule: lefts.induct) auto
    ultimately show ?thesis by blast
  qed
qed simp

lemma foc_swap:
  assumes f: "foc s fs (PN (plug ps (PN PL m cm mr)) a c r)"
    and new: "mid \<notin> set (addrs (plug fs (PN (plug ps (PN PL m cm mr)) a c r)))" "mid \<noteq> NIL"
  shows "foc (rbt_swap_nodes mid m a s) fs (PN (plug ps (PN PL a cm mr)) m c r)"
proof -
  let ?T = "\<lambda>x y. PN (plug ps (PN PL x cm mr)) y c r" and ?qs = "\<lambda>y. ps @ FL y c r # fs"
  note D = foc_distinctD [OF f]
  have ne: "m \<noteq> NIL" "a \<noteq> NIL" "m \<noteq> a"
    "m \<notin> set (addrs (plug fs (?T mid a)))" "a \<notin> set (addrs (plug fs (?T mid m)))"
    using D new by (auto simp: set_addrs_plug distinct_plug)
  have "foc s (?qs a) (PN PL m cm mr)" using f by (rule foc_refocus) (simp add: plug_append)
  from foc_assign [OF this, of mid] new
  have 1: "foc (rbt_assign mid m s) fs (?T mid a)"
    by (auto simp: plug_append elim: foc_refocus)
  from foc_assign [OF this ne(4,1)]
  have "foc (rbt_assign m a (rbt_assign mid m s)) fs (?T mid m)" .
  then have "foc (rbt_assign m a (rbt_assign mid m s)) (?qs m) (PN PL mid cm mr)"
    by (rule foc_refocus) (simp add: plug_append)
  from foc_assign [OF this, of a] ne
  show ?thesis by (auto simp: plug_append rbt_swap_nodes_def elim: foc_refocus)
qed

section \<open>Removal\<close>

text \<open>The order of the nodes after removing the node between \<open>l\<close> and \<open>r\<close>: with two children its
  place is taken by the leftmost node of \<open>l\<close>.\<close>

definition removal_order :: "ctree \<Rightarrow> ctree \<Rightarrow> addr list" where
  "removal_order l r =
     (if l = PL \<or> r = PL then addrs l @ addrs r else tl (addrs l) @ hd (addrs l) # addrs r)"

text \<open>The invariants do not look at the addresses.\<close>

lemma fcol_rename: "fcol (ps @ FL a c r # fs) = fcol (ps @ FL b c r # fs)"
  by (cases ps rule: faddrs.cases) auto

lemma path_rename:
  "fcol (ps @ FL a c r # fs) = fcol (ps @ FL b c r # fs)"
  "pathc (ps @ FL a c r # fs) = pathc (ps @ FL b c r # fs)"
  "pathh (ps @ FL a c r # fs) n = pathh (ps @ FL b c r # fs) n"
proof -
  show "fcol (ps @ FL a c r # fs) = fcol (ps @ FL b c r # fs)" by (rule fcol_rename)
  show "pathc (ps @ FL a c r # fs) = pathc (ps @ FL b c r # fs)"
    by (induction ps rule: faddrs.induct) (simp_all add: fcol_rename [of _ a c r fs b])
  show "pathh (ps @ FL a c r # fs) n = pathh (ps @ FL b c r # fs) n"
    by (induction ps arbitrary: n rule: faddrs.induct) simp_all
qed

theorem remove_spec:
  assumes f: "rbt_holds s (plug fs (PN l a c r))" and inv: "rb_inv (plug fs (PN l a c r))"
    and new: "mid \<notin> set (addrs (plug fs (PN l a c r)))" "mid \<noteq> NIL"
  shows "\<exists>s' t'. liteco_rbt_remove_impl mid a s = Some (s', a, liteco_rbt_err_success) \<and>
    rbt_holds s' t' \<and> rb_inv t' \<and> addrs t' = lefts fs @ removal_order l r @ rights fs"
proof -
  have foc: "foc s fs (PN l a c r)" using f by (simp add: foc_holds)
  have fl: "foc s (FL a c r # fs) l" and fr: "foc s (FR l a c # fs) r"
    using foc by (auto elim: foc_refocus)
  have two: "lft s a \<noteq> NIL \<and> rgt s a \<noteq> NIL \<longleftrightarrow> l \<noteq> PL \<and> r \<noteq> PL"
    using foc_node [OF foc] foc_nil_iff [OF fl] foc_nil_iff [OF fr] by simp
  show ?thesis
  proof (cases "l = PL \<or> r = PL")
    case True
    obtain s' t' where "rbt_unlink a s = Some s'" "rbt_holds s' t'" "rb_inv t'"
      "addrs t' = lefts fs @ addrs l @ addrs r @ rights fs"
      using unlink_spec [OF foc inv True] by blast
    then show ?thesis
      using True two by (auto simp: liteco_rbt_remove_impl_def removal_order_def)
  next
    case False
    obtain ps cm mr where l: "l = plug ps (PN PL (lmost l) cm mr)" "lefts ps = []"
      using lmost_split [of l] False by auto
    let ?m = "lmost l" and ?s1 = "rbt_swap_nodes mid (lmost l) a s"
    have min: "rbt_min_loop s a = Some ?m"
      using min_loop_lmost [OF foc] False by simp
    have "foc ?s1 fs (PN (plug ps (PN PL a cm mr)) ?m c r)"
      using foc_swap [of s fs ps ?m cm mr a c r mid] foc new l(1) by simp
    then have g: "foc ?s1 (ps @ FL ?m c r # fs) (PN PL a cm mr)"
      by (rule foc_refocus) (simp add: plug_append)
    have "rb_inv (plug (ps @ FL a c r # fs) (PN PL ?m cm mr))"
      using inv l(1) by (simp add: plug_append)
    then have "rb_inv (plug (ps @ FL ?m c r # fs) (PN PL a cm mr))"
      by (simp add: rb_inv_plug path_rename [where a = a and b = ?m])
    from unlink_spec [OF g this] obtain s' t' where
      u: "rbt_unlink a ?s1 = Some s'" "rbt_holds s' t'" "rb_inv t'"
        "addrs t' = lefts (ps @ FL ?m c r # fs) @ addrs mr @ rights (ps @ FL ?m c r # fs)"
      by auto
    have la: "addrs l = ?m # addrs mr @ rights ps"
      by (subst l(1)) (simp add: addrs_plug l(2))
    have "lefts (ps @ FL ?m c r # fs) = lefts fs @ lefts ps"
      "rights (ps @ FL ?m c r # fs) = rights ps @ ?m # addrs r @ rights fs"
      by (induction ps rule: faddrs.induct) auto
    then have "addrs t' = lefts fs @ removal_order l r @ rights fs"
      using u(4) la l(2) False by (simp add: removal_order_def)
    then show ?thesis
      using u min two False by (auto simp: liteco_rbt_remove_impl_def)
  qed
qed

end
