(* ===== verification/Rbt_Props.thy ===== *)
theory Rbt_Props
  imports Rbt_Insert Rbt_Remove
begin

text \<open>
  The correctness properties of the red-black tree, stated over the code's definitions and
  the callbacks of the library. They follow from the contract lemmas of \<open>Rbt_Search\<close>,
  \<open>Rbt_Insert\<close> and \<open>Rbt_Remove\<close> through the interpretations of \<open>rbt_cmp\<close>.
\<close>

section \<open>A well-formed tree\<close>

text \<open>The memory holds a search tree with the red-black invariants.\<close>

definition rbt_wf :: "(addr \<Rightarrow> 'o::linorder) \<Rightarrow> rbt_state \<Rightarrow> ctree \<Rightarrow> bool" where
  "rbt_wf nk s t \<longleftrightarrow> rbt_holds s t \<and> rb_inv t \<and> key_sorted nk (addrs t)"

section \<open>Losing a key\<close>

lemma descend_in:
  "taddr (snd (descend cb k fs t)) = NIL \<or> taddr (snd (descend cb k fs t)) \<in> set (addrs t)"
  by (induction cb k fs t rule: descend.induct) (auto split: liteco_rbt_cmp_result.splits)

context rbt_cmp
begin

text \<open>A tree in which every node is found under its own key is in order: what is not in
  order hides a node.\<close>

lemma all_found_sorted:
  assumes "\<forall>a\<in>set (addrs t). taddr (snd (descend cb (kf a) fs t)) = a"
    and "\<forall>a. kv (kf a) = nk a" and "distinct (addrs t)" and "NIL \<notin> set (addrs t)"
  shows "key_sorted nk (addrs t)"
  using assms
proof (induction t arbitrary: fs)
  case PL
  show ?case by (simp add: key_sorted_def)
next
  case (PN l a c r)
  have all: "taddr (snd (descend cb (kf x) fs (PN l a c r))) = x"
    if "x \<in> set (addrs (PN l a c r))" for x
    using PN.prems(1) that by blast
  have L: "cb (kf x) a = RBT_LS" if x: "x \<in> set (addrs l)" for x
  proof (cases "cb (kf x) a")
    case RBT_GT
    then have "taddr (snd (descend cb (kf x) (FR l a c # fs) r)) = x"
      using all [of x] x by simp
    then have "x \<in> set (addrs r)" using descend_in [of cb "kf x" "FR l a c # fs" r] PN.prems(4) x by auto
    then show ?thesis using PN.prems(3) x by auto
  qed (use all [of x] PN.prems(3) x in auto)
  have R: "cb (kf x) a = RBT_GT" if x: "x \<in> set (addrs r)" for x
  proof (cases "cb (kf x) a")
    case RBT_LS
    then have "taddr (snd (descend cb (kf x) (FL a c r # fs) l)) = x"
      using all [of x] x by simp
    then have "x \<in> set (addrs l)" using descend_in [of cb "kf x" "FL a c r # fs" l] PN.prems(4) x by auto
    then show ?thesis using PN.prems(3) x by auto
  qed (use all [of x] PN.prems(3) x in auto)
  have "key_sorted nk (addrs l)"
  proof (rule PN.IH(1) [of "FL a c r # fs"])
    show "\<forall>x\<in>set (addrs l). taddr (snd (descend cb (kf x) (FL a c r # fs) l)) = x"
      using L all by fastforce
  qed (use PN.prems in auto)
  moreover have "key_sorted nk (addrs r)"
  proof (rule PN.IH(2) [of "FR l a c # fs"])
    show "\<forall>x\<in>set (addrs r). taddr (snd (descend cb (kf x) (FR l a c # fs) r)) = x"
      using R all by fastforce
  qed (use PN.prems in auto)
  moreover have "\<forall>x\<in>set (addrs l). nk x < nk a" using L PN.prems(2) cb_ls by metis
  moreover have "\<forall>x\<in>set (addrs r). nk a < nk x" using R PN.prems(2) cb_gt by metis
  ultimately show ?case by (simp add: key_sorted_mid)
qed

lemma unsorted_hides:
  assumes "rbt_holds s t" "\<not> key_sorted nk (addrs t)" "inj_on nk (set (addrs t))"
    and kf: "\<forall>a. kv (kf a) = nk a"
  shows "\<exists>a\<in>set (addrs t). liteco_rbt_find_impl cb (kf a) s = Some NIL"
proof -
  have f: "foc s [] t" and root: "root s = taddr t"
    using assms(1) by (simp_all add: foc_holds rbt_holds_def)
  note D = foc_distinctD [OF f]
  obtain a where a: "a \<in> set (addrs t)" "taddr (snd (descend cb (kf a) [] t)) \<noteq> a"
    using all_found_sorted [of t kf "[]"] D assms(2) kf by auto
  obtain gs u where d: "descend cb (kf a) [] t = (gs, u)" by fastforce
  have "u = PL"
  proof (cases u)
    case (PN l b c r)
    then have "cb (kf a) b = RBT_EQ" using descend_found [of cb "kf a" "[]" t gs l b c r] d by simp
    then have "nk a = nk b" using kf by (simp add: cb_eq)
    moreover have "b \<in> set (addrs t)"
      using descend_in [of cb "kf a" "[]" t] d PN D(4) descend_plug [OF d] by (auto simp: addrs_plug)
    ultimately show ?thesis using assms(3) a d PN by (auto dest: inj_onD)
  qed
  then show ?thesis
    using find_loop_descend [OF f, of cb "kf a"] d a(1)
    by (intro bexI [of _ a]) (simp_all add: liteco_rbt_find_impl_def root)
qed

end

text \<open>The order after a removal: right only when the left subtree is at most one node or the
  right one is empty.\<close>

lemma removal_order_sorted:
  assumes "key_sorted nk (xs @ addrs l @ a # addrs r @ ys)"
  shows "key_sorted nk (xs @ removal_order l r @ ys) \<longleftrightarrow>
    l = PL \<or> r = PL \<or> length (addrs l) = 1"
proof -
  have s: "key_sorted nk (xs @ addrs l @ addrs r @ ys)"
    using assms key_sorted_mid [of nk "xs @ addrs l" a "addrs r @ ys"]
    by (auto simp: key_sorted_def sorted_wrt_append)
  show ?thesis
  proof (cases "l = PL \<or> r = PL")
    case False
    then obtain m zs where m: "addrs l = m # zs" by (cases l; cases "addrs l") auto
    show ?thesis
    proof (cases zs)
      case Nil
      then show ?thesis using s False m by (simp add: removal_order_def)
    next
      case (Cons z zs')
      have "nk m < nk z" using s m Cons by (simp add: key_sorted_def sorted_wrt_append)
      then have "\<not> key_sorted nk (xs @ (z # zs' @ [m]) @ addrs r @ ys)"
        by (auto simp: key_sorted_def sorted_wrt_append)
      then show ?thesis using False m Cons by (simp add: removal_order_def)
    qed
  qed (use s in \<open>auto simp: removal_order_def\<close>)
qed

lemma removal_order_set:
  "set (removal_order l r) = set (addrs l) \<union> set (addrs r)"
proof (cases "addrs l")
  case Nil
  then show ?thesis by (cases l) (auto simp: removal_order_def)
qed (auto simp: removal_order_def)

lemma key_sorted_inj: "key_sorted nk xs \<Longrightarrow> inj_on nk (set xs)"
proof (induction xs)
  case (Cons x xs)
  then have "inj_on nk (set xs)" "nk x \<notin> nk ` set xs"
    by (auto simp: key_sorted_def)
  then show ?case by auto
qed simp

section \<open>A concrete tree\<close>

text \<open>Four nodes, with the keys equal to their addresses, for the witnesses.\<close>

definition demo_node :: "addr \<Rightarrow> addr \<Rightarrow> addr \<Rightarrow> liteco_rbt_color \<Rightarrow> liteco_rbt" where
  "demo_node p l r c = \<lparr>rb_p = p, rb_r = r, rb_l = l, morris_link = NIL, rb_color = c\<rparr>"

definition demo_tree :: ctree where
  "demo_tree = PN (PN (PN PL 1 RBT_RED PL) 2 RBT_BLACK PL) 3 RBT_BLACK (PN PL 4 RBT_BLACK PL)"

definition demo_state :: rbt_state where
  "demo_state = \<lparr>root = 3, mem = (\<lambda>a.
     if a = 1 then demo_node 2 NIL NIL RBT_RED else if a = 2 then demo_node 3 1 NIL RBT_BLACK
     else if a = 3 then demo_node NIL 2 4 RBT_BLACK else if a = 4 then demo_node 3 NIL NIL RBT_BLACK
     else if a = NIL then liteco_rbt_nil_instance else liteco_rbt_node_init)\<rparr>"

definition demo_key :: "addr \<Rightarrow> u64" where
  "demo_key a = of_nat a"

lemma demo_holds: "rbt_holds demo_state demo_tree" "rb_inv demo_tree"
  by (simp_all add: rbt_holds_def demo_state_def demo_tree_def demo_node_def rb_inv_def)

lemma demo_wf: "rbt_wf demo_key demo_state demo_tree"
  using demo_holds
  by (simp add: rbt_wf_def key_sorted_def demo_tree_def demo_key_def)

lemma demo_free: "mem demo_state 5 = liteco_rbt_node_init"
  by (simp add: demo_state_def)


section \<open>Properties\<close>

text \<open>C1: inserting a node under a new \<open>uint64_t\<close> key succeeds, ends, keeps the tree a
  sorted red-black tree and adds exactly that node.\<close>

theorem uint64_insert_new:
  assumes "rbt_wf keys s t" and "keys node \<notin> keys ` set (addrs t)"
    and "node \<noteq> NIL" and "mem s node = liteco_rbt_node_init" and "node \<notin> set (addrs t)"
  shows "\<exists>s' t'. liteco_rbt_insert_impl (\<lambda>k a. liteco_rbt_uint64_cmp_cb k (keys a)) (keys node) node s
      = Some (s', liteco_rbt_err_success) \<and>
    rbt_wf keys s' t' \<and> set (addrs t') = insert node (set (addrs t))"
  using uint64.insert_success [of s t keys "keys node" node] assms
  by (fastforce simp: rbt_wf_def)

lemma uint64_insert_new_witness:
  "\<exists>s' t'. liteco_rbt_insert_impl (\<lambda>k a. liteco_rbt_uint64_cmp_cb k (demo_key a)) (demo_key 5) 5 demo_state
      = Some (s', liteco_rbt_err_success) \<and>
    rbt_wf demo_key s' t' \<and> set (addrs t') = {1, 2, 3, 4, 5}"
proof -
  have "insert 5 (set (addrs demo_tree)) = {1, 2, 3, 4, 5}"
    by (auto simp: demo_tree_def)
  then show ?thesis
    using uint64_insert_new [OF demo_wf, of 5] demo_free
    by (simp add: demo_tree_def demo_key_def)
qed

text \<open>Inserting under a key that is present reports the conflict and leaves the memory
  and the root alone.\<close>

theorem uint64_insert_conflict:
  assumes "rbt_wf keys s t" and "k \<in> keys ` set (addrs t)"
  shows "liteco_rbt_insert_impl (\<lambda>k a. liteco_rbt_uint64_cmp_cb k (keys a)) k node s
      = Some (s, liteco_rbt_err_conflict)"
  using uint64.insert_conflict [of s t keys k node] assms by (simp add: rbt_wf_def)

lemma uint64_insert_conflict_witness:
  "liteco_rbt_insert_impl (\<lambda>k a. liteco_rbt_uint64_cmp_cb k (demo_key a)) 4 5 demo_state
      = Some (demo_state, liteco_rbt_err_conflict)"
  by (rule uint64_insert_conflict [OF demo_wf]) (simp add: demo_tree_def demo_key_def)

text \<open>A search ends and returns the node with the key when there is one and the sentinel
  otherwise.\<close>

theorem uint64_find:
  assumes "rbt_wf keys s t"
  shows "\<exists>a. liteco_rbt_find_impl (\<lambda>k a. liteco_rbt_uint64_cmp_cb k (keys a)) k s = Some a \<and>
    (if k \<in> keys ` set (addrs t) then a \<in> set (addrs t) \<and> keys a = k else a = NIL)"
  using uint64.find_spec [of s t keys k] assms by (auto simp: rbt_wf_def split: if_splits)

lemma uint64_find_witness:
  "\<exists>a. liteco_rbt_find_impl (\<lambda>k a. liteco_rbt_uint64_cmp_cb k (demo_key a)) 2 demo_state = Some a \<and>
    a \<in> {1, 2, 3, 4} \<and> demo_key a = 2"
  using uint64_find [OF demo_wf, of 2] by (simp add: demo_tree_def demo_key_def insert_commute)

text \<open>With \<open>int\<close> keys a search finds a node exactly when the low 32 bits of the
  searched value are its key, whatever stands in the upper 32 bits.\<close>

theorem int_find:
  assumes "rbt_wf (\<lambda>a. sint (keys a)) s t"
  shows "\<exists>a. liteco_rbt_find_impl (\<lambda>k a. liteco_rbt_int_cmp_cb k (keys a)) k s = Some a \<and>
    (if ucast k \<in> keys ` set (addrs t) then a \<in> set (addrs t) \<and> keys a = ucast k else a = NIL)"
proof -
  have eq: "sint (ucast k :: u32) = sint v \<longleftrightarrow> ucast k = v" for v :: u32
    using signed_word_eqI by blast
  then have im: "sint (ucast k :: u32) \<in> (\<lambda>a. sint (keys a)) ` set (addrs t) \<longleftrightarrow>
      ucast k \<in> keys ` set (addrs t)"
    by (simp add: image_iff)
  obtain a where a: "liteco_rbt_find_impl (\<lambda>k a. liteco_rbt_int_cmp_cb k (keys a)) k s = Some a"
    "if ucast k \<in> keys ` set (addrs t)
     then a \<in> set (addrs t) \<and> sint (ucast k :: u32) = sint (keys a) else a = NIL"
    using int32.find_spec [of s t keys k] assms im unfolding rbt_wf_def
    by (metis (no_types, lifting))
  then show ?thesis
    using eq [of "keys a"] by (intro exI [of _ a]) (auto split: if_splits)
qed

lemma int_find_witness:
  "\<exists>a. liteco_rbt_find_impl (\<lambda>k a. liteco_rbt_int_cmp_cb k (of_nat a)) (2 ^ 40 + 2) demo_state = Some a \<and>
    a \<in> {1, 2, 3, 4} \<and> (of_nat a :: u32) = 2"
proof -
  have "rbt_wf (\<lambda>a. sint (of_nat a :: u32)) demo_state demo_tree"
    using demo_holds by (simp add: rbt_wf_def key_sorted_def demo_tree_def)
  moreover have "(ucast (2 ^ 40 + 2 :: u64) :: u32) = 2" by simp
  moreover have "(2 :: u32) \<in> of_nat ` set (addrs demo_tree)"
    by (simp add: demo_tree_def)
  moreover have "set (addrs demo_tree) = {1, 2, 3, 4}" by (auto simp: demo_tree_def)
  ultimately show ?thesis
    using int_find [of "of_nat" demo_state demo_tree "2 ^ 40 + 2"] by metis
qed

text \<open>C2: a removal ends and succeeds, the red-black invariants hold afterwards, and exactly
  the node it was asked to remove is gone.\<close>

theorem remove_balanced:
  assumes "rbt_holds s t" and "rb_inv t" and "a \<in> set (addrs t)"
    and "mid \<notin> set (addrs t)" and "mid \<noteq> NIL"
  shows "\<exists>s' t'. liteco_rbt_remove_impl mid a s = Some (s', a, liteco_rbt_err_success) \<and>
    rbt_holds s' t' \<and> rb_inv t' \<and> set (addrs t') = set (addrs t) - {a}"
proof -
  obtain fs l c r where t: "t = plug fs (PN l a c r)" using in_addrs_plug [OF assms(3)] by blast
  have "distinct (addrs t)" using assms(1) by (simp add: rbt_holds_def)
  then have d: "set (lefts fs @ removal_order l r @ rights fs) = set (addrs t) - {a}"
    by (auto simp: t addrs_plug removal_order_set)
  show ?thesis
    using remove_spec [of s fs l a c r mid] assms d by (fastforce simp: t)
qed

lemma remove_balanced_witness:
  "\<exists>s' t'. liteco_rbt_remove_impl 9 3 demo_state = Some (s', 3, liteco_rbt_err_success) \<and>
    rbt_holds s' t' \<and> rb_inv t' \<and> set (addrs t') = {1, 2, 4}"
proof -
  have "set (addrs demo_tree) - {3} = {1, 2, 4}" by (auto simp: demo_tree_def)
  then show ?thesis
    using remove_balanced [OF demo_holds, of 3 9] by (simp add: demo_tree_def)
qed

text \<open>C3: a removal keeps the order of the keys exactly when the removed node has a missing
  child or a left subtree of one node: the node that takes its place is the leftmost of its left
  subtree, not its successor.\<close>

theorem remove_order:
  assumes "rbt_wf keys s (plug fs (PN l a c r))" and "mid \<notin> set (addrs (plug fs (PN l a c r)))"
    and "mid \<noteq> NIL"
  shows "\<exists>s' t'. liteco_rbt_remove_impl mid a s = Some (s', a, liteco_rbt_err_success) \<and>
    rbt_holds s' t' \<and> (rbt_wf keys s' t' \<longleftrightarrow> l = PL \<or> r = PL \<or> length (addrs l) = 1)"
proof -
  obtain s' t' where r: "liteco_rbt_remove_impl mid a s = Some (s', a, liteco_rbt_err_success)"
    "rbt_holds s' t'" "rb_inv t'" "addrs t' = lefts fs @ removal_order l r @ rights fs"
    using remove_spec [of s fs l a c r mid] assms by (auto simp: rbt_wf_def)
  have "key_sorted keys (lefts fs @ addrs l @ a # addrs r @ rights fs)"
    using assms(1) by (simp add: rbt_wf_def addrs_plug)
  from removal_order_sorted [OF this] r show ?thesis by (auto simp: rbt_wf_def)
qed

lemma remove_order_witness:
  "\<exists>s' t'. liteco_rbt_remove_impl 9 3 demo_state = Some (s', 3, liteco_rbt_err_success) \<and>
    rbt_holds s' t' \<and> \<not> rbt_wf demo_key s' t'"
  using remove_order [of demo_key demo_state "[]" "PN (PN PL 1 RBT_RED PL) 2 RBT_BLACK PL" 3
      RBT_BLACK "PN PL 4 RBT_BLACK PL" 9] demo_wf
  by (simp add: demo_tree_def)

text \<open>After removing a node with two children whose left subtree has more than one node,
  some node that is still in the tree is not found under its own key.\<close>

theorem remove_loses_key:
  assumes "rbt_wf keys s (plug fs (PN l a c r))" and "mid \<notin> set (addrs (plug fs (PN l a c r)))"
    and "mid \<noteq> NIL" and "1 < length (addrs l)" and "r \<noteq> PL"
  shows "\<exists>s' t' b. liteco_rbt_remove_impl mid a s = Some (s', a, liteco_rbt_err_success) \<and>
    rbt_holds s' t' \<and> b \<in> set (addrs t') \<and>
    liteco_rbt_find_impl (\<lambda>k a. liteco_rbt_uint64_cmp_cb k (keys a)) (keys b) s' = Some NIL"
proof -
  obtain s' t' where r: "liteco_rbt_remove_impl mid a s = Some (s', a, liteco_rbt_err_success)"
    "rbt_holds s' t'" "addrs t' = lefts fs @ removal_order l r @ rights fs"
    using remove_spec [of s fs l a c r mid] assms by (auto simp: rbt_wf_def)
  have srt: "key_sorted keys (lefts fs @ addrs l @ a # addrs r @ rights fs)"
    using assms(1) by (simp add: rbt_wf_def addrs_plug)
  have "inj_on keys (set (addrs t'))"
    using key_sorted_inj [OF srt]
    by (rule inj_on_subset) (auto simp: r(3) removal_order_set)
  moreover have "\<not> key_sorted keys (addrs t')"
    using removal_order_sorted [OF srt] assms(4,5) by (auto simp: r(3))
  ultimately obtain b where "b \<in> set (addrs t')"
    "liteco_rbt_find_impl (\<lambda>k a. liteco_rbt_uint64_cmp_cb k (keys a)) (keys b) s' = Some NIL"
    using uint64.unsorted_hides [OF r(2), of keys keys] by auto
  then show ?thesis using r(1,2) by blast
qed

lemma remove_loses_key_witness:
  "\<exists>s' t' b. liteco_rbt_remove_impl 9 3 demo_state = Some (s', 3, liteco_rbt_err_success) \<and>
    rbt_holds s' t' \<and> b \<in> set (addrs t') \<and>
    liteco_rbt_find_impl (\<lambda>k a. liteco_rbt_uint64_cmp_cb k (demo_key a)) (demo_key b) s' = Some NIL"
  using remove_loses_key [of demo_key demo_state "[]" "PN (PN PL 1 RBT_RED PL) 2 RBT_BLACK PL" 3
      RBT_BLACK "PN PL 4 RBT_BLACK PL" 9] demo_wf
  by (simp add: demo_tree_def)

end
