(* ===== verification/Coroutine.thy ===== *)
theory Coroutine
  imports Prelude
begin

text \<open>
  Coroutines (\<open>src/lc_coroutine.c\<close>): the status automaton, \<open>liteco_set_status\<close> with its spin
  loop, \<open>liteco_resume\<close>, \<open>liteco_yield\<close> and the stack of finish callbacks.

  The user's code is not part of the library, and \<open>liteco_context_swap\<close> runs it: what a
  coroutine does between two switches is the parameter \<open>seg\<close> of the definitions. \<open>seg co w\<close>
  is the world after the coroutine \<open>co\<close> has run from \<open>w\<close> up to its next switch, with \<open>None\<close>
  when it called \<open>liteco_yield\<close> and \<open>Some r\<close> when its callback returned \<open>r\<close>; it has no
  result when the user's code does not reach a switch. Finish callbacks are the parameter
  \<open>fin\<close>.

  The result \<open>None\<close> of an operation means that the call does not return when no other thread
  intervenes: a spin loop without end, or a crash on a null pointer.
\<close>

section \<open>State\<close>

datatype liteco_status =
  STATUS_UNKNOW | STATUS_STARTING | STATUS_READY | STATUS_RUNNING | STATUS_WAITING | STATUS_TERMINATE

text \<open>\<open>p_ctx\<close> is the context to switch back to: that of the coroutine that called
  \<open>liteco_resume\<close>, or the thread's own.\<close>

datatype ctxref = NoCtx | DefaultCtx | CoCtx addr

record liteco_co =
  co_p_ctx :: ctxref
  co_st :: addr
  co_st_size :: u64
  co_status :: liteco_status
  co_cb :: addr
  co_arg :: addr
  co_fin_st :: "(addr \<times> addr) list"
  co_ret :: int

record co_world =
  this_co :: addr
  cos :: "addr \<Rightarrow> liteco_co"

type_synonym 'w segment = "addr \<Rightarrow> 'w \<Rightarrow> ('w \<times> int option) option"
type_synonym 'w callback = "addr \<Rightarrow> addr \<Rightarrow> 'w \<Rightarrow> 'w"

abbreviation status_of :: "'a co_world_scheme \<Rightarrow> addr \<Rightarrow> liteco_status" where
  "status_of w c \<equiv> co_status (cos w c)"

definition upd_co :: "addr \<Rightarrow> (liteco_co \<Rightarrow> liteco_co) \<Rightarrow> 'a co_world_scheme \<Rightarrow> 'a co_world_scheme" where
  "upd_co c f w = w\<lparr>cos := (cos w)(c := f (cos w c))\<rparr>"

definition put_status :: "addr \<Rightarrow> liteco_status \<Rightarrow> 'a co_world_scheme \<Rightarrow> 'a co_world_scheme" where
  "put_status c st w = upd_co c (\<lambda>r. r\<lparr>co_status := st\<rparr>) w"

section \<open>The spin loop of liteco_set_status\<close>

text \<open>Other threads may write the status: \<open>env k\<close> is what the \<open>k\<close>-th access to it reads,
  \<open>clk c\<close> the \<open>c\<close>-th reading of the clock in microseconds. The result is the access at which
  the compare-and-swap succeeded.\<close>

fun spin_wait :: "(nat \<Rightarrow> liteco_status) \<Rightarrow> liteco_status \<Rightarrow> nat \<Rightarrow> nat \<Rightarrow> nat" where
  "spin_wait env fr 0 k = k"
| "spin_wait env fr (Suc x) k = (if env k \<noteq> fr then spin_wait env fr x (Suc k) else Suc k)"

partial_function (option) set_status_loop ::
    "(nat \<Rightarrow> liteco_status) \<Rightarrow> (nat \<Rightarrow> u64) \<Rightarrow> liteco_status \<Rightarrow> nat \<Rightarrow> u64 \<Rightarrow> nat \<Rightarrow> nat \<Rightarrow> nat option" where
  "set_status_loop env clk fr i nex k c =
     (if env k = fr then Some k
      else (let (nex1, c1) = (if i = 0 then (clk c + 5, Suc c) else (nex, c))
            in if clk c1 < nex1
               then set_status_loop env clk fr (Suc i) nex1 (spin_wait env fr 10 (Suc k)) (Suc c1)
               else set_status_loop env clk fr (Suc i) (clk (Suc c1) + 2) (Suc k) (Suc (Suc c1))))"

declare set_status_loop.simps [code]

definition set_status_spin ::
    "(nat \<Rightarrow> liteco_status) \<Rightarrow> (nat \<Rightarrow> u64) \<Rightarrow> liteco_status \<Rightarrow> nat option" where
  "set_status_spin env clk fr = set_status_loop env clk fr 0 0 0 0"

text \<open>On one thread nobody else writes the status: the first compare-and-swap succeeds or the
  loop does not end (\<open>spin_const\<close> below).\<close>

definition liteco_set_status ::
    "addr \<Rightarrow> liteco_status \<Rightarrow> liteco_status \<Rightarrow> 'a co_world_scheme \<Rightarrow> 'a co_world_scheme option" where
  "liteco_set_status c fr to w =
     (if fr = STATUS_WAITING \<and> status_of w c = STATUS_RUNNING then Some w
      else if status_of w c = fr then Some (put_status c to w)
      else None)"

section \<open>Operations\<close>

definition liteco_co_init :: "addr \<Rightarrow> addr \<Rightarrow> addr \<Rightarrow> addr \<Rightarrow> u64 \<Rightarrow> 'a co_world_scheme \<Rightarrow> 'a co_world_scheme \<times> int" where
  "liteco_co_init c cb arg st st_size w =
     (upd_co c (\<lambda>_. \<lparr>co_p_ctx = NoCtx, co_st = st, co_st_size = st_size, co_status = STATUS_STARTING,
        co_cb = cb, co_arg = arg, co_fin_st = [], co_ret = 0\<rparr>) w, 0)"

text \<open>\<open>ok\<close> is the outcome of \<open>malloc\<close>, which the code does not check.\<close>

definition liteco_co_finished ::
    "bool \<Rightarrow> addr \<Rightarrow> addr \<Rightarrow> addr \<Rightarrow> 'a co_world_scheme \<Rightarrow> 'a co_world_scheme option" where
  "liteco_co_finished ok c cb arg w =
     (if ok then Some (upd_co c (\<lambda>r. r\<lparr>co_fin_st := (cb, arg) # co_fin_st r\<rparr>) w) else None)"

text \<open>The part of \<open>liteco_yield\<close> before the switch.\<close>

definition liteco_yield :: "'a co_world_scheme \<Rightarrow> 'a co_world_scheme" where
  "liteco_yield w =
     (let c = this_co w in
      if status_of w c = STATUS_RUNNING then put_status c STATUS_READY w else w)"

text \<open>The code around the user's callback (\<open>liteco_run\<close>), from one switch to the next: the
  callback yields, or it returns and the coroutine is terminated.\<close>

definition liteco_run ::
    "'a co_world_scheme segment \<Rightarrow> addr \<Rightarrow> 'a co_world_scheme \<Rightarrow> 'a co_world_scheme option" where
  "liteco_run seg c w =
     (case seg c w of
        None \<Rightarrow> None
      | Some (w1, None) \<Rightarrow> Some (liteco_yield w1)
      | Some (w1, Some r) \<Rightarrow>
          (case liteco_set_status c STATUS_RUNNING STATUS_TERMINATE (upd_co c (\<lambda>x. x\<lparr>co_ret := r\<rparr>) w1) of
             None \<Rightarrow> None
           | Some w2 \<Rightarrow> Some (liteco_yield w2)))"

partial_function (option) run_finished ::
    "'a co_world_scheme callback \<Rightarrow> addr \<Rightarrow> 'a co_world_scheme \<Rightarrow> 'a co_world_scheme option" where
  "run_finished fin c w =
     (case co_fin_st (cos w c) of
        [] \<Rightarrow> Some w
      | (cb, arg) # fs \<Rightarrow>
          run_finished fin c (fin cb arg (upd_co c (\<lambda>r. r\<lparr>co_fin_st := fs\<rparr>) w)))"

declare run_finished.simps [code]

definition liteco_resume ::
    "'a co_world_scheme segment \<Rightarrow> 'a co_world_scheme callback \<Rightarrow> addr \<Rightarrow> 'a co_world_scheme \<Rightarrow>
     ('a co_world_scheme \<times> liteco_status) option" where
  "liteco_resume seg fin c w =
     (if status_of w c = STATUS_TERMINATE then Some (w, STATUS_TERMINATE)
      else
        (let w1 = (if status_of w c = STATUS_STARTING then put_status c STATUS_READY w else w);
             rem_co = this_co w1;
             w2 = upd_co c (\<lambda>r. r\<lparr>co_p_ctx := (if rem_co \<noteq> NIL then CoCtx rem_co else DefaultCtx)\<rparr>) w1;
             w3 = w2\<lparr>this_co := c\<rparr>
         in case liteco_set_status c STATUS_READY STATUS_RUNNING w3 of
              None \<Rightarrow> None
            | Some w4 \<Rightarrow>
                (case liteco_run seg c w4 of
                   None \<Rightarrow> None
                 | Some w5 \<Rightarrow>
                     (let w6 = w5\<lparr>this_co := rem_co\<rparr>
                      in if status_of w6 c = STATUS_TERMINATE
                         then map_option (\<lambda>w7. (w7, STATUS_TERMINATE)) (run_finished fin c w6)
                         else Some (w6, status_of w6 c)))))"

section \<open>Reading the world\<close>

lemma upd_co_fields [simp]:
  "cos (upd_co c f w) d = (if d = c then f (cos w c) else cos w d)"
  "this_co (upd_co c f w) = this_co w" "co_world.more (upd_co c f w) = co_world.more w"
  by (simp_all add: upd_co_def)

lemma put_status_fields [simp]:
  "status_of (put_status c st w) d = (if d = c then st else status_of w d)"
  "co_fin_st (cos (put_status c st w) d) = co_fin_st (cos w d)"
  "co_ret (cos (put_status c st w) d) = co_ret (cos w d)"
  "co_p_ctx (cos (put_status c st w) d) = co_p_ctx (cos w d)"
  "co_cb (cos (put_status c st w) d) = co_cb (cos w d)"
  "co_arg (cos (put_status c st w) d) = co_arg (cos w d)"
  "this_co (put_status c st w) = this_co w" "co_world.more (put_status c st w) = co_world.more w"
  by (simp_all add: put_status_def)

section \<open>The spin loop\<close>

lemma spin_wait_ge: "k \<le> spin_wait env fr x k"
proof (induction x arbitrary: k)
  case (Suc x)
  then show ?case using Suc.IH [of "Suc k"] by (simp add: Suc_leD)
qed simp

lemma set_status_loop_sound:
  assumes "set_status_loop env clk fr i nex k c = Some j"
  shows "env j = fr \<and> k \<le> j"
proof (rule set_status_loop.raw_induct [OF _ assms, of "\<lambda>env clk fr i nex k c j. env j = fr \<and> k \<le> j"])
  fix loop env clk fr i nex k c j
  assume IH: "\<And>env clk fr i nex k c j. loop env clk fr i nex k c = Some j \<Longrightarrow> env j = fr \<and> k \<le> j"
    and b: "(if env k = fr then Some k
      else (let (nex1, c1) = (if i = 0 then (clk c + 5, Suc c) else (nex, c))
            in if clk c1 < nex1
               then loop env clk fr (Suc i) nex1 (spin_wait env fr 10 (Suc k)) (Suc c1)
               else loop env clk fr (Suc i) (clk (Suc c1) + 2) (Suc k) (Suc (Suc c1)))) = Some j"
  have g: "k \<le> spin_wait env fr 10 (Suc k)" using spin_wait_ge [of "Suc k" env fr 10] by simp
  show "env j = fr \<and> k \<le> j"
    using b g by (auto simp: Let_def split: if_splits dest!: IH)
qed

lemma set_status_loop_live:
  assumes "\<forall>k\<ge>K. env k = fr"
  shows "\<exists>j. set_status_loop env clk fr i nex k c = Some j"
proof (induction "K - k" arbitrary: i nex k c rule: less_induct)
  case less
  show ?case
  proof (cases "env k = fr")
    case True
    then show ?thesis by (simp add: set_status_loop.simps)
  next
    case False
    then have k: "k < K" using assms by (meson not_less)
    have g: "Suc k \<le> spin_wait env fr 10 (Suc k)" by (rule spin_wait_ge)
    show ?thesis
      using less [of "spin_wait env fr 10 (Suc k)"] less [of "Suc k"] k g False
      by (subst set_status_loop.simps) (auto simp: Let_def)
  qed
qed

text \<open>The spin of a thread that is alone.\<close>

lemma spin_const:
  "set_status_spin (\<lambda>_. st) clk fr = (if st = fr then Some 0 else None)"
proof (cases "st = fr")
  case True
  then show ?thesis by (simp add: set_status_spin_def set_status_loop.simps)
next
  case False
  then show ?thesis
    using set_status_loop_sound [of "\<lambda>_. st" clk fr 0 0 0 0]
    by (cases "set_status_loop (\<lambda>_. st) clk fr 0 0 0 0") (auto simp: set_status_spin_def)
qed

section \<open>Resuming\<close>

text \<open>The world in which the segment of a coroutine starts.\<close>

definition entered :: "addr \<Rightarrow> 'a co_world_scheme \<Rightarrow> 'a co_world_scheme" where
  "entered c w =
     (upd_co c (\<lambda>r. r\<lparr>co_p_ctx := (if this_co w \<noteq> NIL then CoCtx (this_co w) else DefaultCtx),
        co_status := STATUS_RUNNING\<rparr>) w)\<lparr>this_co := c\<rparr>"

lemma entered_fields [simp]:
  "status_of (entered c w) d = (if d = c then STATUS_RUNNING else status_of w d)"
  "co_fin_st (cos (entered c w) d) = co_fin_st (cos w d)"
  "this_co (entered c w) = c" "co_world.more (entered c w) = co_world.more w"
  by (simp_all add: entered_def)

lemma co_world_put:
  "put_status c a (put_status c b w) = put_status c a w"
  "put_status c st (upd_co c (\<lambda>r. r\<lparr>co_p_ctx := p\<rparr>) w) = upd_co c (\<lambda>r. r\<lparr>co_p_ctx := p, co_status := st\<rparr>) w"
  "upd_co c (\<lambda>r. r\<lparr>co_p_ctx := p, co_status := st\<rparr>) (put_status c b w) =
   upd_co c (\<lambda>r. r\<lparr>co_p_ctx := p, co_status := st\<rparr>) w"
  "put_status c st (w\<lparr>this_co := d\<rparr>) = (put_status c st w)\<lparr>this_co := d\<rparr>"
  by (simp_all add: put_status_def upd_co_def)

lemma resume_alt:
  "liteco_resume seg fin c w =
     (if status_of w c = STATUS_TERMINATE then Some (w, STATUS_TERMINATE)
      else if status_of w c \<in> {STATUS_STARTING, STATUS_READY} then
        (case liteco_run seg c (entered c w) of
           None \<Rightarrow> None
         | Some w5 \<Rightarrow>
             (let w6 = w5\<lparr>this_co := this_co w\<rparr>
              in if status_of w6 c = STATUS_TERMINATE
                 then map_option (\<lambda>w7. (w7, STATUS_TERMINATE)) (run_finished fin c w6)
                 else Some (w6, status_of w6 c)))
      else None)"
  by (auto simp: liteco_resume_def liteco_set_status_def Let_def entered_def co_world_put
      split: option.split)

text \<open>The finish callbacks that were called, in order, when a callback only records its call.\<close>

definition log_fin :: "(addr \<times> addr) list co_world_ext callback" where
  "log_fin cb arg w = w\<lparr>co_world.more := co_world.more w @ [(cb, arg)]\<rparr>"

lemma log_fin_fields [simp]:
  "cos (log_fin cb arg w) = cos w" "this_co (log_fin cb arg w) = this_co w"
  "co_world.more (log_fin cb arg w) = co_world.more w @ [(cb, arg)]"
  by (simp_all add: log_fin_def)




lemma finished_stack:
  assumes "fold (\<lambda>(cb, arg) w. Option.bind w (liteco_co_finished True c cb arg)) xs (Some w) = Some w'"
  shows "co_fin_st (cos w' c) = rev xs @ co_fin_st (cos w c) \<and> status_of w' c = status_of w c \<and>
    co_world.more w' = co_world.more w"
  using assms
proof (induction xs arbitrary: w)
  case (Cons x xs)
  then show ?case
    by (cases x) (auto simp: liteco_co_finished_def dest!: Cons.IH)
qed simp

text \<open>A world with fresh coroutines only, for the witnesses, and a coroutine that registers two
  finish callbacks and returns 5.\<close>

definition demo_world :: "(addr \<times> addr) list co_world_ext" where
  "demo_world = \<lparr>this_co = 3, cos = (\<lambda>_. \<lparr>co_p_ctx = NoCtx, co_st = 0, co_st_size = 0,
     co_status = STATUS_STARTING, co_cb = 0, co_arg = 0, co_fin_st = [], co_ret = 0\<rparr>), \<dots> = []\<rparr>"

definition demo_segment :: "(addr \<times> addr) list co_world_ext segment" where
  "demo_segment c w =
     Some (upd_co c (\<lambda>r. r\<lparr>co_fin_st := (30, 40) # co_fin_st r\<rparr>)
       (upd_co c (\<lambda>r. r\<lparr>co_fin_st := (10, 20) # co_fin_st r\<rparr>) w), Some 5)"

lemma demo_segment_registers:
  "fold (\<lambda>(cb, arg) w. Option.bind w (liteco_co_finished True c cb arg)) [(10, 20), (30, 40)] (Some w) =
     Some (fst (the (demo_segment c w)))"
  by (simp add: liteco_co_finished_def demo_segment_def)

section \<open>Properties\<close>

text \<open>A coroutine whose code yields comes back to its resumer as ready, or in the waiting
  status it set itself, and the resumer is the current coroutine again.\<close>

theorem resume_yields:
  assumes "status_of w c \<in> {STATUS_STARTING, STATUS_READY}"
    and "seg c (entered c w) = Some (w1, None)" and "this_co w1 = c"
    and "status_of w1 c \<in> {STATUS_RUNNING, STATUS_WAITING}"
  shows "\<exists>w'. liteco_resume seg fin c w = Some (w', status_of w' c) \<and>
    status_of w' c = (if status_of w1 c = STATUS_RUNNING then STATUS_READY else STATUS_WAITING) \<and>
    this_co w' = this_co w \<and> (\<forall>d. d \<noteq> c \<longrightarrow> cos w' d = cos w1 d)"
  using assms by (auto simp: resume_alt liteco_run_def liteco_yield_def Let_def put_status_def)

lemma resume_yields_witness:
  "\<exists>w'. liteco_resume (\<lambda>c w. Some (w, None)) log_fin 7 demo_world = Some (w', STATUS_READY) \<and>
    this_co w' = 3"
  using resume_yields [of demo_world 7 "\<lambda>c w. Some (w, None)" _ log_fin]
  by (fastforce simp: demo_world_def)



text \<open>Resuming a coroutine that is running or waiting does not come back on a single
  thread: the status change it waits for never happens.\<close>

theorem resume_spins:
  assumes "status_of w c \<notin> {STATUS_STARTING, STATUS_READY, STATUS_TERMINATE}"
  shows "liteco_resume seg fin c w = None \<and>
    set_status_spin (\<lambda>_. status_of w c) clk STATUS_READY = None"
  using assms by (auto simp: resume_alt spin_const)

lemma resume_spins_witness:
  "liteco_resume demo_segment log_fin 7 (put_status 7 STATUS_WAITING demo_world) = None \<and>
   set_status_spin (\<lambda>_. status_of (put_status 7 STATUS_WAITING demo_world) 7) (\<lambda>_. 0) STATUS_READY = None"
  by (rule resume_spins) simp

text \<open>C9: the spin loop of \<open>liteco_set_status\<close> ends, whatever the clock says, once the other
  threads leave the status at the value it waits for, and it ends at an access that read it.\<close>

theorem set_status_live:
  assumes "\<forall>k\<ge>K. env k = fr"
  shows "\<exists>j. set_status_spin env clk fr = Some j \<and> env j = fr"
  using set_status_loop_live [OF assms] set_status_loop_sound
  unfolding set_status_spin_def by blast

lemma set_status_live_witness:
  "\<exists>j. set_status_spin (\<lambda>k. if k < 20 then STATUS_RUNNING else STATUS_WAITING) of_nat STATUS_WAITING = Some j \<and>
    (\<lambda>k::nat. if k < 20 then STATUS_RUNNING else STATUS_WAITING) j = STATUS_WAITING"
  by (rule set_status_live [of 20]) simp

end
