(* ===== verification/Async.thy ===== *)
theory Async
  imports Coroutine
begin

text \<open>
  Async handlers: waking the event loop from any thread (\<open>src/lc_async.c\<close> and the eventfd part
  of \<open>src/platform/linux/lc_eloop.c\<close>). First the operations as one thread runs them, then the
  interleaving of any number of senders with the event loop as a step relation, one step per
  access to shared memory or to the eventfd. The invariants show that the second
  compare-and-swap of \<open>liteco_async_send\<close> never fails and that no wake-up is lost.
\<close>

section \<open>State\<close>

datatype liteco_async_padding_status = ASYNC_NO_PADDING | ASYNC_WORKING | ASYNC_DONE

text \<open>\<open>as_cb\<close> is the callback, \<open>NIL\<close> for a null pointer.\<close>

record liteco_async =
  as_cb :: addr
  as_status :: liteco_async_padding_status

text \<open>The handlers of the event loop in registration order, and the counter of the eventfd. A
  write that would take the counter beyond its maximum fails with \<open>EAGAIN\<close>.\<close>

record async_world = co_world +
  asyncs :: "addr \<Rightarrow> liteco_async"
  async_list :: "addr list"
  async_inited :: bool
  ev :: nat

definition eventfd_max :: nat where "eventfd_max = 2 ^ 64 - 2"

definition set_async :: "addr \<Rightarrow> liteco_async_padding_status \<Rightarrow> 'a async_world_scheme \<Rightarrow> 'a async_world_scheme" where
  "set_async h st w = w\<lparr>asyncs := (asyncs w)(h := (asyncs w h)\<lparr>as_status := st\<rparr>)\<rparr>"

section \<open>Operations\<close>

text \<open>\<open>fd_ok\<close> is the outcome of \<open>eventfd\<close>.\<close>

definition liteco_eloop_async_init :: "bool \<Rightarrow> 'a async_world_scheme \<Rightarrow> 'a async_world_scheme \<times> int" where
  "liteco_eloop_async_init fd_ok w =
     (if async_inited w then (w, 0)
      else if \<not> fd_ok then (w, -1)
      else (w\<lparr>async_inited := True, ev := 0\<rparr>, 0))"

definition liteco_async_init :: "bool \<Rightarrow> addr \<Rightarrow> addr \<Rightarrow> 'a async_world_scheme \<Rightarrow> 'a async_world_scheme \<times> int" where
  "liteco_async_init fd_ok h cb w =
     (let w1 = fst (liteco_eloop_async_init fd_ok w);
          w2 = w1\<lparr>asyncs := (asyncs w1)(h := \<lparr>as_cb = cb, as_status = ASYNC_NO_PADDING\<rparr>)\<rparr>
      in (w2\<lparr>async_list := async_list w2 @ [h]\<rparr>, 0))"

text \<open>\<open>do { ret = eventfd_write(...) } while (ret == -1)\<close>: no result when the counter is full,
  since only the reader, this thread or another, can drain it.\<close>

definition liteco_eloop_async_send :: "'a async_world_scheme \<Rightarrow> 'a async_world_scheme option" where
  "liteco_eloop_async_send w = (if ev w < eventfd_max then Some (w\<lparr>ev := ev w + 1\<rparr>) else None)"

definition liteco_async_send :: "addr \<Rightarrow> 'a async_world_scheme \<Rightarrow> ('a async_world_scheme \<times> int) option" where
  "liteco_async_send h w =
     (if as_status (asyncs w h) \<noteq> ASYNC_NO_PADDING then Some (w, 0)
      else map_option (\<lambda>w2. if as_status (asyncs w2 h) = ASYNC_WORKING
                            then (set_async h ASYNC_DONE w2, 0) else (w2, -1))
             (liteco_eloop_async_send (set_async h ASYNC_WORKING w)))"

text \<open>\<open>liteco_async_spin\<close> waits while the status is \<open>WORKING\<close>; \<open>env k\<close> is the status that
  the \<open>k\<close>-th access reads. The result is what the compare-and-swap returns and the access
  number. The inner loop of 997 rounds only decides when the thread gives up its time slice, so
  \<open>sched_yield\<close> does not show.\<close>

partial_function (option) async_spin_loop ::
    "(nat \<Rightarrow> liteco_async_padding_status) \<Rightarrow> nat \<Rightarrow> nat \<Rightarrow> (bool \<times> nat) option" where
  "async_spin_loop env i k =
     (if i < 997 then
        (if env k \<noteq> ASYNC_WORKING then Some (env (Suc k) = ASYNC_DONE, Suc k)
         else async_spin_loop env (Suc i) (Suc k))
      else async_spin_loop env 0 k)"

declare async_spin_loop.simps [code]

text \<open>The same on one thread: the status does not change between the accesses.\<close>

definition liteco_async_spin :: "addr \<Rightarrow> 'a async_world_scheme \<Rightarrow> ('a async_world_scheme \<times> bool) option" where
  "liteco_async_spin h w =
     (case as_status (asyncs w h) of
        ASYNC_WORKING \<Rightarrow> None
      | ASYNC_DONE \<Rightarrow> Some (set_async h ASYNC_NO_PADDING w, True)
      | ASYNC_NO_PADDING \<Rightarrow> Some (w, False))"

text \<open>The loop of \<open>liteco_async_io_cb\<close> over the handlers, from position \<open>i\<close> of the list: the
  list is only appended to, also by the callbacks. \<open>call\<close> runs a callback.\<close>

partial_function (option) async_dispatch ::
    "(addr \<Rightarrow> addr \<Rightarrow> 'a async_world_scheme \<Rightarrow> 'a async_world_scheme option) \<Rightarrow> nat \<Rightarrow>
     'a async_world_scheme \<Rightarrow> 'a async_world_scheme option" where
  "async_dispatch call i w =
     (if i < length (async_list w) then
        (case liteco_async_spin (async_list w ! i) w of
           None \<Rightarrow> None
         | Some (w1, fired) \<Rightarrow>
             (if \<not> fired then async_dispatch call (Suc i) w1
              else if as_cb (asyncs w1 (async_list w ! i)) = NIL then async_dispatch call (Suc i) w1
              else (case call (as_cb (asyncs w1 (async_list w ! i))) (async_list w ! i) w1 of
                      None \<Rightarrow> None
                    | Some w2 \<Rightarrow> async_dispatch call (Suc i) w2)))
      else Some w)"

declare async_dispatch.simps [code]

definition liteco_async_io_cb ::
    "(addr \<Rightarrow> addr \<Rightarrow> 'a async_world_scheme \<Rightarrow> 'a async_world_scheme option) \<Rightarrow>
     'a async_world_scheme \<Rightarrow> 'a async_world_scheme option" where
  "liteco_async_io_cb call w =
     (if ev w = 0 then Some w else async_dispatch call 0 (w\<lparr>ev := 0\<rparr>))"

lemma set_async_fields [simp]:
  "as_status (asyncs (set_async h st w) g) = (if g = h then st else as_status (asyncs w g))"
  "as_cb (asyncs (set_async h st w) g) = as_cb (asyncs w g)"
  "ev (set_async h st w) = ev w" "async_list (set_async h st w) = async_list w"
  "async_inited (set_async h st w) = async_inited w"
  "cos (set_async h st w) = cos w" "this_co (set_async h st w) = this_co w"
  "async_world.more (set_async h st w) = async_world.more w"
  by (simp_all add: set_async_def)

text \<open>The spin ends when the status leaves \<open>WORKING\<close>, and only then.\<close>

lemma async_spin_wait:
  assumes "\<forall>j<n. env (k + j) = ASYNC_WORKING" "env (k + n) \<noteq> ASYNC_WORKING"
  shows "async_spin_loop env i k = Some (env (Suc (k + n)) = ASYNC_DONE, Suc (k + n))"
  using assms
proof (induction n arbitrary: i k)
  case 0
  have go: "async_spin_loop env j k = Some (env (Suc k) = ASYNC_DONE, Suc k)" if "j < 997" for j
    using 0 that by (simp add: async_spin_loop.simps)
  show ?case
  proof (cases "i < 997")
    case False
    then show ?thesis using go [of 0] by (subst async_spin_loop.simps) simp
  qed (use go [of i] in simp)
next
  case (Suc n)
  have k: "env k = ASYNC_WORKING" using Suc.prems(1) by (metis add.right_neutral zero_less_Suc)
  have "\<forall>j<n. env (Suc k + j) = ASYNC_WORKING"
    using Suc.prems(1) by (metis Suc_less_eq add_Suc_shift)
  then have IH: "async_spin_loop env j (Suc k) = Some (env (Suc (k + Suc n)) = ASYNC_DONE, Suc (k + Suc n))" for j
    using Suc.IH [of "Suc k" j] Suc.prems(2) by simp
  have go: "async_spin_loop env j k = Some (env (Suc (k + Suc n)) = ASYNC_DONE, Suc (k + Suc n))" if "j < 997" for j
    using that k IH by (simp add: async_spin_loop.simps [of env j k])
  show ?case
  proof (cases "i < 997")
    case False
    then show ?thesis using go [of 0] by (subst async_spin_loop.simps) simp
  qed (use go [of i] in simp)
qed

section \<open>Interleavings\<close>

text \<open>Where a sender is in \<open>liteco_async_send\<close>: outside, after the first test, after the first
  compare-and-swap, after the write. Where the event loop is: outside, after it has drained the
  eventfd and before it has come to this handler, and between the test and the compare-and-swap
  of \<open>liteco_async_spin\<close>.\<close>

datatype sender_pc = S_Out | S_Tested | S_Working | S_Written
datatype receiver_pc = R_Out | R_Spin | R_Cas

text \<open>\<open>sys_ret\<close> is the last return value of each sender and \<open>sys_calls\<close> counts the callback's
  runs. Senders are numbered.\<close>

record async_sys =
  sys_status :: liteco_async_padding_status
  sys_ev :: nat
  sys_send :: "nat \<Rightarrow> sender_pc"
  sys_ret :: "nat \<Rightarrow> int"
  sys_recv :: receiver_pc
  sys_calls :: nat

inductive async_step :: "async_sys \<Rightarrow> async_sys \<Rightarrow> bool" where
  test_skip: "sys_send s t = S_Out \<Longrightarrow> sys_status s \<noteq> ASYNC_NO_PADDING \<Longrightarrow>
     async_step s (s\<lparr>sys_ret := (sys_ret s)(t := 0)\<rparr>)"
| test_pass: "sys_send s t = S_Out \<Longrightarrow> sys_status s = ASYNC_NO_PADDING \<Longrightarrow>
     async_step s (s\<lparr>sys_send := (sys_send s)(t := S_Tested)\<rparr>)"
| cas1_fail: "sys_send s t = S_Tested \<Longrightarrow> sys_status s \<noteq> ASYNC_NO_PADDING \<Longrightarrow>
     async_step s (s\<lparr>sys_send := (sys_send s)(t := S_Out), sys_ret := (sys_ret s)(t := 0)\<rparr>)"
| cas1_ok: "sys_send s t = S_Tested \<Longrightarrow> sys_status s = ASYNC_NO_PADDING \<Longrightarrow>
     async_step s (s\<lparr>sys_status := ASYNC_WORKING, sys_send := (sys_send s)(t := S_Working)\<rparr>)"
| write_ok: "sys_send s t = S_Working \<Longrightarrow> sys_ev s < eventfd_max \<Longrightarrow>
     async_step s (s\<lparr>sys_ev := sys_ev s + 1, sys_send := (sys_send s)(t := S_Written)\<rparr>)"
| cas2_ok: "sys_send s t = S_Written \<Longrightarrow> sys_status s = ASYNC_WORKING \<Longrightarrow>
     async_step s (s\<lparr>sys_status := ASYNC_DONE, sys_send := (sys_send s)(t := S_Out),
       sys_ret := (sys_ret s)(t := 0)\<rparr>)"
| cas2_fail: "sys_send s t = S_Written \<Longrightarrow> sys_status s \<noteq> ASYNC_WORKING \<Longrightarrow>
     async_step s (s\<lparr>sys_send := (sys_send s)(t := S_Out), sys_ret := (sys_ret s)(t := -1)\<rparr>)"
| other_write: "sys_ev s < eventfd_max \<Longrightarrow> async_step s (s\<lparr>sys_ev := sys_ev s + 1\<rparr>)"
| read_ev: "sys_recv s = R_Out \<Longrightarrow> 0 < sys_ev s \<Longrightarrow>
     async_step s (s\<lparr>sys_ev := 0, sys_recv := R_Spin\<rparr>)"
| spin_done: "sys_recv s = R_Spin \<Longrightarrow> sys_status s \<noteq> ASYNC_WORKING \<Longrightarrow>
     async_step s (s\<lparr>sys_recv := R_Cas\<rparr>)"
| recv_call: "sys_recv s = R_Cas \<Longrightarrow> sys_status s = ASYNC_DONE \<Longrightarrow>
     async_step s (s\<lparr>sys_status := ASYNC_NO_PADDING, sys_recv := R_Out, sys_calls := sys_calls s + 1\<rparr>)"
| recv_skip: "sys_recv s = R_Cas \<Longrightarrow> sys_status s \<noteq> ASYNC_DONE \<Longrightarrow>
     async_step s (s\<lparr>sys_recv := R_Out\<rparr>)"

inductive_cases async_stepE: "async_step s s'"

definition async_sys_init :: async_sys where
  "async_sys_init = \<lparr>sys_status = ASYNC_NO_PADDING, sys_ev = 0, sys_send = (\<lambda>_. S_Out),
     sys_ret = (\<lambda>_. 0), sys_recv = R_Out, sys_calls = 0\<rparr>"

inductive async_reach :: "async_sys \<Rightarrow> bool" where
  init: "async_reach async_sys_init"
| step: "async_reach s \<Longrightarrow> async_step s s' \<Longrightarrow> async_reach s'"

text \<open>The status is \<open>WORKING\<close> exactly while one sender is between its two compare-and-swaps.\<close>

definition busy :: "sender_pc \<Rightarrow> bool" where
  "busy p \<longleftrightarrow> p = S_Working \<or> p = S_Written"

definition async_inv :: "async_sys \<Rightarrow> bool" where
  "async_inv s \<longleftrightarrow>
     (sys_status s = ASYNC_WORKING \<longleftrightarrow> (\<exists>t. busy (sys_send s t))) \<and>
     (\<forall>t u. busy (sys_send s t) \<and> busy (sys_send s u) \<longrightarrow> t = u) \<and>
     (\<forall>t. sys_ret s t = 0) \<and>
     (sys_status s = ASYNC_WORKING \<longrightarrow>
        (\<exists>t. sys_send s t = S_Working) \<or> 0 < sys_ev s \<or> sys_recv s = R_Spin) \<and>
     (sys_status s = ASYNC_DONE \<longrightarrow> 0 < sys_ev s \<or> sys_recv s \<noteq> R_Out)"

lemma inv_owner:
  assumes "async_inv s" "busy (sys_send s t)"
  shows "sys_status s = ASYNC_WORKING" "busy (sys_send s u) \<Longrightarrow> u = t"
  using assms unfolding async_inv_def by blast+

lemma inv_finish:
  assumes inv: "async_inv s" and t: "sys_send s t = S_Written"
  shows "async_inv (s\<lparr>sys_status := ASYNC_DONE, sys_send := (sys_send s)(t := S_Out), sys_ret := (sys_ret s)(t := 0)\<rparr>)"
proof -
  have bt: "busy (sys_send s t)" using t by (simp add: busy_def)
  note own = inv_owner [OF inv bt]
  have nw: "sys_send s v \<noteq> S_Working" for v
  proof
    assume w: "sys_send s v = S_Working"
    then have "v = t" using own(2) by (simp add: busy_def)
    then show False using w t by simp
  qed
  have "(\<exists>v. sys_send s v = S_Working) \<or> 0 < sys_ev s \<or> sys_recv s = R_Spin"
    using own(1) inv by (simp add: async_inv_def)
  then have "0 < sys_ev s \<or> sys_recv s = R_Spin" using nw by simp
  moreover have "\<not> busy (((sys_send s)(t := S_Out)) v)" for v
    using own(2) by (cases "v = t") (auto simp: busy_def [of S_Out])
  moreover have "\<forall>v. sys_ret s v = 0" using inv by (simp add: async_inv_def)
  ultimately show ?thesis by (simp add: async_inv_def del: fun_upd_apply) auto
qed

lemma inv_write:
  assumes inv: "async_inv s" and t: "sys_send s t = S_Working"
  shows "async_inv (s\<lparr>sys_ev := sys_ev s + 1, sys_send := (sys_send s)(t := S_Written)\<rparr>)"
proof -
  have bt: "busy (sys_send s t)" using t by (simp add: busy_def)
  note own = inv_owner [OF inv bt]
  have "busy (((sys_send s)(t := S_Written)) v) \<longleftrightarrow> busy (sys_send s v)" for v
    using bt by (simp add: busy_def)
  then show ?thesis using own inv by (simp add: async_inv_def del: fun_upd_apply)
qed

lemma async_inv_step:
  assumes "async_step s s'" "async_inv s"
  shows "async_inv s'"
  using assms
proof (cases rule: async_step.cases)
  case (test_skip t)
  then show ?thesis using assms(2) by (simp add: async_inv_def)
next
  case (test_pass t)
  then show ?thesis using assms(2) by (simp add: async_inv_def busy_def)
next
  case (cas1_fail t)
  then have "busy (((sys_send s)(t := S_Out)) u) = busy (sys_send s u)"
    "(((sys_send s)(t := S_Out)) u = S_Working) = (sys_send s u = S_Working)" for u
    by (simp_all add: busy_def)
  then show ?thesis using cas1_fail assms(2) by (simp add: async_inv_def del: fun_upd_apply) simp
next
  case (cas1_ok t)
  then have "\<forall>u. \<not> busy (sys_send s u)" using assms(2) by (auto simp: async_inv_def)
  then show ?thesis using cas1_ok assms(2) by (auto simp: async_inv_def busy_def)
next
  case (cas2_ok t)
  then show ?thesis using inv_finish assms(2) by simp
next
  case (cas2_fail t)
  then show ?thesis using assms(2) by (auto simp: async_inv_def busy_def)
next
  case (write_ok t)
  then show ?thesis using inv_write assms(2) by simp
next
  case other_write
  then show ?thesis using assms(2) by (simp add: async_inv_def)
next
  case read_ev
  then show ?thesis using assms(2) by (simp add: async_inv_def)
next
  case spin_done
  then show ?thesis using assms(2) by (simp add: async_inv_def)
next
  case recv_call
  then have "\<forall>t. \<not> busy (sys_send s t)" using assms(2) by (simp add: async_inv_def)
  then show ?thesis using recv_call assms(2) by (simp add: async_inv_def)
next
  case recv_skip
  then show ?thesis using assms(2) by (simp add: async_inv_def)
qed

lemma async_reach_inv: "async_reach s \<Longrightarrow> async_inv s"
  by (induction rule: async_reach.induct)
    (auto simp: async_inv_step, simp add: async_inv_def async_sys_init_def busy_def)

section \<open>Dispatch on one thread\<close>

text \<open>A callback that records which handler it was called for.\<close>

definition log_call :: "addr \<Rightarrow> addr \<Rightarrow> addr list async_world_ext co_world_ext \<Rightarrow>
    addr list async_world_ext co_world_ext option" where
  "log_call cb h w = Some (w\<lparr>async_world.more := async_world.more w @ [h]\<rparr>)"

lemma log_call_fields:
  assumes "log_call cb h w = Some w'"
  shows "asyncs w' = asyncs w" "async_list w' = async_list w" "ev w' = ev w"
    "async_world.more w' = async_world.more w @ [h]"
  using assms by (auto simp: log_call_def)

text \<open>The handlers that are due: the status is \<open>DONE\<close> and there is a callback.\<close>

definition due :: "'a async_world_scheme \<Rightarrow> addr \<Rightarrow> bool" where
  "due w h \<longleftrightarrow> as_status (asyncs w h) = ASYNC_DONE \<and> as_cb (asyncs w h) \<noteq> NIL"

lemma dispatch_turn:
  assumes i: "i < length (async_list w)" and h: "h = async_list w ! i" and nw: "as_status (asyncs w h) \<noteq> ASYNC_WORKING"
  shows "\<exists>w1. async_dispatch log_call i w = async_dispatch log_call (Suc i) w1 \<and>
    async_list w1 = async_list w \<and> ev w1 = ev w \<and>
    async_world.more w1 = async_world.more w @ (if due w h then [h] else []) \<and>
    as_status (asyncs w1 h) = ASYNC_NO_PADDING \<and> (\<forall>g. g \<noteq> h \<longrightarrow> asyncs w1 g = asyncs w g)"
proof (cases "as_status (asyncs w h)")
  case ASYNC_NO_PADDING
  then have "async_dispatch log_call i w = async_dispatch log_call (Suc i) w"
    using i by (subst async_dispatch.simps) (simp add: h [symmetric] liteco_async_spin_def)
  then show ?thesis using ASYNC_NO_PADDING by (intro exI [of _ w]) (simp add: due_def)
next
  case ASYNC_DONE
  define w1 where "w1 = set_async h ASYNC_NO_PADDING w"
  have w1: "async_list w1 = async_list w" "ev w1 = ev w" "async_world.more w1 = async_world.more w"
    "as_status (asyncs w1 h) = ASYNC_NO_PADDING" "\<forall>g. g \<noteq> h \<longrightarrow> asyncs w1 g = asyncs w g"
    by (simp_all add: w1_def set_async_def)
  show ?thesis
  proof (cases "as_cb (asyncs w h) = NIL")
    case True
    then have "async_dispatch log_call i w = async_dispatch log_call (Suc i) w1"
      using i ASYNC_DONE
      by (subst async_dispatch.simps) (simp add: h [symmetric] liteco_async_spin_def w1_def)
    then show ?thesis using True w1 by (intro exI [of _ w1]) (simp add: due_def)
  next
    case False
    obtain w2 where w2: "log_call (as_cb (asyncs w h)) h w1 = Some w2" by (simp add: log_call_def)
    have "async_dispatch log_call i w = async_dispatch log_call (Suc i) w2"
      using i ASYNC_DONE False w2
      by (subst async_dispatch.simps) (simp add: h [symmetric] liteco_async_spin_def w1_def)
    then show ?thesis using False ASYNC_DONE w1 log_call_fields [OF w2]
      by (intro exI [of _ w2]) (simp add: due_def)
  qed
qed (use nw in simp)

lemma dispatch_serves:
  assumes "distinct (async_list w)" "\<forall>h. as_status (asyncs w h) \<noteq> ASYNC_WORKING"
  shows "\<exists>w'. async_dispatch log_call i w = Some w' \<and> ev w' = ev w \<and> async_list w' = async_list w \<and>
    async_world.more w' = async_world.more w @ filter (due w) (drop i (async_list w)) \<and>
    (\<forall>h. as_status (asyncs w' h) =
       (if h \<in> set (drop i (async_list w)) then ASYNC_NO_PADDING else as_status (asyncs w h)))"
  using assms
proof (induction "length (async_list w) - i" arbitrary: i w)
  case 0
  then show ?case by (simp add: async_dispatch.simps)
next
  case (Suc n)
  then have i: "i < length (async_list w)" by simp
  define h where "h = async_list w ! i"
  have dr: "drop i (async_list w) = h # drop (Suc i) (async_list w)"
    using i by (simp add: h_def Cons_nth_drop_Suc)
  then have hn: "h \<notin> set (drop (Suc i) (async_list w))"
    using Suc.prems(1) by (metis distinct.simps(2) distinct_drop)
  from dispatch_turn [OF i h_def] Suc.prems(2) obtain w1 where
    e: "async_dispatch log_call i w = async_dispatch log_call (Suc i) w1"
    and w1: "async_list w1 = async_list w" "ev w1 = ev w"
      "async_world.more w1 = async_world.more w @ (if due w h then [h] else [])"
      "as_status (asyncs w1 h) = ASYNC_NO_PADDING" "\<forall>g. g \<noteq> h \<longrightarrow> asyncs w1 g = asyncs w g"
    by blast
  have nw: "as_status (asyncs w1 g) \<noteq> ASYNC_WORKING" for g
    using w1(4,5) Suc.prems(2) by (cases "g = h") simp_all
  have "filter (due w1) (drop (Suc i) (async_list w)) = filter (due w) (drop (Suc i) (async_list w))"
    using w1(5) hn by (intro filter_cong) (auto simp: due_def)
  moreover have "n = length (async_list w1) - Suc i" "distinct (async_list w1)"
    using Suc.hyps(2) Suc.prems(1) by (simp_all add: w1)
  then obtain w' where "async_dispatch log_call (Suc i) w1 = Some w'" "ev w' = ev w1" "async_list w' = async_list w1"
    "async_world.more w' = async_world.more w1 @ filter (due w1) (drop (Suc i) (async_list w1))"
    "\<forall>g. as_status (asyncs w' g) =
      (if g \<in> set (drop (Suc i) (async_list w1)) then ASYNC_NO_PADDING else as_status (asyncs w1 g))"
    using Suc.hyps(1) [of w1 "Suc i"] nw by blast
  ultimately show ?case using w1 hn by (intro exI [of _ w']) (auto simp: e dr)
qed

section \<open>Properties\<close>

text \<open>C10: in every interleaving a sender that has written to the eventfd finds its own
  \<open>WORKING\<close> status, so its second compare-and-swap succeeds and every \<open>liteco_async_send\<close>
  returns 0.\<close>

theorem async_send_never_fails:
  assumes "async_reach s"
  shows "(sys_send s t = S_Written \<longrightarrow> sys_status s = ASYNC_WORKING) \<and> sys_ret s t = 0"
  using async_reach_inv [OF assms] by (auto simp: async_inv_def busy_def)

lemma async_send_never_fails_witness:
  "\<exists>s. async_reach s \<and> sys_send s 0 = S_Written \<and> sys_status s = ASYNC_WORKING \<and> sys_ret s 0 = 0"
proof -
  let ?s1 = "async_sys_init\<lparr>sys_send := (sys_send async_sys_init)(0 := S_Tested)\<rparr>"
  let ?s2 = "?s1\<lparr>sys_status := ASYNC_WORKING, sys_send := (sys_send ?s1)(0 := S_Working)\<rparr>"
  let ?s3 = "?s2\<lparr>sys_ev := sys_ev ?s2 + 1, sys_send := (sys_send ?s2)(0 := S_Written)\<rparr>"
  have "async_reach ?s1"
    by (rule async_reach.step [OF async_reach.init async_step.test_pass]) (simp_all add: async_sys_init_def)
  then have "async_reach ?s2"
    by (rule async_reach.step [OF _ async_step.cas1_ok]) (simp_all add: async_sys_init_def)
  then have r: "async_reach ?s3"
    by (rule async_reach.step [OF _ async_step.write_ok]) (simp_all add: async_sys_init_def eventfd_max_def)
  have "sys_send ?s3 0 = S_Written" by simp
  then show ?thesis using r async_send_never_fails [OF r, of 0] by blast
qed

text \<open>C11: no wake-up is lost. While a handler is pending, a sender is about to write to the
  eventfd, or the eventfd is readable, or the event loop is on its way to the handler; and once
  the status is \<open>DONE\<close> the steps of the event loop alone lead to a run of the callback.\<close>

theorem async_no_lost_wakeup:
  assumes "async_reach s" and "sys_status s \<noteq> ASYNC_NO_PADDING"
  shows "((\<exists>t. sys_send s t = S_Working) \<or> 0 < sys_ev s \<or> sys_recv s \<noteq> R_Out) \<and>
    (sys_status s = ASYNC_DONE \<longrightarrow>
       (\<exists>s'. async_step\<^sup>*\<^sup>* s s' \<and> sys_calls s' = sys_calls s + 1 \<and> sys_send s' = sys_send s))"
proof -
  note inv = async_reach_inv [OF assms(1)]
  have fin: "\<exists>s'. async_step\<^sup>*\<^sup>* s s' \<and> sys_calls s' = sys_calls s + 1 \<and> sys_send s' = sys_send s"
    if "sys_status s = ASYNC_DONE" "sys_recv s = R_Cas" for s
    using r_into_rtranclp [of async_step, OF async_step.recv_call [OF that(2,1)]] by force
  have spin: "\<exists>s'. async_step\<^sup>*\<^sup>* s s' \<and> sys_calls s' = sys_calls s + 1 \<and> sys_send s' = sys_send s"
    if "sys_status s = ASYNC_DONE" "sys_recv s = R_Spin" for s
    using async_step.spin_done [of s] fin [of "s\<lparr>sys_recv := R_Cas\<rparr>"] that
    by (auto intro: converse_rtranclp_into_rtranclp)
  have out: "\<exists>s'. async_step\<^sup>*\<^sup>* s s' \<and> sys_calls s' = sys_calls s + 1 \<and> sys_send s' = sys_send s"
    if "sys_status s = ASYNC_DONE" "sys_recv s = R_Out" "0 < sys_ev s"
    using async_step.read_ev [of s] spin [of "s\<lparr>sys_ev := 0, sys_recv := R_Spin\<rparr>"] that
    by (auto intro: converse_rtranclp_into_rtranclp)
  have "sys_status s = ASYNC_WORKING \<or> sys_status s = ASYNC_DONE"
    using assms(2) by (cases "sys_status s") auto
  then show ?thesis
    using inv fin [of s] spin [of s] out by (cases "sys_recv s") (auto simp: async_inv_def)
qed

lemma async_no_lost_wakeup_witness:
  "\<exists>s. async_reach s \<and> sys_status s = ASYNC_WORKING \<and>
     ((\<exists>t. sys_send s t = S_Working) \<or> 0 < sys_ev s \<or> sys_recv s \<noteq> R_Out)"
proof -
  let ?s1 = "async_sys_init\<lparr>sys_send := (sys_send async_sys_init)(0 := S_Tested)\<rparr>"
  let ?s2 = "?s1\<lparr>sys_status := ASYNC_WORKING, sys_send := (sys_send ?s1)(0 := S_Working)\<rparr>"
  have "async_reach ?s1"
    by (rule async_reach.step [OF async_reach.init async_step.test_pass]) (simp_all add: async_sys_init_def)
  then have r: "async_reach ?s2"
    by (rule async_reach.step [OF _ async_step.cas1_ok]) (simp_all add: async_sys_init_def)
  have "sys_status ?s2 = ASYNC_WORKING" by simp
  then show ?thesis using r async_no_lost_wakeup [OF r] by auto
qed

text \<open>C12: when the eventfd is readable, \<open>liteco_async_io_cb\<close> drains it and runs the callback
  of every handler that is due exactly once, in registration order, and leaves no handler
  pending.\<close>

theorem async_io_cb_serves:
  assumes "0 < ev w" and "distinct (async_list w)" and "\<forall>h. as_status (asyncs w h) \<noteq> ASYNC_WORKING"
  shows "\<exists>w'. liteco_async_io_cb log_call w = Some w' \<and> ev w' = 0 \<and>
    async_world.more w' = async_world.more w @ filter (due w) (async_list w) \<and>
    (\<forall>h\<in>set (async_list w). as_status (asyncs w' h) = ASYNC_NO_PADDING)"
proof -
  have "due (w\<lparr>ev := 0\<rparr>) = due w" by (auto simp: due_def fun_eq_iff)
  then show ?thesis
    using dispatch_serves [of "w\<lparr>ev := 0\<rparr>" 0] assms by (auto simp: liteco_async_io_cb_def)
qed

definition demo_async :: "addr list async_world_ext co_world_ext" where
  "demo_async = \<lparr>this_co = NIL, cos = (\<lambda>_. \<lparr>co_p_ctx = NoCtx, co_st = 0, co_st_size = 0,
     co_status = STATUS_STARTING, co_cb = 0, co_arg = 0, co_fin_st = [], co_ret = 0\<rparr>),
     asyncs = (\<lambda>h. \<lparr>as_cb = h, as_status = (if h = 2 then ASYNC_NO_PADDING else ASYNC_DONE)\<rparr>),
     async_list = [3, 2, 1], async_inited = True, ev = 1, \<dots> = []\<rparr>"

lemma async_io_cb_serves_witness:
  "\<exists>w'. liteco_async_io_cb log_call demo_async = Some w' \<and> async_world.more w' = [3, 1]"
proof -
  have "0 < ev demo_async" "distinct (async_list demo_async)"
    "\<forall>h. as_status (asyncs demo_async h) \<noteq> ASYNC_WORKING"
    "filter (due demo_async) (async_list demo_async) = [3, 1]" "async_world.more demo_async = []"
    by (simp_all add: demo_async_def due_def)
  then show ?thesis using async_io_cb_serves [of demo_async] by auto
qed

end
