(* ===== verification/Runtime.thy ===== *)
theory Runtime
  imports Async
begin

text \<open>
  The runtime (\<open>src/lc_runtime.c\<close>): the queue of ready coroutines, which is filled from any
  thread by \<open>liteco_runtime_join\<close> and drained by the event loop in \<open>liteco_runtime_cb\<close>. The
  queue is the list of its coroutines (\<open>Links\<close> shows that the linked lists behave as lists).
  The mutex makes each locked section one step; the model has no separate lock.
\<close>

section \<open>State\<close>

text \<open>\<open>rt_async\<close> is the address of the embedded async handler.\<close>

record liteco_runtime =
  rt_async :: addr
  rq :: "addr list"

text \<open>\<open>mallocs\<close> are the outcomes of the coming calls of \<open>malloc\<close>; when the list is used up all
  calls succeed.\<close>

record rt_world = async_world +
  rts :: "addr \<Rightarrow> liteco_runtime"
  mallocs :: "bool list"

definition malloc :: "'a rt_world_scheme \<Rightarrow> 'a rt_world_scheme \<times> bool" where
  "malloc w = (case mallocs w of [] \<Rightarrow> (w, True) | b # bs \<Rightarrow> (w\<lparr>mallocs := bs\<rparr>, b))"

definition set_rq :: "addr \<Rightarrow> addr list \<Rightarrow> 'a rt_world_scheme \<Rightarrow> 'a rt_world_scheme" where
  "set_rq rt q w = w\<lparr>rts := (rts w)(rt := (rts w rt)\<lparr>rq := q\<rparr>)\<rparr>"

text \<open>The callback identifier of \<open>liteco_runtime_cb\<close>.\<close>

definition runtime_cb_id :: addr where "runtime_cb_id = 1"

section \<open>Operations\<close>

definition liteco_runtime_init :: "bool \<Rightarrow> addr \<Rightarrow> addr \<Rightarrow> 'a rt_world_scheme \<Rightarrow> 'a rt_world_scheme \<times> int" where
  "liteco_runtime_init fd_ok rt h w =
     (let w1 = w\<lparr>rts := (rts w)(rt := \<lparr>rt_async = h, rq = []\<rparr>)\<rparr>
      in (fst (liteco_async_init fd_ok h runtime_cb_id w1), 0))"

definition liteco_runtime_exist :: "addr \<Rightarrow> addr \<Rightarrow> 'a rt_world_scheme \<Rightarrow> bool" where
  "liteco_runtime_exist rt co w \<longleftrightarrow> list_ex (\<lambda>check. check = co) (rq (rts w rt))"

definition liteco_runtime_join :: "addr \<Rightarrow> addr \<Rightarrow> 'a rt_world_scheme \<Rightarrow> ('a rt_world_scheme \<times> int) option" where
  "liteco_runtime_join rt co w =
     (if liteco_runtime_exist rt co w then Some (w, 0)
      else (let (w1, ok) = malloc w
            in if \<not> ok then Some (w1, -1)
               else map_option (\<lambda>(w3, _). (w3, 0))
                      (liteco_async_send (rt_async (rts w1 rt)) (set_rq rt (rq (rts w1 rt) @ [co]) w1))))"

definition liteco_runtime_pop :: "addr \<Rightarrow> 'a rt_world_scheme \<Rightarrow> 'a rt_world_scheme \<times> addr" where
  "liteco_runtime_pop rt w =
     (case rq (rts w rt) of
        [] \<Rightarrow> (w, NIL)
      | co # q \<Rightarrow> (set_rq rt q w, co))"

text \<open>The first loop of \<open>liteco_runtime_cb\<close>: \<open>again\<close> is the local list of the coroutines that
  are ready again. A failed \<open>malloc\<close> is a null pointer that the code writes through.\<close>

partial_function (option) runtime_run_loop ::
    "'a rt_world_scheme segment \<Rightarrow> 'a rt_world_scheme callback \<Rightarrow> addr \<Rightarrow> addr list \<Rightarrow>
     'a rt_world_scheme \<Rightarrow> ('a rt_world_scheme \<times> addr list) option" where
  "runtime_run_loop seg fin rt again w =
     (let (w1, co) = liteco_runtime_pop rt w
      in if co = NIL then Some (w1, again)
         else (case liteco_resume seg fin co w1 of
                 None \<Rightarrow> None
               | Some (w2, st) \<Rightarrow>
                   (if status_of w2 co = STATUS_READY
                    then (if snd (malloc w2) then runtime_run_loop seg fin rt (again @ [co]) (fst (malloc w2))
                          else None)
                    else runtime_run_loop seg fin rt again w2)))"

declare runtime_run_loop.simps [code]

text \<open>The second loop.\<close>

fun runtime_requeue :: "addr \<Rightarrow> addr list \<Rightarrow> 'a rt_world_scheme \<Rightarrow> 'a rt_world_scheme" where
  "runtime_requeue rt [] w = w"
| "runtime_requeue rt (co # again) w =
     (if liteco_runtime_exist rt co w then runtime_requeue rt again w
      else runtime_requeue rt again (set_rq rt (rq (rts w rt) @ [co]) w))"

definition liteco_runtime_cb ::
    "'a rt_world_scheme segment \<Rightarrow> 'a rt_world_scheme callback \<Rightarrow> addr \<Rightarrow>
     'a rt_world_scheme \<Rightarrow> 'a rt_world_scheme option" where
  "liteco_runtime_cb seg fin rt w =
     (case runtime_run_loop seg fin rt [] w of
        None \<Rightarrow> None
      | Some (w1, again) \<Rightarrow>
          (let w2 = runtime_requeue rt again w1
           in map_option fst (liteco_async_send (rt_async (rts w2 rt)) w2)))"

section \<open>Reading the world\<close>

lemma set_rq_fields [simp]:
  "rq (rts (set_rq rt q w) rt') = (if rt' = rt then q else rq (rts w rt'))"
  "rt_async (rts (set_rq rt q w) rt') = rt_async (rts w rt')"
  "mallocs (set_rq rt q w) = mallocs w" "asyncs (set_rq rt q w) = asyncs w"
  "ev (set_rq rt q w) = ev w" "async_list (set_rq rt q w) = async_list w"
  "async_inited (set_rq rt q w) = async_inited w"
  "cos (set_rq rt q w) = cos w" "this_co (set_rq rt q w) = this_co w"
  "rt_world.more (set_rq rt q w) = rt_world.more w"
  by (simp_all add: set_rq_def)

lemma exist_iff [simp]: "liteco_runtime_exist rt co w \<longleftrightarrow> co \<in> set (rq (rts w rt))"
  by (auto simp: liteco_runtime_exist_def list_ex_iff)

lemma malloc_fields:
  "malloc w = (w1, ok) \<Longrightarrow> cos w1 = cos w \<and> rts w1 = rts w \<and> asyncs w1 = asyncs w \<and> ev w1 = ev w \<and>
   async_list w1 = async_list w \<and> this_co w1 = this_co w \<and> rt_world.more w1 = rt_world.more w"
  by (auto simp: malloc_def split: list.splits)

lemma malloc_used_up [simp]: "mallocs w = [] \<Longrightarrow> malloc w = (w, True)"
  by (simp add: malloc_def)

text \<open>The handler of a runtime is pending: the event loop will run \<open>liteco_runtime_cb\<close>.\<close>

definition rt_pending :: "addr \<Rightarrow> 'a rt_world_scheme \<Rightarrow> bool" where
  "rt_pending rt w \<longleftrightarrow> as_status (asyncs w (rt_async (rts w rt))) \<noteq> ASYNC_NO_PADDING"

text \<open>The event loop can be signalled: it is signalled already or the eventfd has room.\<close>

definition can_signal :: "addr \<Rightarrow> 'a rt_world_scheme \<Rightarrow> bool" where
  "can_signal rt w \<longleftrightarrow> rt_pending rt w \<or> ev w < eventfd_max"

text \<open>Sending on one thread: pending afterwards, and nothing else of the world changes.\<close>

lemma async_send_spec:
  assumes "ev w < eventfd_max"
  shows "\<exists>w'. liteco_async_send h w = Some (w', 0) \<and> as_status (asyncs w' h) \<noteq> ASYNC_NO_PADDING \<and>
    ev w' = (if as_status (asyncs w h) = ASYNC_NO_PADDING then ev w + 1 else ev w) \<and>
    (\<forall>g. g \<noteq> h \<longrightarrow> asyncs w' g = asyncs w g) \<and> as_cb (asyncs w' h) = as_cb (asyncs w h) \<and>
    (as_status (asyncs w h) = ASYNC_NO_PADDING \<longrightarrow> as_status (asyncs w' h) = ASYNC_DONE) \<and>
    cos w' = cos w \<and> this_co w' = this_co w \<and> async_list w' = async_list w \<and>
    async_inited w' = async_inited w \<and> async_world.more w' = async_world.more w"
  using assms
  by (auto simp: liteco_async_send_def liteco_eloop_async_send_def set_async_def)

lemma more_rts:
  "async_world.more w' = async_world.more w \<Longrightarrow>
     rts w' = rts w \<and> mallocs w' = mallocs w \<and> rt_world.more w' = rt_world.more w"
  by (cases w; cases w') auto

lemma requeue_spec:
  "distinct (rq (rts w rt)) \<Longrightarrow> distinct again \<Longrightarrow>
   rq (rts (runtime_requeue rt again w) rt) = rq (rts w rt) @ filter (\<lambda>c. c \<notin> set (rq (rts w rt))) again"
  by (induction rt again w rule: runtime_requeue.induct) (auto intro!: filter_cong)

lemma requeue_distinct:
  "distinct (rq (rts w rt)) \<Longrightarrow> distinct (rq (rts (runtime_requeue rt again w) rt))"
  by (induction rt again w rule: runtime_requeue.induct) auto

lemma requeue_fields [simp]:
  "rt_async (rts (runtime_requeue rt again w) rt') = rt_async (rts w rt')"
  "asyncs (runtime_requeue rt again w) = asyncs w" "ev (runtime_requeue rt again w) = ev w"
  "cos (runtime_requeue rt again w) = cos w" "this_co (runtime_requeue rt again w) = this_co w"
  "rt_world.more (runtime_requeue rt again w) = rt_world.more w"
  by (induction rt again w rule: runtime_requeue.induct) auto

lemma join_spec:
  assumes "ev w < eventfd_max" "mallocs w = []"
  shows "\<exists>w'. liteco_runtime_join rt co w = Some (w', 0) \<and>
    rq (rts w' rt) = (if co \<in> set (rq (rts w rt)) then rq (rts w rt) else rq (rts w rt) @ [co]) \<and>
    (co \<notin> set (rq (rts w rt)) \<longrightarrow> rt_pending rt w') \<and> cos w' = cos w \<and> this_co w' = this_co w \<and>
    rt_world.more w' = rt_world.more w"
proof (cases "co \<in> set (rq (rts w rt))")
  case True
  then show ?thesis by (simp add: liteco_runtime_join_def)
next
  case False
  let ?w = "set_rq rt (rq (rts w rt) @ [co]) w"
  obtain w' where w': "liteco_async_send (rt_async (rts w rt)) ?w = Some (w', 0)"
    "as_status (asyncs w' (rt_async (rts w rt))) \<noteq> ASYNC_NO_PADDING" "cos w' = cos w"
    "this_co w' = this_co w" "async_world.more w' = async_world.more ?w"
    using async_send_spec [of ?w "rt_async (rts w rt)"] assms by auto
  then show ?thesis
    using False assms(2) more_rts [OF w'(5)] by (auto simp: liteco_runtime_join_def rt_pending_def)
qed

section \<open>A pass of the event loop\<close>

text \<open>Coroutines that record themselves in the world when they run and then yield, wait or
  return, as \<open>beh\<close> says.\<close>

type_synonym log_world = "addr list rt_world_ext async_world_ext co_world_ext"

definition beh_seg :: "(addr \<Rightarrow> liteco_status \<times> int option) \<Rightarrow> log_world segment" where
  "beh_seg beh c w =
     Some (put_status c (fst (beh c)) (w\<lparr>rt_world.more := rt_world.more w @ [c]\<rparr>), snd (beh c))"

definition beh_ok :: "(addr \<Rightarrow> liteco_status \<times> int option) \<Rightarrow> bool" where
  "beh_ok beh \<longleftrightarrow> (\<forall>c. fst (beh c) = STATUS_RUNNING \<or> fst (beh c) = STATUS_WAITING \<and> snd (beh c) = None)"

definition yields :: "(addr \<Rightarrow> liteco_status \<times> int option) \<Rightarrow> addr \<Rightarrow> bool" where
  "yields beh c \<longleftrightarrow> beh c = (STATUS_RUNNING, None)"

text \<open>A coroutine that can be resumed and has no finish callbacks.\<close>

definition runnable :: "'a co_world_scheme \<Rightarrow> addr \<Rightarrow> bool" where
  "runnable w c \<longleftrightarrow> c \<noteq> NIL \<and> status_of w c \<in> {STATUS_STARTING, STATUS_READY} \<and> co_fin_st (cos w c) = []"

lemma entered_more:
  "rts (entered c w) = rts w" "mallocs (entered c w) = mallocs w" "asyncs (entered c w) = asyncs w"
  "ev (entered c w) = ev w" "async_list (entered c w) = async_list w"
  "rt_world.more (entered c w) = rt_world.more w"
  by (simp_all add: entered_def upd_co_def)

lemma put_status_more:
  "rts (put_status c st w) = rts w" "mallocs (put_status c st w) = mallocs w"
  "asyncs (put_status c st w) = asyncs w" "ev (put_status c st w) = ev w"
  "async_list (put_status c st w) = async_list w" "rt_world.more (put_status c st w) = rt_world.more w"
  "rts (upd_co c f w) = rts w" "mallocs (upd_co c f w) = mallocs w"
  "asyncs (upd_co c f w) = asyncs w" "ev (upd_co c f w) = ev w"
  "async_list (upd_co c f w) = async_list w" "rt_world.more (upd_co c f w) = rt_world.more w"
  by (simp_all add: put_status_def upd_co_def)

lemma put_status_other [simp]: "d \<noteq> c \<Longrightarrow> cos (put_status c st w) d = cos w d"
  by (simp add: put_status_def)

lemma entered_other [simp]: "d \<noteq> c \<Longrightarrow> cos (entered c w) d = cos w d"
  by (simp add: entered_def)

lemma resume_beh:
  assumes "beh_ok beh" "runnable w c"
  shows "\<exists>w' st. liteco_resume (beh_seg beh) fin c w = Some (w', st) \<and>
    (status_of w' c = STATUS_READY \<longleftrightarrow> yields beh c) \<and> co_fin_st (cos w' c) = [] \<and> (\<forall>d. d \<noteq> c \<longrightarrow> cos w' d = cos w d) \<and>
    rts w' = rts w \<and> mallocs w' = mallocs w \<and> asyncs w' = asyncs w \<and> ev w' = ev w \<and>
    async_list w' = async_list w \<and> this_co w' = this_co w \<and> rt_world.more w' = rt_world.more w @ [c]"
proof -
  obtain st r where b: "beh c = (st, r)" by force
  note run = resume_alt liteco_run_def beh_seg_def liteco_yield_def liteco_set_status_def Let_def
    entered_more put_status_more yields_def run_finished.simps runnable_def
  consider "st = STATUS_RUNNING" "r = None" | "st = STATUS_WAITING" "r = None"
    | v where "st = STATUS_RUNNING" "r = Some v"
    using assms(1) b by (cases r) (auto simp: beh_ok_def dest: spec [of _ c])
  then show ?thesis
  proof cases
    case 1
    then show ?thesis using assms(2) b by (auto simp: run)
  next
    case 2
    then show ?thesis using assms(2) b by (auto simp: run)
  next
    case 3
    then show ?thesis using assms(2) b by (auto simp: run)
  qed
qed

text \<open>What a pass asks of the coroutines it resumes. They may do anything to the world as long as they
  come back, and leave the queue of the runtime, the outcomes of \<open>malloc\<close> and the statuses of the
  others alone; \<open>I\<close> is what else they rely on.\<close>

definition quiet ::
    "('a rt_world_scheme \<Rightarrow> bool) \<Rightarrow> 'a rt_world_scheme segment \<Rightarrow> 'a rt_world_scheme callback \<Rightarrow> addr \<Rightarrow> bool" where
  "quiet I seg fin rt \<longleftrightarrow>
     (\<forall>v q. I (set_rq rt q v) = I v) \<and>
     (\<forall>v d. I v \<and> d \<noteq> NIL \<and> status_of v d \<in> {STATUS_STARTING, STATUS_READY} \<longrightarrow>
        (\<exists>v' st. liteco_resume seg fin d v = Some (v', st) \<and> I v' \<and> rts v' = rts v \<and> mallocs v' = mallocs v \<and>
           (can_signal rt v \<longrightarrow> can_signal rt v') \<and> (\<forall>e. e \<noteq> d \<longrightarrow> status_of v' e = status_of v e)))"

text \<open>The worlds before and after the turns of the coroutines \<open>q\<close>, and those that are ready after
  their turn.\<close>

inductive turns ::
    "'a rt_world_scheme segment \<Rightarrow> 'a rt_world_scheme callback \<Rightarrow> addr \<Rightarrow> 'a rt_world_scheme \<Rightarrow> addr list \<Rightarrow>
     addr list \<Rightarrow> 'a rt_world_scheme \<Rightarrow> bool" for seg fin rt where
  stop: "turns seg fin rt w [] [] w"
| turn: "liteco_resume seg fin d (set_rq rt q w) = Some (w1, st) \<Longrightarrow> turns seg fin rt w1 q ds w2 \<Longrightarrow>
    turns seg fin rt w (d # q) (if status_of w1 d = STATUS_READY then d # ds else ds) w2"

lemma quiet_turns:
  assumes "quiet I seg fin rt" "I w" "distinct q" "\<forall>d\<in>set q. d \<noteq> NIL \<and> status_of w d \<in> {STATUS_STARTING, STATUS_READY}"
    and "rq (rts w rt) = q" "mallocs w = []" "can_signal rt w"
  shows "\<exists>ds v. turns seg fin rt w q ds v \<and> set ds \<subseteq> set q \<and> distinct ds \<and>
    runtime_run_loop seg fin rt again w = Some (v, again @ ds) \<and>
    rts v = (rts w)(rt := (rts w rt)\<lparr>rq := []\<rparr>) \<and> mallocs v = [] \<and> can_signal rt v"
  using assms(2-)
proof (induction q arbitrary: w again)
  case Nil
  then show ?case
    by (intro exI [of _ "[]"] exI [of _ w] conjI turns.stop) (auto simp: runtime_run_loop.simps liteco_runtime_pop_def)
next
  case (Cons d q)
  let ?w = "set_rq rt q w"
  have s: "can_signal rt ?w" using Cons.prems(6) by (simp add: can_signal_def rt_pending_def)
  obtain w1 st where w1: "liteco_resume seg fin d ?w = Some (w1, st)" "I w1" "rts w1 = rts ?w" "mallocs w1 = []"
    "can_signal rt w1" "\<forall>e. e \<noteq> d \<longrightarrow> status_of w1 e = status_of w e"
  proof -
    have "I ?w" "d \<noteq> NIL" "status_of ?w d \<in> {STATUS_STARTING, STATUS_READY}"
      using assms(1) Cons.prems(1,3) by (simp_all add: quiet_def)
    with assms(1) obtain w1 st where "liteco_resume seg fin d ?w = Some (w1, st)" "I w1" "rts w1 = rts ?w"
      "mallocs w1 = mallocs ?w" "can_signal rt ?w \<longrightarrow> can_signal rt w1" "\<forall>e. e \<noteq> d \<longrightarrow> status_of w1 e = status_of ?w e"
      unfolding quiet_def by blast
    with s Cons.prems(5) show thesis by (intro that [of w1 st]) simp_all
  qed
  define again1 where "again1 = (if status_of w1 d = STATUS_READY then again @ [d] else again)"
  have "status_of w1 e = status_of w e" if "e \<in> set q" for e
    using that w1(6) Cons.prems(2) by (metis distinct.simps(2))
  then have "\<forall>e\<in>set q. e \<noteq> NIL \<and> status_of w1 e \<in> {STATUS_STARTING, STATUS_READY}"
    using Cons.prems(3) by simp
  moreover have "rq (rts w1 rt) = q" using w1(3) by simp
  ultimately obtain ds v where v: "turns seg fin rt w1 q ds v" "set ds \<subseteq> set q" "distinct ds"
      "runtime_run_loop seg fin rt again1 w1 = Some (v, again1 @ ds)"
      "rts v = (rts w1)(rt := (rts w1 rt)\<lparr>rq := []\<rparr>)" "mallocs v = []" "can_signal rt v"
    using Cons.IH [OF w1(2) _ _ _ w1(4,5), of again1] Cons.prems(2) unfolding distinct.simps by blast
  define r where "r = (if status_of w1 d = STATUS_READY then d # ds else ds)"
  have t: "turns seg fin rt w (d # q) r v" unfolding r_def by (rule turns.turn [OF w1(1) v(1)])
  have "runtime_run_loop seg fin rt again w = runtime_run_loop seg fin rt again1 w1"
    using Cons.prems(3,4) w1(1,4) by (subst runtime_run_loop.simps) (simp add: liteco_runtime_pop_def again1_def)
  also have "\<dots> = Some (v, again @ r)" using v(4) by (simp add: again1_def r_def)
  finally have l: "runtime_run_loop seg fin rt again w = Some (v, again @ r)" .
  have "rts v = (rts w)(rt := (rts w rt)\<lparr>rq := []\<rparr>)" using v(5) w1(3) by (simp add: set_rq_def)
  moreover have "set r \<subseteq> set (d # q)" "distinct r" using v(2,3) Cons.prems(2) by (auto simp: r_def)
  ultimately show ?case using t l v(6,7) by blast
qed

lemma requeue_empty:
  "rq (rts w rt) = q \<Longrightarrow> distinct (q @ ds) \<Longrightarrow> runtime_requeue rt ds w = set_rq rt (q @ ds) w"
proof (induction rt ds w arbitrary: q rule: runtime_requeue.induct)
  case (1 rt w)
  then show ?case by (cases w) (simp add: set_rq_def fun_upd_idem)
next
  case (2 rt d ds w)
  have "set_rq rt q1 (set_rq rt q2 w) = set_rq rt q1 w" for q1 q2 by (simp add: set_rq_def)
  then show ?case using 2 by simp
qed

lemma send_signal:
  assumes "can_signal rt w"
  shows "\<exists>w'. liteco_async_send (rt_async (rts w rt)) w = Some (w', 0) \<and> cos w' = cos w \<and> this_co w' = this_co w \<and>
    async_world.more w' = async_world.more w \<and> rt_pending rt w'"
proof (cases "rt_pending rt w")
  case True
  then show ?thesis by (simp add: liteco_async_send_def rt_pending_def)
next
  case False
  then have "ev w < eventfd_max" using assms by (simp add: can_signal_def)
  from async_send_spec [OF this, of "rt_async (rts w rt)"] obtain w' where
    w': "liteco_async_send (rt_async (rts w rt)) w = Some (w', 0)" "as_status (asyncs w' (rt_async (rts w rt))) \<noteq> ASYNC_NO_PADDING"
      "cos w' = cos w" "this_co w' = this_co w" "async_world.more w' = async_world.more w" by blast
  then show ?thesis using more_rts [OF w'(5)] by (auto simp: rt_pending_def)
qed

section \<open>Properties\<close>

text \<open>Joining a coroutine puts it at the end of the queue unless it is queued already, and
  then the event loop is signalled; the queue never holds a coroutine twice.\<close>

theorem runtime_join:
  assumes "ev w < eventfd_max" and "mallocs w = []" and "distinct (rq (rts w rt))"
  shows "\<exists>w'. liteco_runtime_join rt co w = Some (w', 0) \<and>
    rq (rts w' rt) = (if co \<in> set (rq (rts w rt)) then rq (rts w rt) else rq (rts w rt) @ [co]) \<and>
    distinct (rq (rts w' rt)) \<and> (co \<notin> set (rq (rts w rt)) \<longrightarrow> rt_pending rt w')"
  using join_spec [OF assms(1,2), of rt co] assms(3) by auto

definition demo_rt :: log_world where
  "demo_rt = \<lparr>this_co = NIL, cos = (\<lambda>_. \<lparr>co_p_ctx = NoCtx, co_st = 0, co_st_size = 0,
     co_status = STATUS_STARTING, co_cb = 0, co_arg = 0, co_fin_st = [], co_ret = 0\<rparr>),
     asyncs = (\<lambda>h. \<lparr>as_cb = runtime_cb_id, as_status = ASYNC_NO_PADDING\<rparr>),
     async_list = [5], async_inited = True, ev = 0,
     rts = (\<lambda>_. \<lparr>rt_async = 5, rq = [11, 12, 13]\<rparr>), mallocs = [], \<dots> = []\<rparr>"

lemma runtime_join_witness:
  "\<exists>w'. liteco_runtime_join 9 14 demo_rt = Some (w', 0) \<and> rq (rts w' 9) = [11, 12, 13, 14] \<and>
    rt_pending 9 w'"
  using runtime_join [of demo_rt 9 14] by (auto simp: demo_rt_def eventfd_max_def)

text \<open>C13: A pass of the runtime over coroutines that leave its queue alone. Whatever they do
  otherwise, the pass resumes the coroutines of the queue one after the other, in the order of the
  queue, each once, in the world that its predecessor left; afterwards the queue holds exactly those that
  were ready after their turn, in the same order, everything else is as the last turn left it, and the
  runtime is pending again. (A coroutine that joins another one to the queue makes the pass longer: see
  \<open>Channel_Pass\<close>.)\<close>

theorem runtime_pass:
  fixes w :: "'a rt_world_scheme"
  assumes "quiet I seg fin rt" and "I w" and "distinct (rq (rts w rt))"
    and "\<forall>d\<in>set (rq (rts w rt)). d \<noteq> NIL \<and> status_of w d \<in> {STATUS_STARTING, STATUS_READY}"
    and "mallocs w = []" and "can_signal rt w"
  shows "\<exists>ds v w'. turns seg fin rt w (rq (rts w rt)) ds v \<and> liteco_runtime_cb seg fin rt w = Some w' \<and>
    rq (rts w' rt) = ds \<and> cos w' = cos v \<and> this_co w' = this_co v \<and> rt_world.more w' = rt_world.more v \<and> rt_pending rt w'"
proof -
  obtain ds v where v: "turns seg fin rt w (rq (rts w rt)) ds v" "distinct ds"
    "runtime_run_loop seg fin rt [] w = Some (v, ds)" "rq (rts v rt) = []" "can_signal rt v"
    using quiet_turns [OF assms(1-4) refl assms(5,6), of "[]"] by auto
  have "runtime_requeue rt ds v = set_rq rt ds v" using requeue_empty [OF v(4), of ds] v(2) by simp
  moreover have "can_signal rt (set_rq rt ds v)" using v(5) by (simp add: can_signal_def rt_pending_def)
  ultimately obtain w' where w': "liteco_runtime_cb seg fin rt w = Some w'" "cos w' = cos v" "this_co w' = this_co v"
    "async_world.more w' = async_world.more (set_rq rt ds v)" "rt_pending rt w'"
    using send_signal [of rt "set_rq rt ds v"] v(3) by (auto simp: liteco_runtime_cb_def)
  then show ?thesis using v(1) more_rts [OF w'(4)] by auto
qed

text \<open>The witness: coroutines that record themselves and behave as \<open>beh\<close> says.\<close>

lemma beh_quiet:
  assumes "beh_ok beh"
  shows "quiet (\<lambda>w. \<forall>c. co_fin_st (cos w c) = []) (beh_seg beh) fin rt"
proof -
  have "\<exists>v' st. liteco_resume (beh_seg beh) fin d v = Some (v', st) \<and> (\<forall>c. co_fin_st (cos v' c) = []) \<and>
      rts v' = rts v \<and> mallocs v' = mallocs v \<and> (can_signal rt v \<longrightarrow> can_signal rt v') \<and>
      (\<forall>e. e \<noteq> d \<longrightarrow> status_of v' e = status_of v e)"
    if "\<forall>c. co_fin_st (cos v c) = []" "d \<noteq> NIL" "status_of v d \<in> {STATUS_STARTING, STATUS_READY}" for v d
  proof -
    have "runnable v d" using that by (simp add: runnable_def)
    from resume_beh [OF assms this, of fin] obtain v' st where
      v: "liteco_resume (beh_seg beh) fin d v = Some (v', st)" "co_fin_st (cos v' d) = []" "\<forall>e. e \<noteq> d \<longrightarrow> cos v' e = cos v e"
        "rts v' = rts v" "mallocs v' = mallocs v" "asyncs v' = asyncs v" "ev v' = ev v" by blast
    have "co_fin_st (cos v' c) = []" for c using v(2,3) that(1) by (cases "c = d") auto
    then show ?thesis using v by (intro exI [of _ v'] exI [of _ st]) (simp add: can_signal_def rt_pending_def)
  qed
  then show ?thesis by (simp add: quiet_def)
qed

lemma beh_turns:
  assumes "turns (beh_seg beh) fin rt w q ds v" "beh_ok beh" "distinct q" "\<forall>c\<in>set q. runnable w c"
  shows "rt_world.more v = rt_world.more w @ q \<and> ds = filter (yields beh) q"
  using assms
proof (induction rule: turns.induct)
  case (turn d q w w1 st ds w2)
  have "runnable (set_rq rt q w) d" using turn.prems(3) by (simp add: runnable_def)
  from resume_beh [OF turn.prems(1) this, of fin] turn.hyps(1)
  have w1: "status_of w1 d = STATUS_READY \<longleftrightarrow> yields beh d" "\<forall>e. e \<noteq> d \<longrightarrow> cos w1 e = cos w e"
    "rt_world.more w1 = rt_world.more w @ [d]" by auto
  have "runnable w1 c" if "c \<in> set q" for c
  proof -
    have "c \<noteq> d" "runnable w c" using that turn.prems(2,3) by auto
    then show ?thesis using w1(2) by (simp add: runnable_def)
  qed
  then show ?case using turn.IH turn.prems w1 by simp
qed simp

lemma runtime_pass_witness:
  "\<exists>w'. liteco_runtime_cb (beh_seg (\<lambda>c. if c = 12 then (STATUS_WAITING, None) else (STATUS_RUNNING, None)))
      (\<lambda>_ _ w. w) 9 demo_rt = Some w' \<and>
    rt_world.more w' = [11, 12, 13] \<and> rq (rts w' 9) = [11, 13] \<and> rt_pending 9 w'"
proof -
  let ?beh = "\<lambda>c::addr. if c = 12 then (STATUS_WAITING, None) else (STATUS_RUNNING, None :: int option)"
  have b: "beh_ok ?beh" by (simp add: beh_ok_def)
  have d: "\<forall>c. co_fin_st (cos demo_rt c) = []" "rq (rts demo_rt 9) = [11, 12, 13]" "\<And>c. status_of demo_rt c = STATUS_STARTING"
    "mallocs demo_rt = []" "can_signal 9 demo_rt" "rt_world.more demo_rt = []"
    by (simp_all add: demo_rt_def can_signal_def eventfd_max_def)
  have q: "distinct (rq (rts demo_rt 9))" "\<forall>d\<in>set (rq (rts demo_rt 9)). d \<noteq> NIL \<and> status_of demo_rt d \<in> {STATUS_STARTING, STATUS_READY}"
    by (simp_all add: d(2,3))
  from runtime_pass [OF beh_quiet [OF b, of "\<lambda>_ _ w. w" 9] d(1) q d(4,5)] obtain ds v w' where
    w': "turns (beh_seg ?beh) (\<lambda>_ _ w. w) 9 demo_rt [11, 12, 13] ds v" "liteco_runtime_cb (beh_seg ?beh) (\<lambda>_ _ w. w) 9 demo_rt = Some w'"
      "rq (rts w' 9) = ds" "rt_world.more w' = rt_world.more v" "rt_pending 9 w'"
    unfolding d(2) by blast
  have "\<forall>c\<in>set [11, 12, 13]. runnable demo_rt c" using d(1,3) by (simp add: runnable_def)
  with beh_turns [OF w'(1) b] have "rt_world.more v = [11, 12, 13]" "ds = [11, 13]" by (simp_all add: yields_def d(6))
  then show ?thesis using w'(2-5) by (intro exI [of _ w']) simp
qed

text \<open>The runtime signals itself at the end of every pass, also when no coroutine is
  ready: an event loop whose only handler is an idle runtime is woken again at once and comes
  back to the state it started from, so it never sleeps.\<close>

theorem runtime_idle_busy:
  assumes "rq (rts w rt) = []" and "async_list w = [rt_async (rts w rt)]" and "ev w = 1"
    and "as_status (asyncs w (rt_async (rts w rt))) = ASYNC_DONE"
    and "as_cb (asyncs w (rt_async (rts w rt))) = runtime_cb_id"
  shows "liteco_async_io_cb (\<lambda>cb h. liteco_runtime_cb seg fin rt) w = Some w"
proof -
  let ?h = "rt_async (rts w rt)"
  let ?w1 = "set_async ?h ASYNC_NO_PADDING (w\<lparr>ev := 0\<rparr>)"
  have more: "rts ?w1 = rts w" by (simp add: set_async_def)
  have "set_async ?h ASYNC_DONE (set_async ?h ASYNC_WORKING ?w1\<lparr>ev := 1\<rparr>) = w"
    using assms(3,4) by (cases w) (auto simp: set_async_def fun_upd_idem_iff)
  moreover have "ev (set_async ?h ASYNC_WORKING ?w1) = 0" "(0::nat) < eventfd_max"
    by (simp_all add: eventfd_max_def)
  ultimately have "liteco_runtime_cb seg fin rt ?w1 = Some w"
    using assms(1)
    by (simp add: liteco_runtime_cb_def runtime_run_loop.simps liteco_runtime_pop_def more
        liteco_async_send_def liteco_eloop_async_send_def)
  moreover have "async_dispatch (\<lambda>cb h. liteco_runtime_cb seg fin rt) (Suc 0) w = Some w"
    using assms(2) by (subst async_dispatch.simps) simp
  ultimately show ?thesis
    using assms by (simp add: liteco_async_io_cb_def) (subst async_dispatch.simps,
        simp add: liteco_async_spin_def runtime_cb_id_def)
qed

lemma runtime_idle_busy_witness:
  "let w = set_async 5 ASYNC_DONE (set_rq 9 [] demo_rt)\<lparr>ev := 1\<rparr>
   in liteco_async_io_cb (\<lambda>cb h. liteco_runtime_cb (\<lambda>_ _. None) (\<lambda>_ _ v. v) 9) w = Some w"
  unfolding Let_def
  by (rule runtime_idle_busy) (simp_all add: demo_rt_def set_async_def set_rq_def)

end
