(* ===== verification/Channel.thy ===== *)
theory Channel
  imports Runtime
begin

text \<open>
  Channels (\<open>src/lc_channel.c\<close>) and the element array they use
  (\<open>include/liteco/lc_array.h\<close>): the ring buffer, the waiter lists, push, pop, close and
  select. An operation that blocks switches away from the calling coroutine, so it is split at
  the switch: the first part returns \<open>Yield\<close>, the part after the switch is a definition of its
  own. \<open>None\<close> means as before that the call does not return on its own thread: a spin on a
  status, a mutex that is locked twice, or an access outside the array.
\<close>

section \<open>State\<close>

record liteco_array =
  ele_count :: u32
  ele_size :: u32
  payload :: "addr list"

text \<open>The size of the allocation is computed in \<open>uint32_t\<close>; the payload has the number of
  8-byte cells that fit into it. \<open>ok\<close> is the outcome of \<open>malloc\<close>.\<close>

definition liteco_array_create :: "bool \<Rightarrow> u32 \<Rightarrow> u32 \<Rightarrow> liteco_array option" where
  "liteco_array_create ok cnt sz =
     (if \<not> ok then None
      else Some \<lparr>ele_count = cnt, ele_size = sz, payload = replicate (unat (cnt * sz) div 8) NIL\<rparr>)"

text \<open>\<open>liteco_array_get\<close>: the offset in the payload is a product in \<open>uint32_t\<close>, too.\<close>

definition liteco_array_get :: "liteco_array \<Rightarrow> u32 \<Rightarrow> nat" where
  "liteco_array_get a i = unat (ele_size a * i) div 8"

definition array_read :: "liteco_array \<Rightarrow> u32 \<Rightarrow> addr option" where
  "array_read a i =
     (if liteco_array_get a i < length (payload a) then Some (payload a ! liteco_array_get a i) else None)"

definition array_write :: "liteco_array \<Rightarrow> u32 \<Rightarrow> addr \<Rightarrow> liteco_array option" where
  "array_write a i v =
     (if liteco_array_get a i < length (payload a)
      then Some (a\<lparr>payload := (payload a)[liteco_array_get a i := v]\<rparr>) else None)"

text \<open>A waiter: in the write list \<open>wt_ele\<close> is the element (\<open>s_ele\<close>), in the read list the place
  where the element is stored (\<open>r_store\<close>).\<close>

record liteco_waiter =
  wt_co :: addr
  wt_select :: bool
  wt_ele :: addr

record liteco_chan =
  queue :: "liteco_array option"
  head :: u32
  tail :: u32
  full :: bool
  ch_w :: "liteco_waiter list"
  ch_r :: "liteco_waiter list"
  closed :: bool
  ch_rt :: addr

text \<open>\<open>stores\<close> are the memory cells of type \<open>void *\<close> that elements are stored to.\<close>

record ch_world = rt_world +
  chans :: "addr \<Rightarrow> liteco_chan"
  stores :: "addr \<Rightarrow> addr"

definition liteco_ignore_awake_co :: addr where "liteco_ignore_awake_co = 2"
definition liteco_chan_pop_failed :: addr where "liteco_chan_pop_failed = 3"

definition upd_ch :: "addr \<Rightarrow> (liteco_chan \<Rightarrow> liteco_chan) \<Rightarrow> 'a ch_world_scheme \<Rightarrow> 'a ch_world_scheme" where
  "upd_ch c f w = w\<lparr>chans := (chans w)(c := f (chans w c))\<rparr>"

definition put_store :: "addr \<Rightarrow> addr \<Rightarrow> 'a ch_world_scheme \<Rightarrow> 'a ch_world_scheme" where
  "put_store l v w = w\<lparr>stores := (stores w)(l := v)\<rparr>"

datatype 'r outcome = Return 'r | Yield

section \<open>The ring buffer\<close>

definition liteco_chan_queue_full :: "liteco_chan \<Rightarrow> bool" where
  "liteco_chan_queue_full c \<longleftrightarrow> head c = tail c \<and> full c"

definition liteco_chan_queue_empty :: "liteco_chan \<Rightarrow> bool" where
  "liteco_chan_queue_empty c \<longleftrightarrow> head c = tail c \<and> \<not> full c"

definition liteco_chan_queue_pop :: "liteco_array \<Rightarrow> liteco_chan \<Rightarrow> liteco_chan" where
  "liteco_chan_queue_pop a c = c\<lparr>head := (head c + 1) mod ele_count a, full := False\<rparr>"

definition liteco_chan_queue_push :: "liteco_array \<Rightarrow> liteco_chan \<Rightarrow> liteco_chan" where
  "liteco_chan_queue_push a c =
     (let c1 = c\<lparr>tail := (tail c + 1) mod ele_count a\<rparr> in c1\<lparr>full := (head c1 = tail c1)\<rparr>)"

definition liteco_chan_wblocked :: "liteco_chan \<Rightarrow> bool" where
  "liteco_chan_wblocked c =
     (if closed c then False
      else if ch_r c \<noteq> [] then False
      else (case queue c of Some a \<Rightarrow> liteco_chan_queue_full c | None \<Rightarrow> True))"

definition liteco_chan_rblocked :: "liteco_chan \<Rightarrow> bool" where
  "liteco_chan_rblocked c =
     (if closed c then False
      else if ch_w c \<noteq> [] then False
      else (case queue c of Some a \<Rightarrow> liteco_chan_queue_empty c | None \<Rightarrow> True))"

text \<open>The element is stored at the tail and the tail moves; the element at the head is read and
  the head moves.\<close>

definition chan_enqueue :: "addr \<Rightarrow> liteco_chan \<Rightarrow> liteco_chan option" where
  "chan_enqueue ele c =
     (case queue c of
        None \<Rightarrow> None
      | Some a \<Rightarrow>
          (case array_write a (tail c) ele of
             None \<Rightarrow> None
           | Some a1 \<Rightarrow> Some (liteco_chan_queue_push a1 (c\<lparr>queue := Some a1\<rparr>))))"

definition chan_dequeue :: "liteco_chan \<Rightarrow> (liteco_chan \<times> addr) option" where
  "chan_dequeue c =
     (case queue c of
        None \<Rightarrow> None
      | Some a \<Rightarrow>
          (case array_read a (head c) of
             None \<Rightarrow> None
           | Some ele \<Rightarrow> Some (liteco_chan_queue_pop a c, ele)))"

section \<open>Creation and waiters\<close>

definition liteco_chan_init :: "addr \<Rightarrow> u32 \<Rightarrow> addr \<Rightarrow> 'a ch_world_scheme \<Rightarrow> 'a ch_world_scheme \<times> int" where
  "liteco_chan_init c ele_cnt rt w =
     (if ele_cnt = 0 then
        (upd_ch c (\<lambda>_. \<lparr>queue = None, head = 0, tail = 0, full = False, ch_w = [], ch_r = [],
           closed = False, ch_rt = rt\<rparr>) w, 0)
      else
        (let (w1, ok) = malloc w
         in case liteco_array_create ok ele_cnt 8 of
              None \<Rightarrow> (upd_ch c (\<lambda>x. x\<lparr>queue := None\<rparr>) w1, -1)
            | Some a \<Rightarrow>
                (upd_ch c (\<lambda>_. \<lparr>queue = Some a, head = 0, tail = 0, full = False, ch_w = [], ch_r = [],
                   closed = False, ch_rt = rt\<rparr>) w1, 0)))"

definition liteco_chan_join_runtime :: "addr \<Rightarrow> addr \<Rightarrow> 'a ch_world_scheme \<Rightarrow> 'a ch_world_scheme option" where
  "liteco_chan_join_runtime rt co w =
     (if co \<noteq> liteco_ignore_awake_co then
        (case liteco_set_status co STATUS_WAITING STATUS_READY w of
           None \<Rightarrow> None
         | Some w1 \<Rightarrow> map_option fst (liteco_runtime_join rt co w1))
      else Some w)"

text \<open>\<open>liteco_link_insert_after\<close> puts the waiter at the front of the list.\<close>

definition liteco_chan_wblock :: "addr \<Rightarrow> addr \<Rightarrow> bool \<Rightarrow> 'a ch_world_scheme \<Rightarrow> 'a ch_world_scheme \<times> int" where
  "liteco_chan_wblock c ele select w =
     (let (w1, ok) = malloc w
      in if \<not> ok then (w1, -1)
         else (upd_ch c (\<lambda>x. x\<lparr>ch_w := \<lparr>wt_co = this_co w1, wt_select = select, wt_ele = ele\<rparr> # ch_w x\<rparr>) w1, 0))"

definition liteco_chan_rblock :: "addr \<Rightarrow> addr \<Rightarrow> bool \<Rightarrow> 'a ch_world_scheme \<Rightarrow> 'a ch_world_scheme \<times> int" where
  "liteco_chan_rblock c ele_store select w =
     (let (w1, ok) = malloc w
      in if \<not> ok then (w1, -1)
         else (upd_ch c (\<lambda>x. x\<lparr>ch_r := \<lparr>wt_co = this_co w1, wt_select = select, wt_ele = ele_store\<rparr> # ch_r x\<rparr>) w1, 0))"

text \<open>The loops of the two functions are \<open>link_delete\<close> of \<open>Links\<close>, which filters the list.\<close>

definition liteco_chan_wdblock :: "addr \<Rightarrow> 'a ch_world_scheme \<Rightarrow> 'a ch_world_scheme" where
  "liteco_chan_wdblock c w = upd_ch c (\<lambda>x. x\<lparr>ch_w := filter (\<lambda>v. wt_co v \<noteq> this_co w) (ch_w x)\<rparr>) w"

definition liteco_chan_rdblock :: "addr \<Rightarrow> 'a ch_world_scheme \<Rightarrow> 'a ch_world_scheme" where
  "liteco_chan_rdblock c w = upd_ch c (\<lambda>x. x\<lparr>ch_r := filter (\<lambda>v. wt_co v \<noteq> this_co w) (ch_r x)\<rparr>) w"

section \<open>Writing and reading\<close>

definition liteco_chan_w :: "addr \<Rightarrow> addr \<Rightarrow> 'a ch_world_scheme \<Rightarrow> ('a ch_world_scheme \<times> bool) option" where
  "liteco_chan_w c ele w =
     (if closed (chans w c) then Some (w, True)
      else if liteco_chan_wblocked (chans w c) then Some (w, False)
      else
        (case ch_r (chans w c) of
           r # rs \<Rightarrow>
             (let w1 = (if \<not> wt_select r then put_store (wt_ele r) ele w else w);
                  w2 = upd_ch c (\<lambda>x. x\<lparr>ch_r := rs\<rparr>) w1
              in map_option (\<lambda>w3. (w3, \<not> wt_select r))
                   (liteco_chan_join_runtime (ch_rt (chans w2 c)) (wt_co r) w2))
         | [] \<Rightarrow>
             (case chan_enqueue ele (chans w c) of
                None \<Rightarrow> None
              | Some x \<Rightarrow> Some (upd_ch c (\<lambda>_. x) w, True))))"

definition liteco_chan_r :: "addr \<Rightarrow> addr \<Rightarrow> 'a ch_world_scheme \<Rightarrow> ('a ch_world_scheme \<times> bool) option" where
  "liteco_chan_r ele_store c w =
     (if closed (chans w c) then Some (w, True)
      else if liteco_chan_rblocked (chans w c) then Some (w, False)
      else
        (case ch_w (chans w c) of
           v # vs \<Rightarrow>
             (let w1 = (if \<not> wt_select v then put_store ele_store (wt_ele v) w else w);
                  w2 = upd_ch c (\<lambda>x. x\<lparr>ch_w := vs\<rparr>) w1
              in map_option (\<lambda>w3. (w3, \<not> wt_select v))
                   (liteco_chan_join_runtime (ch_rt (chans w2 c)) (wt_co v) w2))
         | [] \<Rightarrow>
             (case chan_dequeue (chans w c) of
                None \<Rightarrow> None
              | Some (x, ele) \<Rightarrow>
                  (let w1 = upd_ch c (\<lambda>_. x) (put_store ele_store ele w)
                   in case ch_w (chans w1 c) of
                        [] \<Rightarrow> Some (w1, True)
                      | v # vs \<Rightarrow>
                          (case (if \<not> wt_select v then chan_enqueue (wt_ele v) (chans w1 c)
                                 else Some (chans w1 c)) of
                             None \<Rightarrow> None
                           | Some y \<Rightarrow>
                               map_option (\<lambda>w3. (w3, True))
                                 (liteco_chan_join_runtime (ch_rt y) (wt_co v)
                                    (upd_ch c (\<lambda>_. y\<lparr>ch_w := vs\<rparr>) w1)))))))"

section \<open>Push and pop\<close>

text \<open>Up to the switch of a blocked push; after it, the push locks, unlocks and returns 0.\<close>

definition liteco_chan_push :: "addr \<Rightarrow> addr \<Rightarrow> bool \<Rightarrow> 'a ch_world_scheme \<Rightarrow>
    ('a ch_world_scheme \<times> int outcome) option" where
  "liteco_chan_push c ele blocked w =
     (if closed (chans w c) then Some (w, Return (-1))
      else (case liteco_chan_w c ele w of
              None \<Rightarrow> None
            | Some (w1, True) \<Rightarrow> Some (w1, Return 0)
            | Some (w1, False) \<Rightarrow>
                (if blocked
                 then (let w2 = fst (liteco_chan_wblock c ele False w1)
                       in map_option (\<lambda>w3. (liteco_yield w3, Yield))
                            (liteco_set_status (this_co w2) STATUS_RUNNING STATUS_WAITING w2))
                 else Some (w1, Return (-2)))))"

definition liteco_chan_push_resumed :: "'a ch_world_scheme \<Rightarrow> 'a ch_world_scheme \<times> int" where
  "liteco_chan_push_resumed w = (w, 0)"

text \<open>\<open>ret\<close> is the address of the local variable of \<open>liteco_chan_pop\<close> in the caller's stack.\<close>

definition liteco_chan_pop :: "addr \<Rightarrow> addr \<Rightarrow> bool \<Rightarrow> 'a ch_world_scheme \<Rightarrow>
    ('a ch_world_scheme \<times> addr outcome) option" where
  "liteco_chan_pop ret c blocked w =
     (if closed (chans w c) then Some (w, Return NIL)
      else (let w0 = put_store ret NIL w
            in case liteco_chan_r ret c w0 of
                 None \<Rightarrow> None
               | Some (w1, True) \<Rightarrow> Some (w1, Return (stores w1 ret))
               | Some (w1, False) \<Rightarrow>
                   (if blocked
                    then (let w2 = fst (liteco_chan_rblock c ret False w1)
                          in map_option (\<lambda>w3. (liteco_yield w3, Yield))
                               (liteco_set_status (this_co w2) STATUS_RUNNING STATUS_WAITING w2))
                    else Some (w1, Return liteco_chan_pop_failed))))"

definition liteco_chan_pop_resumed :: "addr \<Rightarrow> 'a ch_world_scheme \<Rightarrow> 'a ch_world_scheme \<times> addr" where
  "liteco_chan_pop_resumed ret w = (w, stores w ret)"

definition liteco_chan_unenforceable_push :: "addr \<Rightarrow> addr \<Rightarrow> 'a ch_world_scheme \<Rightarrow>
    ('a ch_world_scheme \<times> int) option" where
  "liteco_chan_unenforceable_push c ele w =
     (if closed (chans w c) then Some (w, -1)
      else (case liteco_chan_w c ele w of
              None \<Rightarrow> None
            | Some (w1, True) \<Rightarrow> Some (w1, 0)
            | Some (w1, False) \<Rightarrow>
                (let (w2, ok) = malloc w1
                 in Some (if ok then upd_ch c (\<lambda>x. x\<lparr>ch_w := \<lparr>wt_co = liteco_ignore_awake_co,
                             wt_select = False, wt_ele = ele\<rparr> # ch_w x\<rparr>) w2 else w2, 0))))"

definition liteco_chan_unenforceable_pop :: "addr \<Rightarrow> addr \<Rightarrow> 'a ch_world_scheme \<Rightarrow>
    ('a ch_world_scheme \<times> addr) option" where
  "liteco_chan_unenforceable_pop ret c w =
     (if closed (chans w c) then Some (w, liteco_chan_pop_failed)
      else (case liteco_chan_r ret c (put_store ret NIL w) of
              None \<Rightarrow> None
            | Some (w1, ok) \<Rightarrow> Some (w1, if ok then stores w1 ret else liteco_chan_pop_failed)))"

section \<open>Closing\<close>

text \<open>The two loops of \<open>liteco_chan_close\<close> differ in the list they empty; \<open>put\<close> writes that
  list.\<close>

fun close_loop :: "(liteco_waiter list \<Rightarrow> liteco_chan \<Rightarrow> liteco_chan) \<Rightarrow> liteco_waiter list \<Rightarrow> addr \<Rightarrow>
    'a ch_world_scheme \<Rightarrow> 'a ch_world_scheme option" where
  "close_loop put [] c w = Some w"
| "close_loop put (v # vs) c w =
     (let w1 = upd_ch c (put vs) w
      in case liteco_chan_join_runtime (ch_rt (chans w1 c)) (wt_co v) w1 of
           None \<Rightarrow> None
         | Some w2 \<Rightarrow> close_loop put vs c w2)"

definition put_writers :: "liteco_waiter list \<Rightarrow> liteco_chan \<Rightarrow> liteco_chan" where
  "put_writers vs x = x\<lparr>ch_w := vs\<rparr>"

definition put_readers :: "liteco_waiter list \<Rightarrow> liteco_chan \<Rightarrow> liteco_chan" where
  "put_readers vs x = x\<lparr>ch_r := vs\<rparr>"

definition liteco_chan_close :: "addr \<Rightarrow> 'a ch_world_scheme \<Rightarrow> ('a ch_world_scheme \<times> int) option" where
  "liteco_chan_close c w =
     (if closed (chans w c) then Some (w, 0)
      else (let w1 = upd_ch c (\<lambda>x. x\<lparr>closed := True\<rparr>) w
            in case close_loop put_writers (ch_w (chans w1 c)) c w1 of
                 None \<Rightarrow> None
               | Some w2 \<Rightarrow> map_option (\<lambda>w3. (w3, 0)) (close_loop put_readers (ch_r (chans w2 c)) c w2)))"

definition liteco_chan_destory :: "addr \<Rightarrow> 'a ch_world_scheme \<Rightarrow> 'a ch_world_scheme \<times> int" where
  "liteco_chan_destory c w =
     (if \<not> closed (chans w c) then (w, -1) else (upd_ch c (\<lambda>x. x\<lparr>queue := None\<rparr>) w, 0))"

end
