(* ===== verification/Select.thy ===== *)
theory Select
  imports Channel
begin

text \<open>
  \<open>liteco_select\<close> of \<open>src/lc_channel.c\<close>: waiting on several channels at once. As the other
  blocking operations it is split at the switch to another coroutine.
\<close>

datatype liteco_casetype = casetype_push | casetype_pop

text \<open>The element of a case is a cell of memory; \<open>cs_ele\<close> is its address.\<close>

record liteco_case =
  cs_chan :: addr
  cs_type :: liteco_casetype
  cs_ele :: addr

definition case_ready :: "liteco_case \<Rightarrow> 'a ch_world_scheme \<Rightarrow> bool" where
  "case_ready k w =
     (case cs_type k of
        casetype_push \<Rightarrow> \<not> liteco_chan_wblocked (chans w (cs_chan k))
      | casetype_pop \<Rightarrow> \<not> liteco_chan_rblocked (chans w (cs_chan k)))"

text \<open>The loop that looks for the first case that is not blocked.\<close>

fun select_scan :: "liteco_case list \<Rightarrow> 'a ch_world_scheme \<Rightarrow> nat option" where
  "select_scan [] w = None"
| "select_scan (k # ks) w = (if case_ready k w then Some 0 else map_option Suc (select_scan ks w))"

fun select_register :: "liteco_case list \<Rightarrow> 'a ch_world_scheme \<Rightarrow> 'a ch_world_scheme" where
  "select_register [] w = w"
| "select_register (k # ks) w =
     (case cs_type k of
        casetype_push \<Rightarrow> select_register ks (fst (liteco_chan_wblock (cs_chan k) (stores w (cs_ele k)) True w))
      | casetype_pop \<Rightarrow> select_register ks (fst (liteco_chan_rblock (cs_chan k) (cs_ele k) True w)))"

fun select_unregister :: "liteco_case list \<Rightarrow> 'a ch_world_scheme \<Rightarrow> 'a ch_world_scheme" where
  "select_unregister [] w = w"
| "select_unregister (k # ks) w =
     (case cs_type k of
        casetype_push \<Rightarrow> select_unregister ks (liteco_chan_wdblock (cs_chan k) w)
      | casetype_pop \<Rightarrow> select_unregister ks (liteco_chan_rdblock (cs_chan k) w))"

text \<open>Registering on all channels and switching away.\<close>

definition select_wait :: "liteco_case list \<Rightarrow> 'a ch_world_scheme \<Rightarrow> ('a ch_world_scheme \<times> 'r outcome) option" where
  "select_wait ks w =
     (let w1 = select_register ks w
      in map_option (\<lambda>w2. (liteco_yield w2, Yield))
           (liteco_set_status (this_co w1) STATUS_RUNNING STATUS_WAITING w1))"

text \<open>The channels are all locked at once: the mutex of a channel that occurs twice is locked
  twice by the same thread, which does not return.\<close>

definition liteco_select_choose :: "liteco_case list \<Rightarrow> bool \<Rightarrow> 'a ch_world_scheme \<Rightarrow>
    ('a ch_world_scheme \<times> nat option outcome) option" where
  "liteco_select_choose ks blocked w =
     (if \<not> distinct (map cs_chan ks) then None
      else (case select_scan ks w of
              Some i \<Rightarrow> Some (w, Return (Some i))
            | None \<Rightarrow> (if \<not> blocked then Some (w, Return None) else select_wait ks w)))"

text \<open>After the switch.\<close>

definition select_choose_resumed :: "liteco_case list \<Rightarrow> 'a ch_world_scheme \<Rightarrow>
    ('a ch_world_scheme \<times> nat option outcome) option" where
  "select_choose_resumed ks w =
     (let w1 = select_unregister ks w
      in case select_scan ks w1 of
           Some i \<Rightarrow> Some (w1, Return (Some i))
         | None \<Rightarrow> select_wait ks w1)"

text \<open>The chosen case is carried out without blocking; \<open>ret\<close> is the local variable of
  \<open>liteco_chan_pop\<close>.\<close>

definition select_attempt :: "addr \<Rightarrow> liteco_case \<Rightarrow> 'a ch_world_scheme \<Rightarrow> ('a ch_world_scheme \<times> bool) option" where
  "select_attempt ret k w =
     (case cs_type k of
        casetype_push \<Rightarrow>
          (case liteco_chan_push (cs_chan k) (stores w (cs_ele k)) False w of
             None \<Rightarrow> None
           | Some (w1, r) \<Rightarrow> Some (w1, r = Return 0))
      | casetype_pop \<Rightarrow>
          (case liteco_chan_pop ret (cs_chan k) False w of
             None \<Rightarrow> None
           | Some (w1, Return v) \<Rightarrow> Some (put_store (cs_ele k) v w1, v \<noteq> liteco_chan_pop_failed)
           | Some (w1, Yield) \<Rightarrow> Some (w1, False)))"

partial_function (option) select_loop :: "addr \<Rightarrow> liteco_case list \<Rightarrow> bool \<Rightarrow> 'a ch_world_scheme \<Rightarrow>
    ('a ch_world_scheme \<times> nat option outcome) option" where
  "select_loop ret ks blocked w =
     (case liteco_select_choose ks blocked w of
        None \<Rightarrow> None
      | Some (w1, r) \<Rightarrow>
          (case r of
             Yield \<Rightarrow> Some (w1, Yield)
           | Return c \<Rightarrow>
               (case c of
                  None \<Rightarrow> Some (w1, Return None)
                | Some i \<Rightarrow>
                    (case select_attempt ret (ks ! i) w1 of
                       None \<Rightarrow> None
                     | Some (w2, ok) \<Rightarrow>
                         (if ok then Some (w2, Return (Some i)) else select_loop ret ks blocked w2)))))"

declare select_loop.simps [code]

definition liteco_select :: "addr \<Rightarrow> liteco_case list \<Rightarrow> bool \<Rightarrow> 'a ch_world_scheme \<Rightarrow>
    ('a ch_world_scheme \<times> nat option outcome) option" where
  "liteco_select ret ks blocked w = select_loop ret ks blocked w"

definition liteco_select_resumed :: "addr \<Rightarrow> liteco_case list \<Rightarrow> 'a ch_world_scheme \<Rightarrow>
    ('a ch_world_scheme \<times> nat option outcome) option" where
  "liteco_select_resumed ret ks w =
     (case select_choose_resumed ks w of
        None \<Rightarrow> None
      | Some (w1, Return (Some i)) \<Rightarrow>
          (case select_attempt ret (ks ! i) w1 of
             None \<Rightarrow> None
           | Some (w2, ok) \<Rightarrow> if ok then Some (w2, Return (Some i)) else liteco_select ret ks True w2)
      | Some (w1, r) \<Rightarrow> Some (w1, r))"

end
