(* ===== verification/Chan_Ring.thy ===== *)
theory Chan_Ring
  imports Channel
begin

text \<open>
  The ring buffer of a channel is a bounded queue. \<open>bounded_fifo\<close> is the contract of such a
  queue; \<open>ring_abs c xs\<close> says that the channel \<open>c\<close> buffers the elements \<open>xs\<close>, oldest first,
  and the interpretation \<open>rb\<close> discharges the contract for the operations of the code.
\<close>

section \<open>The contract of a bounded queue\<close>

datatype 'e fifo_op = Enq 'e | Deq

text \<open>The queue as a list: what a sequence of attempts to enqueue and dequeue delivers.\<close>

fun list_run :: "nat \<Rightarrow> 'e fifo_op list \<Rightarrow> 'e list \<Rightarrow> 'e list \<times> 'e list" where
  "list_run n [] xs = ([], xs)"
| "list_run n (Enq e # os) xs = (if length xs = n then list_run n os xs else list_run n os (xs @ [e]))"
| "list_run n (Deq # os) xs =
     (case xs of [] \<Rightarrow> list_run n os [] | x # ys \<Rightarrow> (case list_run n os ys of (zs, r) \<Rightarrow> (x # zs, r)))"

locale bounded_fifo =
  fixes abs :: "'c \<Rightarrow> 'e list \<Rightarrow> bool"
    and cap :: "'c \<Rightarrow> nat"
    and is_full :: "'c \<Rightarrow> bool"
    and is_empty :: "'c \<Rightarrow> bool"
    and enq :: "'e \<Rightarrow> 'c \<Rightarrow> 'c option"
    and deq :: "'c \<Rightarrow> ('c \<times> 'e) option"
  assumes abs_len: "abs c xs \<Longrightarrow> length xs \<le> cap c"
    and abs_full: "abs c xs \<Longrightarrow> is_full c \<longleftrightarrow> length xs = cap c"
    and abs_empty: "abs c xs \<Longrightarrow> is_empty c \<longleftrightarrow> xs = []"
    and abs_enq: "abs c xs \<Longrightarrow> length xs < cap c \<Longrightarrow>
      \<exists>c'. enq e c = Some c' \<and> abs c' (xs @ [e]) \<and> cap c' = cap c"
    and abs_deq: "abs c (x # xs) \<Longrightarrow> \<exists>c'. deq c = Some (c', x) \<and> abs c' xs \<and> cap c' = cap c"
begin

text \<open>Any sequence of guarded operations delivers what the list delivers.\<close>

fun run :: "'e fifo_op list \<Rightarrow> 'c \<Rightarrow> ('e list \<times> 'c) option" where
  "run [] c = Some ([], c)"
| "run (Enq e # os) c =
     (if is_full c then run os c else (case enq e c of None \<Rightarrow> None | Some c' \<Rightarrow> run os c'))"
| "run (Deq # os) c =
     (if is_empty c then run os c
      else (case deq c of None \<Rightarrow> None
            | Some (c', x) \<Rightarrow> (case run os c' of None \<Rightarrow> None | Some (zs, d) \<Rightarrow> Some (x # zs, d))))"

lemma run_refines:
  "abs c xs \<Longrightarrow> \<exists>c'. run os c = Some (fst (list_run (cap c) os xs), c') \<and>
     abs c' (snd (list_run (cap c) os xs)) \<and> cap c' = cap c"
proof (induction os arbitrary: c xs)
  case (Cons o' os)
  show ?case
  proof (cases o')
    case (Enq e)
    show ?thesis
    proof (cases "length xs = cap c")
      case True
      then show ?thesis using Enq Cons abs_full by simp
    next
      case False
      then have "length xs < cap c" using abs_len [OF Cons.prems] by simp
      then obtain c' where c': "enq e c = Some c'" "abs c' (xs @ [e])" "cap c' = cap c"
        using abs_enq [OF Cons.prems, of e] by auto
      show ?thesis using Cons.IH [OF c'(2)] c' False abs_full [OF Cons.prems] Enq by simp
    qed
  next
    case Deq
    show ?thesis
    proof (cases xs)
      case Nil
      then show ?thesis using Deq Cons abs_empty by simp
    next
      case (Cons x ys)
      then obtain c' where c': "deq c = Some (c', x)" "abs c' ys" "cap c' = cap c"
        using abs_deq [of c x ys] Cons.prems by auto
      show ?thesis using Cons.IH [OF c'(2)] c' Cons abs_empty [OF Cons.prems] Deq
        by (auto split: prod.splits)
    qed
  qed
qed simp

end

section \<open>The ring buffer\<close>

text \<open>\<open>h\<close> is the head index and \<open>p\<close> the cells.\<close>

definition ring_cells :: "addr list \<Rightarrow> nat \<Rightarrow> addr list \<Rightarrow> bool" where
  "ring_cells p h xs \<longleftrightarrow> (\<forall>i<length xs. p ! ((h + i) mod length p) = xs ! i)"

definition ring_abs :: "liteco_chan \<Rightarrow> addr list \<Rightarrow> bool" where
  "ring_abs c xs \<longleftrightarrow>
     (case queue c of
        None \<Rightarrow> xs = [] \<and> head c = 0 \<and> tail c = 0 \<and> \<not> full c
      | Some a \<Rightarrow>
          ele_size a = 8 \<and> unat (ele_count a) < 2 ^ 29 \<and>
          length (payload a) = unat (ele_count a) \<and> unat (head c) < unat (ele_count a) \<and>
          length xs \<le> unat (ele_count a) \<and>
          unat (tail c) = (unat (head c) + length xs) mod unat (ele_count a) \<and>
          (full c \<longleftrightarrow> length xs = unat (ele_count a)) \<and> ring_cells (payload a) (unat (head c)) xs)"

definition chan_cap :: "liteco_chan \<Rightarrow> nat" where
  "chan_cap c = (case queue c of None \<Rightarrow> 0 | Some a \<Rightarrow> unat (ele_count a))"

lemma array_get_cell:
  assumes "ele_size a = 8" "unat i < 2 ^ 29"
  shows "liteco_array_get a i = unat i"
proof -
  have "unat (8 * i) = 8 * unat i" using assms(2) by (subst unat_mult_lem [THEN iffD1]) simp_all
  then show ?thesis using assms(1) by (simp add: liteco_array_get_def)
qed

lemma unat_next:
  fixes i n :: u32
  assumes "unat i < unat n"
  shows "unat ((i + 1) mod n) = (unat i + 1) mod unat n"
proof -
  have "unat n < 2 ^ LENGTH(32)" by (rule unsigned_less)
  then have "unat i + 1 < 2 ^ 32" using assms by simp
  then have "unat (i + 1) = unat i + 1" by (simp add: unat_word_ariths)
  then show ?thesis by (simp add: unat_mod_distrib)
qed

lemma ring_index_eq:
  fixes h i n :: nat
  assumes "h < n" "i \<le> n"
  shows "(h + i) mod n = h \<longleftrightarrow> i = 0 \<or> i = n"
proof (cases "h + i < n")
  case False
  then have "(h + i) mod n = h + i - n" using assms by (simp add: mod_if)
  then show ?thesis using False assms by auto
qed (use assms in auto)

lemma ring_index_neq:
  fixes h i j n :: nat
  assumes "i < j" "j < n"
  shows "(h + i) mod n \<noteq> (h + j) mod n"
proof
  assume "(h + i) mod n = (h + j) mod n"
  then have "n dvd (h + j) - (h + i)" using assms by (metis add_le_mono le_refl less_imp_le mod_eq_dvd_iff_nat)
  then have "n dvd j - i" by simp
  then show False using assms by (meson dvd_imp_le less_imp_diff_less not_less zero_less_diff)
qed

lemma enqueue_abs:
  assumes "ring_abs c xs" "length xs < chan_cap c"
  shows "\<exists>c'. chan_enqueue e c = Some c' \<and> ring_abs c' (xs @ [e]) \<and> chan_cap c' = chan_cap c \<and>
    ch_w c' = ch_w c \<and> ch_r c' = ch_r c \<and> closed c' = closed c \<and> ch_rt c' = ch_rt c \<and>
    (queue c' = None \<longleftrightarrow> queue c = None)"
proof -
  obtain a where a: "queue c = Some a" using assms(2) by (cases "queue c") (auto simp: chan_cap_def)
  let ?n = "unat (ele_count a)" and ?h = "unat (head c)" and ?t = "unat (tail c)" and ?k = "length xs"
  have R: "length (payload a) = ?n" "?h < ?n" "?k < ?n" "?t = (?h + ?k) mod ?n"
    "ring_cells (payload a) ?h xs" "ele_size a = 8" "?n < 2 ^ 29"
    using assms a by (simp_all add: ring_abs_def chan_cap_def)
  have t: "?t < ?n" using R by simp
  define a' where "a' = a\<lparr>payload := (payload a)[?t := e]\<rparr>"
  define c' where "c' = liteco_chan_queue_push a' (c\<lparr>queue := Some a'\<rparr>)"
  have enq: "chan_enqueue e c = Some c'"
    using a t R(1,6,7) array_get_cell [of a "tail c"] by (simp add: chan_enqueue_def array_write_def a'_def c'_def)
  have tl: "unat (tail c') = (?h + Suc ?k) mod ?n"
    using unat_next [OF t] R(4) by (simp add: c'_def a'_def liteco_chan_queue_push_def Let_def mod_Suc_eq)
  have hd: "head c' = head c" "queue c' = Some a'"
    by (simp_all add: c'_def liteco_chan_queue_push_def Let_def)
  have "full c' \<longleftrightarrow> unat (tail c') = ?h"
    by (auto simp: c'_def liteco_chan_queue_push_def Let_def word_unat_eq_iff)
  then have fl: "full c' \<longleftrightarrow> Suc ?k = ?n" using ring_index_eq [of ?h ?n "Suc ?k"] R tl by auto
  have "ring_cells (payload a') ?h (xs @ [e])"
    unfolding ring_cells_def
  proof (intro allI impI)
    fix i assume i: "i < length (xs @ [e])"
    show "payload a' ! ((?h + i) mod length (payload a')) = (xs @ [e]) ! i"
    proof (cases "i = ?k")
      case True
      then show ?thesis using R t by (simp add: a'_def)
    next
      case False
      then have "i < ?k" using i by simp
      then have "(?h + i) mod ?n \<noteq> ?t" using ring_index_neq [of i ?k ?n ?h] R by simp
      then show ?thesis using R \<open>i < ?k\<close> by (simp add: a'_def ring_cells_def nth_append)
    qed
  qed
  then have "ring_abs c' (xs @ [e])"
    using R tl hd fl by (simp add: ring_abs_def a'_def)
  then show ?thesis using enq hd a
    by (auto simp: chan_cap_def a'_def c'_def liteco_chan_queue_push_def Let_def)
qed

lemma dequeue_abs:
  assumes "ring_abs c (x # xs)"
  shows "\<exists>c'. chan_dequeue c = Some (c', x) \<and> ring_abs c' xs \<and> chan_cap c' = chan_cap c \<and>
    ch_w c' = ch_w c \<and> ch_r c' = ch_r c \<and> closed c' = closed c \<and> ch_rt c' = ch_rt c \<and>
    queue c' = queue c"
proof -
  obtain a where a: "queue c = Some a" using assms by (cases "queue c") (auto simp: ring_abs_def)
  let ?n = "unat (ele_count a)" and ?h = "unat (head c)" and ?k = "length xs"
  have R: "length (payload a) = ?n" "?h < ?n" "Suc ?k \<le> ?n" "unat (tail c) = (?h + Suc ?k) mod ?n"
    "ring_cells (payload a) ?h (x # xs)" "ele_size a = 8" "?n < 2 ^ 29"
    using assms a by (simp_all add: ring_abs_def)
  have "payload a ! ((?h + 0) mod ?n) = x"
    using R(1,5) unfolding ring_cells_def by (metis length_Cons nth_Cons_0 zero_less_Suc)
  then have read: "array_read a (head c) = Some x" using R array_get_cell [of a "head c"] by (simp add: array_read_def)
  let ?c = "liteco_chan_queue_pop a c"
  have h': "unat (head ?c) = (?h + 1) mod ?n"
    using unat_next [OF R(2)] by (simp add: liteco_chan_queue_pop_def)
  have "ring_cells (payload a) (unat (head ?c)) xs"
    unfolding ring_cells_def h'
  proof (intro allI impI)
    fix i assume "i < ?k"
    then have "payload a ! ((?h + Suc i) mod ?n) = xs ! i"
      using R(1,5) unfolding ring_cells_def by (metis Suc_less_eq length_Cons nth_Cons_Suc)
    then show "payload a ! (((?h + 1) mod ?n + i) mod length (payload a)) = xs ! i"
      using R(1) by (simp add: mod_add_left_eq)
  qed
  moreover have "unat (tail ?c) = (unat (head ?c) + ?k) mod ?n"
    using R(4) h' by (simp add: liteco_chan_queue_pop_def mod_add_left_eq)
  moreover have "unat (head ?c) < ?n" using h' R(2) by simp
  ultimately have "ring_abs ?c xs"
    using R(1,3,6,7) a by (simp add: ring_abs_def) (simp add: liteco_chan_queue_pop_def)
  then show ?thesis
    using a read by (auto simp: chan_dequeue_def chan_cap_def liteco_chan_queue_pop_def)
qed

lemma ring_head_tail:
  assumes "ring_abs c xs" "queue c = Some a"
  shows "head c = tail c \<longleftrightarrow> length xs = 0 \<or> length xs = chan_cap c"
    and "full c \<longleftrightarrow> length xs = chan_cap c" and "0 < chan_cap c"
proof -
  let ?n = "unat (ele_count a)" and ?h = "unat (head c)"
  have R: "?h < ?n" "length xs \<le> ?n" "unat (tail c) = (?h + length xs) mod ?n" "chan_cap c = ?n"
    "full c \<longleftrightarrow> length xs = ?n"
    using assms by (simp_all add: ring_abs_def chan_cap_def)
  have "head c = tail c \<longleftrightarrow> unat (tail c) = ?h" using word_unat_eq_iff by metis
  then show "head c = tail c \<longleftrightarrow> length xs = 0 \<or> length xs = chan_cap c"
    unfolding R(3,4) using ring_index_eq [OF R(1,2)] by (simp only:)
  show "full c \<longleftrightarrow> length xs = chan_cap c" using R(4,5) by simp
  show "0 < chan_cap c" using R(1,4) by simp
qed

lemma chan_full_iff:
  "ring_abs c xs \<Longrightarrow> queue c = Some a \<Longrightarrow> liteco_chan_queue_full c \<longleftrightarrow> length xs = chan_cap c"
  using ring_head_tail [of c xs a] unfolding liteco_chan_queue_full_def by blast

lemma chan_empty_iff:
  "ring_abs c xs \<Longrightarrow> queue c = Some a \<Longrightarrow> liteco_chan_queue_empty c \<longleftrightarrow> xs = []"
  using ring_head_tail [of c xs a] unfolding liteco_chan_queue_empty_def
  by (metis length_0_conv less_irrefl)

text \<open>The tests of \<open>liteco_chan_wblocked\<close> and \<open>liteco_chan_rblocked\<close>: a channel without an
  array counts as full and as empty.\<close>

definition buffer_full :: "liteco_chan \<Rightarrow> bool" where
  "buffer_full c = (case queue c of Some a \<Rightarrow> liteco_chan_queue_full c | None \<Rightarrow> True)"

definition buffer_empty :: "liteco_chan \<Rightarrow> bool" where
  "buffer_empty c = (case queue c of Some a \<Rightarrow> liteco_chan_queue_empty c | None \<Rightarrow> True)"

lemma buffer_full_iff: "ring_abs c xs \<Longrightarrow> buffer_full c \<longleftrightarrow> length xs = chan_cap c"
  using chan_full_iff [of c xs]
  by (cases "queue c") (auto simp: buffer_full_def ring_abs_def chan_cap_def)

lemma buffer_empty_iff: "ring_abs c xs \<Longrightarrow> buffer_empty c \<longleftrightarrow> xs = []"
  using chan_empty_iff [of c xs]
  by (cases "queue c") (auto simp: buffer_empty_def ring_abs_def)

interpretation rb: bounded_fifo ring_abs chan_cap buffer_full buffer_empty chan_enqueue chan_dequeue
proof unfold_locales
  show "length xs \<le> chan_cap c" if "ring_abs c xs" for c xs
    using that by (auto simp: ring_abs_def chan_cap_def split: option.splits)
  show "\<exists>c'. chan_enqueue e c = Some c' \<and> ring_abs c' (xs @ [e]) \<and> chan_cap c' = chan_cap c"
    if "ring_abs c xs" "length xs < chan_cap c" for c xs e
    using enqueue_abs [OF that, of e] by blast
  show "\<exists>c'. chan_dequeue c = Some (c', x) \<and> ring_abs c' xs \<and> chan_cap c' = chan_cap c"
    if "ring_abs c (x # xs)" for c x xs
    using dequeue_abs [OF that] by blast
qed (fact buffer_full_iff buffer_empty_iff)+

text \<open>A fresh channel.\<close>

lemma array_create_fits:
  assumes "unat cnt < 2 ^ 29"
  shows "liteco_array_create True cnt 8 =
    Some \<lparr>ele_count = cnt, ele_size = 8, payload = replicate (unat cnt) NIL\<rparr>"
proof -
  have "unat (cnt * 8) = unat cnt * 8"
    using assms by (simp add: unat_word_ariths)
  then show ?thesis by (simp add: liteco_array_create_def)
qed

lemma init_abs:
  assumes "unat cnt < 2 ^ 29" "mallocs w = []"
  shows "ring_abs (chans (fst (liteco_chan_init c cnt rt w)) c) [] \<and>
    chan_cap (chans (fst (liteco_chan_init c cnt rt w)) c) = unat cnt \<and>
    snd (liteco_chan_init c cnt rt w) = 0"
proof (cases "cnt = 0")
  case False
  then have "0 < unat cnt" by (simp add: unat_gt_0)
  then show ?thesis
    using False array_create_fits [OF assms(1)] assms
    by (simp add: liteco_chan_init_def upd_ch_def ring_abs_def chan_cap_def ring_cells_def)
qed (simp add: liteco_chan_init_def upd_ch_def ring_abs_def chan_cap_def)

end
