(* ===== verification/Channel_Props.thy ===== *)
theory Channel_Props
  imports Chan_Ring "HOL-Library.Multiset"
begin

text \<open>
  What channels promise: the channel invariant, the outcome of push, pop and close in every
  case, conservation of the elements, and where the code departs from a queue.
\<close>

section \<open>Waking a waiter\<close>

lemma upd_ch_fields [simp]:
  "chans (upd_ch c f w) d = (if d = c then f (chans w c) else chans w d)"
  "stores (upd_ch c f w) = stores w" "cos (upd_ch c f w) = cos w" "this_co (upd_ch c f w) = this_co w"
  "rts (upd_ch c f w) = rts w" "mallocs (upd_ch c f w) = mallocs w" "ev (upd_ch c f w) = ev w"
  "asyncs (upd_ch c f w) = asyncs w" "async_list (upd_ch c f w) = async_list w"
  by (simp_all add: upd_ch_def)

lemma put_store_fields [simp]:
  "stores (put_store l v w) m = (if m = l then v else stores w m)"
  "chans (put_store l v w) = chans w" "cos (put_store l v w) = cos w" "this_co (put_store l v w) = this_co w"
  "rts (put_store l v w) = rts w" "mallocs (put_store l v w) = mallocs w" "ev (put_store l v w) = ev w"
  "asyncs (put_store l v w) = asyncs w" "async_list (put_store l v w) = async_list w"
  by (simp_all add: put_store_def)

lemma can_signal_simps [simp]:
  "can_signal rt (upd_ch c f w) = can_signal rt w" "can_signal rt (put_store l v w) = can_signal rt w"
  "can_signal rt (put_status co st w) = can_signal rt w"
  by (simp_all add: can_signal_def rt_pending_def put_status_more)

lemma put_status_ch [simp]:
  "chans (put_status c st w) = chans w" "stores (put_status c st w) = stores w"
  by (simp_all add: put_status_def upd_co_def)

lemma set_rq_ch [simp]:
  "chans (set_rq rt q w) = chans w" "stores (set_rq rt q w) = stores w"
  by (simp_all add: set_rq_def)

lemma set_async_ch [simp]:
  "chans (set_async h st w) = chans w" "stores (set_async h st w) = stores w"
  "rts (set_async h st w) = rts w" "mallocs (set_async h st w) = mallocs w"
  by (simp_all add: set_async_def)

text \<open>What a component that uses channels adds to the world is not touched.\<close>

lemma ch_more [simp]:
  "ch_world.more (upd_ch c f w) = ch_world.more w" "ch_world.more (put_store l v w) = ch_world.more w"
  "ch_world.more (put_status co st w) = ch_world.more w" "ch_world.more (upd_co co g w) = ch_world.more w"
  "ch_world.more (set_rq rt q w) = ch_world.more w" "ch_world.more (set_async h sa w) = ch_world.more w"
  "ch_world.more (entered co w) = ch_world.more w"
  by (simp_all add: upd_ch_def put_store_def put_status_def upd_co_def set_rq_def set_async_def entered_def)

text \<open>The queue after a join.\<close>

definition joined :: "addr \<Rightarrow> addr list \<Rightarrow> addr list" where
  "joined co q = (if co \<in> set q then q else q @ [co])"

lemma join_signal:
  fixes w :: "'a ch_world_scheme"
  assumes "can_signal rt w" "mallocs w = []"
  shows "\<exists>w'. liteco_runtime_join rt co w = Some (w', 0) \<and>
    rq (rts w' rt) = joined co (rq (rts w rt)) \<and> (\<forall>rt'. rt' \<noteq> rt \<longrightarrow> rts w' rt' = rts w rt') \<and>
    rt_async (rts w' rt) = rt_async (rts w rt) \<and> can_signal rt w' \<and> mallocs w' = [] \<and>
    cos w' = cos w \<and> this_co w' = this_co w \<and> chans w' = chans w \<and> stores w' = stores w"
proof (cases "co \<in> set (rq (rts w rt))")
  case False
  have oth: "rts (set_rq rt q w) rt' = rts w rt'" if "rt' \<noteq> rt" for q rt'
    using that by (simp add: set_rq_def)
  have e: "chans (v\<lparr>ev := n\<rparr>) = chans v" "stores (v\<lparr>ev := n\<rparr>) = stores v"
    "rts (v\<lparr>ev := n\<rparr>) = rts v" "mallocs (v\<lparr>ev := n\<rparr>) = mallocs v" "asyncs (v\<lparr>ev := n\<rparr>) = asyncs v"
    for v :: "'a ch_world_scheme" and n by simp_all
  show ?thesis
  proof (cases "rt_pending rt w")
    case True
    then show ?thesis using False assms oth
      by (auto simp: liteco_runtime_join_def liteco_async_send_def joined_def can_signal_def rt_pending_def)
  next
    case np: False
    then have "ev w < eventfd_max" using assms(1) by (simp add: can_signal_def)
    then show ?thesis using np False assms(2) oth e
      by (auto simp: liteco_runtime_join_def liteco_async_send_def liteco_eloop_async_send_def
          joined_def can_signal_def rt_pending_def)
  qed
qed (use assms in \<open>simp add: liteco_runtime_join_def joined_def\<close>)

text \<open>A waiting coroutine is made ready and joins the runtime; a waiter without a coroutine is
  not woken.\<close>

lemma join_runtime_spec:
  fixes w :: "'a ch_world_scheme"
  assumes "co \<noteq> liteco_ignore_awake_co \<longrightarrow> status_of w co = STATUS_WAITING"
    and "can_signal rt w" "mallocs w = []"
  shows "\<exists>w'. liteco_chan_join_runtime rt co w = Some w' \<and> chans w' = chans w \<and> stores w' = stores w \<and>
    this_co w' = this_co w \<and> can_signal rt w' \<and> mallocs w' = [] \<and>
    (\<forall>d. status_of w' d = (if d = co \<and> co \<noteq> liteco_ignore_awake_co then STATUS_READY else status_of w d)) \<and>
    rq (rts w' rt) = (if co \<noteq> liteco_ignore_awake_co then joined co (rq (rts w rt)) else rq (rts w rt))"
proof (cases "co = liteco_ignore_awake_co")
  case True
  then show ?thesis using assms by (simp add: liteco_chan_join_runtime_def)
next
  case False
  let ?w = "put_status co STATUS_READY w"
  obtain w' where w': "liteco_runtime_join rt co ?w = Some (w', 0)"
    "rq (rts w' rt) = joined co (rq (rts w rt))" "can_signal rt w'" "mallocs w' = []" "cos w' = cos ?w"
    "this_co w' = this_co w" "chans w' = chans w" "stores w' = stores w"
    using join_signal [of rt ?w co] assms(2,3) by (auto simp: put_status_more)
  then show ?thesis
    using False assms(1)
    by (auto simp: liteco_chan_join_runtime_def liteco_set_status_def)
qed

section \<open>The channel invariant\<close>

text \<open>\<open>xs\<close> are the buffered elements. Writers wait only on a full channel without waiting
  readers, readers only on an empty one.\<close>

definition chan_ok :: "liteco_chan \<Rightarrow> addr list \<Rightarrow> bool" where
  "chan_ok c xs \<longleftrightarrow> ring_abs c xs \<and> (ch_w c \<noteq> [] \<longrightarrow> ch_r c = [] \<and> length xs = chan_cap c) \<and>
     (ch_r c \<noteq> [] \<longrightarrow> xs = [])"

lemma ring_abs_waiters:
  "ring_abs (c\<lparr>ch_w := ws\<rparr>) xs = ring_abs c xs" "ring_abs (c\<lparr>ch_r := rs\<rparr>) xs = ring_abs c xs"
  "ring_abs (c\<lparr>closed := b\<rparr>) xs = ring_abs c xs"
  "chan_cap (c\<lparr>ch_w := ws\<rparr>) = chan_cap c" "chan_cap (c\<lparr>ch_r := rs\<rparr>) = chan_cap c"
  by (simp_all add: ring_abs_def chan_cap_def split: option.split)

lemma wblocked_iff:
  "ring_abs c xs \<Longrightarrow> liteco_chan_wblocked c \<longleftrightarrow> \<not> closed c \<and> ch_r c = [] \<and> length xs = chan_cap c"
  using buffer_full_iff [of c xs] by (auto simp: liteco_chan_wblocked_def buffer_full_def)

lemma rblocked_iff:
  "ring_abs c xs \<Longrightarrow> liteco_chan_rblocked c \<longleftrightarrow> \<not> closed c \<and> ch_w c = [] \<and> xs = []"
  using buffer_empty_iff [of c xs] by (auto simp: liteco_chan_rblocked_def buffer_empty_def)

text \<open>Waiters that can be woken and are not part of a select.\<close>

definition plain_waiters :: "'a co_world_scheme \<Rightarrow> liteco_waiter list \<Rightarrow> bool" where
  "plain_waiters w vs \<longleftrightarrow> (\<forall>v\<in>set vs. \<not> wt_select v \<and>
     (wt_co v \<noteq> liteco_ignore_awake_co \<longrightarrow> status_of w (wt_co v) = STATUS_WAITING))"

text \<open>No coroutine waits twice.\<close>

definition waiting_cos :: "liteco_chan \<Rightarrow> addr list" where
  "waiting_cos c = filter (\<lambda>d. d \<noteq> liteco_ignore_awake_co) (map wt_co (ch_w c @ ch_r c))"

text \<open>The world an operation on the channel \<open>c\<close> starts from.\<close>

definition chan_ready :: "addr \<Rightarrow> addr list \<Rightarrow> 'a ch_world_scheme \<Rightarrow> bool" where
  "chan_ready c xs w \<longleftrightarrow> chan_ok (chans w c) xs \<and> \<not> closed (chans w c) \<and>
     plain_waiters w (ch_w (chans w c)) \<and> plain_waiters w (ch_r (chans w c)) \<and>
     distinct (waiting_cos (chans w c)) \<and> can_signal (ch_rt (chans w c)) w \<and> mallocs w = []"

text \<open>The elements a channel holds: the buffer and those of the waiting writers.\<close>

definition contents :: "liteco_chan \<Rightarrow> addr list \<Rightarrow> addr multiset" where
  "contents c xs = mset xs + mset (map wt_ele (ch_w c))"

text \<open>A weaker condition that also admits closed channels and waiters that belong to a select: no
  coroutine waits twice, and those that do can be woken.\<close>

definition chan_live :: "addr \<Rightarrow> addr list \<Rightarrow> 'a ch_world_scheme \<Rightarrow> bool" where
  "chan_live c xs w \<longleftrightarrow> ring_abs (chans w c) xs \<and>
     (\<forall>d\<in>set (waiting_cos (chans w c)). status_of w d = STATUS_WAITING) \<and>
     distinct (waiting_cos (chans w c)) \<and> can_signal (ch_rt (chans w c)) w \<and> mallocs w = []"

lemma ready_live: "chan_ready c xs w \<Longrightarrow> chan_live c xs w"
  by (auto simp: chan_ready_def chan_live_def chan_ok_def plain_waiters_def waiting_cos_def)

section \<open>Writing and reading\<close>

text \<open>The first waiting reader or writer is woken; it takes part in the transfer when it is not in a
  select.\<close>

lemma live_waits:
  assumes "chan_live c xs w" "v \<in> set (ch_w (chans w c) @ ch_r (chans w c))"
  shows "wt_co v \<noteq> liteco_ignore_awake_co \<longrightarrow> status_of w (wt_co v) = STATUS_WAITING"
  using assms by (auto simp: chan_live_def waiting_cos_def)

lemma w_first:
  fixes w :: "'a ch_world_scheme"
  assumes "chan_live c xs w" "\<not> closed (chans w c)" "ch_r (chans w c) = r # rs"
  shows "\<exists>w'. liteco_chan_w c ele w = Some (w', \<not> wt_select r) \<and>
    stores w' = (if wt_select r then stores w else (stores w)(wt_ele r := ele)) \<and>
    chans w' = (chans w)(c := (chans w c)\<lparr>ch_r := rs\<rparr>) \<and> this_co w' = this_co w \<and> mallocs w' = [] \<and>
    can_signal (ch_rt (chans w c)) w' \<and>
    (\<forall>d. status_of w' d = (if d = wt_co r \<and> wt_co r \<noteq> liteco_ignore_awake_co then STATUS_READY else status_of w d)) \<and>
    rq (rts w' (ch_rt (chans w c))) = (if wt_co r \<noteq> liteco_ignore_awake_co
       then joined (wt_co r) (rq (rts w (ch_rt (chans w c)))) else rq (rts w (ch_rt (chans w c))))"
proof -
  have R: "ring_abs (chans w c) xs" "can_signal (ch_rt (chans w c)) w" "mallocs w = []"
    using assms(1) by (auto simp: chan_live_def)
  have st: "wt_co r \<noteq> liteco_ignore_awake_co \<longrightarrow> status_of w (wt_co r) = STATUS_WAITING"
    using live_waits [OF assms(1), of r] assms(3) by simp
  let ?v = "if \<not> wt_select r then put_store (wt_ele r) ele w else w"
  let ?w = "upd_ch c (\<lambda>x. x\<lparr>ch_r := rs\<rparr>) ?v"
  have v: "cos ?v = cos w" "chans ?v = chans w" "mallocs ?v = mallocs w" "this_co ?v = this_co w"
    "rts ?v = rts w" "can_signal (ch_rt (chans w c)) ?v = can_signal (ch_rt (chans w c)) w"
    "stores ?v = (if wt_select r then stores w else (stores w)(wt_ele r := ele))"
    by (auto simp: fun_eq_iff)
  obtain w' where w': "liteco_chan_join_runtime (ch_rt (chans w c)) (wt_co r) ?w = Some w'"
    "chans w' = chans ?w" "stores w' = stores ?w" "this_co w' = this_co ?w"
    "can_signal (ch_rt (chans w c)) w'" "mallocs w' = []"
    "\<forall>d. status_of w' d = (if d = wt_co r \<and> wt_co r \<noteq> liteco_ignore_awake_co then STATUS_READY else status_of ?w d)"
    "rq (rts w' (ch_rt (chans w c))) = (if wt_co r \<noteq> liteco_ignore_awake_co
       then joined (wt_co r) (rq (rts ?w (ch_rt (chans w c)))) else rq (rts ?w (ch_rt (chans w c))))"
    using join_runtime_spec [of "wt_co r" ?w "ch_rt (chans w c)"] st R(2,3) v
    by (auto simp only: upd_ch_fields can_signal_simps)
  have "\<not> liteco_chan_wblocked (chans w c)" using wblocked_iff [OF R(1)] assms(3) by simp
  then have "liteco_chan_w c ele w = Some (w', \<not> wt_select r)"
    using assms(2,3) w'(1) v(2) by (simp add: liteco_chan_w_def Let_def)
  moreover have "chans ?w = (chans w)(c := (chans w c)\<lparr>ch_r := rs\<rparr>)" by (auto simp: fun_eq_iff)
  ultimately show ?thesis using w'(2-8) v by auto
qed

lemma r_first:
  fixes w :: "'a ch_world_scheme"
  assumes "chan_live c xs w" "\<not> closed (chans w c)" "ch_w (chans w c) = r # rs"
  shows "\<exists>w'. liteco_chan_r l c w = Some (w', \<not> wt_select r) \<and>
    stores w' = (if wt_select r then stores w else (stores w)(l := wt_ele r)) \<and>
    chans w' = (chans w)(c := (chans w c)\<lparr>ch_w := rs\<rparr>) \<and> this_co w' = this_co w \<and> mallocs w' = [] \<and>
    can_signal (ch_rt (chans w c)) w' \<and>
    (\<forall>d. status_of w' d = (if d = wt_co r \<and> wt_co r \<noteq> liteco_ignore_awake_co then STATUS_READY else status_of w d)) \<and>
    rq (rts w' (ch_rt (chans w c))) = (if wt_co r \<noteq> liteco_ignore_awake_co
       then joined (wt_co r) (rq (rts w (ch_rt (chans w c)))) else rq (rts w (ch_rt (chans w c))))"
proof -
  have R: "ring_abs (chans w c) xs" "can_signal (ch_rt (chans w c)) w" "mallocs w = []"
    using assms(1) by (auto simp: chan_live_def)
  have st: "wt_co r \<noteq> liteco_ignore_awake_co \<longrightarrow> status_of w (wt_co r) = STATUS_WAITING"
    using live_waits [OF assms(1), of r] assms(3) by simp
  let ?v = "if \<not> wt_select r then put_store l (wt_ele r) w else w"
  let ?w = "upd_ch c (\<lambda>x. x\<lparr>ch_w := rs\<rparr>) ?v"
  have v: "cos ?v = cos w" "chans ?v = chans w" "mallocs ?v = mallocs w" "this_co ?v = this_co w"
    "rts ?v = rts w" "can_signal (ch_rt (chans w c)) ?v = can_signal (ch_rt (chans w c)) w"
    "stores ?v = (if wt_select r then stores w else (stores w)(l := wt_ele r))"
    by (auto simp: fun_eq_iff)
  obtain w' where w': "liteco_chan_join_runtime (ch_rt (chans w c)) (wt_co r) ?w = Some w'"
    "chans w' = chans ?w" "stores w' = stores ?w" "this_co w' = this_co ?w"
    "can_signal (ch_rt (chans w c)) w'" "mallocs w' = []"
    "\<forall>d. status_of w' d = (if d = wt_co r \<and> wt_co r \<noteq> liteco_ignore_awake_co then STATUS_READY else status_of ?w d)"
    "rq (rts w' (ch_rt (chans w c))) = (if wt_co r \<noteq> liteco_ignore_awake_co
       then joined (wt_co r) (rq (rts ?w (ch_rt (chans w c)))) else rq (rts ?w (ch_rt (chans w c))))"
    using join_runtime_spec [of "wt_co r" ?w "ch_rt (chans w c)"] st R(2,3) v
    by (auto simp only: upd_ch_fields can_signal_simps)
  have "\<not> liteco_chan_rblocked (chans w c)" using rblocked_iff [OF R(1)] assms(3) by simp
  then have "liteco_chan_r l c w = Some (w', \<not> wt_select r)"
    using assms(2,3) w'(1) v(2) by (simp add: liteco_chan_r_def Let_def)
  moreover have "chans ?w = (chans w)(c := (chans w c)\<lparr>ch_w := rs\<rparr>)" by (auto simp: fun_eq_iff)
  ultimately show ?thesis using w'(2-8) v by auto
qed

lemma w_reader:
  fixes w :: "'a ch_world_scheme"
  assumes "chan_ready c xs w" "ch_r (chans w c) = r # rs"
  shows "\<exists>w'. liteco_chan_w c ele w = Some (w', True) \<and> stores w' = (stores w)(wt_ele r := ele) \<and>
    chans w' = (chans w)(c := (chans w c)\<lparr>ch_r := rs\<rparr>) \<and> this_co w' = this_co w \<and> mallocs w' = [] \<and>
    can_signal (ch_rt (chans w c)) w' \<and>
    (\<forall>d. status_of w' d = (if d = wt_co r \<and> wt_co r \<noteq> liteco_ignore_awake_co then STATUS_READY else status_of w d)) \<and>
    rq (rts w' (ch_rt (chans w c))) = (if wt_co r \<noteq> liteco_ignore_awake_co
       then joined (wt_co r) (rq (rts w (ch_rt (chans w c)))) else rq (rts w (ch_rt (chans w c))))"
proof -
  have "\<not> closed (chans w c)" "\<not> wt_select r"
    using assms by (auto simp: chan_ready_def plain_waiters_def)
  then show ?thesis using w_first [OF ready_live [OF assms(1)] _ assms(2), of ele] by simp
qed

lemma w_buffer:
  assumes "ring_abs (chans w c) xs" "\<not> closed (chans w c)" "ch_r (chans w c) = []"
    and "length xs < chan_cap (chans w c)"
  shows "\<exists>x. liteco_chan_w c ele w = Some (upd_ch c (\<lambda>_. x) w, True) \<and> ring_abs x (xs @ [ele]) \<and>
    chan_cap x = chan_cap (chans w c) \<and> ch_w x = ch_w (chans w c) \<and> ch_r x = [] \<and>
    \<not> closed x \<and> ch_rt x = ch_rt (chans w c)"
  using enqueue_abs [OF assms(1,4), of ele] wblocked_iff [OF assms(1)] assms(2-4)
  by (auto simp: liteco_chan_w_def)

lemma w_blocked:
  assumes "ring_abs (chans w c) xs" "\<not> closed (chans w c)" "ch_r (chans w c) = []"
    and "length xs = chan_cap (chans w c)"
  shows "liteco_chan_w c ele w = Some (w, False)"
  using wblocked_iff [OF assms(1)] assms(2-4) by (simp add: liteco_chan_w_def)

lemma r_writer:
  fixes w :: "'a ch_world_scheme"
  assumes "chan_ready c xs w" "ch_w (chans w c) = v # vs"
  shows "\<exists>w'. liteco_chan_r l c w = Some (w', True) \<and> stores w' = (stores w)(l := wt_ele v) \<and>
    chans w' = (chans w)(c := (chans w c)\<lparr>ch_w := vs\<rparr>) \<and> this_co w' = this_co w \<and> mallocs w' = [] \<and>
    can_signal (ch_rt (chans w c)) w' \<and>
    (\<forall>d. status_of w' d = (if d = wt_co v \<and> wt_co v \<noteq> liteco_ignore_awake_co then STATUS_READY else status_of w d)) \<and>
    rq (rts w' (ch_rt (chans w c))) = (if wt_co v \<noteq> liteco_ignore_awake_co
       then joined (wt_co v) (rq (rts w (ch_rt (chans w c)))) else rq (rts w (ch_rt (chans w c))))"
proof -
  have "\<not> closed (chans w c)" "\<not> wt_select v"
    using assms by (auto simp: chan_ready_def plain_waiters_def)
  then show ?thesis using r_first [OF ready_live [OF assms(1)] _ assms(2), of l] by simp
qed

lemma r_buffer:
  assumes "ring_abs (chans w c) (x # xs)" "\<not> closed (chans w c)" "ch_w (chans w c) = []"
  shows "\<exists>y. liteco_chan_r l c w = Some (upd_ch c (\<lambda>_. y) (put_store l x w), True) \<and> ring_abs y xs \<and>
    chan_cap y = chan_cap (chans w c) \<and> ch_w y = [] \<and> ch_r y = ch_r (chans w c) \<and>
    \<not> closed y \<and> ch_rt y = ch_rt (chans w c)"
  using dequeue_abs [OF assms(1)] rblocked_iff [OF assms(1)] assms(2,3)
  by (auto simp: liteco_chan_r_def)

lemma r_blocked:
  assumes "ring_abs (chans w c) []" "\<not> closed (chans w c)" "ch_w (chans w c) = []"
  shows "liteco_chan_r l c w = Some (w, False)"
  using rblocked_iff [OF assms(1)] assms(2,3) by (simp add: liteco_chan_r_def)

section \<open>Keeping the invariant\<close>

text \<open>Waking the coroutine of one waiter does not disturb the others.\<close>

lemma plain_after_wake:
  assumes "plain_waiters w vs" "\<forall>v\<in>set vs. wt_co v \<noteq> liteco_ignore_awake_co \<longrightarrow> wt_co v \<noteq> d"
    and "\<forall>e. status_of w' e = (if e = d \<and> P then STATUS_READY else status_of w e)"
  shows "plain_waiters w' vs"
  using assms by (auto simp: plain_waiters_def)

lemma ready_after_reader:
  assumes "chan_ready c xs w" "ch_r (chans w c) = r # rs"
    and "chans w' = (chans w)(c := (chans w c)\<lparr>ch_r := rs\<rparr>)" "mallocs w' = []"
    and "can_signal (ch_rt (chans w c)) w'"
    and "\<forall>d. status_of w' d = (if d = wt_co r \<and> wt_co r \<noteq> liteco_ignore_awake_co then STATUS_READY else status_of w d)"
  shows "chan_ready c xs w'"
proof -
  have d: "distinct (waiting_cos (chans w c))" and p: "plain_waiters w (ch_w (chans w c))" "plain_waiters w rs"
    using assms(1,2) by (auto simp: chan_ready_def plain_waiters_def)
  have "\<forall>v\<in>set (ch_w (chans w c)) \<union> set rs. wt_co v \<noteq> liteco_ignore_awake_co \<longrightarrow> wt_co v \<noteq> wt_co r"
    using d assms(2) by (auto simp: waiting_cos_def) (metis image_eqI)+
  then have "plain_waiters w' (ch_w (chans w c))" "plain_waiters w' rs"
    using p assms(6) by (auto intro!: plain_after_wake [where d = "wt_co r" and w = w])
  moreover have "distinct (waiting_cos ((chans w c)\<lparr>ch_r := rs\<rparr>))"
    using d assms(2) by (auto simp: waiting_cos_def split: if_splits)
  ultimately show ?thesis
    using assms by (auto simp: chan_ready_def chan_ok_def ring_abs_waiters)
qed

lemma ready_after_writer:
  assumes "chan_ready c xs w" "ch_w (chans w c) = v # vs"
    and "chans w' = (chans w)(c := (chans w c)\<lparr>ch_w := vs\<rparr>)" "mallocs w' = []"
    and "can_signal (ch_rt (chans w c)) w'"
    and "\<forall>d. status_of w' d = (if d = wt_co v \<and> wt_co v \<noteq> liteco_ignore_awake_co then STATUS_READY else status_of w d)"
  shows "chan_ready c xs w'"
proof -
  have d: "distinct (waiting_cos (chans w c))" and p: "plain_waiters w vs" "plain_waiters w (ch_r (chans w c))"
    using assms(1,2) by (auto simp: chan_ready_def plain_waiters_def)
  have "\<forall>x\<in>set vs \<union> set (ch_r (chans w c)). wt_co x \<noteq> liteco_ignore_awake_co \<longrightarrow> wt_co x \<noteq> wt_co v"
    using d assms(2) by (auto simp: waiting_cos_def) (metis image_eqI)+
  then have "plain_waiters w' vs" "plain_waiters w' (ch_r (chans w c))"
    using p assms(6) by (auto intro!: plain_after_wake [where d = "wt_co v" and w = w])
  moreover have "distinct (waiting_cos ((chans w c)\<lparr>ch_w := vs\<rparr>))"
    using d assms(2) by (auto simp: waiting_cos_def split: if_splits)
  ultimately show ?thesis
    using assms by (auto simp: chan_ready_def chan_ok_def ring_abs_waiters)
qed

lemma live_after:
  assumes "chan_live c xs w" "v \<in> set (ch_w (chans w c) @ ch_r (chans w c))"
    and "(\<exists>vs. ch_w (chans w c) = v # vs \<and> chans w' = (chans w)(c := (chans w c)\<lparr>ch_w := vs\<rparr>)) \<or>
         (\<exists>vs. ch_r (chans w c) = v # vs \<and> chans w' = (chans w)(c := (chans w c)\<lparr>ch_r := vs\<rparr>))"
    and "mallocs w' = []" "can_signal (ch_rt (chans w c)) w'"
    and "\<forall>d. status_of w' d = (if d = wt_co v \<and> wt_co v \<noteq> liteco_ignore_awake_co then STATUS_READY else status_of w d)"
  shows "chan_live c xs w'"
proof -
  let ?d = "if wt_co v = liteco_ignore_awake_co then [] else [wt_co v]"
  have d: "distinct (waiting_cos (chans w c))"
    and st: "\<forall>d\<in>set (waiting_cos (chans w c)). status_of w d = STATUS_WAITING"
    using assms(1) by (auto simp: chan_live_def)
  have m: "mset (waiting_cos (chans w c)) = mset (?d @ waiting_cos (chans w' c))"
    using assms(3) by (elim disjE exE conjE) (simp_all add: waiting_cos_def)
  then have d': "distinct (?d @ waiting_cos (chans w' c))" using d mset_eq_imp_distinct_iff by blast
  have sub: "set (waiting_cos (chans w' c)) \<subseteq> set (waiting_cos (chans w c))"
    using mset_eq_setD [OF m] by auto
  have "\<forall>d\<in>set (waiting_cos (chans w' c)). status_of w' d = STATUS_WAITING"
    using st sub d' assms(6) by (auto split: if_splits)
  moreover have "ring_abs (chans w' c) xs" "ch_rt (chans w' c) = ch_rt (chans w c)"
    using assms(1,3) by (auto simp: chan_live_def ring_abs_waiters)
  ultimately show ?thesis using d' assms(4,5) by (simp add: chan_live_def)
qed

lemma live_buffer:
  assumes "chan_live c xs w" "ring_abs x ys"
    and "ch_w x = ch_w (chans w c)" "ch_r x = ch_r (chans w c)" "ch_rt x = ch_rt (chans w c)"
    and "cos v = cos w" "chans v = chans w" "mallocs v = mallocs w"
    and "can_signal (ch_rt (chans w c)) v = can_signal (ch_rt (chans w c)) w"
  shows "chan_live c ys (upd_ch c (\<lambda>_. x) v)"
  using assms by (auto simp: chan_live_def waiting_cos_def)

lemma live_fields [simp]: "chan_live c xs (put_store l x w) = chan_live c xs w"
  by (simp add: chan_live_def)

lemma ready_store [simp]: "chan_ready c xs (put_store l x w) = chan_ready c xs w"
  by (simp add: chan_ready_def plain_waiters_def)

lemma ready_buffer:
  assumes "chan_ready c xs w" "ring_abs x ys" "chan_cap x = chan_cap (chans w c)"
    and "ch_w x = ch_w (chans w c)" "ch_r x = ch_r (chans w c)" "\<not> closed x" "ch_rt x = ch_rt (chans w c)"
    and "ch_w x = [] \<or> length ys = chan_cap x" "ch_r x \<noteq> [] \<longrightarrow> ys = []"
    and "cos v = cos w" "chans v = chans w" "mallocs v = mallocs w"
    and "can_signal (ch_rt (chans w c)) v = can_signal (ch_rt (chans w c)) w"
  shows "chan_ready c ys (upd_ch c (\<lambda>_. x) v)"
  using assms by (auto simp: chan_ready_def chan_ok_def waiting_cos_def plain_waiters_def)

text \<open>A coroutine that blocks is a new waiter at the front of its list.\<close>

lemma ready_block:
  assumes r: "chan_ready c xs w" and me: "this_co w \<noteq> liteco_ignore_awake_co"
    and run: "status_of w (this_co w) = STATUS_RUNNING"
    and x: "x = (chans w c)\<lparr>ch_w := \<lparr>wt_co = this_co w, wt_select = False, wt_ele = e\<rparr> # ch_w (chans w c)\<rparr> \<and>
              ch_r (chans w c) = [] \<and> length xs = chan_cap (chans w c) \<or>
            x = (chans w c)\<lparr>ch_r := \<lparr>wt_co = this_co w, wt_select = False, wt_ele = e\<rparr> # ch_r (chans w c)\<rparr> \<and>
              ch_w (chans w c) = [] \<and> xs = []"
  shows "chan_ready c xs (put_status (this_co w) STATUS_WAITING (upd_ch c (\<lambda>_. x) w))"
proof -
  let ?w = "put_status (this_co w) STATUS_WAITING (upd_ch c (\<lambda>_. x) w)"
  have nw: "this_co w \<notin> set (waiting_cos (chans w c))"
    using r run by (auto simp: chan_ready_def plain_waiters_def waiting_cos_def)
  have p: "plain_waiters ?w (ch_w (chans w c))" "plain_waiters ?w (ch_r (chans w c))"
    using r by (auto simp: chan_ready_def plain_waiters_def)
  have "distinct (waiting_cos x)"
    using r nw me x by (auto simp: chan_ready_def waiting_cos_def)
  moreover have "plain_waiters ?w (ch_w x)" "plain_waiters ?w (ch_r x)"
    using p x by (auto simp: plain_waiters_def)
  ultimately show ?thesis
    using r x by (auto simp: chan_ready_def chan_ok_def ring_abs_waiters put_status_more)
qed

lemma upd_ch_const: "upd_ch c f w = upd_ch c (\<lambda>_. f (chans w c)) w"
  by (simp add: upd_ch_def)

section \<open>Closing\<close>

text \<open>Waking all waiters of a list, as the loops of \<open>liteco_chan_close\<close> do.\<close>

definition wake_all :: "addr list \<Rightarrow> addr list \<Rightarrow> addr list" where
  "wake_all ds q = fold joined ds q"

definition woken :: "liteco_waiter list \<Rightarrow> addr list" where
  "woken vs = filter (\<lambda>d. d \<noteq> liteco_ignore_awake_co) (map wt_co vs)"

lemma set_wake_all: "set (wake_all ds q) = set q \<union> set ds"
proof (induction ds arbitrary: q)
  case (Cons d ds)
  then show ?case by (auto simp: wake_all_def joined_def)
qed (simp add: wake_all_def)

lemma close_loop_spec:
  fixes w :: "'a ch_world_scheme"
  assumes "distinct (woken vs)" "\<forall>d\<in>set (woken vs). status_of w d = STATUS_WAITING"
    and "can_signal (ch_rt (chans w c)) w" "mallocs w = []"
    and put: "\<And>vs us x. put vs (put us x) = put vs x" "\<And>vs x. ch_rt (put vs x) = ch_rt x"
    and "put vs (chans w c) = chans w c"
  shows "\<exists>w'. close_loop put vs c w = Some w' \<and> chans w' = (chans w)(c := put [] (chans w c)) \<and>
    stores w' = stores w \<and> can_signal (ch_rt (chans w c)) w' \<and> mallocs w' = [] \<and>
    (\<forall>d. status_of w' d = (if d \<in> set (woken vs) then STATUS_READY else status_of w d)) \<and>
    rq (rts w' (ch_rt (chans w c))) = wake_all (woken vs) (rq (rts w (ch_rt (chans w c))))"
  using assms(1-4,7)
proof (induction vs arbitrary: w)
  case Nil
  then show ?case by (simp add: woken_def wake_all_def fun_upd_idem)
next
  case (Cons v vs)
  let ?rt = "ch_rt (chans w c)" and ?w1 = "upd_ch c (put vs) w"
  have st: "wt_co v \<noteq> liteco_ignore_awake_co \<longrightarrow> status_of w (wt_co v) = STATUS_WAITING"
    using Cons.prems(2) by (auto simp: woken_def)
  obtain w2 where w2: "liteco_chan_join_runtime ?rt (wt_co v) ?w1 = Some w2" "chans w2 = chans ?w1"
    "stores w2 = stores w" "can_signal ?rt w2" "mallocs w2 = []"
    "\<forall>d. status_of w2 d = (if d = wt_co v \<and> wt_co v \<noteq> liteco_ignore_awake_co then STATUS_READY else status_of w d)"
    "rq (rts w2 ?rt) = (if wt_co v \<noteq> liteco_ignore_awake_co then joined (wt_co v) (rq (rts w ?rt)) else rq (rts w ?rt))"
    using join_runtime_spec [of "wt_co v" ?w1 ?rt] st Cons.prems(3,4) put by auto
  have ds: "woken (v # vs) = (if wt_co v \<noteq> liteco_ignore_awake_co then wt_co v # woken vs else woken vs)"
    by (simp add: woken_def)
  have c2: "chans w2 c = put vs (chans w c)" using w2(2) by simp
  have "distinct (woken vs)" using Cons.prems(1) ds by (simp split: if_splits)
  moreover have "\<forall>d\<in>set (woken vs). status_of w2 d = STATUS_WAITING"
  proof
    fix d assume d: "d \<in> set (woken vs)"
    then have "\<not> (d = wt_co v \<and> wt_co v \<noteq> liteco_ignore_awake_co)" "status_of w d = STATUS_WAITING"
      using Cons.prems(1,2) ds by (auto split: if_splits)
    then show "status_of w2 d = STATUS_WAITING" using w2(6) by simp
  qed
  ultimately obtain w' where w': "close_loop put vs c w2 = Some w'"
    "chans w' = (chans w2)(c := put [] (chans w2 c))" "stores w' = stores w2"
    "can_signal ?rt w'" "mallocs w' = []"
    "\<forall>d. status_of w' d = (if d \<in> set (woken vs) then STATUS_READY else status_of w2 d)"
    "rq (rts w' ?rt) = wake_all (woken vs) (rq (rts w2 ?rt))"
    using Cons.IH [of w2] w2(4,5) c2 put by (auto simp: fun_upd_def)
  have "chans w' = (chans w)(c := put [] (chans w c))" using w'(2) w2(2) put by (auto simp: fun_eq_iff)
  moreover have "close_loop put (v # vs) c w = Some w'" using w2(1) w'(1) put by simp
  moreover have "rq (rts w' ?rt) = wake_all (woken (v # vs)) (rq (rts w ?rt))"
    using w'(7) w2(7) ds by (simp add: wake_all_def)
  ultimately show ?case using w' w2 ds by auto
qed

lemma close_run:
  fixes w :: "'a ch_world_scheme"
  assumes "\<not> closed (chans w c)" "can_signal (ch_rt (chans w c)) w" "mallocs w = []"
    and d: "distinct (woken (ch_w (chans w c)) @ woken (ch_r (chans w c)))"
    and wt: "\<forall>d\<in>set (woken (ch_w (chans w c)) @ woken (ch_r (chans w c))). status_of w d = STATUS_WAITING"
  shows "\<exists>w'. liteco_chan_close c w = Some (w', 0) \<and>
    chans w' = (chans w)(c := (chans w c)\<lparr>closed := True, ch_w := [], ch_r := []\<rparr>) \<and>
    (\<forall>d\<in>set (woken (ch_w (chans w c)) @ woken (ch_r (chans w c))).
       status_of w' d = STATUS_READY \<and> d \<in> set (rq (rts w' (ch_rt (chans w c)))))"
proof -
  let ?rt = "ch_rt (chans w c)" and ?w1 = "upd_ch c (\<lambda>x. x\<lparr>closed := True\<rparr>) w"
  let ?ws = "ch_w (chans w c)" and ?rs = "ch_r (chans w c)"
  obtain w2 where w2: "close_loop put_writers ?ws c ?w1 = Some w2"
    "chans w2 = (chans ?w1)(c := put_writers [] (chans ?w1 c))" "can_signal ?rt w2" "mallocs w2 = []"
    "\<forall>d. status_of w2 d = (if d \<in> set (woken ?ws) then STATUS_READY else status_of w d)"
    "rq (rts w2 ?rt) = wake_all (woken ?ws) (rq (rts w ?rt))"
    using close_loop_spec [of ?ws ?w1 c put_writers] assms by (auto simp: put_writers_def)
  have c2: "ch_rt (chans w2 c) = ?rt" "ch_r (chans w2 c) = ?rs" using w2(2) by (simp_all add: put_writers_def)
  have "\<forall>d\<in>set (woken ?rs). status_of w2 d = STATUS_WAITING" using w2(5) d wt by auto
  then obtain w3 where w3: "close_loop put_readers ?rs c w2 = Some w3"
    "chans w3 = (chans w2)(c := put_readers [] (chans w2 c))"
    "\<forall>d. status_of w3 d = (if d \<in> set (woken ?rs) then STATUS_READY else status_of w2 d)"
    "rq (rts w3 ?rt) = wake_all (woken ?rs) (rq (rts w2 ?rt))"
    using close_loop_spec [of ?rs w2 c put_readers] d w2(3,4) c2 by (auto simp: put_readers_def)
  have "liteco_chan_close c w = Some (w3, 0)"
    using assms(1) w2(1) w3(1) c2 by (simp add: liteco_chan_close_def)
  moreover have "chans w3 = (chans w)(c := (chans w c)\<lparr>closed := True, ch_w := [], ch_r := []\<rparr>)"
    using w2(2) w3(2) by (auto simp: put_writers_def put_readers_def fun_eq_iff)
  ultimately show ?thesis using w3(3,4) w2(5,6) by (auto simp: set_wake_all)
qed

section \<open>Runs of push and pop\<close>

text \<open>The world after a push that blocks.\<close>

definition push_blocked :: "addr \<Rightarrow> addr \<Rightarrow> 'a ch_world_scheme \<Rightarrow> 'a ch_world_scheme" where
  "push_blocked c ele w = put_status (this_co w) STATUS_WAITING (upd_ch c
     (\<lambda>x. x\<lparr>ch_w := \<lparr>wt_co = this_co w, wt_select = False, wt_ele = ele\<rparr> # ch_w x\<rparr>) w)"

lemma push_block_world:
  assumes "chan_ready c xs w" and "ch_r (chans w c) = []" and "length xs = chan_cap (chans w c)"
    and "status_of w (this_co w) = STATUS_RUNNING"
  shows "liteco_chan_push c ele True w = Some (push_blocked c ele w, Yield)"
proof -
  have R: "ring_abs (chans w c) xs" "\<not> closed (chans w c)" "mallocs w = []"
    using assms(1) by (auto simp: chan_ready_def chan_ok_def)
  show ?thesis
    using w_blocked [OF R(1,2) assms(2,3), of ele] R(2,3) assms(4)
    by (simp add: liteco_chan_push_def liteco_chan_wblock_def push_blocked_def liteco_set_status_def
        liteco_yield_def Let_def)
qed

lemma push_block_run:
  assumes "chan_ready c xs w" and "ch_r (chans w c) = []" and "length xs = chan_cap (chans w c)"
    and "this_co w \<noteq> liteco_ignore_awake_co" and "status_of w (this_co w) = STATUS_RUNNING"
  shows "\<exists>w'. liteco_chan_push c ele True w = Some (w', Yield) \<and> chan_ready c xs w' \<and>
    status_of w' (this_co w) = STATUS_WAITING \<and>
    ch_w (chans w' c) = \<lparr>wt_co = this_co w, wt_select = False, wt_ele = ele\<rparr> # ch_w (chans w c)"
proof -
  let ?x = "(chans w c)\<lparr>ch_w := \<lparr>wt_co = this_co w, wt_select = False, wt_ele = ele\<rparr> # ch_w (chans w c)\<rparr>"
  have "push_blocked c ele w = put_status (this_co w) STATUS_WAITING (upd_ch c (\<lambda>_. ?x) w)"
    by (simp add: push_blocked_def upd_ch_const [of c "\<lambda>x. x\<lparr>ch_w := _ # ch_w x\<rparr>"])
  moreover have "chan_ready c xs (put_status (this_co w) STATUS_WAITING (upd_ch c (\<lambda>_. ?x) w))"
    using ready_block [OF assms(1,4,5), of ?x ele] assms(2,3) by blast
  ultimately show ?thesis using push_block_world [OF assms(1-3,5), of ele] by auto
qed

lemma pop_writer_run:
  fixes w :: "'a ch_world_scheme"
  assumes "chan_ready c xs w" and "ch_w (chans w c) = v # vs"
  shows "\<exists>w'. liteco_chan_pop l c b w = Some (w', Return (wt_ele v)) \<and> chan_ready c xs w' \<and>
    ch_w (chans w' c) = vs \<and>
    (wt_co v \<noteq> liteco_ignore_awake_co \<longrightarrow> status_of w' (wt_co v) = STATUS_READY \<and>
       wt_co v \<in> set (rq (rts w' (ch_rt (chans w c)))))"
proof -
  let ?w0 = "put_store l NIL w"
  have r0: "chan_ready c xs ?w0" using assms(1) by (simp add: chan_ready_def plain_waiters_def)
  have w0: "ch_w (chans ?w0 c) = v # vs" using assms(2) by simp
  obtain w' where w': "liteco_chan_r l c ?w0 = Some (w', True)" "stores w' = (stores ?w0)(l := wt_ele v)"
    "chans w' = (chans ?w0)(c := (chans ?w0 c)\<lparr>ch_w := vs\<rparr>)" "mallocs w' = []"
    "can_signal (ch_rt (chans ?w0 c)) w'"
    "\<forall>d. status_of w' d = (if d = wt_co v \<and> wt_co v \<noteq> liteco_ignore_awake_co then STATUS_READY else status_of ?w0 d)"
    "rq (rts w' (ch_rt (chans ?w0 c))) = (if wt_co v \<noteq> liteco_ignore_awake_co
       then joined (wt_co v) (rq (rts ?w0 (ch_rt (chans ?w0 c)))) else rq (rts ?w0 (ch_rt (chans ?w0 c))))"
    using r_writer [OF r0 w0, of l] by auto
  have "\<not> closed (chans w c)" using assms(1) by (simp add: chan_ready_def)
  then show ?thesis
    using ready_after_writer [OF r0 w0 w'(3,4,5,6)] w' by (auto simp: liteco_chan_pop_def joined_def)
qed

text \<open>The cases of a push and of a pop that do not block.\<close>

lemma push_first:
  fixes w :: "'a ch_world_scheme"
  assumes l: "chan_live c xs w" and o: "\<not> closed (chans w c)" and v: "ch_r (chans w c) = v # vs"
  shows "\<exists>w'. liteco_chan_push c ele False w = Some (w', Return (if wt_select v then -2 else 0)) \<and>
    chan_live c xs w' \<and> (chan_ready c xs w \<longrightarrow> chan_ready c xs w') \<and>
    stores w' = (if wt_select v then stores w else (stores w)(wt_ele v := ele)) \<and>
    ch_r (chans w' c) = vs \<and> ch_w (chans w' c) = ch_w (chans w c) \<and>
    (\<forall>d. d \<noteq> wt_co v \<longrightarrow> status_of w' d = status_of w d) \<and>
    (wt_co v \<noteq> liteco_ignore_awake_co \<longrightarrow> status_of w' (wt_co v) = STATUS_READY \<and>
       wt_co v \<in> set (rq (rts w' (ch_rt (chans w c)))))"
proof -
  obtain w' where w': "liteco_chan_w c ele w = Some (w', \<not> wt_select v)"
    "stores w' = (if wt_select v then stores w else (stores w)(wt_ele v := ele))"
    "chans w' = (chans w)(c := (chans w c)\<lparr>ch_r := vs\<rparr>)" "mallocs w' = []"
    "can_signal (ch_rt (chans w c)) w'"
    "\<forall>d. status_of w' d = (if d = wt_co v \<and> wt_co v \<noteq> liteco_ignore_awake_co then STATUS_READY else status_of w d)"
    "rq (rts w' (ch_rt (chans w c))) = (if wt_co v \<noteq> liteco_ignore_awake_co
       then joined (wt_co v) (rq (rts w (ch_rt (chans w c)))) else rq (rts w (ch_rt (chans w c))))"
    using w_first [OF l o v, of ele] by blast
  have "chan_live c xs w'" using live_after [OF l _ _ w'(4,5,6)] v w'(3) by auto
  moreover have "chan_ready c xs w \<longrightarrow> chan_ready c xs w'"
    using ready_after_reader [OF _ v w'(3,4,5,6)] by blast
  ultimately show ?thesis using w' v o by (auto simp: liteco_chan_push_def joined_def)
qed

lemma push_room:
  fixes w :: "'a ch_world_scheme"
  assumes l: "chan_live c xs w" and o: "\<not> closed (chans w c)" and v: "ch_r (chans w c) = []"
    and n: "length xs \<noteq> chan_cap (chans w c)"
  shows "\<exists>w'. liteco_chan_push c ele False w = Some (w', Return 0) \<and> chan_live c (xs @ [ele]) w' \<and>
    (chan_ready c xs w \<longrightarrow> chan_ready c (xs @ [ele]) w') \<and> stores w' = stores w \<and> cos w' = cos w \<and>
    ch_w (chans w' c) = ch_w (chans w c) \<and> ch_r (chans w' c) = []"
proof -
  have R: "ring_abs (chans w c) xs" using l by (simp add: chan_live_def)
  have "length xs < chan_cap (chans w c)" using rb.abs_len [OF R] n by simp
  from w_buffer [OF R o v this, of ele] obtain x where
    x: "liteco_chan_w c ele w = Some (upd_ch c (\<lambda>_. x) w, True)" "ring_abs x (xs @ [ele])"
      "chan_cap x = chan_cap (chans w c)" "ch_w x = ch_w (chans w c)" "ch_r x = []" "\<not> closed x"
      "ch_rt x = ch_rt (chans w c)" by auto
  have "chan_live c (xs @ [ele]) (upd_ch c (\<lambda>_. x) w)"
    using live_buffer [OF l x(2,4) _ x(7), of w] x(5) v by simp
  moreover have "chan_ready c (xs @ [ele]) (upd_ch c (\<lambda>_. x) w)" if "chan_ready c xs w"
  proof -
    have "ch_w x = []" using that n x(4) by (auto simp: chan_ready_def chan_ok_def)
    then show ?thesis using ready_buffer [OF that x(2,3,4), of w] x v by simp
  qed
  ultimately show ?thesis using x(1,4,5) o v by (auto simp: liteco_chan_push_def)
qed

lemma push_live:
  fixes w :: "'a ch_world_scheme"
  assumes "chan_live c xs w"
  shows "\<exists>w' r xs'. liteco_chan_push c ele False w = Some (w', Return r) \<and> chan_live c xs' w' \<and>
    (chan_ready c xs w \<longrightarrow> chan_ready c xs' w') \<and>
    (if closed (chans w c) then r = -1 \<and> w' = w \<and> xs' = xs
     else (case ch_r (chans w c) of
       [] \<Rightarrow> (if length xs = chan_cap (chans w c) then r = -2 \<and> w' = w \<and> xs' = xs
             else r = 0 \<and> xs' = xs @ [ele] \<and> stores w' = stores w \<and> cos w' = cos w \<and>
               ch_w (chans w' c) = ch_w (chans w c) \<and> ch_r (chans w' c) = [])
     | v # vs \<Rightarrow> r = (if wt_select v then -2 else 0) \<and> xs' = xs \<and>
         stores w' = (if wt_select v then stores w else (stores w)(wt_ele v := ele)) \<and>
         ch_r (chans w' c) = vs \<and> ch_w (chans w' c) = ch_w (chans w c) \<and>
         (\<forall>d. d \<noteq> wt_co v \<longrightarrow> status_of w' d = status_of w d) \<and>
         (wt_co v \<noteq> liteco_ignore_awake_co \<longrightarrow> status_of w' (wt_co v) = STATUS_READY \<and>
            wt_co v \<in> set (rq (rts w' (ch_rt (chans w c)))))))"
proof (cases "closed (chans w c)")
  case True
  then show ?thesis using assms by (auto simp: liteco_chan_push_def)
next
  case cl: False
  show ?thesis
  proof (cases "ch_r (chans w c)")
    case (Cons v vs)
    then show ?thesis using push_first [OF assms cl Cons, of ele] cl by fastforce
  next
    case Nil
    have "ring_abs (chans w c) xs" using assms by (simp add: chan_live_def)
    from w_blocked [OF this cl Nil, of ele] push_room [OF assms cl Nil, of ele] Nil cl assms show ?thesis
      by (cases "length xs = chan_cap (chans w c)") (auto simp: liteco_chan_push_def)
  qed
qed

lemma pop_first:
  fixes w :: "'a ch_world_scheme"
  assumes l: "chan_live c xs w" and o: "\<not> closed (chans w c)" and v: "ch_w (chans w c) = v # vs"
  shows "\<exists>w'. liteco_chan_pop l c False w =
      Some (w', Return (if wt_select v then liteco_chan_pop_failed else wt_ele v)) \<and>
    chan_live c xs w' \<and> (chan_ready c xs w \<longrightarrow> chan_ready c xs w') \<and>
    ch_w (chans w' c) = vs \<and> ch_r (chans w' c) = ch_r (chans w c) \<and>
    (\<forall>d. d \<noteq> wt_co v \<longrightarrow> status_of w' d = status_of w d) \<and>
    (wt_co v \<noteq> liteco_ignore_awake_co \<longrightarrow> status_of w' (wt_co v) = STATUS_READY \<and>
       wt_co v \<in> set (rq (rts w' (ch_rt (chans w c)))))"
proof -
  let ?w0 = "put_store l NIL w"
  have R: "chan_live c xs ?w0" "\<not> closed (chans ?w0 c)" "ch_w (chans ?w0 c) = v # vs" using l o v by simp_all
  obtain w' where w': "liteco_chan_r l c ?w0 = Some (w', \<not> wt_select v)"
    "stores w' = (if wt_select v then stores ?w0 else (stores ?w0)(l := wt_ele v))"
    "chans w' = (chans ?w0)(c := (chans ?w0 c)\<lparr>ch_w := vs\<rparr>)" "mallocs w' = []"
    "can_signal (ch_rt (chans ?w0 c)) w'"
    "\<forall>d. status_of w' d = (if d = wt_co v \<and> wt_co v \<noteq> liteco_ignore_awake_co then STATUS_READY else status_of ?w0 d)"
    "rq (rts w' (ch_rt (chans ?w0 c))) = (if wt_co v \<noteq> liteco_ignore_awake_co
       then joined (wt_co v) (rq (rts ?w0 (ch_rt (chans ?w0 c)))) else rq (rts ?w0 (ch_rt (chans ?w0 c))))"
    using r_first [OF R, of l] by blast
  have "chan_live c xs w'" using live_after [OF R(1) _ _ w'(4,5,6)] R(3) w'(3) by auto
  moreover have "chan_ready c xs w \<longrightarrow> chan_ready c xs w'"
    using ready_after_writer [OF _ R(3) w'(3,4,5,6), of xs] by simp
  ultimately show ?thesis using w' o by (auto simp: liteco_chan_pop_def joined_def)
qed

lemma pop_buffer:
  fixes w :: "'a ch_world_scheme"
  assumes l: "chan_live c (x # xs) w" and o: "\<not> closed (chans w c)" and v: "ch_w (chans w c) = []"
  shows "\<exists>w'. liteco_chan_pop l c False w = Some (w', Return x) \<and> chan_live c xs w' \<and>
    (chan_ready c (x # xs) w \<longrightarrow> chan_ready c xs w') \<and> cos w' = cos w \<and> ch_w (chans w' c) = []"
proof -
  let ?w0 = "put_store l NIL w"
  have R: "chan_live c (x # xs) ?w0" "ring_abs (chans ?w0 c) (x # xs)" using l by (simp_all add: chan_live_def)
  obtain y where y: "liteco_chan_r l c ?w0 = Some (upd_ch c (\<lambda>_. y) (put_store l x ?w0), True)"
    "ring_abs y xs" "chan_cap y = chan_cap (chans ?w0 c)" "ch_w y = []" "ch_r y = ch_r (chans ?w0 c)"
    "\<not> closed y" "ch_rt y = ch_rt (chans ?w0 c)"
    using r_buffer [OF R(2), of l] o v by auto
  have "chan_live c xs (upd_ch c (\<lambda>_. y) (put_store l x ?w0))"
    using y v by (intro live_buffer [OF R(1)]) simp_all
  moreover have "chan_ready c xs (upd_ch c (\<lambda>_. y) (put_store l x ?w0))" if "chan_ready c (x # xs) w"
  proof -
    have "ch_r (chans w c) = []" using that by (auto simp: chan_ready_def chan_ok_def)
    then show ?thesis using y v that by (intro ready_buffer [where w = ?w0 and xs = "x # xs"]) simp_all
  qed
  ultimately show ?thesis using y(1,4) o by (auto simp: liteco_chan_pop_def)
qed

lemma pop_live:
  fixes w :: "'a ch_world_scheme"
  assumes "chan_live c xs w"
  shows "\<exists>w' r xs'. liteco_chan_pop l c False w = Some (w', Return r) \<and> chan_live c xs' w' \<and>
    (chan_ready c xs w \<longrightarrow> chan_ready c xs' w') \<and>
    (if closed (chans w c) then r = NIL \<and> w' = w \<and> xs' = xs
     else (case ch_w (chans w c) of
       [] \<Rightarrow> ch_w (chans w' c) = [] \<and> cos w' = cos w \<and>
         (case xs of [] \<Rightarrow> r = liteco_chan_pop_failed \<and> xs' = [] \<and> chans w' = chans w
          | x # ys \<Rightarrow> r = x \<and> xs' = ys \<and> contents (chans w c) xs = add_mset r (contents (chans w' c) xs'))
     | v # vs \<Rightarrow> xs' = xs \<and>
         (if wt_select v then r = liteco_chan_pop_failed
          else r = wt_ele v \<and> contents (chans w c) xs = add_mset r (contents (chans w' c) xs')) \<and>
         ch_w (chans w' c) = vs \<and> ch_r (chans w' c) = ch_r (chans w c) \<and>
         (\<forall>d. d \<noteq> wt_co v \<longrightarrow> status_of w' d = status_of w d) \<and>
         (wt_co v \<noteq> liteco_ignore_awake_co \<longrightarrow> status_of w' (wt_co v) = STATUS_READY \<and>
            wt_co v \<in> set (rq (rts w' (ch_rt (chans w c)))))))"
proof (cases "closed (chans w c)")
  case True
  then show ?thesis using assms by (auto simp: liteco_chan_pop_def)
next
  case cl: False
  show ?thesis
  proof (cases "ch_w (chans w c)")
    case (Cons v vs)
    then show ?thesis using pop_first [OF assms cl Cons, of l] cl by (fastforce simp: contents_def)
  next
    case Nil
    show ?thesis
    proof (cases xs)
      case xs: (Cons x ys)
      from pop_buffer [OF assms [unfolded xs] cl Nil, of l] show ?thesis
        using cl Nil xs by (fastforce simp: contents_def)
    next
      case empty: Nil
      then show ?thesis
        using r_blocked [of "put_store l NIL w" c l] Nil cl assms
        by (auto simp: liteco_chan_pop_def chan_live_def)
    qed
  qed
qed

lemma push_run:
  fixes w :: "'a ch_world_scheme"
  assumes "chan_ready c xs w"
  shows "\<exists>w' r xs'. liteco_chan_push c ele False w = Some (w', Return r) \<and> chan_ready c xs' w' \<and>
    (case ch_r (chans w c) of
       [] \<Rightarrow> if length xs = chan_cap (chans w c) then r = -2 \<and> w' = w
            else r = 0 \<and> xs' = xs @ [ele] \<and> ch_w (chans w' c) = ch_w (chans w c)
     | v # vs \<Rightarrow> r = 0 \<and> xs' = [] \<and> stores w' (wt_ele v) = ele \<and> ch_r (chans w' c) = vs \<and>
         (wt_co v \<noteq> liteco_ignore_awake_co \<longrightarrow> status_of w' (wt_co v) = STATUS_READY \<and>
            wt_co v \<in> set (rq (rts w' (ch_rt (chans w c))))))"
proof -
  have "\<not> closed (chans w c)" "\<forall>v\<in>set (ch_r (chans w c)). \<not> wt_select v" "ch_r (chans w c) \<noteq> [] \<longrightarrow> xs = []"
    using assms by (auto simp: chan_ready_def chan_ok_def plain_waiters_def)
  with push_live [OF ready_live [OF assms], of ele] assms show ?thesis
    by (cases "ch_r (chans w c)") (force split: if_splits)+
qed

lemma pop_run:
  fixes w :: "'a ch_world_scheme"
  assumes "chan_ready c xs w"
  shows "\<exists>w' r xs'. liteco_chan_pop l c False w = Some (w', Return r) \<and> chan_ready c xs' w' \<and>
    (case ch_w (chans w c) of
       v # vs \<Rightarrow> r = wt_ele v \<and> xs' = xs \<and> ch_w (chans w' c) = vs \<and>
         (wt_co v \<noteq> liteco_ignore_awake_co \<longrightarrow> status_of w' (wt_co v) = STATUS_READY \<and>
            wt_co v \<in> set (rq (rts w' (ch_rt (chans w c)))))
     | [] \<Rightarrow> (case xs of [] \<Rightarrow> r = liteco_chan_pop_failed \<and> xs' = []
              | x # ys \<Rightarrow> r = x \<and> xs' = ys \<and> ch_w (chans w' c) = [])) \<and>
    (ch_w (chans w c) \<noteq> [] \<or> xs \<noteq> [] \<longrightarrow>
       contents (chans w c) xs = add_mset r (contents (chans w' c) xs'))"
proof -
  have o: "\<not> closed (chans w c)" "\<forall>v\<in>set (ch_w (chans w c)). \<not> wt_select v"
    using assms by (auto simp: chan_ready_def plain_waiters_def)
  show ?thesis
  proof (cases "ch_w (chans w c)")
    case (Cons v vs)
    then show ?thesis using pop_live [OF ready_live [OF assms], of l] assms o by (force split: if_splits)
  next
    case Nil
    then show ?thesis using pop_live [OF ready_live [OF assms], of l] assms o
      by (cases xs) (force split: if_splits)+
  qed
qed

section \<open>A concrete channel\<close>

text \<open>Channel 20 on runtime 9 with room for two elements, for the witnesses: \<open>xs\<close> buffered,
  \<open>ws\<close> and \<open>rs\<close> waiting. Coroutine 11 runs, all others wait.\<close>

definition demo_chan :: "addr list \<Rightarrow> liteco_waiter list \<Rightarrow> liteco_waiter list \<Rightarrow> unit ch_world_scheme" where
  "demo_chan xs ws rs = \<lparr>this_co = 11, cos = (\<lambda>c. \<lparr>co_p_ctx = NoCtx, co_st = 0, co_st_size = 0,
     co_status = (if c = 11 then STATUS_RUNNING else STATUS_WAITING), co_cb = 0, co_arg = 0,
     co_fin_st = [], co_ret = 0\<rparr>),
     asyncs = (\<lambda>h. \<lparr>as_cb = runtime_cb_id, as_status = ASYNC_NO_PADDING\<rparr>),
     async_list = [5], async_inited = True, ev = 0,
     rts = (\<lambda>_. \<lparr>rt_async = 5, rq = []\<rparr>), mallocs = [],
     chans = (\<lambda>_. \<lparr>queue = Some \<lparr>ele_count = 2, ele_size = 8, payload = take 2 (xs @ [0, 0])\<rparr>,
       head = 0, tail = of_nat (length xs mod 2), full = (length xs = 2), ch_w = ws, ch_r = rs,
       closed = False, ch_rt = 9\<rparr>),
     stores = (\<lambda>_. 0)\<rparr>"

definition demo_waiter :: "addr \<Rightarrow> addr \<Rightarrow> liteco_waiter" where
  "demo_waiter co e = \<lparr>wt_co = co, wt_select = False, wt_ele = e\<rparr>"

lemma demo_chan_fields [simp]:
  "ch_w (chans (demo_chan xs ws rs) c) = ws" "ch_r (chans (demo_chan xs ws rs) c) = rs"
  "closed (chans (demo_chan xs ws rs) c) = False" "ch_rt (chans (demo_chan xs ws rs) c) = 9"
  "chan_cap (chans (demo_chan xs ws rs) c) = 2" "mallocs (demo_chan xs ws rs) = []"
  "this_co (demo_chan xs ws rs) = 11"
  "status_of (demo_chan xs ws rs) d = (if d = 11 then STATUS_RUNNING else STATUS_WAITING)"
  by (simp_all add: demo_chan_def chan_cap_def)

lemma demo_ring:
  "ring_abs (chans (demo_chan [] ws rs) c) []" "ring_abs (chans (demo_chan [101] ws rs) c) [101]"
  "ring_abs (chans (demo_chan [101, 102] ws rs) c) [101, 102]"
  by (simp_all add: demo_chan_def ring_abs_def ring_cells_def All_less_Suc)

lemma demo_ready:
  "chan_ready 20 [101] (demo_chan [101] [] [])"
  "chan_ready 20 [101, 102] (demo_chan [101, 102] [demo_waiter 12 103] [])"
  "chan_ready 20 [] (demo_chan [] [] [demo_waiter 12 200, demo_waiter 13 201])"
  using demo_ring
  by (auto simp: chan_ready_def chan_ok_def plain_waiters_def waiting_cos_def demo_waiter_def
      liteco_ignore_awake_co_def can_signal_def)
    (simp_all add: demo_chan_def eventfd_max_def)

lemma demo_live:
  "chan_live 20 [] (demo_chan [] [] [demo_waiter 12 200\<lparr>wt_select := True\<rparr>])"
  "chan_live 20 [101, 102] (demo_chan [101, 102] [demo_waiter 12 103\<lparr>wt_select := True\<rparr>] [])"
  using demo_ring
  by (auto simp: chan_live_def waiting_cos_def demo_waiter_def can_signal_def)
    (simp_all add: demo_chan_def eventfd_max_def)

lemma demo_chan_stores: "stores (demo_chan xs ws rs) l = 0"
  by (simp add: demo_chan_def)

section \<open>Properties\<close>

text \<open>C17: the ring buffer of a channel created with fewer than 2^29 cells delivers exactly
  what a bounded list queue delivers, for every sequence of guarded reads and writes.\<close>

theorem ring_refines_queue:
  assumes "unat cnt < 2 ^ 29" and "mallocs w = []"
  shows "\<exists>x. rb.run ops (chans (fst (liteco_chan_init c cnt rt w)) c) =
    Some (fst (list_run (unat cnt) ops []), x) \<and> ring_abs x (snd (list_run (unat cnt) ops []))"
  using rb.run_refines [of _ "[]" ops] init_abs [OF assms, of c rt] by fastforce

lemma ring_refines_queue_witness:
  "\<exists>x. rb.run [Enq 5, Enq 6, Enq 7, Deq, Enq 8, Deq, Deq, Deq]
      (chans (fst (liteco_chan_init 20 2 9 (demo_chan [] [] []))) 20) = Some ([5, 6, 8], x) \<and> ring_abs x []"
  using ring_refines_queue [of 2 "demo_chan [] [] []" "[Enq 5, Enq 6, Enq 7, Deq, Enq 8, Deq, Deq, Deq]" 20 9]
  by simp

text \<open>C18: a push that does not block, on any channel whose waiters can be woken. A closed channel
  reports -1. The first waiting reader is taken from its list, becomes ready and joins the
  runtime; it gets the element, unless it waits in a select: then nothing is stored and the push
  reports -2 although it woke the reader. Without a waiting reader the element is buffered behind
  the others, and a full channel reports -2. No other coroutine changes its status, and on a
  channel without select waiters the channel invariant is kept.\<close>

theorem chan_push_spec:
  fixes w :: "'a ch_world_scheme"
  assumes "chan_live c xs w"
  shows "\<exists>w' r xs'. liteco_chan_push c ele False w = Some (w', Return r) \<and> chan_live c xs' w' \<and>
    (chan_ready c xs w \<longrightarrow> chan_ready c xs' w') \<and>
    (if closed (chans w c) then r = -1 \<and> w' = w \<and> xs' = xs
     else (case ch_r (chans w c) of
       [] \<Rightarrow> (if length xs = chan_cap (chans w c) then r = -2 \<and> w' = w \<and> xs' = xs
             else r = 0 \<and> xs' = xs @ [ele] \<and> stores w' = stores w \<and> cos w' = cos w \<and>
               ch_w (chans w' c) = ch_w (chans w c) \<and> ch_r (chans w' c) = [])
     | v # vs \<Rightarrow> r = (if wt_select v then -2 else 0) \<and> xs' = xs \<and>
         stores w' = (if wt_select v then stores w else (stores w)(wt_ele v := ele)) \<and>
         ch_r (chans w' c) = vs \<and> ch_w (chans w' c) = ch_w (chans w c) \<and>
         (\<forall>d. d \<noteq> wt_co v \<longrightarrow> status_of w' d = status_of w d) \<and>
         (wt_co v \<noteq> liteco_ignore_awake_co \<longrightarrow> status_of w' (wt_co v) = STATUS_READY \<and>
            wt_co v \<in> set (rq (rts w' (ch_rt (chans w c)))))))"
  by (rule push_live [OF assms])

lemma chan_push_spec_witness:
  "(\<exists>w' r xs'. liteco_chan_push 20 102 False (demo_chan [101] [] []) = Some (w', Return r) \<and>
      chan_ready 20 xs' w' \<and> r = 0 \<and> xs' = [101, 102]) \<and>
   (\<exists>w'. liteco_chan_push 20 102 False (demo_chan [] [] [demo_waiter 12 200\<lparr>wt_select := True\<rparr>]) =
        Some (w', Return (-2)) \<and> stores w' 200 = 0 \<and> status_of w' 12 = STATUS_READY \<and>
      ch_r (chans w' 20) = [])"
  using chan_push_spec [OF ready_live [OF demo_ready(1)], of 102] demo_ready(1)
    chan_push_spec [OF demo_live(1), of 102]
  by (auto simp: demo_waiter_def liteco_ignore_awake_co_def demo_chan_stores)

text \<open>A blocking push on a full channel makes the calling coroutine wait, as the first
  of the waiting writers, with its element; the buffer is left alone, the invariant is kept, and
  the channel holds one element more.\<close>

theorem chan_push_blocks:
  assumes "chan_ready c xs w" and "ch_r (chans w c) = []" and "length xs = chan_cap (chans w c)"
    and "this_co w \<noteq> liteco_ignore_awake_co" and "status_of w (this_co w) = STATUS_RUNNING"
  shows "\<exists>w'. liteco_chan_push c ele True w = Some (w', Yield) \<and> chan_ready c xs w' \<and>
    status_of w' (this_co w) = STATUS_WAITING \<and>
    ch_w (chans w' c) = \<lparr>wt_co = this_co w, wt_select = False, wt_ele = ele\<rparr> # ch_w (chans w c) \<and>
    contents (chans w' c) xs = add_mset ele (contents (chans w c) xs)"
  using push_block_run [OF assms, of ele] by (auto simp: contents_def)

lemma chan_push_blocks_witness:
  "\<exists>w'. liteco_chan_push 20 104 True (demo_chan [101, 102] [demo_waiter 12 103] []) = Some (w', Yield) \<and>
    chan_ready 20 [101, 102] w' \<and> ch_w (chans w' 20) = [demo_waiter 11 104, demo_waiter 12 103]"
  using chan_push_blocks [OF demo_ready(2), of 104]
  by (auto simp: demo_waiter_def liteco_ignore_awake_co_def)

text \<open>C19: a pop that does not block, on any channel whose waiters can be woken. A closed channel
  gives the null pointer. The first waiting writer is taken from its list, becomes ready and joins
  the runtime; the pop returns its element, unless it waits in a select: then the pop fails
  although it woke the writer, and even when elements are buffered. Without a waiting writer the
  pop takes the oldest buffered element and fails on an empty channel. An element that is returned
  is the only one that the channel loses, no other coroutine changes its status, and on a channel
  without select waiters the channel invariant is kept.\<close>

theorem chan_pop_spec:
  fixes w :: "'a ch_world_scheme"
  assumes "chan_live c xs w"
  shows "\<exists>w' r xs'. liteco_chan_pop l c False w = Some (w', Return r) \<and> chan_live c xs' w' \<and>
    (chan_ready c xs w \<longrightarrow> chan_ready c xs' w') \<and>
    (if closed (chans w c) then r = NIL \<and> w' = w \<and> xs' = xs
     else (case ch_w (chans w c) of
       [] \<Rightarrow> ch_w (chans w' c) = [] \<and> cos w' = cos w \<and>
         (case xs of [] \<Rightarrow> r = liteco_chan_pop_failed \<and> xs' = [] \<and> chans w' = chans w
          | x # ys \<Rightarrow> r = x \<and> xs' = ys \<and> contents (chans w c) xs = add_mset r (contents (chans w' c) xs'))
     | v # vs \<Rightarrow> xs' = xs \<and>
         (if wt_select v then r = liteco_chan_pop_failed
          else r = wt_ele v \<and> contents (chans w c) xs = add_mset r (contents (chans w' c) xs')) \<and>
         ch_w (chans w' c) = vs \<and> ch_r (chans w' c) = ch_r (chans w c) \<and>
         (\<forall>d. d \<noteq> wt_co v \<longrightarrow> status_of w' d = status_of w d) \<and>
         (wt_co v \<noteq> liteco_ignore_awake_co \<longrightarrow> status_of w' (wt_co v) = STATUS_READY \<and>
            wt_co v \<in> set (rq (rts w' (ch_rt (chans w c)))))))"
  by (rule pop_live [OF assms])

lemma chan_pop_spec_witness:
  "(\<exists>w' r xs'. liteco_chan_pop 300 20 False (demo_chan [101] [] []) = Some (w', Return r) \<and>
      chan_ready 20 xs' w' \<and> r = 101 \<and> xs' = []) \<and>
   (\<exists>w'. liteco_chan_pop 300 20 False (demo_chan [101, 102] [demo_waiter 12 103\<lparr>wt_select := True\<rparr>] []) =
        Some (w', Return liteco_chan_pop_failed) \<and> status_of w' 12 = STATUS_READY \<and>
      chan_live 20 [101, 102] w')"
  using chan_pop_spec [OF ready_live [OF demo_ready(1)], of 300] demo_ready(1)
    chan_pop_spec [OF demo_live(2), of 300]
  by (auto simp: demo_waiter_def liteco_ignore_awake_co_def)

text \<open>A channel is not a queue when writers wait: a pop returns the element of the writer
  that blocked last, ahead of every buffered element and of the writers that blocked before.\<close>

theorem chan_pop_overtakes:
  fixes w :: "'a ch_world_scheme"
  assumes "chan_ready c xs w" and "ch_r (chans w c) = []" and "length xs = chan_cap (chans w c)"
    and "this_co w \<noteq> liteco_ignore_awake_co" and "status_of w (this_co w) = STATUS_RUNNING"
  shows "\<exists>w' w''. liteco_chan_push c ele True w = Some (w', Yield) \<and>
    liteco_chan_pop l c False w' = Some (w'', Return ele) \<and> chan_ready c xs w'' \<and>
    ch_w (chans w'' c) = ch_w (chans w c)"
proof -
  obtain w' where w': "liteco_chan_push c ele True w = Some (w', Yield)" "chan_ready c xs w'"
    "ch_w (chans w' c) = \<lparr>wt_co = this_co w, wt_select = False, wt_ele = ele\<rparr> # ch_w (chans w c)"
    using push_block_run [OF assms, of ele] by auto
  show ?thesis using w'(1) pop_writer_run [OF w'(2,3), of l False] by fastforce
qed

lemma chan_pop_overtakes_witness:
  "\<exists>w' w''. liteco_chan_push 20 104 True (demo_chan [101, 102] [demo_waiter 12 103] []) = Some (w', Yield) \<and>
    liteco_chan_pop 300 20 False w' = Some (w'', Return 104) \<and> chan_ready 20 [101, 102] w'' \<and>
    ch_w (chans w'' 20) = [demo_waiter 12 103]"
  using chan_pop_overtakes [OF demo_ready(2), of 104 300]
  by (auto simp: liteco_ignore_awake_co_def)

text \<open>C20: closing an open channel ends and empties both waiter lists; every waiting coroutine
  is ready and in the queue of the runtime. Afterwards a push reports -1, and a pop returns the
  null pointer although elements may still be buffered.\<close>

theorem chan_close_wakes:
  fixes w :: "'a ch_world_scheme"
  assumes "chan_ready c xs w"
  shows "\<exists>w'. liteco_chan_close c w = Some (w', 0) \<and> closed (chans w' c) \<and>
    ch_w (chans w' c) = [] \<and> ch_r (chans w' c) = [] \<and> ring_abs (chans w' c) xs \<and>
    (\<forall>d\<in>set (waiting_cos (chans w c)). status_of w' d = STATUS_READY \<and>
       d \<in> set (rq (rts w' (ch_rt (chans w c))))) \<and>
    liteco_chan_push c ele b w' = Some (w', Return (-1)) \<and> liteco_chan_pop l c b w' = Some (w', Return NIL)"
proof -
  have R: "\<not> closed (chans w c)" "can_signal (ch_rt (chans w c)) w" "mallocs w = []"
    "ring_abs (chans w c) xs" "distinct (woken (ch_w (chans w c)) @ woken (ch_r (chans w c)))"
    "\<forall>d\<in>set (woken (ch_w (chans w c)) @ woken (ch_r (chans w c))). status_of w d = STATUS_WAITING"
    "set (waiting_cos (chans w c)) = set (woken (ch_w (chans w c)) @ woken (ch_r (chans w c)))"
    using assms by (auto simp: chan_ready_def chan_ok_def waiting_cos_def woken_def plain_waiters_def)
  show ?thesis
    using close_run [OF R(1,2,3,5,6)] R(4,7)
    by (auto simp: ring_abs_waiters liteco_chan_push_def liteco_chan_pop_def)
qed

lemma chan_close_wakes_witness:
  "\<exists>w'. liteco_chan_close 20 (demo_chan [] [] [demo_waiter 12 200, demo_waiter 13 201]) = Some (w', 0) \<and>
    status_of w' 12 = STATUS_READY \<and> {12, 13} \<subseteq> set (rq (rts w' 9)) \<and>
    liteco_chan_push 20 7 False w' = Some (w', Return (-1))"
  using chan_close_wakes [OF demo_ready(3), of 7 False 300]
  by (auto simp: waiting_cos_def demo_waiter_def liteco_ignore_awake_co_def)

end
