(* ===== verification/Select_Props.thy ===== *)
theory Select_Props
  imports Select Channel_Props
begin

text \<open>
  What \<open>liteco_select\<close> does: it carries out the first case that is ready, it registers and
  unregisters itself without a trace, and three situations in which the calling thread hangs.
\<close>

section \<open>Scanning and registering\<close>

lemma select_scan_Some:
  "select_scan ks w = Some i \<longleftrightarrow>
     i < length ks \<and> case_ready (ks ! i) w \<and> (\<forall>j<i. \<not> case_ready (ks ! j) w)"
proof (induction ks w arbitrary: i rule: select_scan.induct)
  case (2 k ks w)
  show ?case by (cases i) (auto simp: 2 less_Suc_eq_0_disj)
qed simp

lemma select_scan_None: "select_scan ks w = None \<longleftrightarrow> (\<forall>k\<in>set ks. \<not> case_ready k w)"
  by (induction ks w rule: select_scan.induct) auto

lemma register_frame:
  "mallocs w = [] \<Longrightarrow> cos (select_register ks w) = cos w \<and> this_co (select_register ks w) = this_co w \<and>
     mallocs (select_register ks w) = [] \<and> stores (select_register ks w) = stores w"
  by (induction ks w rule: select_register.induct)
    (auto simp: liteco_chan_wblock_def liteco_chan_rblock_def split: liteco_casetype.split)

text \<open>The waiters of other coroutines are not touched by registering, and unregistering removes
  exactly the waiters of the calling coroutine.\<close>

definition drop_own :: "addr \<Rightarrow> liteco_chan \<Rightarrow> liteco_chan" where
  "drop_own co x = x\<lparr>ch_w := filter (\<lambda>v. wt_co v \<noteq> co) (ch_w x), ch_r := filter (\<lambda>v. wt_co v \<noteq> co) (ch_r x)\<rparr>"

lemma register_drop_own:
  "mallocs w = [] \<Longrightarrow> drop_own (this_co w) (chans (select_register ks w) c) = drop_own (this_co w) (chans w c)"
proof (induction ks w rule: select_register.induct)
  case (2 k ks w)
  then show ?case
    by (cases "cs_type k") (auto simp: liteco_chan_wblock_def liteco_chan_rblock_def drop_own_def)
qed simp

lemma unregister_this: "this_co (select_unregister ks w) = this_co w"
  by (induction ks w rule: select_unregister.induct)
    (auto simp: liteco_chan_wdblock_def liteco_chan_rdblock_def split: liteco_casetype.split)

lemma unregister_drop_own:
  "drop_own (this_co w) (chans (select_unregister ks w) c) = drop_own (this_co w) (chans w c)"
proof (induction ks w rule: select_unregister.induct)
  case (2 k ks w)
  then show ?case
    by (cases "cs_type k") (auto simp: liteco_chan_wdblock_def liteco_chan_rdblock_def drop_own_def)
qed simp

text \<open>Whether the coroutine waits on a side of a channel.\<close>

definition waits_w :: "addr \<Rightarrow> liteco_chan \<Rightarrow> bool" where
  "waits_w co x \<longleftrightarrow> co \<in> wt_co ` set (ch_w x)"

definition waits_r :: "addr \<Rightarrow> liteco_chan \<Rightarrow> bool" where
  "waits_r co x \<longleftrightarrow> co \<in> wt_co ` set (ch_r x)"

lemma register_waits:
  assumes "mallocs w = []"
  shows "waits_w (this_co w) (chans (select_register ks w) c) \<longleftrightarrow>
      waits_w (this_co w) (chans w c) \<or> (\<exists>k\<in>set ks. cs_chan k = c \<and> cs_type k = casetype_push)"
    and "waits_r (this_co w) (chans (select_register ks w) c) \<longleftrightarrow>
      waits_r (this_co w) (chans w c) \<or> (\<exists>k\<in>set ks. cs_chan k = c \<and> cs_type k = casetype_pop)"
  using assms
proof (induction ks w rule: select_register.induct)
  case (2 k ks w)
  { case 1 then show ?case using 2
      by (cases "cs_type k") (auto simp: liteco_chan_wblock_def liteco_chan_rblock_def waits_w_def)
  next
    case 2 then show ?case using "2.IH"
      by (cases "cs_type k") (auto simp: liteco_chan_wblock_def liteco_chan_rblock_def waits_r_def) }
qed simp_all

lemma unregister_waits:
  "waits_w (this_co w) (chans (select_unregister ks w) c) \<longleftrightarrow>
      waits_w (this_co w) (chans w c) \<and> \<not> (\<exists>k\<in>set ks. cs_chan k = c \<and> cs_type k = casetype_push)"
  "waits_r (this_co w) (chans (select_unregister ks w) c) \<longleftrightarrow>
      waits_r (this_co w) (chans w c) \<and> \<not> (\<exists>k\<in>set ks. cs_chan k = c \<and> cs_type k = casetype_pop)"
proof (induction ks w rule: select_unregister.induct)
  case (2 k ks w)
  { case 1 then show ?case using 2
      by (cases "cs_type k") (auto simp: liteco_chan_wdblock_def liteco_chan_rdblock_def waits_w_def)
  next
    case 2 then show ?case using "2.IH"
      by (cases "cs_type k") (auto simp: liteco_chan_wdblock_def liteco_chan_rdblock_def waits_r_def) }
qed simp_all

lemma drop_own_idle:
  assumes "\<not> waits_w co x" "\<not> waits_r co x"
  shows "drop_own co x = x"
proof -
  have "filter (\<lambda>v. wt_co v \<noteq> co) (ch_w x) = ch_w x" "filter (\<lambda>v. wt_co v \<noteq> co) (ch_r x) = ch_r x"
    using assms by (auto simp: waits_w_def waits_r_def filter_id_conv)
  then show ?thesis by (simp add: drop_own_def)
qed

section \<open>Hanging\<close>

lemma loop_closed_push:
  assumes "select_loop ret ks b w = Some y"
  shows "select_scan ks w = Some i \<longrightarrow> cs_type (ks ! i) = casetype_push \<longrightarrow>
    \<not> closed (chans w (cs_chan (ks ! i)))"
proof (rule select_loop.raw_induct [OF _ assms, of "\<lambda>ret ks b w y. select_scan ks w = Some i \<longrightarrow>
    cs_type (ks ! i) = casetype_push \<longrightarrow> \<not> closed (chans w (cs_chan (ks ! i)))"])
  fix loop ret ks b w y
  assume IH: "\<And>ret ks b w y. loop ret ks b w = Some y \<Longrightarrow> select_scan ks w = Some i \<longrightarrow>
      cs_type (ks ! i) = casetype_push \<longrightarrow> \<not> closed (chans w (cs_chan (ks ! i)))"
    and body: "(case liteco_select_choose ks b w of
        None \<Rightarrow> None
      | Some (w1, r) \<Rightarrow>
          (case r of
             Yield \<Rightarrow> Some (w1, Yield)
           | Return c \<Rightarrow>
               (case c of
                  None \<Rightarrow> Some (w1, Return None)
                | Some i \<Rightarrow>
                    (case select_attempt ret (ks ! i) w1 of
                       None \<Rightarrow> None
                     | Some (w2, ok) \<Rightarrow>
                         (if ok then Some (w2, Return (Some i)) else loop ret ks b w2))))) = Some y"
  show "select_scan ks w = Some i \<longrightarrow> cs_type (ks ! i) = casetype_push \<longrightarrow>
    \<not> closed (chans w (cs_chan (ks ! i)))"
  proof (intro impI notI)
    assume i: "select_scan ks w = Some i" "cs_type (ks ! i) = casetype_push" "closed (chans w (cs_chan (ks ! i)))"
    have "select_attempt ret (ks ! i) w = Some (w, False)"
      using i(2,3) by (simp add: select_attempt_def liteco_chan_push_def)
    then have "loop ret ks b w = Some y"
      using body i(1) by (simp add: liteco_select_choose_def split: if_splits)
    then show False using IH i by blast
  qed
qed

text \<open>A waiter whose coroutine is neither waiting nor running cannot be woken.\<close>

lemma wake_hangs:
  assumes "co \<noteq> liteco_ignore_awake_co" "status_of w co \<notin> {STATUS_WAITING, STATUS_RUNNING}"
  shows "liteco_chan_join_runtime rt co w = None"
  using assms by (simp add: liteco_chan_join_runtime_def liteco_set_status_def)

lemma w_hangs:
  assumes "\<not> closed (chans w c)" "ch_r (chans w c) = r # rs" "wt_co r \<noteq> liteco_ignore_awake_co"
    and "status_of w (wt_co r) \<notin> {STATUS_WAITING, STATUS_RUNNING}"
  shows "liteco_chan_w c ele w = None"
proof -
  have "status_of (upd_ch c f (if p then put_store l v w else w)) d = status_of w d" for f p l v d
    by simp
  then have "liteco_chan_join_runtime rt (wt_co r) (upd_ch c f (if p then put_store l v w else w)) = None"
    for rt f p l v using assms(3,4) by (intro wake_hangs) simp_all
  then show ?thesis using assms(1,2)
    by (simp add: liteco_chan_w_def liteco_chan_wblocked_def Let_def)
qed

lemma w_select_reader:
  fixes w :: "'a ch_world_scheme"
  assumes "\<not> closed (chans w c)" "ch_r (chans w c) = r # rs" "wt_select r"
    and "wt_co r \<noteq> liteco_ignore_awake_co" "status_of w (wt_co r) = STATUS_WAITING"
    and "can_signal (ch_rt (chans w c)) w" "mallocs w = []"
  shows "\<exists>w'. liteco_chan_w c ele w = Some (w', False) \<and>
    chans w' = (chans w)(c := (chans w c)\<lparr>ch_r := rs\<rparr>) \<and> status_of w' (wt_co r) = STATUS_READY"
proof -
  let ?w = "upd_ch c (\<lambda>x. x\<lparr>ch_r := rs\<rparr>) w"
  obtain w' where w': "liteco_chan_join_runtime (ch_rt (chans w c)) (wt_co r) ?w = Some w'"
    "chans w' = chans ?w" "status_of w' (wt_co r) = STATUS_READY"
    using join_runtime_spec [of "wt_co r" ?w "ch_rt (chans w c)"] assms by auto
  moreover have "chans ?w = (chans w)(c := (chans w c)\<lparr>ch_r := rs\<rparr>)" by (auto simp: fun_eq_iff)
  ultimately show ?thesis
    using assms(1-3) by (auto simp: liteco_chan_w_def liteco_chan_wblocked_def)
qed

section \<open>Properties\<close>

text \<open>C26: a select on different channels returns at once when a case is ready: it carries out
  the first ready case, successfully; when none is ready and it may not block it returns the
  null pointer and changes nothing.\<close>

theorem select_first_ready:
  fixes w :: "'a ch_world_scheme"
  assumes "distinct (map cs_chan ks)"
    and "\<forall>k\<in>set ks. \<exists>xs. chan_ready (cs_chan k) xs w \<and>
           liteco_chan_pop_failed \<notin># contents (chans w (cs_chan k)) xs"
  shows "(\<exists>i w'. i < length ks \<and> case_ready (ks ! i) w \<and> (\<forall>j<i. \<not> case_ready (ks ! j) w) \<and>
            select_attempt ret (ks ! i) w = Some (w', True) \<and>
            liteco_select ret ks b w = Some (w', Return (Some i))) \<or>
    (\<forall>k\<in>set ks. \<not> case_ready k w) \<and> liteco_select ret ks False w = Some (w, Return None)"
proof (cases "select_scan ks w")
  case None
  then have "liteco_select ret ks False w = Some (w, Return None)"
    unfolding liteco_select_def
    by (subst select_loop.simps) (simp add: liteco_select_choose_def assms(1))
  then show ?thesis using None select_scan_None by blast
next
  case (Some i)
  then have i: "i < length ks" "case_ready (ks ! i) w" "\<forall>j<i. \<not> case_ready (ks ! j) w"
    by (simp_all add: select_scan_Some)
  let ?k = "ks ! i"
  obtain xs where xs: "chan_ready (cs_chan ?k) xs w" "liteco_chan_pop_failed \<notin># contents (chans w (cs_chan ?k)) xs"
    using assms(2) i(1) by (meson nth_mem)
  have ra: "ring_abs (chans w (cs_chan ?k)) xs" "\<not> closed (chans w (cs_chan ?k))"
    using xs(1) by (auto simp: chan_ready_def chan_ok_def)
  have "\<exists>w'. select_attempt ret ?k w = Some (w', True)"
  proof (cases "cs_type ?k")
    case casetype_push
    then have "\<not> (ch_r (chans w (cs_chan ?k)) = [] \<and> length xs = chan_cap (chans w (cs_chan ?k)))"
      using i(2) wblocked_iff [OF ra(1)] ra(2) by (auto simp: case_ready_def)
    then show ?thesis
      using push_run [OF xs(1), of "stores w (cs_ele ?k)"] casetype_push
      by (cases "ch_r (chans w (cs_chan ?k))") (auto simp: select_attempt_def)
  next
    case casetype_pop
    then have "ch_w (chans w (cs_chan ?k)) \<noteq> [] \<or> xs \<noteq> []"
      using i(2) rblocked_iff [OF ra(1)] ra(2) by (auto simp: case_ready_def)
    then obtain w' r xs' where r: "liteco_chan_pop ret (cs_chan ?k) False w = Some (w', Return r)"
      "contents (chans w (cs_chan ?k)) xs = add_mset r (contents (chans w' (cs_chan ?k)) xs')"
      using pop_run [OF xs(1), of ret] by blast
    then have "r \<noteq> liteco_chan_pop_failed" using xs(2) by auto
    then show ?thesis using r casetype_pop by (simp add: select_attempt_def)
  qed
  then obtain w' where w': "select_attempt ret ?k w = Some (w', True)" by blast
  then have "liteco_select ret ks b w = Some (w', Return (Some i))"
    unfolding liteco_select_def
    by (subst select_loop.simps) (simp add: liteco_select_choose_def assms(1) Some)
  then show ?thesis using i w' by blast
qed

lemma select_first_ready_witness:
  "\<exists>w'. liteco_select 300 [\<lparr>cs_chan = 20, cs_type = casetype_pop, cs_ele = 400\<rparr>,
      \<lparr>cs_chan = 21, cs_type = casetype_push, cs_ele = 401\<rparr>] True (demo_chan [101] [] [])
      = Some (w', Return (Some 0))"
proof -
  let ?w = "demo_chan [101] [] []" and ?k = "\<lparr>cs_chan = 20, cs_type = casetype_pop, cs_ele = 400\<rparr>"
  let ?ks = "[?k, \<lparr>cs_chan = 21, cs_type = casetype_push, cs_ele = 401\<rparr>]"
  have r: "chan_ready 20 [101] ?w" "chan_ready 21 [101] ?w"
    using demo_ready(1) by (simp_all add: chan_ready_def demo_chan_def)
  have k: "case_ready ?k ?w"
    using rblocked_iff [OF demo_ring(2), of "[]" "[]" 20] by (simp add: case_ready_def)
  have "\<forall>k\<in>set ?ks. \<exists>xs. chan_ready (cs_chan k) xs ?w \<and>
      liteco_chan_pop_failed \<notin># contents (chans ?w (cs_chan k)) xs"
    using r by (auto simp: contents_def liteco_chan_pop_failed_def intro!: exI [of _ "[101]"])
  from select_first_ready [OF _ this, of 300 True] k show ?thesis
    by (auto simp: less_Suc_eq_0_disj)
qed

text \<open>registering on the channels of a select and unregistering again leaves every channel
  as it was, for a coroutine that was not waiting on them.\<close>

theorem select_register_roundtrip:
  assumes "mallocs w = []" and "\<forall>c. \<not> waits_w (this_co w) (chans w c) \<and> \<not> waits_r (this_co w) (chans w c)"
  shows "chans (select_unregister ks (select_register ks w)) = chans w"
proof
  fix c
  let ?w1 = "select_register ks w" and ?w2 = "select_unregister ks (select_register ks w)"
  have this1: "this_co ?w1 = this_co w" using register_frame [OF assms(1)] by simp
  have "\<not> waits_w (this_co w) (chans ?w2 c)" "\<not> waits_r (this_co w) (chans ?w2 c)"
    using unregister_waits [of ?w1 ks c] register_waits [OF assms(1), of ks c] assms(2) this1 by auto
  then have "chans ?w2 c = drop_own (this_co w) (chans ?w2 c)" by (simp add: drop_own_idle)
  also have "\<dots> = drop_own (this_co w) (chans w c)"
    using unregister_drop_own [of ?w1 ks c] register_drop_own [OF assms(1), of ks c] this1 by simp
  also have "\<dots> = chans w c" using assms(2) by (simp add: drop_own_idle)
  finally show "chans ?w2 c = chans w c" .
qed

lemma select_register_roundtrip_witness:
  "chans (select_unregister [\<lparr>cs_chan = 20, cs_type = casetype_pop, cs_ele = 400\<rparr>]
     (select_register [\<lparr>cs_chan = 20, cs_type = casetype_pop, cs_ele = 400\<rparr>] (demo_chan [] [] [demo_waiter 12 5])))
   = chans (demo_chan [] [] [demo_waiter 12 5])"
  by (rule select_register_roundtrip) (simp_all add: waits_w_def waits_r_def demo_waiter_def)

text \<open>a select whose first ready case is a push on a closed channel never returns, also
  when it may not block: the push is refused and the loop starts again.\<close>

theorem select_push_closed_hangs:
  assumes "select_scan ks w = Some i" and "cs_type (ks ! i) = casetype_push"
    and "closed (chans w (cs_chan (ks ! i)))"
  shows "liteco_select ret ks b w = None"
  using loop_closed_push [of ret ks b w] assms unfolding liteco_select_def
  by (cases "select_loop ret ks b w") auto

lemma select_push_closed_hangs_witness:
  "liteco_select 300 [\<lparr>cs_chan = 20, cs_type = casetype_push, cs_ele = 400\<rparr>] False
     (upd_ch 20 (\<lambda>x. x\<lparr>closed := True\<rparr>) (demo_chan [101] [] [])) = None"
  by (rule select_push_closed_hangs [of _ _ 0]) (simp_all add: case_ready_def liteco_chan_wblocked_def)

text \<open>C27: a coroutine that waits in a select on two channels is woken by the first push; the
  second push, before the coroutine has run, spins on its status and does not return.\<close>

theorem select_double_wake_hangs:
  fixes w :: "'a ch_world_scheme"
  assumes "a \<noteq> b" and "\<not> closed (chans w a)" and "\<not> closed (chans w b)"
    and "ch_r (chans w a) = ra # ras" and "ch_r (chans w b) = rb # rbs" and "wt_select ra"
    and "wt_co ra = co" and "wt_co rb = co" and "co \<noteq> liteco_ignore_awake_co"
    and "status_of w co = STATUS_WAITING" and "can_signal (ch_rt (chans w a)) w" and "mallocs w = []"
  shows "\<exists>w'. liteco_chan_push a x False w = Some (w', Return (-2)) \<and> status_of w' co = STATUS_READY \<and>
    liteco_chan_push b y blocked w' = None"
proof -
  obtain w' where w': "liteco_chan_w a x w = Some (w', False)"
    "chans w' = (chans w)(a := (chans w a)\<lparr>ch_r := ras\<rparr>)" "status_of w' co = STATUS_READY"
    using w_select_reader [OF assms(2,4,6), of x] assms by auto
  have "liteco_chan_w b y w' = None"
    using w_hangs [of w' b rb rbs y] w' assms by simp
  then show ?thesis using w' assms(1-3) by (auto simp: liteco_chan_push_def)
qed

lemma select_double_wake_hangs_witness:
  "\<exists>w'. liteco_chan_push 20 7 False (demo_chan [] [] [\<lparr>wt_co = 12, wt_select = True, wt_ele = 400\<rparr>])
      = Some (w', Return (-2)) \<and> status_of w' 12 = STATUS_READY \<and> liteco_chan_push 21 8 True w' = None"
  by (rule select_double_wake_hangs [where ra = "\<lparr>wt_co = 12, wt_select = True, wt_ele = 400\<rparr>" and ras = "[]"
        and rb = "\<lparr>wt_co = 12, wt_select = True, wt_ele = 400\<rparr>" and rbs = "[]"])
    (simp_all add: liteco_ignore_awake_co_def can_signal_def, simp add: demo_chan_def eventfd_max_def)

text \<open>Closing two channels on which the same coroutine waits hangs the closing thread in
  the second close.\<close>

theorem close_twice_hangs:
  fixes w :: "'a ch_world_scheme"
  assumes "a \<noteq> b" and "\<not> closed (chans w a)" and "\<not> closed (chans w b)"
    and "can_signal (ch_rt (chans w a)) w" and "mallocs w = []"
    and "distinct (woken (ch_w (chans w a)) @ woken (ch_r (chans w a)))"
    and "\<forall>d\<in>set (woken (ch_w (chans w a)) @ woken (ch_r (chans w a))). status_of w d = STATUS_WAITING"
    and "co \<in> set (woken (ch_r (chans w a)))"
    and "ch_w (chans w b) = []" and "ch_r (chans w b) = rb # rbs" and "wt_co rb = co"
  shows "\<exists>w'. liteco_chan_close a w = Some (w', 0) \<and> liteco_chan_close b w' = None"
proof -
  obtain w' where w': "liteco_chan_close a w = Some (w', 0)"
    "chans w' = (chans w)(a := (chans w a)\<lparr>closed := True, ch_w := [], ch_r := []\<rparr>)"
    "status_of w' co = STATUS_READY"
    using close_run [OF assms(2,4-7)] assms(8) by auto
  have co: "co \<noteq> liteco_ignore_awake_co" using assms(8) by (simp add: woken_def)
  have "liteco_chan_join_runtime rt co (upd_ch b (put_readers rbs) (upd_ch b f w')) = None" for rt f
    using w'(3) co by (intro wake_hangs) simp_all
  then have "liteco_chan_close b w' = None"
    using w'(2) assms(1,3,9-11) by (simp add: liteco_chan_close_def Let_def)
  then show ?thesis using w'(1) by blast
qed

lemma close_twice_hangs_witness:
  "\<exists>w'. liteco_chan_close 20 (demo_chan [] [] [demo_waiter 12 5]) = Some (w', 0) \<and>
     liteco_chan_close 21 w' = None"
  by (rule close_twice_hangs [where co = 12 and rb = "demo_waiter 12 5" and rbs = "[]"])
    (simp_all add: liteco_ignore_awake_co_def can_signal_def woken_def demo_waiter_def,
     simp add: demo_chan_def eventfd_max_def)

end
