(* ===== verification/Links.thy ===== *)
theory Links
  imports Prelude
begin

text \<open>
  The doubly linked circular lists of \<open>include/liteco/lc_link.h\<close>: each macro is a function on
  a memory of nodes. \<open>ring m h xs\<close> says that the memory holds, from the head \<open>h\<close>, the nodes
  \<open>xs\<close> in this order; each operation is shown to be the list operation it stands for. The
  components that use the macros (runtime queue, waiter queues, callback stacks) work with the
  lists; the locale \<open>link_list\<close> is the contract they rely on.
\<close>

section \<open>Nodes and macros\<close>

record linknode =
  lk_prev :: addr
  lk_next :: addr

type_synonym linkmem = "addr \<Rightarrow> linknode"

definition set_next :: "addr \<Rightarrow> addr \<Rightarrow> linkmem \<Rightarrow> linkmem" where
  "set_next a v m = m(a := (m a)\<lparr>lk_next := v\<rparr>)"

definition set_prev :: "addr \<Rightarrow> addr \<Rightarrow> linkmem \<Rightarrow> linkmem" where
  "set_prev a v m = m(a := (m a)\<lparr>lk_prev := v\<rparr>)"

definition liteco_link_init :: "addr \<Rightarrow> linkmem \<Rightarrow> linkmem" where
  "liteco_link_init p m = set_prev p p (set_next p p m)"

definition liteco_link_empty :: "addr \<Rightarrow> linkmem \<Rightarrow> bool" where
  "liteco_link_empty p m \<longleftrightarrow> lk_next (m p) = p"

definition liteco_link_next :: "addr \<Rightarrow> linkmem \<Rightarrow> addr" where
  "liteco_link_next p m = lk_next (m p)"

definition liteco_link_prev :: "addr \<Rightarrow> linkmem \<Rightarrow> addr" where
  "liteco_link_prev p m = lk_prev (m p)"

definition liteco_link_insert_after :: "addr \<Rightarrow> addr \<Rightarrow> linkmem \<Rightarrow> linkmem" where
  "liteco_link_insert_after l n m0 =
     (let m1 = set_next n (lk_next (m0 l)) m0;
          m2 = set_prev n l m1;
          m3 = set_prev (lk_next (m2 l)) n m2
      in set_next l n m3)"

definition liteco_link_insert_before :: "addr \<Rightarrow> addr \<Rightarrow> linkmem \<Rightarrow> linkmem" where
  "liteco_link_insert_before l n m0 =
     (let m1 = set_prev n (lk_prev (m0 l)) m0;
          m2 = set_next n l m1;
          m3 = set_next (lk_prev (m2 l)) n m2
      in set_prev l n m3)"

definition liteco_link_remove :: "addr \<Rightarrow> linkmem \<Rightarrow> linkmem" where
  "liteco_link_remove p m0 =
     (let m1 = set_prev (lk_next (m0 p)) (lk_prev (m0 p)) m0
      in set_next (lk_prev (m1 p)) (lk_next (m1 p)) m1)"

text \<open>The loop of \<open>liteco_link_foreach\<close> with the visited nodes as its result, and the loop of
  \<open>liteco_chan_wdblock\<close> and \<open>liteco_chan_rdblock\<close>, which removes the nodes that satisfy \<open>P\<close>
  while it walks.\<close>

partial_function (option) link_foreach_loop :: "linkmem \<Rightarrow> addr \<Rightarrow> addr \<Rightarrow> addr list \<Rightarrow> addr list option" where
  "link_foreach_loop m l e acc =
     (if e \<noteq> l then link_foreach_loop m l (liteco_link_next e m) (acc @ [e]) else Some acc)"

definition liteco_link_foreach :: "addr \<Rightarrow> linkmem \<Rightarrow> addr list option" where
  "liteco_link_foreach l m = link_foreach_loop m l (liteco_link_next l m) []"

partial_function (option) link_delete_loop ::
    "(addr \<Rightarrow> bool) \<Rightarrow> addr \<Rightarrow> addr \<Rightarrow> linkmem \<Rightarrow> linkmem option" where
  "link_delete_loop P l cur m =
     (if cur \<noteq> l then
        (if P cur then
           (let prev = liteco_link_prev cur m; m1 = liteco_link_remove cur m
            in link_delete_loop P l (liteco_link_next prev m1) m1)
         else link_delete_loop P l (liteco_link_next cur m) m)
      else Some m)"

definition link_delete :: "(addr \<Rightarrow> bool) \<Rightarrow> addr \<Rightarrow> linkmem \<Rightarrow> linkmem option" where
  "link_delete P l m = link_delete_loop P l (liteco_link_next l m) m"

declare link_foreach_loop.simps [code] link_delete_loop.simps [code]

section \<open>Rings\<close>

fun chain :: "linkmem \<Rightarrow> addr list \<Rightarrow> bool" where
  "chain m (x # y # zs) \<longleftrightarrow> lk_next (m x) = y \<and> lk_prev (m y) = x \<and> chain m (y # zs)"
| "chain m zs \<longleftrightarrow> True"

definition ring :: "linkmem \<Rightarrow> addr \<Rightarrow> addr list \<Rightarrow> bool" where
  "ring m h xs \<longleftrightarrow> chain m (h # xs @ [h]) \<and> distinct (h # xs)"

lemma chain_append:
  "chain m (xs @ x # ys) \<longleftrightarrow> chain m (xs @ [x]) \<and> chain m (x # ys)"
proof (induction xs)
  case (Cons a xs)
  then show ?case by (cases xs) auto
qed simp

lemma chain_cong:
  assumes "\<forall>x\<in>set (butlast xs). lk_next (m' x) = lk_next (m x)"
    and "\<forall>x\<in>set (tl xs). lk_prev (m' x) = lk_prev (m x)"
  shows "chain m' xs \<longleftrightarrow> chain m xs"
  using assms
proof (induction m xs rule: chain.induct)
  case (1 m x y zs)
  have "chain m' (y # zs) \<longleftrightarrow> chain m (y # zs)" using 1 by (cases zs) auto
  then show ?case using 1 by auto
qed auto

lemma set_link_fields [simp]:
  "lk_next (set_next a v m b) = (if b = a then v else lk_next (m b))"
  "lk_prev (set_next a v m b) = lk_prev (m b)"
  "lk_prev (set_prev a v m b) = (if b = a then v else lk_prev (m b))"
  "lk_next (set_prev a v m b) = lk_next (m b)"
  by (simp_all add: set_next_def set_prev_def)

lemma ring_next: "ring m h xs \<Longrightarrow> lk_next (m h) = (case xs of [] \<Rightarrow> h | x # _ \<Rightarrow> x)"
  by (cases xs) (auto simp: ring_def)

lemma ring_prev: "ring m h xs \<Longrightarrow> lk_prev (m h) = (if xs = [] then h else last xs)"
proof (cases xs rule: rev_cases)
  case (snoc ys y)
  assume "ring m h xs"
  then have "chain m ((h # ys) @ y # [h])" using snoc by (simp add: ring_def)
  then have "chain m (y # [h])" by (subst (asm) chain_append) simp
  then show ?thesis using snoc by simp
qed (simp add: ring_def)

lemma ring_init: "ring (liteco_link_init p m) p []"
  by (simp add: ring_def liteco_link_init_def)

lemma ring_empty: "ring m h xs \<Longrightarrow> liteco_link_empty h m \<longleftrightarrow> xs = []"
  using ring_next [of m h xs] by (cases xs) (auto simp: liteco_link_empty_def ring_def)

text \<open>Around a node of the ring.\<close>

lemma ring_mid:
  assumes "ring m h (xs @ x # ys)"
  shows "lk_next (m x) = hd (ys @ [h])" "lk_prev (m x) = last (h # xs)"
proof -
  have c: "chain m ((h # xs) @ x # (ys @ [h]))" using assms by (simp add: ring_def)
  from c have "chain m (x # (ys @ [h]))" by (subst (asm) chain_append) simp
  then show "lk_next (m x) = hd (ys @ [h])" by (cases ys) auto
  obtain as a where a: "h # xs = as @ [a]" by (cases "h # xs" rule: rev_cases) auto
  from c have "chain m ((h # xs) @ [x])" by (subst (asm) chain_append) simp
  then have "chain m (as @ a # [x])" using a by simp
  then have "chain m (a # [x])" by (subst (asm) chain_append) simp
  then show "lk_prev (m x) = last (h # xs)" using a by simp
qed

text \<open>Unlinking a node joins its neighbours; linking a node between two neighbours puts it
  there.\<close>

lemma chain_between:
  assumes "chain m (as @ a # b # bs)" "n \<notin> set (as @ a # b # bs)"
    and "a \<notin> set as" "b \<notin> set bs" "b \<notin> set (tl (as @ [a]))" "a \<notin> set (butlast (b # bs))"
    and N: "\<And>x. lk_next (m' x) = (if x = a then n else if x = n then b else lk_next (m x))"
    and P: "\<And>x. lk_prev (m' x) = (if x = b then n else if x = n then a else lk_prev (m x))"
  shows "chain m' (as @ a # n # b # bs)"
proof -
  have 1: "chain m (as @ [a])" "chain m (a # b # bs)" using assms(1) chain_append by blast+
  have "chain m' (as @ [a])"
    using assms(2,3,5) 1(1) by (subst chain_cong [of "as @ [a]" m' m]) (auto simp: N P dest: in_set_tlD)
  moreover have "chain m (b # bs)" using 1(2) by simp
  then have "chain m' (b # bs)"
    using assms(2,4,6) by (subst chain_cong [of "b # bs" m' m]) (auto simp: N P dest: in_set_butlastD)
  moreover have "chain m' (a # n # b # bs) \<longleftrightarrow> chain m' (b # bs)"
    using assms(2) by (auto simp: N P)
  ultimately show ?thesis by (subst chain_append) simp
qed

lemma chain_unlink:
  assumes "chain m (as @ a # x # b # bs)"
    and "a \<notin> set as" "b \<notin> set bs" "b \<notin> set (tl (as @ [a]))" "a \<notin> set (butlast (b # bs))"
    and N: "\<And>y. lk_next (m' y) = (if y = a then b else lk_next (m y))"
    and P: "\<And>y. lk_prev (m' y) = (if y = b then a else lk_prev (m y))"
  shows "chain m' (as @ a # b # bs)"
proof -
  have 1: "chain m (as @ [a])" "chain m (a # x # b # bs)" using assms(1) chain_append by blast+
  have "chain m' (as @ [a])"
    using assms(2,4) 1(1) by (subst chain_cong [of "as @ [a]" m' m]) (auto simp: N P)
  moreover have "chain m (b # bs)" using 1(2) by simp
  then have "chain m' (b # bs)"
    using assms(3,5) by (subst chain_cong [of "b # bs" m' m]) (auto simp: N P)
  moreover have "chain m' (a # b # bs) \<longleftrightarrow> chain m' (b # bs)" by (simp add: N P)
  ultimately show ?thesis by (subst chain_append) simp
qed

lemma ring_insert_after:
  assumes "ring m h xs" "n \<notin> set (h # xs)"
  shows "ring (liteco_link_insert_after h n m) h (n # xs)"
proof -
  obtain b bs where b: "xs @ [h] = b # bs" by (cases "xs @ [h]") auto
  have hb: "lk_next (m h) = b" using ring_next [OF assms(1)] b by (cases xs) auto
  have d: "distinct (h # xs)" "chain m ([] @ h # b # bs)" using assms(1) b by (simp_all add: ring_def)
  have "set (b # bs) = set (xs @ [h])" using b by simp
  then have n: "n \<notin> set (b # bs)" "n \<noteq> h" using assms(2) by auto
  have "b \<notin> set bs" "h \<notin> set (butlast (b # bs))"
    using b d(1) by (cases xs; auto)+
  then have "chain (liteco_link_insert_after h n m) ([] @ h # n # b # bs)"
    using d(2) n by (intro chain_between [of m "[]" h b bs])
      (auto simp: liteco_link_insert_after_def Let_def hb)
  then show ?thesis using assms d b by (simp add: ring_def)
qed

lemma ring_insert_before:
  assumes "ring m h xs" "n \<notin> set (h # xs)"
  shows "ring (liteco_link_insert_before h n m) h (xs @ [n])"
proof -
  obtain as a where a: "h # xs = as @ [a]" by (cases "h # xs" rule: rev_cases) auto
  have la: "a = (if xs = [] then h else last xs)" using a by (metis last.simps last_snoc)
  have ha: "lk_prev (m h) = a" using ring_prev [OF assms(1)] la by simp
  have d: "distinct (as @ [a])" "chain m (as @ a # h # [])"
    using assms(1) a by (simp_all add: ring_def) (metis append.assoc append_Cons append_Nil)+
  have n: "n \<notin> set (as @ [a])" "n \<noteq> h" using assms(2) a by (metis, metis list.set_intros(1))
  have h: "h \<notin> set (tl (as @ [a]))" using assms(1) a by (metis distinct.simps(2) list.sel(3) ring_def)
  have "chain (liteco_link_insert_before h n m) (as @ a # n # h # [])"
    using d n h by (intro chain_between [of m as a h "[]"])
      (auto simp: liteco_link_insert_before_def Let_def ha)
  then have "chain (liteco_link_insert_before h n m) ((h # xs) @ n # [h])" by (simp add: a)
  then show ?thesis using assms by (auto simp: ring_def)
qed

lemma ring_remove:
  assumes "ring m h (xs @ x # ys)"
  shows "ring (liteco_link_remove x m) h (xs @ ys)"
proof -
  obtain as a where a: "h # xs = as @ [a]" by (cases "h # xs" rule: rev_cases) auto
  obtain b bs where b: "ys @ [h] = b # bs" by (cases "ys @ [h]") auto
  have f: "lk_next (m x) = b" "lk_prev (m x) = a"
    using ring_mid [OF assms] a b by (metis list.sel(1)) (metis a last_snoc ring_mid(2) [OF assms])
  have c: "chain m (as @ a # x # b # bs)"
    using assms a b by (simp add: ring_def) (metis append.assoc append_Cons append_Nil)
  have d: "distinct (h # xs @ x # ys)" using assms by (simp add: ring_def)
  then have da: "distinct (as @ [a])" and dj: "set (as @ [a]) \<inter> set (x # ys) = {}"
    using a by (metis distinct_append append_Cons)+
  have "b \<notin> set bs" "x \<noteq> b" "x \<noteq> a"
    using b d a dj by (cases ys; auto)+
  moreover have "b \<notin> set (tl (as @ [a]))"
  proof (cases ys)
    case Nil
    then show ?thesis using b d a by (metis append_Nil distinct.simps(2) list.inject list.sel(3) Un_iff set_append)
  qed (use b dj in \<open>auto dest: in_set_tlD\<close>)
  moreover have "a \<notin> set (butlast (b # bs))"
    using b [symmetric] dj by auto
  ultimately have "chain (liteco_link_remove x m) (as @ a # b # bs)"
    using da c by (intro chain_unlink [OF c]) (auto simp: liteco_link_remove_def Let_def f)
  then have "chain (liteco_link_remove x m) ((h # xs) @ ys @ [h])" by (simp add: a b)
  then show ?thesis using d by (simp add: ring_def)
qed

text \<open>The loops: \<open>foreach\<close> visits the nodes in order and ends; the deleting loop filters.\<close>

lemma ring_next_last:
  assumes "ring m h (xs @ ys)"
  shows "lk_next (m (last (h # xs))) = hd (ys @ [h])"
proof (cases xs rule: rev_cases)
  case Nil
  then show ?thesis using ring_next [OF assms] by (cases ys) auto
next
  case (snoc zs z)
  then show ?thesis using ring_mid(1) [of m h zs z ys] assms by simp
qed

lemma foreach_loop_suffix:
  assumes "ring m h (xs @ ys)"
  shows "link_foreach_loop m h (hd (ys @ [h])) acc = Some (acc @ ys)"
  using assms
proof (induction ys arbitrary: xs acc)
  case (Cons y ys)
  have "y \<noteq> h" using Cons.prems by (auto simp: ring_def)
  moreover have "lk_next (m y) = hd (ys @ [h])" using ring_mid(1) [OF Cons.prems] .
  ultimately show ?case
    using Cons.IH [of "xs @ [y]" "acc @ [y]"] Cons.prems
    by (subst link_foreach_loop.simps) (simp add: liteco_link_next_def)
qed (simp add: link_foreach_loop.simps)

lemma ring_foreach: "ring m h xs \<Longrightarrow> liteco_link_foreach h m = Some xs"
  using foreach_loop_suffix [of m h "[]" xs "[]"] ring_next_last [of m h "[]" xs]
  by (simp add: liteco_link_foreach_def liteco_link_next_def)

lemma delete_loop_filter:
  assumes "ring m h (xs @ ys)" "\<forall>x\<in>set xs. \<not> P x"
  shows "\<exists>m'. link_delete_loop P h (hd (ys @ [h])) m = Some m' \<and>
    ring m' h (xs @ filter (\<lambda>y. \<not> P y) ys)"
  using assms
proof (induction ys arbitrary: xs m)
  case Nil
  then show ?case by (simp add: link_delete_loop.simps)
next
  case (Cons y ys)
  have y: "y \<noteq> h" using Cons.prems by (auto simp: ring_def)
  show ?case
  proof (cases "P y")
    case True
    let ?m1 = "liteco_link_remove y m"
    have r: "ring ?m1 h (xs @ ys)" by (rule ring_remove [OF Cons.prems(1)])
    have "link_delete_loop P h y m = link_delete_loop P h (hd (ys @ [h])) ?m1"
      using y True ring_mid(2) [OF Cons.prems(1)] ring_next_last [OF r]
      by (subst link_delete_loop.simps) (simp add: liteco_link_next_def liteco_link_prev_def Let_def)
    then show ?thesis using Cons.IH [OF r Cons.prems(2)] True by simp
  next
    case False
    have "link_delete_loop P h y m = link_delete_loop P h (hd (ys @ [h])) m"
      using y False ring_mid(1) [OF Cons.prems(1)]
      by (subst link_delete_loop.simps) (simp add: liteco_link_next_def)
    then show ?thesis using Cons.IH [of m "xs @ [y]"] Cons.prems False by simp
  qed
qed

lemma ring_delete:
  assumes "ring m h xs"
  shows "\<exists>m'. link_delete P h m = Some m' \<and> ring m' h (filter (\<lambda>x. \<not> P x) xs)"
  using delete_loop_filter [of m h "[]" xs P] ring_next_last [of m h "[]" xs] assms
  by (simp add: link_delete_def liteco_link_next_def)

section \<open>The contract of a linked list\<close>

text \<open>What the users of the macros rely on: an abstraction to lists under which the operations
  are the list operations.\<close>

locale link_list =
  fixes abs :: "'m \<Rightarrow> addr \<Rightarrow> addr list \<Rightarrow> bool"
    and empty :: "addr \<Rightarrow> 'm \<Rightarrow> bool"
    and nxt :: "addr \<Rightarrow> 'm \<Rightarrow> addr"
    and ins_after :: "addr \<Rightarrow> addr \<Rightarrow> 'm \<Rightarrow> 'm"
    and ins_before :: "addr \<Rightarrow> addr \<Rightarrow> 'm \<Rightarrow> 'm"
    and remove :: "addr \<Rightarrow> 'm \<Rightarrow> 'm"
  assumes abs_empty: "abs m h xs \<Longrightarrow> empty h m \<longleftrightarrow> xs = []"
    and abs_nxt: "abs m h (x # xs) \<Longrightarrow> nxt h m = x"
    and abs_after: "abs m h xs \<Longrightarrow> n \<notin> set (h # xs) \<Longrightarrow> abs (ins_after h n m) h (n # xs)"
    and abs_before: "abs m h xs \<Longrightarrow> n \<notin> set (h # xs) \<Longrightarrow> abs (ins_before h n m) h (xs @ [n])"
    and abs_remove: "abs m h (xs @ x # ys) \<Longrightarrow> abs (remove x m) h (xs @ ys)"
begin

text \<open>Taking nodes from the front until the list is empty, as the loops over the ready queue
  and over the waiters of a closed channel do.\<close>

fun drain :: "nat \<Rightarrow> addr \<Rightarrow> 'm \<Rightarrow> addr list \<times> 'm" where
  "drain 0 h m = ([], m)"
| "drain (Suc n) h m =
     (if empty h m then ([], m)
      else (let x = nxt h m; (xs, m') = drain n h (remove x m) in (x # xs, m')))"

lemma drain_all:
  "abs m h xs \<Longrightarrow> length xs \<le> n \<Longrightarrow> fst (drain n h m) = xs \<and> abs (snd (drain n h m)) h []"
proof (induction n arbitrary: m xs)
  case (Suc n)
  show ?case
  proof (cases xs)
    case Nil
    then show ?thesis using Suc.prems abs_empty by auto
  next
    case (Cons x ys)
    have "abs (remove x m) h ys" using abs_remove [of m h "[]" x ys] Suc.prems Cons by simp
    then show ?thesis
      using Suc.IH [of "remove x m" ys] Suc.prems Cons abs_empty [of m h xs] abs_nxt [of m h x ys]
      by (auto simp: Let_def split_beta)
  qed
qed simp

text \<open>Nodes appended with \<open>ins_before\<close> come out in the order they went in; nodes pushed with
  \<open>ins_after\<close> come out in the opposite order.\<close>

lemma append_all:
  "abs m h xs \<Longrightarrow> distinct (h # xs @ ns) \<Longrightarrow>
   abs (fold (ins_before h) ns m) h (xs @ ns)"
proof (induction ns arbitrary: m xs)
  case (Cons n ns)
  then show ?case using Cons.IH [of "ins_before h n m" "xs @ [n]"] abs_before [of m h xs n] by simp
qed simp

lemma push_all:
  "abs m h xs \<Longrightarrow> distinct (h # xs @ ns) \<Longrightarrow>
   abs (fold (ins_after h) ns m) h (rev ns @ xs)"
proof (induction ns arbitrary: m xs)
  case (Cons n ns)
  then show ?case using Cons.IH [of "ins_after h n m" "n # xs"] abs_after [of m h xs n] by auto
qed simp

end

interpretation lk: link_list ring liteco_link_empty liteco_link_next liteco_link_insert_after
    liteco_link_insert_before liteco_link_remove
proof unfold_locales
  show "liteco_link_empty h m \<longleftrightarrow> xs = []" if "ring m h xs" for m h xs
    using ring_empty [OF that] .
  show "liteco_link_next h m = x" if "ring m h (x # xs)" for m h x xs
    using ring_next [OF that] by (simp add: liteco_link_next_def)
qed (fact ring_insert_after ring_insert_before ring_remove)+

end
