(* ===== verification/BinHeap.thy ===== *)
theory BinHeap
  imports PtrTree
begin

text \<open>
  The binary heap of \<open>src/lc_heap.c\<close> and \<open>include/liteco/lc_heap.h\<close>: a complete binary tree
  of linked nodes whose next free place is found from the bits of the element count. The
  operations are translated statement by statement over an explicit memory; the comparison
  callback is the parameter \<open>cmp\<close>, as it is a field of the heap in the code. Loops are
  \<open>partial_function (option)\<close>.
\<close>

unbundle bit_operations_syntax

section \<open>Nodes and memory\<close>

datatype liteco_heap_cmp_result = HEAP_SWAP | HEAP_KEEP

record liteco_heapnode =
  hp_p :: addr
  hp_r :: addr
  hp_l :: addr

record heap_state =
  hroot :: addr
  cnt :: u32
  hmem :: "addr \<Rightarrow> liteco_heapnode"

definition liteco_heapnode_init :: "addr \<Rightarrow> heap_state \<Rightarrow> heap_state" where
  "liteco_heapnode_init n s = s\<lparr>hmem := (hmem s)(n := \<lparr>hp_p = NIL, hp_r = NIL, hp_l = NIL\<rparr>)\<rparr>"

definition liteco_heap_init :: "heap_state \<Rightarrow> heap_state" where
  "liteco_heap_init s = s\<lparr>cnt := 0, hroot := NIL\<rparr>"

abbreviation hl :: "heap_state \<Rightarrow> addr \<Rightarrow> addr" where "hl s a \<equiv> hp_l (hmem s a)"
abbreviation hr :: "heap_state \<Rightarrow> addr \<Rightarrow> addr" where "hr s a \<equiv> hp_r (hmem s a)"
abbreviation hp :: "heap_state \<Rightarrow> addr \<Rightarrow> addr" where "hp s a \<equiv> hp_p (hmem s a)"

definition put_l :: "addr \<Rightarrow> addr \<Rightarrow> heap_state \<Rightarrow> heap_state" where
  "put_l a v s = s\<lparr>hmem := (hmem s)(a := (hmem s a)\<lparr>hp_l := v\<rparr>)\<rparr>"

definition put_r :: "addr \<Rightarrow> addr \<Rightarrow> heap_state \<Rightarrow> heap_state" where
  "put_r a v s = s\<lparr>hmem := (hmem s)(a := (hmem s a)\<lparr>hp_r := v\<rparr>)\<rparr>"

definition put_p :: "addr \<Rightarrow> addr \<Rightarrow> heap_state \<Rightarrow> heap_state" where
  "put_p a v s = s\<lparr>hmem := (hmem s)(a := (hmem s a)\<lparr>hp_p := v\<rparr>)\<rparr>"

text \<open>\<open>liteco_heapnode_t **in\<close> points at the root pointer or at a child field.\<close>

datatype hslot = HRoot | HLeft addr | HRight addr

fun hslot_get :: "hslot \<Rightarrow> heap_state \<Rightarrow> addr" where
  "hslot_get HRoot s = hroot s"
| "hslot_get (HLeft a) s = hl s a"
| "hslot_get (HRight a) s = hr s a"

fun hslot_set :: "hslot \<Rightarrow> addr \<Rightarrow> heap_state \<Rightarrow> heap_state" where
  "hslot_set HRoot v s = s\<lparr>hroot := v\<rparr>"
| "hslot_set (HLeft a) v s = put_l a v s"
| "hslot_set (HRight a) v s = put_r a v s"

text \<open>\<open>if (a) { a->hp_p = v; }\<close>, and making the parent \<open>q\<close> of \<open>old\<close>, or the root pointer
  when there is none, point at \<open>new\<close>.\<close>

definition adopt :: "addr \<Rightarrow> addr \<Rightarrow> heap_state \<Rightarrow> heap_state" where
  "adopt a v s = (if a \<noteq> NIL then put_p a v s else s)"

definition relink :: "addr \<Rightarrow> addr \<Rightarrow> addr \<Rightarrow> heap_state \<Rightarrow> heap_state" where
  "relink q old new s =
     (if q = NIL then s\<lparr>hroot := new\<rparr> else if hl s q = old then put_l q new s else put_r q new s)"

section \<open>The last place of the heap\<close>

text \<open>\<open>for (h = 1; (1 << h) <= cnt; h++)\<close>, the offset in the last level, and the walk along the
  bits of the offset. The shifts are on 32 bits.\<close>

partial_function (option) heap_height_loop :: "u32 \<Rightarrow> nat \<Rightarrow> nat option" where
  "heap_height_loop c h = (if push_bit h 1 \<le> c then heap_height_loop c (Suc h) else Some h)"

definition heap_off :: "u32 \<Rightarrow> nat \<Rightarrow> u32" where
  "heap_off c h = push_bit (h - 1) 1 - 1 - (push_bit h 1 - c - 1)"

text \<open>The loop of both operations: \<open>n\<close> is the number of remaining turns, \<open>p\<close> the last node
  passed.\<close>

fun heap_walk :: "heap_state \<Rightarrow> u32 \<Rightarrow> nat \<Rightarrow> addr \<Rightarrow> hslot \<Rightarrow> addr \<times> hslot" where
  "heap_walk s off 0 p inn = (p, inn)"
| "heap_walk s off (Suc n) p inn =
     (let q = hslot_get inn s
      in if off AND push_bit n 1 \<noteq> 0 then heap_walk s off n q (HRight q) else heap_walk s off n q (HLeft q))"

section \<open>Exchanging a node with its parent\<close>

definition liteco_heap_swap :: "addr \<Rightarrow> addr \<Rightarrow> heap_state \<Rightarrow> heap_state" where
  "liteco_heap_swap p c s0 =
     (let t = hmem s0 p;
          s1 = s0\<lparr>hmem := (hmem s0)(p := hmem s0 c)\<rparr>;
          s2 = s1\<lparr>hmem := (hmem s1)(c := t)\<rparr>;
          s3 = put_p p c s2;
          s4 = (if hl s3 c = c then (let s = put_l c p s3 in adopt (hr s c) c s)
                else (let s = put_r c p s3 in adopt (hl s c) c s));
          s5 = adopt (hl s4 p) p s4;
          s6 = adopt (hr s5 p) p s5
      in relink (hp s6 c) p c s6)"

section \<open>Insertion and removal\<close>

partial_function (option) heap_up_loop ::
    "(addr \<Rightarrow> addr \<Rightarrow> liteco_heap_cmp_result) \<Rightarrow> addr \<Rightarrow> heap_state \<Rightarrow> heap_state option" where
  "heap_up_loop cmp node s =
     (if hp s node \<noteq> NIL \<and> cmp (hp s node) node = HEAP_SWAP
      then heap_up_loop cmp node (liteco_heap_swap (hp s node) node s) else Some s)"

definition liteco_heap_insert ::
    "(addr \<Rightarrow> addr \<Rightarrow> liteco_heap_cmp_result) \<Rightarrow> addr \<Rightarrow> heap_state \<Rightarrow> (heap_state \<times> int) option" where
  "liteco_heap_insert cmp node s =
     (if cnt s = 0 then Some (s\<lparr>hroot := node, cnt := 1\<rparr>, 0)
      else (let s1 = s\<lparr>cnt := cnt s + 1\<rparr>
            in case heap_height_loop (cnt s1) 1 of
                 None \<Rightarrow> None
               | Some h \<Rightarrow>
                   (let (p, inn) = heap_walk s1 (heap_off (cnt s1) h) (h - 1) (hroot s1) HRoot;
                        s2 = put_p node p (hslot_set inn node s1)
                    in map_option (\<lambda>s3. (s3, 0)) (heap_up_loop cmp node s2))))"

text \<open>The smaller child, and the loop down.\<close>

definition heap_small :: "(addr \<Rightarrow> addr \<Rightarrow> liteco_heap_cmp_result) \<Rightarrow> addr \<Rightarrow> heap_state \<Rightarrow> addr" where
  "heap_small cmp child s =
     (let small = (if hl s child \<noteq> NIL \<and> cmp child (hl s child) = HEAP_SWAP then hl s child else child)
      in if hr s child \<noteq> NIL \<and> cmp small (hr s child) = HEAP_SWAP then hr s child else small)"

partial_function (option) heap_down_loop ::
    "(addr \<Rightarrow> addr \<Rightarrow> liteco_heap_cmp_result) \<Rightarrow> addr \<Rightarrow> heap_state \<Rightarrow> heap_state option" where
  "heap_down_loop cmp child s =
     (if heap_small cmp child s = child then Some s
      else heap_down_loop cmp child (liteco_heap_swap child (heap_small cmp child s) s))"

declare heap_height_loop.simps [code] heap_up_loop.simps [code] heap_down_loop.simps [code]

text \<open>\<open>child\<close> takes the place of \<open>node\<close>.\<close>

definition heap_take_place :: "addr \<Rightarrow> addr \<Rightarrow> heap_state \<Rightarrow> heap_state" where
  "heap_take_place child node s0 =
     (let s1 = put_l child (hl s0 node) s0;
          s2 = put_r child (hr s1 node) s1;
          s3 = put_p child (hp s2 node) s2;
          s4 = adopt (hl s3 child) child s3;
          s5 = adopt (hr s4 child) child s4
      in relink (hp s5 node) node child s5)"

definition liteco_heap_remove ::
    "(addr \<Rightarrow> addr \<Rightarrow> liteco_heap_cmp_result) \<Rightarrow> addr \<Rightarrow> heap_state \<Rightarrow> (heap_state \<times> int) option" where
  "liteco_heap_remove cmp node s =
     (if cnt s = 0 then Some (s, 0)
      else (case heap_height_loop (cnt s) 1 of
              None \<Rightarrow> None
            | Some h \<Rightarrow>
                (let (_, max) = heap_walk s (heap_off (cnt s) h) (h - 1) (hroot s) HRoot;
                     s1 = s\<lparr>cnt := cnt s - 1\<rparr>;
                     child = hslot_get max s1;
                     s2 = hslot_set max NIL s1
                 in if child = node
                    then Some (if child = hroot s2 then s2\<lparr>hroot := NIL\<rparr> else s2, 0)
                    else (case heap_down_loop cmp child (heap_take_place child node s2) of
                            None \<Rightarrow> None
                          | Some s3 \<Rightarrow> map_option (\<lambda>s4. (s4, 0)) (heap_up_loop cmp child s3)))))"

end
