(* ===== verification/BinHeap_Tree.thy ===== *)
theory BinHeap_Tree
  imports BinHeap "HOL-Library.Multiset"
begin

text \<open>
  The binary heap in memory: \<open>hfoc s fs t\<close> says that the state \<open>s\<close> holds a tree, seen from its
  subtree \<open>t\<close> at the end of the path \<open>fs\<close>. \<open>liteco_heap_swap\<close> exchanges a node with its parent
  in the tree, \<open>heap_take_place\<close> replaces a node by another one.
\<close>

type_synonym htree = "unit ptree"
type_synonym hpath = "unit frame list"

abbreviation hrep :: "heap_state \<Rightarrow> addr \<Rightarrow> htree \<Rightarrow> bool" where
  "hrep s \<equiv> rep hp_l hp_r hp_p (\<lambda>_. ()) (hmem s)"

abbreviation hctx :: "heap_state \<Rightarrow> addr \<Rightarrow> hpath \<Rightarrow> bool" where
  "hctx s \<equiv> pctx hp_l hp_r hp_p (\<lambda>_. ()) (hmem s) (hroot s)"

definition hfoc :: "heap_state \<Rightarrow> hpath \<Rightarrow> htree \<Rightarrow> bool" where
  "hfoc s fs t \<longleftrightarrow> hctx s (taddr t) fs \<and> hrep s (fpar fs) t \<and> distinct (addrs (plug fs t))"

definition heap_holds :: "heap_state \<Rightarrow> htree \<Rightarrow> bool" where
  "heap_holds s t \<longleftrightarrow> hroot s = taddr t \<and> hrep s NIL t \<and> distinct (addrs t)"

lemma hfoc_holds: "hfoc s fs t \<longleftrightarrow> heap_holds s (plug fs t)"
  using rep_plug [of "hroot s" fs t hp_l hp_r hp_p "\<lambda>_. ()" "hmem s"]
  by (auto simp: hfoc_def heap_holds_def)

lemma hfoc_refocus: "hfoc s fs t \<Longrightarrow> plug fs t = plug fs' t' \<Longrightarrow> hfoc s fs' t'"
  by (simp add: hfoc_holds)

lemma hfoc_distinctD:
  assumes "hfoc s fs t"
  shows "distinct (addrs t)" "distinct (faddrs fs)" "set (addrs t) \<inter> set (faddrs fs) = {}"
    "NIL \<notin> set (addrs t)" "NIL \<notin> set (faddrs fs)"
  using assms by (auto simp: hfoc_def distinct_plug dest: rep_addrs_nonnil pctx_faddrs_nonnil)

lemma hfoc_node:
  assumes "hfoc s fs (PN l a x r)"
  shows "hl s a = taddr l" "hr s a = taddr r" "hp s a = fpar fs" "a \<noteq> NIL"
  using assms by (simp_all add: hfoc_def)

lemma hfoc_nil_iff: "hfoc s fs t \<Longrightarrow> taddr t = NIL \<longleftrightarrow> t = PL"
  by (auto simp: hfoc_def rep_taddr_nil)

lemma hfoc_fpar_nil: "hfoc s fs t \<Longrightarrow> fpar fs = NIL \<longleftrightarrow> fs = []"
  by (auto simp: hfoc_def pctx_fpar_nil)

lemma hfoc_cnt [simp]: "hfoc (s\<lparr>cnt := n\<rparr>) fs t = hfoc s fs t"
  by (simp add: hfoc_def)

section \<open>Writes\<close>

definition xchg :: "addr \<Rightarrow> addr \<Rightarrow> heap_state \<Rightarrow> heap_state" where
  "xchg p c s = s\<lparr>hmem := (hmem s)(p := hmem s c, c := hmem s p)\<rparr>"

lemma put_fields:
  "hl (put_l a v s) b = (if b = a then v else hl s b)" "hr (put_l a v s) b = hr s b"
  "hp (put_l a v s) b = hp s b" "hroot (put_l a v s) = hroot s" "cnt (put_l a v s) = cnt s"
  "hl (put_r a v s) b = hl s b" "hr (put_r a v s) b = (if b = a then v else hr s b)"
  "hp (put_r a v s) b = hp s b" "hroot (put_r a v s) = hroot s" "cnt (put_r a v s) = cnt s"
  "hl (put_p a v s) b = hl s b" "hr (put_p a v s) b = hr s b"
  "hp (put_p a v s) b = (if b = a then v else hp s b)" "hroot (put_p a v s) = hroot s" "cnt (put_p a v s) = cnt s"
  by (simp_all add: put_l_def put_r_def put_p_def)

lemma adopt_fields:
  "hl (adopt a v s) b = hl s b" "hr (adopt a v s) b = hr s b"
  "hp (adopt a v s) b = (if b = a \<and> b \<noteq> NIL then v else hp s b)" "hroot (adopt a v s) = hroot s"
  "cnt (adopt a v s) = cnt s"
  by (simp_all add: adopt_def put_fields)

lemma relink_fields:
  "hl (relink q p c s) b = (if b = q \<and> q \<noteq> NIL \<and> hl s q = p then c else hl s b)"
  "hr (relink q p c s) b = (if b = q \<and> q \<noteq> NIL \<and> hl s q \<noteq> p then c else hr s b)"
  "hp (relink q p c s) b = hp s b"
  "hroot (relink q p c s) = (if q = NIL then c else hroot s)" "cnt (relink q p c s) = cnt s"
  by (simp_all add: relink_def put_fields)

lemma xchg_fields:
  "hmem (xchg p c s) b = (if b = c then hmem s p else if b = p then hmem s c else hmem s b)"
  "hroot (xchg p c s) = hroot s" "cnt (xchg p c s) = cnt s"
  by (simp_all add: xchg_def)

lemmas hwrites = put_fields adopt_fields relink_fields xchg_fields

text \<open>The exchange, for a left and for a right child, as a sequence of such writes.\<close>

lemma swap_left:
  assumes "hl s p = c" "p \<noteq> c" "hl s c \<noteq> p"
  shows "liteco_heap_swap p c s =
    (let s5 = adopt (hr s c) p (adopt (hl s c) p (adopt (hr s p) c (put_l c p (put_p p c (xchg p c s)))))
     in relink (hp s5 c) p c s5)"
proof -
  have x: "(s\<lparr>hmem := (hmem s)(p := hmem s c)\<rparr>)
      \<lparr>hmem := (hmem (s\<lparr>hmem := (hmem s)(p := hmem s c)\<rparr>))(c := hmem s p)\<rparr> = xchg p c s"
    by (simp add: xchg_def)
  have 1: "hl (put_p p c (xchg p c s)) c = c" "hr (put_l c p (put_p p c (xchg p c s))) c = hr s p"
    "hl (adopt v w (put_l c p (put_p p c (xchg p c s)))) p = hl s c"
    "hr (adopt v' w' (adopt v w (put_l c p (put_p p c (xchg p c s))))) p = hr s c" for v w v' w'
    using assms by (simp_all add: hwrites)
  show ?thesis
    unfolding liteco_heap_swap_def Let_def x 1 if_P [OF refl] by (simp only: 1)
qed

lemma swap_right:
  assumes "hr s p = c" "hl s p \<noteq> c" "p \<noteq> c"
  shows "liteco_heap_swap p c s =
    (let s5 = adopt (hr s c) p (adopt (hl s c) p (adopt (hl s p) c (put_r c p (put_p p c (xchg p c s)))))
     in relink (hp s5 c) p c s5)"
proof -
  have x: "(s\<lparr>hmem := (hmem s)(p := hmem s c)\<rparr>)
      \<lparr>hmem := (hmem (s\<lparr>hmem := (hmem s)(p := hmem s c)\<rparr>))(c := hmem s p)\<rparr> = xchg p c s"
    by (simp add: xchg_def)
  have 0: "hl (put_p p c (xchg p c s)) c \<noteq> c" using assms by (simp add: hwrites)
  have 1: "hl (put_r c p (put_p p c (xchg p c s))) c = hl s p"
    "hl (adopt v w (put_r c p (put_p p c (xchg p c s)))) p = hl s c"
    "hr (adopt v' w' (adopt v w (put_r c p (put_p p c (xchg p c s))))) p = hr s c" for v w v' w'
    using assms by (simp_all add: hwrites)
  show ?thesis
    unfolding liteco_heap_swap_def Let_def x if_not_P [OF 0] by (simp only: 1)
qed

lemma swap_left_fields:
  assumes "hl s p = c" "p \<noteq> c" "p \<noteq> NIL" "c \<noteq> NIL"
    and "p \<notin> {hl s c, hr s c, hr s p, hp s p}" "c \<notin> {hl s c, hr s c, hr s p, hp s p}"
    and "hr s p = NIL \<or> hr s p \<notin> {hl s c, hr s c}"
  shows "hl (liteco_heap_swap p c s) x = (if x = p then hl s c else if x = c then p
      else if x = hp s p \<and> x \<noteq> NIL \<and> hl s x = p then c else hl s x)"
    and "hr (liteco_heap_swap p c s) x = (if x = p then hr s c else if x = c then hr s p
      else if x = hp s p \<and> x \<noteq> NIL \<and> hl s x \<noteq> p then c else hr s x)"
    and "hp (liteco_heap_swap p c s) x = (if x = p then c else if x = c then hp s p
      else if x \<noteq> NIL \<and> x = hr s p then c else if x \<noteq> NIL \<and> (x = hl s c \<or> x = hr s c) then p else hp s x)"
    and "hroot (liteco_heap_swap p c s) = (if hp s p = NIL then c else hroot s)"
    and "cnt (liteco_heap_swap p c s) = cnt s"
proof -
  have hc: "hl s c \<noteq> p" using assms(5) by auto
  note S = swap_left [OF assms(1,2) hc, unfolded Let_def]
  define s5 where "s5 = adopt (hr s c) p (adopt (hl s c) p (adopt (hr s p) c (put_l c p (put_p p c (xchg p c s)))))"
  have q: "hp s5 c = hp s p" using assms by (simp add: s5_def hwrites)
  have l5: "hl s5 x = (if x = p then hl s c else if x = c then p else hl s x)" for x
    using assms by (simp add: s5_def hwrites)
  have r5: "hr s5 x = (if x = p then hr s c else if x = c then hr s p else hr s x)" for x
    using assms by (simp add: s5_def hwrites)
  have p5: "hp s5 x = (if x = p then c else if x = c then hp s p else if x \<noteq> NIL \<and> x = hr s p then c
      else if x \<noteq> NIL \<and> (x = hl s c \<or> x = hr s c) then p else hp s x)" for x
    using assms by (simp add: s5_def hwrites) auto
  have n: "hp s p \<noteq> p" "hp s p \<noteq> c" using assms by auto
  have eq: "liteco_heap_swap p c s = relink (hp s p) p c s5" using S q by (simp add: s5_def)
  show "hl (liteco_heap_swap p c s) x = (if x = p then hl s c else if x = c then p
      else if x = hp s p \<and> x \<noteq> NIL \<and> hl s x = p then c else hl s x)"
    using n unfolding eq by (simp add: relink_fields l5) auto
  show "hr (liteco_heap_swap p c s) x = (if x = p then hr s c else if x = c then hr s p
      else if x = hp s p \<and> x \<noteq> NIL \<and> hl s x \<noteq> p then c else hr s x)"
    using n unfolding eq by (simp add: relink_fields l5 r5) auto
  show "hp (liteco_heap_swap p c s) x = (if x = p then c else if x = c then hp s p
      else if x \<noteq> NIL \<and> x = hr s p then c else if x \<noteq> NIL \<and> (x = hl s c \<or> x = hr s c) then p else hp s x)"
    unfolding eq by (simp add: relink_fields p5)
  show "hroot (liteco_heap_swap p c s) = (if hp s p = NIL then c else hroot s)"
    "cnt (liteco_heap_swap p c s) = cnt s"
    unfolding eq by (simp_all add: relink_fields s5_def hwrites)
qed

lemma swap_right_fields:
  assumes "hr s p = c" "p \<noteq> c" "p \<noteq> NIL" "c \<noteq> NIL"
    and "p \<notin> {hl s c, hr s c, hl s p, hp s p}" "c \<notin> {hl s c, hr s c, hl s p, hp s p}"
    and "hl s p = NIL \<or> hl s p \<notin> {hl s c, hr s c}"
  shows "hl (liteco_heap_swap p c s) x = (if x = p then hl s c else if x = c then hl s p
      else if x = hp s p \<and> x \<noteq> NIL \<and> hl s x = p then c else hl s x)"
    and "hr (liteco_heap_swap p c s) x = (if x = p then hr s c else if x = c then p
      else if x = hp s p \<and> x \<noteq> NIL \<and> hl s x \<noteq> p then c else hr s x)"
    and "hp (liteco_heap_swap p c s) x = (if x = p then c else if x = c then hp s p
      else if x \<noteq> NIL \<and> x = hl s p then c else if x \<noteq> NIL \<and> (x = hl s c \<or> x = hr s c) then p else hp s x)"
    and "hroot (liteco_heap_swap p c s) = (if hp s p = NIL then c else hroot s)"
    and "cnt (liteco_heap_swap p c s) = cnt s"
proof -
  have hc: "hl s p \<noteq> c" using assms(6) by auto
  note S = swap_right [OF assms(1) hc assms(2), unfolded Let_def]
  define s5 where "s5 = adopt (hr s c) p (adopt (hl s c) p (adopt (hl s p) c (put_r c p (put_p p c (xchg p c s)))))"
  have q: "hp s5 c = hp s p" using assms by (simp add: s5_def hwrites)
  have l5: "hl s5 x = (if x = p then hl s c else if x = c then hl s p else hl s x)" for x
    using assms by (simp add: s5_def hwrites)
  have r5: "hr s5 x = (if x = p then hr s c else if x = c then p else hr s x)" for x
    using assms by (simp add: s5_def hwrites)
  have p5: "hp s5 x = (if x = p then c else if x = c then hp s p else if x \<noteq> NIL \<and> x = hl s p then c
      else if x \<noteq> NIL \<and> (x = hl s c \<or> x = hr s c) then p else hp s x)" for x
    using assms by (simp add: s5_def hwrites) auto
  have n: "hp s p \<noteq> p" "hp s p \<noteq> c" using assms by auto
  have eq: "liteco_heap_swap p c s = relink (hp s p) p c s5" using S q by (simp add: s5_def)
  show "hl (liteco_heap_swap p c s) x = (if x = p then hl s c else if x = c then hl s p
      else if x = hp s p \<and> x \<noteq> NIL \<and> hl s x = p then c else hl s x)"
    using n unfolding eq by (simp add: relink_fields l5) auto
  show "hr (liteco_heap_swap p c s) x = (if x = p then hr s c else if x = c then p
      else if x = hp s p \<and> x \<noteq> NIL \<and> hl s x \<noteq> p then c else hr s x)"
    using n unfolding eq by (simp add: relink_fields l5 r5) auto
  show "hp (liteco_heap_swap p c s) x = (if x = p then c else if x = c then hp s p
      else if x \<noteq> NIL \<and> x = hl s p then c else if x \<noteq> NIL \<and> (x = hl s c \<or> x = hr s c) then p else hp s x)"
    unfolding eq by (simp add: relink_fields p5)
  show "hroot (liteco_heap_swap p c s) = (if hp s p = NIL then c else hroot s)"
    "cnt (liteco_heap_swap p c s) = cnt s"
    unfolding eq by (simp_all add: relink_fields s5_def hwrites)
qed

lemma liteco_heap_swap_cnt [simp]: "cnt (liteco_heap_swap p c s) = cnt s"
  by (simp add: liteco_heap_swap_def Let_def hwrites)

section \<open>The exchange in the tree\<close>

text \<open>What is different from what around a node with subtrees \<open>A\<close>, \<open>B\<close>, its parent and its
  sibling subtree \<open>R\<close>.\<close>

lemma swap_distinct:
  assumes "hfoc s fs t" and "mset (addrs t) = mset (addrs A @ addrs B @ addrs R @ [p, c])"
  shows "p \<noteq> c" "p \<noteq> NIL" "c \<noteq> NIL" "fpar fs \<noteq> p" "fpar fs \<noteq> c"
    "distinct (addrs A)" "distinct (addrs B)" "distinct (addrs R)"
    "\<forall>x\<in>set (addrs A). x \<noteq> p \<and> x \<noteq> c \<and> x \<noteq> NIL \<and> x \<noteq> fpar fs \<and> x \<notin> set (addrs B) \<and> x \<notin> set (addrs R)"
    "\<forall>x\<in>set (addrs B). x \<noteq> p \<and> x \<noteq> c \<and> x \<noteq> NIL \<and> x \<noteq> fpar fs \<and> x \<notin> set (addrs A) \<and> x \<notin> set (addrs R)"
    "\<forall>x\<in>set (addrs R). x \<noteq> p \<and> x \<noteq> c \<and> x \<noteq> NIL \<and> x \<noteq> fpar fs \<and> x \<notin> set (addrs A) \<and> x \<notin> set (addrs B)"
    "\<forall>x\<in>set (faddrs fs). x \<noteq> p \<and> x \<noteq> c \<and> x \<noteq> NIL \<and> x \<notin> set (addrs A) \<and> x \<notin> set (addrs B) \<and> x \<notin> set (addrs R)"
proof -
  note D = hfoc_distinctD [OF assms(1)]
  let ?l = "addrs A @ addrs B @ addrs R @ [p, c]"
  have d: "distinct ?l" using D(1) mset_eq_imp_distinct_iff [OF assms(2)] by (rule iffD1 [rotated])
  have st: "set (addrs t) = set ?l" using assms(2) by (rule mset_eq_setD)
  have nil: "NIL \<notin> set ?l" and dj: "set ?l \<inter> set (faddrs fs) = {}"
    using D(3,4) unfolding st by blast+
  have F: "fpar fs = NIL \<or> fpar fs \<in> set (faddrs fs)" using fpar_in_faddrs [of fs] by (cases fs) auto
  have f: "fpar fs \<notin> set ?l" by (rule disjE [OF F]) (simp only: nil not_False_eq_True, use dj in blast)
  have pc: "p \<in> set ?l" "c \<in> set ?l" and sub: "set (addrs A) \<subseteq> set ?l" "set (addrs B) \<subseteq> set ?l" "set (addrs R) \<subseteq> set ?l"
    by auto
  show e: "p \<noteq> c" and "distinct (addrs A)" "distinct (addrs B)" "distinct (addrs R)" using d by simp_all
  show "p \<noteq> NIL" "c \<noteq> NIL" "fpar fs \<noteq> p" "fpar fs \<noteq> c" using pc nil f by metis+
  have N: "\<forall>x\<in>set ?l. x \<noteq> NIL" "\<forall>x\<in>set ?l. x \<noteq> fpar fs" using nil f by metis+
  have "\<forall>x\<in>set (addrs A). x \<noteq> p \<and> x \<noteq> c \<and> x \<notin> set (addrs B) \<and> x \<notin> set (addrs R)"
    using d unfolding distinct_append by auto
  then show "\<forall>x\<in>set (addrs A). x \<noteq> p \<and> x \<noteq> c \<and> x \<noteq> NIL \<and> x \<noteq> fpar fs \<and> x \<notin> set (addrs B) \<and> x \<notin> set (addrs R)"
    using N by (simp add: ball_Un ball_conj_distrib)
  have "\<forall>x\<in>set (addrs B). x \<noteq> p \<and> x \<noteq> c \<and> x \<notin> set (addrs A) \<and> x \<notin> set (addrs R)"
    using d unfolding distinct_append by auto
  then show "\<forall>x\<in>set (addrs B). x \<noteq> p \<and> x \<noteq> c \<and> x \<noteq> NIL \<and> x \<noteq> fpar fs \<and> x \<notin> set (addrs A) \<and> x \<notin> set (addrs R)"
    using N by (simp add: ball_Un ball_conj_distrib)
  have "\<forall>x\<in>set (addrs R). x \<noteq> p \<and> x \<noteq> c \<and> x \<notin> set (addrs A) \<and> x \<notin> set (addrs B)"
    using d unfolding distinct_append by auto
  then show "\<forall>x\<in>set (addrs R). x \<noteq> p \<and> x \<noteq> c \<and> x \<noteq> NIL \<and> x \<noteq> fpar fs \<and> x \<notin> set (addrs A) \<and> x \<notin> set (addrs B)"
    using N by (simp add: ball_Un ball_conj_distrib)
  have "\<forall>x\<in>set (faddrs fs). x \<noteq> NIL" using D(5) by metis
  then show "\<forall>x\<in>set (faddrs fs). x \<noteq> p \<and> x \<noteq> c \<and> x \<noteq> NIL \<and> x \<notin> set (addrs A) \<and> x \<notin> set (addrs B) \<and> x \<notin> set (addrs R)"
    using dj unfolding disjoint_iff by auto
qed

lemma taddr_all: "\<forall>x\<in>set (addrs A). Q x \<Longrightarrow> Q NIL \<Longrightarrow> Q (taddr A)"
  by (cases A) auto

lemma not_taddr: "x \<notin> set (addrs A) \<Longrightarrow> x \<noteq> NIL \<Longrightarrow> x \<noteq> taddr A"
  by (cases A) auto

lemma swap_taddrs:
  assumes "hfoc s fs t" and "mset (addrs t) = mset (addrs A @ addrs B @ addrs R @ [p, c])"
  shows "taddr A \<noteq> p" "taddr A \<noteq> c" "taddr B \<noteq> p" "taddr B \<noteq> c" "taddr R \<noteq> p" "taddr R \<noteq> c"
    "taddr R = NIL \<or> taddr R \<noteq> taddr A \<and> taddr R \<noteq> taddr B"
proof -
  note X = swap_distinct [OF assms]
  show "taddr A \<noteq> p" "taddr A \<noteq> c" by (rule taddr_all; use X(2,3,9) in blast)+
  show "taddr B \<noteq> p" "taddr B \<noteq> c" by (rule taddr_all; use X(2,3,10) in blast)+
  show "taddr R \<noteq> p" "taddr R \<noteq> c" by (rule taddr_all; use X(2,3,11) in blast)+
  show "taddr R = NIL \<or> taddr R \<noteq> taddr A \<and> taddr R \<noteq> taddr B"
    using X(11) by (cases R; cases A; cases B) auto
qed

text \<open>The pointer that led to \<open>p\<close>, the root or a child field of the parent, leads to \<open>c\<close>.\<close>

lemma redirect_case:
  assumes "hctx s p fs" and "\<forall>x\<in>set (faddrs fs). x \<noteq> p" and "p \<noteq> NIL"
    and "fpar fs = NIL \<Longrightarrow> hroot s' = c"
    and "fpar fs \<noteq> NIL \<Longrightarrow> hroot s' = hroot s \<and>
      hl s' (fpar fs) = (if hl s (fpar fs) = p then c else hl s (fpar fs)) \<and>
      hr s' (fpar fs) = (if hl s (fpar fs) \<noteq> p then c else hr s (fpar fs))"
  shows "case fs of [] \<Rightarrow> hroot s' = c
      | FL a x r # _ \<Rightarrow> hl s' a = c \<and> hr s' a = hr s a \<and> hroot s' = hroot s
      | FR l a x # _ \<Rightarrow> hr s' a = c \<and> hl s' a = hl s a \<and> hroot s' = hroot s"
proof (cases fs rule: faddrs.cases)
  case (3 l a x gs)
  have "taddr l \<noteq> p" using 3 assms(2,3) by (cases l) auto
  then show ?thesis using assms 3 by simp
qed (use assms in simp_all)

text \<open>The three subtrees and the path, when all writes go to the two nodes, to the roots of the
  subtrees and to the hole of the path.\<close>

lemma swap_moved:
  assumes f: "hfoc s fs t" and N: "mset (addrs t) = mset (addrs A @ addrs B @ addrs R @ [p, c])"
    and sub: "hrep s c A" "hrep s c B" "hrep s p R" and ctx: "hctx s p fs"
    and K: "\<And>x. x \<noteq> p \<Longrightarrow> x \<noteq> c \<Longrightarrow> x \<noteq> fpar fs \<Longrightarrow> hl s' x = hl s x \<and> hr s' x = hr s x"
    and P: "\<And>x. x \<noteq> p \<Longrightarrow> x \<noteq> c \<Longrightarrow> x \<noteq> taddr A \<Longrightarrow> x \<noteq> taddr B \<Longrightarrow> x \<noteq> taddr R \<Longrightarrow> hp s' x = hp s x"
    and Q: "A \<noteq> PL \<Longrightarrow> hp s' (taddr A) = p" "B \<noteq> PL \<Longrightarrow> hp s' (taddr B) = p" "R \<noteq> PL \<Longrightarrow> hp s' (taddr R) = c"
    and C: "case fs of [] \<Rightarrow> hroot s' = c
      | FL a x r # _ \<Rightarrow> hl s' a = c \<and> hr s' a = hr s a \<and> hroot s' = hroot s
      | FR l a x # _ \<Rightarrow> hr s' a = c \<and> hl s' a = hl s a \<and> hroot s' = hroot s"
  shows "hrep s' p A" and "hrep s' p B" and "hrep s' c R" and "hctx s' c fs"
proof -
  note X = swap_distinct [OF f N]
  show "hrep s' p A"
  proof (rule rep_reparent [OF sub(1) X(6)])
    show "hp s' x = hp s x" if "x \<in> set (addrs A)" "x \<noteq> taddr A" for x
      by (rule P) (use bspec [OF X(9) that(1)] that(2) not_taddr in blast)+
  qed (use X(9) K Q in simp_all)
  show "hrep s' p B"
  proof (rule rep_reparent [OF sub(2) X(7)])
    show "hp s' x = hp s x" if "x \<in> set (addrs B)" "x \<noteq> taddr B" for x
      by (rule P) (use bspec [OF X(10) that(1)] that(2) not_taddr in blast)+
  qed (use X(10) K Q in simp_all)
  show "hrep s' c R"
  proof (rule rep_reparent [OF sub(3) X(8)])
    show "hp s' x = hp s x" if "x \<in> set (addrs R)" "x \<noteq> taddr R" for x
      by (rule P) (use bspec [OF X(11) that(1)] that(2) not_taddr in blast)+
  qed (use X(11) K Q in simp_all)
  show "hctx s' c fs"
  proof (rule pctx_redirect [OF ctx])
    show "distinct (faddrs fs)" using f by (rule hfoc_distinctD)
    show "hp s' x = hp s x \<and> () = ()" if "x \<in> set (faddrs fs)" for x
      using P [of x] bspec [OF X(12) that] taddr_all [of A "\<lambda>y. x \<noteq> y"] taddr_all [of B "\<lambda>y. x \<noteq> y"]
        taddr_all [of R "\<lambda>y. x \<noteq> y"] by blast
    show "hl s' x = hl s x \<and> hr s' x = hr s x" if "x \<in> set (faddrs fs)" "x \<noteq> fpar fs" for x
      using K [of x] bspec [OF X(12) that(1)] that(2) by blast
  qed (rule C)
qed

lemma hfoc_swap_left:
  assumes foc: "hfoc s (FL p () R # fs) (PN A c () B)"
  shows "hfoc (liteco_heap_swap p c s) fs (PN (PN A p () B) c () R)"
proof -
  have f: "hfoc s fs (PN (PN A c () B) p () R)" using foc by (rule hfoc_refocus) simp
  have rp: "hl s p = c" "hr s p = taddr R" "hp s p = fpar fs" "hl s c = taddr A" "hr s c = taddr B"
    and sub: "hrep s c A" "hrep s c B" "hrep s p R" and ctx: "hctx s p fs"
    using f by (simp_all add: hfoc_def)
  have N: "mset (addrs (PN (PN A c () B) p () R)) = mset (addrs A @ addrs B @ addrs R @ [p, c])" by simp
  note X = swap_distinct [OF f N] and T = swap_taddrs [OF f N]
  have S: "p \<notin> {hl s c, hr s c, hr s p, hp s p}" "c \<notin> {hl s c, hr s c, hr s p, hp s p}"
    "hr s p = NIL \<or> hr s p \<notin> {hl s c, hr s c}"
    unfolding rp using X(4,5) T by blast+
  note W = swap_left_fields [OF rp(1) X(1-3) S, unfolded rp]
  let ?s = "liteco_heap_swap p c s"
  have K: "hl ?s x = hl s x \<and> hr ?s x = hr s x" if "x \<noteq> p" "x \<noteq> c" "x \<noteq> fpar fs" for x
    using that by (simp_all only: W if_False) simp_all
  have P: "hp ?s x = hp s x" if "x \<noteq> p" "x \<noteq> c" "x \<noteq> taddr A" "x \<noteq> taddr B" "x \<noteq> taddr R" for x
    using that unfolding W by simp
  have Q: "hp ?s (taddr A) = p" if "A \<noteq> PL"
    unfolding W using bspec [OF X(9) taddr_in_addrs [OF that]] T by auto
  have Q': "hp ?s (taddr B) = p" if "B \<noteq> PL"
    unfolding W using bspec [OF X(10) taddr_in_addrs [OF that]] T by auto
  have Q'': "hp ?s (taddr R) = c" if "R \<noteq> PL"
    unfolding W using bspec [OF X(11) taddr_in_addrs [OF that]] T by auto
  have C: "case fs of [] \<Rightarrow> hroot ?s = c
      | FL a x r # _ \<Rightarrow> hl ?s a = c \<and> hr ?s a = hr s a \<and> hroot ?s = hroot s
      | FR l a x # _ \<Rightarrow> hr ?s a = c \<and> hl ?s a = hl s a \<and> hroot ?s = hroot s"
    by (rule redirect_case [OF ctx]) (use X(2,4,5,12) in \<open>auto simp: W\<close>)
  have "distinct (addrs (plug fs (PN (PN A p () B) c () R)))"
    using f X(1) by (auto simp: hfoc_def distinct_plug)
  then show ?thesis
    using X(1-5) swap_moved [OF f N sub ctx K P Q Q' Q'' C] by (simp add: hfoc_def W)
qed

lemma hfoc_swap_right:
  assumes foc: "hfoc s (FR R p () # fs) (PN A c () B)"
  shows "hfoc (liteco_heap_swap p c s) fs (PN R c () (PN A p () B))"
proof -
  have f: "hfoc s fs (PN R p () (PN A c () B))" using foc by (rule hfoc_refocus) simp
  have rp: "hr s p = c" "hl s p = taddr R" "hp s p = fpar fs" "hl s c = taddr A" "hr s c = taddr B"
    and sub: "hrep s c A" "hrep s c B" "hrep s p R" and ctx: "hctx s p fs"
    using f by (simp_all add: hfoc_def)
  have N: "mset (addrs (PN R p () (PN A c () B))) = mset (addrs A @ addrs B @ addrs R @ [p, c])" by simp
  note X = swap_distinct [OF f N] and T = swap_taddrs [OF f N]
  have S: "p \<notin> {hl s c, hr s c, hl s p, hp s p}" "c \<notin> {hl s c, hr s c, hl s p, hp s p}"
    "hl s p = NIL \<or> hl s p \<notin> {hl s c, hr s c}"
    unfolding rp using X(4,5) T by blast+
  note W = swap_right_fields [OF rp(1) X(1-3) S, unfolded rp]
  let ?s = "liteco_heap_swap p c s"
  have K: "hl ?s x = hl s x \<and> hr ?s x = hr s x" if "x \<noteq> p" "x \<noteq> c" "x \<noteq> fpar fs" for x
    using that by (simp_all only: W if_False) simp_all
  have P: "hp ?s x = hp s x" if "x \<noteq> p" "x \<noteq> c" "x \<noteq> taddr A" "x \<noteq> taddr B" "x \<noteq> taddr R" for x
    using that unfolding W by simp
  have Q: "hp ?s (taddr A) = p" if "A \<noteq> PL"
    unfolding W using bspec [OF X(9) taddr_in_addrs [OF that]] T by auto
  have Q': "hp ?s (taddr B) = p" if "B \<noteq> PL"
    unfolding W using bspec [OF X(10) taddr_in_addrs [OF that]] T by auto
  have Q'': "hp ?s (taddr R) = c" if "R \<noteq> PL"
    unfolding W using bspec [OF X(11) taddr_in_addrs [OF that]] T by auto
  have C: "case fs of [] \<Rightarrow> hroot ?s = c
      | FL a x r # _ \<Rightarrow> hl ?s a = c \<and> hr ?s a = hr s a \<and> hroot ?s = hroot s
      | FR l a x # _ \<Rightarrow> hr ?s a = c \<and> hl ?s a = hl s a \<and> hroot ?s = hroot s"
    by (rule redirect_case [OF ctx]) (use X(2,4,5,12) in \<open>auto simp: W\<close>)
  have "distinct (addrs (plug fs (PN R c () (PN A p () B))))"
    using f X(1) by (auto simp: hfoc_def distinct_plug)
  then show ?thesis
    using X(1-5) swap_moved [OF f N sub ctx K P Q Q' Q'' C] by (simp add: hfoc_def W)
qed

end
