(* ===== verification/BinHeap_Shape.thy ===== *)
theory BinHeap_Shape
  imports BinHeap_Tree
begin

text \<open>
  The shape of the heap. The nodes of a tree are numbered level by level (the root is 1, the
  children of \<open>k\<close> are \<open>2 k\<close> and \<open>2 k + 1\<close>); a heap of \<open>n\<close> nodes has the numbers 1 to \<open>n\<close>. The
  code finds place \<open>n\<close> from the bits of the 32-bit count: \<open>heap_place\<close> says that it gets there,
  for every count below \<open>2 ^ 31\<close> (from there on \<open>1 << h\<close> is not defined in C).
\<close>

section \<open>Numbering\<close>

fun nums :: "nat \<Rightarrow> htree \<Rightarrow> nat set" where
  "nums k PL = {}"
| "nums k (PN l a x r) = insert k (nums (2 * k) l \<union> nums (2 * k + 1) r)"

fun fnum :: "nat \<Rightarrow> hpath \<Rightarrow> nat" where
  "fnum k [] = k"
| "fnum k (FL a x r # fs) = 2 * fnum k fs"
| "fnum k (FR l a x # fs) = 2 * fnum k fs + 1"

definition complete :: "nat \<Rightarrow> htree \<Rightarrow> bool" where
  "complete n t \<longleftrightarrow> nums 1 t = {1..n} \<and> length (addrs t) = n"

definition same_shape :: "htree \<Rightarrow> htree \<Rightarrow> bool" where
  "same_shape t t' \<longleftrightarrow> (\<forall>k. nums k t = nums k t') \<and> mset (addrs t) = mset (addrs t')"

lemma finite_nums [simp]: "finite (nums k t)"
  by (induction t arbitrary: k) auto

lemma card_nums: "card (nums k t) \<le> length (addrs t)"
proof (induction t arbitrary: k)
  case (PN l a x r)
  have "card (nums k (PN l a x r)) \<le> Suc (card (nums (2 * k) l \<union> nums (2 * k + 1) r))"
    by (simp add: card_insert_if)
  also have "\<dots> \<le> Suc (card (nums (2 * k) l) + card (nums (2 * k + 1) r))"
    by (simp add: card_Un_le del: One_nat_def)
  also have "\<dots> \<le> length (addrs (PN l a x r))" using PN [of "2 * k"] PN [of "2 * k + 1"] by simp
  finally show ?case .
qed simp

lemma fnum_append: "fnum k (fs @ gs) = fnum (fnum k gs) fs"
  by (induction k fs rule: fnum.induct) auto

lemma nums_plug_sub: "nums (fnum k fs) t \<subseteq> nums k (plug fs t)"
proof (induction fs t rule: plug.induct)
  case (2 a x r fs t)
  then show ?case by simp
next
  case (3 l a x fs t)
  then show ?case by simp
qed simp

lemma nums_plug_cong: "(\<And>k. nums k t = nums k t') \<Longrightarrow> nums k (plug fs t) = nums k (plug fs t')"
proof (induction fs arbitrary: t t')
  case (Cons f fs)
  show ?case by (cases f) (simp_all add: Cons.IH Cons.prems)
qed simp

lemma nums_plug_hole: "nums k (plug fs (PN PL a () PL)) = insert (fnum k fs) (nums k (plug fs PL))"
proof (induction fs arbitrary: k rule: rev_induct)
  case (snoc f fs)
  show ?case by (cases f) (simp_all add: plug_append fnum_append snoc insert_commute)
qed simp

lemma nums_node: "m \<in> nums k t \<Longrightarrow> \<exists>fs l a x r. t = plug fs (PN l a x r) \<and> fnum k fs = m"
proof (induction t arbitrary: k)
  case (PN l a x r)
  then consider "m = k" | "m \<in> nums (2 * k) l" | "m \<in> nums (2 * k + 1) r" by auto
  then show ?case
  proof cases
    case 1
    then have "PN l a x r = plug [] (PN l a x r) \<and> fnum k [] = m" by simp
    then show ?thesis by blast
  next
    case 2
    from PN.IH(1) [OF this] obtain fs l' a' x' r' where "l = plug fs (PN l' a' x' r')" "fnum (2 * k) fs = m"
      by blast
    then have "PN l a x r = plug (fs @ [FL a x r]) (PN l' a' x' r') \<and> fnum k (fs @ [FL a x r]) = m"
      by (simp add: plug_append fnum_append)
    then show ?thesis by blast
  next
    case 3
    from PN.IH(2) [OF this] obtain fs l' a' x' r' where "r = plug fs (PN l' a' x' r')" "fnum (2 * k + 1) fs = m"
      by blast
    then have "PN l a x r = plug (fs @ [FR l a x]) (PN l' a' x' r') \<and> fnum k (fs @ [FR l a x]) = m"
      by (simp add: plug_append fnum_append)
    then show ?thesis by blast
  qed
qed simp

text \<open>The last node is a leaf, and the next place is an empty child.\<close>

lemma complete_last:
  assumes "complete n t" and "0 < n"
  obtains fs c where "t = plug fs (PN PL c () PL)" "fnum 1 fs = n"
proof -
  have "n \<in> nums 1 t" using assms by (simp add: complete_def)
  from nums_node [OF this] obtain fs l c x r where t: "t = plug fs (PN l c x r)" and f: "fnum 1 fs = n"
    by blast
  have sub: "nums n (PN l c x r) \<subseteq> {1..n}"
    using nums_plug_sub [of 1 fs "PN l c x r"] assms(1) by (simp only: t f complete_def)
  have "l = PL"
  proof (rule ccontr)
    assume "l \<noteq> PL"
    then have "2 * n \<in> nums (2 * n) l" by (cases l) auto
    then show False using sub assms(2) by auto
  qed
  moreover have "r = PL"
  proof (rule ccontr)
    assume "r \<noteq> PL"
    then have "2 * n + 1 \<in> nums (2 * n + 1) r" by (cases r) auto
    then show False using sub assms(2) by auto
  qed
  ultimately show thesis using that [of fs c] t f by simp
qed

lemma complete_next:
  assumes "complete n t" and "0 < n"
  obtains fs where "t = plug fs PL" "fnum 1 fs = n + 1"
proof -
  have "1 \<le> (n + 1) div 2 \<and> (n + 1) div 2 \<le> n" using assms(2) by presburger
  then have "(n + 1) div 2 \<in> nums 1 t" using assms(1) by (simp only: complete_def atLeastAtMost_iff)
  from nums_node [OF this] obtain fs l c x r where t: "t = plug fs (PN l c x r)"
    and f: "fnum 1 fs = (n + 1) div 2" by blast
  let ?k = "(n + 1) div 2"
  have sub: "nums ?k (PN l c x r) \<subseteq> {1..n}"
    using nums_plug_sub [of 1 fs "PN l c x r"] assms(1) by (simp only: t f complete_def)
  show thesis
  proof (cases "even (n + 1)")
    case True
    have "l = PL"
    proof (rule ccontr)
      assume "l \<noteq> PL"
      then have "2 * ?k \<in> nums (2 * ?k) l" by (cases l) auto
      then have "2 * ?k \<in> nums ?k (PN l c x r)" by simp
      then show False using sub True by auto
    qed
    then show thesis using that [of "FL c x r # fs"] t f True by simp
  next
    case False
    have "r = PL"
    proof (rule ccontr)
      assume "r \<noteq> PL"
      then have "2 * ?k + 1 \<in> nums (2 * ?k + 1) r" by (cases r) auto
      then have "2 * ?k + 1 \<in> nums ?k (PN l c x r)" by simp
      then show False using sub False by auto
    qed
    then show thesis using that [of "FR l c x # fs"] t f False by simp
  qed
qed

lemma complete_unlink:
  assumes "complete n (plug fs (PN PL c () PL))" and "fnum 1 fs = n"
  shows "complete (n - 1) (plug fs PL)"
proof -
  have n: "insert n (nums 1 (plug fs PL)) = {1..n}" and len: "length (addrs (plug fs PL)) = n - 1"
    and pos: "0 < n"
    using assms by (auto simp: complete_def nums_plug_hole addrs_plug)
  have "n \<notin> nums 1 (plug fs PL)"
  proof
    assume "n \<in> nums 1 (plug fs PL)"
    then have "nums 1 (plug fs PL) = {1..n}" using n by (simp add: insert_absorb)
    then show False using card_nums [of 1 "plug fs PL"] len pos by simp
  qed
  then have "nums 1 (plug fs PL) = {1..n} - {n}" using n by blast
  also have "\<dots> = {1..n - 1}" by auto
  finally show ?thesis using len by (simp add: complete_def)
qed

lemma complete_link:
  assumes "complete n (plug fs PL)" and "fnum 1 fs = n + 1"
  shows "complete (n + 1) (plug fs (PN PL c () PL))"
  using assms by (auto simp: complete_def nums_plug_hole addrs_plug)

lemma complete_same: "same_shape t t' \<Longrightarrow> complete n t = complete n t'"
  using mset_eq_length [of "addrs t" "addrs t'"] by (auto simp: same_shape_def complete_def)

lemma same_shape_refl [simp]: "same_shape t t"
  by (simp add: same_shape_def)

lemma same_shape_trans: "same_shape t u \<Longrightarrow> same_shape u v \<Longrightarrow> same_shape t v"
  by (simp add: same_shape_def)

lemma same_shape_plug: "same_shape t t' \<Longrightarrow> same_shape (plug fs t) (plug fs t')"
  using nums_plug_cong [of t t'] by (auto simp: same_shape_def addrs_plug)

section \<open>From the count to the place\<close>

lemma fnum_bounds: "2 ^ length fs \<le> fnum 1 fs \<and> fnum 1 fs < 2 ^ Suc (length fs)"
  by (induction "1::nat" fs rule: fnum.induct) auto

text \<open>The slot that a path leads to.\<close>

fun hole :: "hpath \<Rightarrow> hslot" where
  "hole [] = HRoot"
| "hole (FL a x r # fs) = HLeft a"
| "hole (FR l a x # fs) = HRight a"

lemma hole_get: "hctx s p fs \<Longrightarrow> hslot_get (hole fs) s = p"
  by (cases fs rule: hole.cases) auto

lemma walk_step:
  "heap_walk s off (Suc n) p inn =
     (let q = hslot_get (snd (heap_walk s (drop_bit 1 off) n p inn)) s
      in if bit off 0 then (q, HRight q) else (q, HLeft q))"
proof (induction n arbitrary: p inn)
  case (Suc n)
  have b: "bit (drop_bit 1 off) n = bit off (Suc n)" by (simp add: bit_drop_bit_eq)
  show ?case
    by (subst heap_walk.simps, subst (2) heap_walk.simps)
      (simp only: Let_def Suc.IH b flip: bit_iff_and_push_bit_not_eq_0, simp)
qed (use bit_iff_and_push_bit_not_eq_0 [of off 0] in \<open>simp add: Let_def\<close>)

lemma walk_path:
  assumes "hctx s p fs" and "\<And>i. i < length fs \<Longrightarrow> bit off i = bit (fnum 1 fs) i"
  shows "heap_walk s off (length fs) (hroot s) HRoot = (if fs = [] then hroot s else fpar fs, hole fs)"
  using assms
proof (induction fs arbitrary: p off)
  case (Cons f fs)
  have low: "bit (drop_bit 1 off) i = bit (fnum 1 fs) i" if "i < length fs" for i
    using Cons.prems(2) [of "Suc i"] that by (cases f) (simp_all add: bit_drop_bit_eq bit_Suc)
  have odd: "bit off 0 = odd (fnum 1 (f # fs))"
    using Cons.prems(2) [of 0] by (simp add: bit_0)
  show ?case
  proof (cases f)
    case (FL a x r)
    then have c: "hctx s a fs" using Cons.prems(1) by simp
    have "heap_walk s (drop_bit 1 off) (length fs) (hroot s) HRoot
        = (if fs = [] then hroot s else fpar fs, hole fs)"
      by (rule Cons.IH [OF c low])
    then show ?thesis using odd FL hole_get [OF c] by (simp only: list.size add_0_right add_Suc_right walk_step) simp
  next
    case (FR l a x)
    then have c: "hctx s a fs" using Cons.prems(1) by simp
    have "heap_walk s (drop_bit 1 off) (length fs) (hroot s) HRoot
        = (if fs = [] then hroot s else fpar fs, hole fs)"
      by (rule Cons.IH [OF c low])
    then show ?thesis using odd FR hole_get [OF c] by (simp only: list.size add_0_right add_Suc_right walk_step) simp
  qed
qed simp

lemma unat_pow32: "h < 32 \<Longrightarrow> unat (push_bit h (1 :: u32)) = 2 ^ h"
  using power_strict_increasing [of h 32 "2::nat"]
  unfolding unsigned_push_bit_eq unsigned_1 take_bit_eq_mod by (simp add: push_bit_eq_mult)

lemma height_loop:
  assumes "unat c < 2 ^ 31" and "1 \<le> h" and "2 ^ (h - 1) \<le> unat c"
  shows "\<exists>h'. heap_height_loop c h = Some h' \<and> 1 \<le> h' \<and> h' \<le> 31 \<and> 2 ^ (h' - 1) \<le> unat c \<and> unat c < 2 ^ h'"
  using assms
proof (induction "32 - h" arbitrary: h)
  case 0
  have "(2::nat) ^ 31 \<le> 2 ^ (h - 1)" using 0(1) by (intro power_increasing) auto
  then show ?case using 0 by simp
next
  case (Suc d)
  then have h: "h < 32" by simp
  have le: "push_bit h 1 \<le> c \<longleftrightarrow> 2 ^ h \<le> unat c"
    by (simp only: word_le_nat_alt unat_pow32 [OF h])
  show ?case
  proof (cases "2 ^ h \<le> unat c")
    case True
    have "\<exists>h'. heap_height_loop c (Suc h) = Some h' \<and> 1 \<le> h' \<and> h' \<le> 31 \<and> 2 ^ (h' - 1) \<le> unat c \<and> unat c < 2 ^ h'"
      by (rule Suc.hyps(1)) (use Suc True in auto)
    then show ?thesis using True le by (subst heap_height_loop.simps) simp
  next
    case False
    have "h \<noteq> 32" using h by simp
    have "h \<le> 31" using h by simp
    then show ?thesis using Suc.prems False le by (subst heap_height_loop.simps) simp
  qed
qed

lemma unat_off:
  assumes "unat c < 2 ^ 31" and "1 \<le> h" "h \<le> 31" and "2 ^ (h - 1) \<le> unat c"
  shows "unat (heap_off c h) = unat c - 2 ^ (h - 1)"
proof -
  obtain g where g: "h = Suc g" using assms(2) by (cases h) auto
  have p: "push_bit h (1 :: u32) = push_bit (h - 1) 1 + push_bit (h - 1) 1"
    unfolding g by (simp add: push_bit_eq_mult)
  have "heap_off c h = c - push_bit (h - 1) 1" unfolding heap_off_def p by simp
  moreover have u: "unat (push_bit (h - 1) (1 :: u32)) = 2 ^ (h - 1)"
    by (rule unat_pow32) (use assms(2,3) in simp)
  then have "push_bit (h - 1) 1 \<le> c" using assms(4) by (simp only: word_le_nat_alt)
  ultimately show ?thesis using u by (simp only: unat_sub)
qed

text \<open>The place with the number \<open>cnt\<close> is where the walk ends.\<close>

lemma heap_place:
  assumes "hctx s p fs" and "fnum 1 fs = unat c" and "unat c < 2 ^ 31"
  shows "heap_height_loop c 1 = Some (Suc (length fs))"
    and "heap_walk s (heap_off c (Suc (length fs))) (length fs) (hroot s) HRoot =
           (if fs = [] then hroot s else fpar fs, hole fs)"
proof -
  have b: "2 ^ length fs \<le> unat c" "unat c < 2 ^ Suc (length fs)" using fnum_bounds [of fs] assms(2) by simp_all
  have "1 \<le> unat c" using b(1) by (rule order_trans [rotated]) simp
  then obtain h where h: "heap_height_loop c 1 = Some h" "1 \<le> h" "h \<le> 31" "2 ^ (h - 1) \<le> unat c" "unat c < 2 ^ h"
    using height_loop [OF assms(3), of 1] by auto
  have "(2::nat) ^ length fs < 2 ^ h" using b(1) h(5) by (rule order_le_less_trans)
  moreover have "(2::nat) ^ (h - 1) < 2 ^ Suc (length fs)" using h(4) b(2) by (rule order_le_less_trans)
  ultimately have "length fs < h \<and> h - 1 < Suc (length fs)"
    by (simp only: power_strict_increasing_iff one_less_numeral_iff semiring_norm)
  then have hl: "h = Suc (length fs)" using h(2) by linarith
  then show "heap_height_loop c 1 = Some (Suc (length fs))" using h by simp
  show "heap_walk s (heap_off c (Suc (length fs))) (length fs) (hroot s) HRoot =
           (if fs = [] then hroot s else fpar fs, hole fs)"
  proof (rule walk_path [OF assms(1)])
    fix i assume i: "i < length fs"
    have o: "unat (heap_off c h) = fnum 1 fs - 2 ^ length fs"
      using unat_off [OF assms(3) h(2-4)] hl assms(2) by simp
    have "fnum 1 fs = 2 ^ length fs + (fnum 1 fs - 2 ^ length fs)" using b(1) assms(2) by simp
    moreover have "fnum 1 fs - 2 ^ length fs < 2 ^ length fs" using b(2) assms(2) by simp
    ultimately have m: "fnum 1 fs - 2 ^ length fs = take_bit (length fs) (fnum 1 fs)"
      using fnum_bounds [of fs] by (simp add: take_bit_eq_mod mod_if le_mod_geq)
    have "bit (heap_off c h) i = bit (unat (heap_off c h)) i" by (simp add: bit_unsigned_iff)
    also have "\<dots> = bit (fnum 1 fs) i" unfolding o m using i by (simp add: bit_take_bit_iff)
    finally show "bit (heap_off c (Suc (length fs))) i = bit (fnum 1 fs) i" using hl by simp
  qed
qed

end
