(* ===== verification/BinHeap_Edit.thy ===== *)
theory BinHeap_Edit
  imports BinHeap_Shape
begin

text \<open>
  Adding a leaf at an empty place, cutting a leaf off, and replacing a node by another one: the
  writes of \<open>liteco_heap_insert\<close> and \<open>liteco_heap_remove\<close> before the loops.
\<close>

lemma hslot_set_fields:
  "hp (hslot_set i v s) b = hp s b" "cnt (hslot_set i v s) = cnt s"
  "hl (hslot_set i v s) b = (if i = HLeft b then v else hl s b)"
  "hr (hslot_set i v s) b = (if i = HRight b then v else hr s b)"
  "hroot (hslot_set i v s) = (if i = HRoot then v else hroot s)"
  by (cases i; simp add: hwrites)+

lemma hctx_hole_set:
  assumes "hctx s p fs" and "distinct (faddrs fs)"
  shows "hctx (hslot_set (hole fs) v s) v fs"
proof (rule pctx_redirect [OF assms])
  show "hp (hslot_set (hole fs) v s) a = hp s a \<and> () = ()" for a by (simp add: hslot_set_fields)
  show "hl (hslot_set (hole fs) v s) a = hl s a \<and> hr (hslot_set (hole fs) v s) a = hr s a"
    if "a \<noteq> fpar fs" for a
    using that by (cases fs rule: hole.cases) (auto simp: hslot_set_fields hwrites)
  show "case fs of [] \<Rightarrow> hroot (hslot_set (hole fs) v s) = v
    | FL a x r # _ \<Rightarrow> hl (hslot_set (hole fs) v s) a = v \<and> hr (hslot_set (hole fs) v s) a = hr s a \<and>
        hroot (hslot_set (hole fs) v s) = hroot s
    | FR l a x # _ \<Rightarrow> hr (hslot_set (hole fs) v s) a = v \<and> hl (hslot_set (hole fs) v s) a = hl s a \<and>
        hroot (hslot_set (hole fs) v s) = hroot s"
    by (cases fs rule: hole.cases) (auto simp: hslot_set_fields hwrites)
qed

lemma hfoc_unlink: "hfoc s fs t \<Longrightarrow> hfoc (hslot_set (hole fs) NIL s) fs PL"
  by (auto simp: hfoc_def distinct_plug hctx_hole_set)

lemma hctx_put_p: "a \<notin> set (faddrs fs) \<Longrightarrow>
  pctx hp_l hp_r hp_p (\<lambda>_. ()) (hmem (put_p a v s)) rt p fs = pctx hp_l hp_r hp_p (\<lambda>_. ()) (hmem s) rt p fs"
  by (simp add: put_p_def frame_rules)

lemma hfoc_link:
  assumes "hfoc s fs PL" and "node \<noteq> NIL" "node \<notin> set (addrs (plug fs PL))"
    and "hl s node = NIL" "hr s node = NIL" and "v = fpar fs"
  shows "hfoc (put_p node v (hslot_set (hole fs) node s)) fs (PN PL node () PL)"
proof -
  have n: "node \<notin> set (faddrs fs)" and d: "distinct (faddrs fs)" and c: "hctx s NIL fs"
    using assms by (auto simp: hfoc_def set_addrs_plug distinct_plug)
  have "hole fs \<noteq> HLeft node" "hole fs \<noteq> HRight node"
    using n by (cases fs rule: hole.cases; auto)+
  then show ?thesis
    using assms n d hctx_hole_set [OF c d, of node]
    by (auto simp: hfoc_def distinct_plug hctx_put_p hslot_set_fields put_fields)
qed

lemma take_place_fields:
  assumes "child \<noteq> node" "child \<noteq> NIL" "child \<notin> {hl s node, hr s node, hp s node}"
    and "node \<notin> {hl s node, hr s node, hp s node}"
  shows "hl (heap_take_place child node s) x = (if x = child then hl s node
      else if x = hp s node \<and> x \<noteq> NIL \<and> hl s x = node then child else hl s x)"
    and "hr (heap_take_place child node s) x = (if x = child then hr s node
      else if x = hp s node \<and> x \<noteq> NIL \<and> hl s x \<noteq> node then child else hr s x)"
    and "hp (heap_take_place child node s) x = (if x = child then hp s node
      else if x \<noteq> NIL \<and> (x = hl s node \<or> x = hr s node) then child else hp s x)"
    and "hroot (heap_take_place child node s) = (if hp s node = NIL then child else hroot s)"
    and "cnt (heap_take_place child node s) = cnt s"
proof -
  define s5 where "s5 = adopt (hr s node) child (adopt (hl s node) child
    (put_p child (hp s node) (put_r child (hr s node) (put_l child (hl s node) s))))"
  have l5: "hl s5 x = (if x = child then hl s node else hl s x)" for x
    by (simp add: s5_def hwrites)
  have r5: "hr s5 x = (if x = child then hr s node else hr s x)" for x
    by (simp add: s5_def hwrites)
  have p5: "hp s5 x = (if x = child then hp s node
      else if x \<noteq> NIL \<and> (x = hl s node \<or> x = hr s node) then child else hp s x)" for x
    using assms by (simp add: s5_def hwrites)
  have q: "hp s5 node = hp s node" and n: "hp s node \<noteq> child" "hp s node \<noteq> node"
    using assms by (auto simp: p5)
  have "heap_take_place child node s = relink (hp s5 node) node child s5"
    using assms(1) by (simp add: heap_take_place_def Let_def s5_def hwrites)
  then have eq: "heap_take_place child node s = relink (hp s node) node child s5" by (simp only: q)
  show "hl (heap_take_place child node s) x = (if x = child then hl s node
      else if x = hp s node \<and> x \<noteq> NIL \<and> hl s x = node then child else hl s x)"
    using n unfolding eq by (simp add: relink_fields l5) auto
  show "hr (heap_take_place child node s) x = (if x = child then hr s node
      else if x = hp s node \<and> x \<noteq> NIL \<and> hl s x \<noteq> node then child else hr s x)"
    using n unfolding eq by (simp add: relink_fields l5 r5) auto
  show "hp (heap_take_place child node s) x = (if x = child then hp s node
      else if x \<noteq> NIL \<and> (x = hl s node \<or> x = hr s node) then child else hp s x)"
    unfolding eq by (simp add: relink_fields p5)
  show "hroot (heap_take_place child node s) = (if hp s node = NIL then child else hroot s)"
    "cnt (heap_take_place child node s) = cnt s"
    unfolding eq by (simp_all add: relink_fields s5_def hwrites)
qed

text \<open>What is different from what around a node and a fresh address that takes its place.\<close>

lemma fresh_distinct:
  assumes f: "hfoc s fs (PN l node () r)" and c: "child \<noteq> NIL" "child \<notin> set (addrs (plug fs (PN l node () r)))"
  shows "child \<noteq> node" "node \<noteq> fpar fs" "child \<noteq> fpar fs"
    and "\<forall>x\<in>set (addrs l). x \<noteq> node \<and> x \<noteq> child \<and> x \<noteq> NIL \<and> x \<noteq> fpar fs \<and> x \<notin> set (addrs r)"
    and "\<forall>x\<in>set (addrs r). x \<noteq> node \<and> x \<noteq> child \<and> x \<noteq> NIL \<and> x \<noteq> fpar fs \<and> x \<notin> set (addrs l)"
    and "\<forall>x\<in>set (faddrs fs). x \<noteq> node \<and> x \<noteq> child \<and> x \<noteq> NIL \<and> x \<notin> set (addrs l) \<and> x \<notin> set (addrs r)"
    and "taddr l \<noteq> node" "taddr l \<noteq> child" "taddr r \<noteq> node" "taddr r \<noteq> child"
proof -
  note D = hfoc_distinctD [OF f]
  let ?t = "PN l node () r"
  have nil: "\<forall>x\<in>set (addrs ?t). x \<noteq> NIL" "\<forall>x\<in>set (faddrs fs). x \<noteq> NIL" using D(4,5) by metis+
  have ch: "\<forall>x\<in>set (addrs ?t). x \<noteq> child" "\<forall>x\<in>set (faddrs fs). x \<noteq> child"
    using c(2) unfolding set_addrs_plug by blast+
  have dj: "\<forall>x\<in>set (faddrs fs). x \<notin> set (addrs ?t)" using D(3) by blast
  have fp: "fpar fs = NIL \<or> fpar fs \<in> set (faddrs fs)" using fpar_in_faddrs [of fs] by (cases fs) auto
  have fpt: "\<forall>x\<in>set (addrs ?t). x \<noteq> fpar fs" using fp nil(1) dj by metis
  show nc: "child \<noteq> node" "node \<noteq> fpar fs" "child \<noteq> fpar fs"
    using bspec [OF ch(1), of node] bspec [OF fpt, of node] fp ch(2) c(1) by (simp, simp, metis)
  have lr: "\<forall>x\<in>set (addrs l). x \<noteq> node \<and> x \<notin> set (addrs r)" "\<forall>x\<in>set (addrs r). x \<noteq> node \<and> x \<notin> set (addrs l)"
    using D(1) by auto
  show L: "\<forall>x\<in>set (addrs l). x \<noteq> node \<and> x \<noteq> child \<and> x \<noteq> NIL \<and> x \<noteq> fpar fs \<and> x \<notin> set (addrs r)"
    and R: "\<forall>x\<in>set (addrs r). x \<noteq> node \<and> x \<noteq> child \<and> x \<noteq> NIL \<and> x \<noteq> fpar fs \<and> x \<notin> set (addrs l)"
    using lr nil(1) ch(1) fpt by simp_all
  show "\<forall>x\<in>set (faddrs fs). x \<noteq> node \<and> x \<noteq> child \<and> x \<noteq> NIL \<and> x \<notin> set (addrs l) \<and> x \<notin> set (addrs r)"
    using dj ch(2) nil(2) by simp
  have n: "node \<noteq> NIL" using f by (simp add: hfoc_def)
  show "taddr l \<noteq> node" "taddr l \<noteq> child" "taddr r \<noteq> node" "taddr r \<noteq> child"
    by (rule taddr_all; use L R c(1) n in blast)+
qed

lemma hfoc_take_place:
  assumes f: "hfoc s fs (PN l node () r)" and c: "child \<noteq> NIL" "child \<notin> set (addrs (plug fs (PN l node () r)))"
  shows "hfoc (heap_take_place child node s) fs (PN l child () r)"
proof -
  have rp: "hl s node = taddr l" "hr s node = taddr r" "hp s node = fpar fs" "node \<noteq> NIL"
    and sub: "hrep s node l" "hrep s node r" and ctx: "hctx s node fs"
    using f by (simp_all add: hfoc_def)
  note D = hfoc_distinctD [OF f] and X = fresh_distinct [OF f c]
  note nc = X(1-3) and L = X(4) and R = X(5) and F = X(6)
  have d: "distinct (addrs l)" "distinct (addrs r)" using D(1) by simp_all
  have W: "child \<notin> {hl s node, hr s node, hp s node}" "node \<notin> {hl s node, hr s node, hp s node}"
    unfolding rp using X(7-10) nc by blast+
  note W = take_place_fields [OF nc(1) c(1) W, unfolded rp]
  let ?s = "heap_take_place child node s"
  have K: "hl ?s x = hl s x" "hr ?s x = hr s x" if "x \<noteq> child" "x \<noteq> fpar fs" for x
    using that by (simp_all add: W)
  have P: "hp ?s x = hp s x" if "x \<noteq> child" "x \<noteq> taddr l" "x \<noteq> taddr r" for x
    using that by (simp add: W)
  have "hrep ?s child l"
  proof (rule rep_reparent [OF sub(1) d(1)])
    show "hp ?s (taddr l) = child" if "l \<noteq> PL"
      using bspec [OF L taddr_in_addrs [OF that]] by (simp add: W)
    show "hp ?s x = hp s x" if "x \<in> set (addrs l)" "x \<noteq> taddr l" for x
      by (rule P) (use bspec [OF L that(1)] that(2) not_taddr in blast)+
  qed (use L K in auto)
  moreover have "hrep ?s child r"
  proof (rule rep_reparent [OF sub(2) d(2)])
    show "hp ?s (taddr r) = child" if "r \<noteq> PL"
      using bspec [OF R taddr_in_addrs [OF that]] by (simp add: W)
    show "hp ?s x = hp s x" if "x \<in> set (addrs r)" "x \<noteq> taddr r" for x
      by (rule P) (use bspec [OF R that(1)] that(2) not_taddr in blast)+
  qed (use R K in auto)
  moreover have "hctx ?s child fs"
  proof (rule pctx_redirect [OF ctx D(2)])
    show "hp ?s x = hp s x \<and> () = ()" if "x \<in> set (faddrs fs)" for x
      using P [of x] bspec [OF F that] taddr_all [of l "\<lambda>y. x \<noteq> y"] taddr_all [of r "\<lambda>y. x \<noteq> y"] by blast
    show "hl ?s x = hl s x \<and> hr ?s x = hr s x" if "x \<in> set (faddrs fs)" "x \<noteq> fpar fs" for x
      using K [of x] bspec [OF F that(1)] that(2) by blast
    show "case fs of [] \<Rightarrow> hroot ?s = child
      | FL a x r # _ \<Rightarrow> hl ?s a = child \<and> hr ?s a = hr s a \<and> hroot ?s = hroot s
      | FR l a x # _ \<Rightarrow> hr ?s a = child \<and> hl ?s a = hl s a \<and> hroot ?s = hroot s"
      by (rule redirect_case [OF ctx]) (use F nc rp(4) in \<open>auto simp: W\<close>)
  qed
  moreover have "distinct (addrs (plug fs (PN l child () r)))"
    using f c(2) by (auto simp: hfoc_def distinct_plug set_addrs_plug)
  ultimately show ?thesis using c(1) nc by (simp add: hfoc_def W)
qed

end
