(* ===== verification/BinHeap_Order.thy ===== *)
theory BinHeap_Order
  imports BinHeap_Edit
begin

text \<open>
  Heap order, for any comparison callback that compares keys. The locale \<open>heap_order\<close> is the
  contract between the heap and its user (in the library: the timers); inside it, the loops up
  and down, insertion and removal are proved correct.
\<close>

section \<open>Order of a tree and of a path\<close>

fun hord :: "(addr \<Rightarrow> 'k::linorder) \<Rightarrow> htree \<Rightarrow> bool" where
  "hord key PL \<longleftrightarrow> True"
| "hord key (PN l a x r) \<longleftrightarrow>
     (\<forall>b\<in>set (addrs l) \<union> set (addrs r). key a \<le> key b) \<and> hord key l \<and> hord key r"

text \<open>The order of what is around a hole that holds the nodes \<open>B\<close>.\<close>

fun cord :: "(addr \<Rightarrow> 'k::linorder) \<Rightarrow> hpath \<Rightarrow> addr set \<Rightarrow> bool" where
  "cord key [] B \<longleftrightarrow> True"
| "cord key (FL a x r # fs) B \<longleftrightarrow>
     (\<forall>b\<in>B \<union> set (addrs r). key a \<le> key b) \<and> hord key r \<and> cord key fs (insert a (B \<union> set (addrs r)))"
| "cord key (FR l a x # fs) B \<longleftrightarrow>
     (\<forall>b\<in>B \<union> set (addrs l). key a \<le> key b) \<and> hord key l \<and> cord key fs (insert a (B \<union> set (addrs l)))"

lemma hord_plug: "hord key (plug fs t) \<longleftrightarrow> hord key t \<and> cord key fs (set (addrs t))"
proof (induction fs t rule: plug.induct)
  case (2 a x r fs t)
  then show ?case by (auto simp: Un_ac)
next
  case (3 l a x fs t)
  then show ?case by (auto simp: Un_ac)
qed simp

lemma cord_mono: "cord key fs B \<Longrightarrow> B' \<subseteq> B \<Longrightarrow> cord key fs B'"
proof (induction fs arbitrary: B B')
  case (Cons f fs)
  show ?case
  proof (cases f)
    case (FL a x r)
    have "cord key fs (insert a (B' \<union> set (addrs r)))"
      by (rule Cons.IH [of "insert a (B \<union> set (addrs r))"]) (use Cons.prems FL in auto)
    then show ?thesis using Cons.prems FL by auto
  next
    case (FR l a x)
    have "cord key fs (insert a (B' \<union> set (addrs l)))"
      by (rule Cons.IH [of "insert a (B \<union> set (addrs l))"]) (use Cons.prems FR in auto)
    then show ?thesis using Cons.prems FR by auto
  qed
qed simp

text \<open>A node that is not smaller than one of the hole may be added to the hole.\<close>

lemma cord_add: "cord key fs B \<Longrightarrow> b \<in> B \<Longrightarrow> key b \<le> key n \<Longrightarrow> cord key fs (insert n B)"
proof (induction fs arbitrary: B)
  case (Cons f fs)
  show ?case
  proof (cases f)
    case (FL a x r)
    have "cord key fs (insert n (insert a (B \<union> set (addrs r))))"
      by (rule Cons.IH) (use Cons.prems FL in auto)
    then show ?thesis using Cons.prems FL by (auto simp: insert_commute intro: order_trans)
  next
    case (FR l a x)
    have "cord key fs (insert n (insert a (B \<union> set (addrs l))))"
      by (rule Cons.IH) (use Cons.prems FR in auto)
    then show ?thesis using Cons.prems FR by (auto simp: insert_commute intro: order_trans)
  qed
qed simp

lemma hord_root: "hord key t \<Longrightarrow> \<forall>b\<in>set (addrs t). key (taddr t) \<le> key b"
  by (cases t) auto

text \<open>The invariant of a heap: a tree in memory, ordered, with as many nodes as counted, and
  complete.\<close>

definition heap_inv :: "(addr \<Rightarrow> 'k::linorder) \<Rightarrow> heap_state \<Rightarrow> htree \<Rightarrow> bool" where
  "heap_inv key s t \<longleftrightarrow> heap_holds s t \<and> hord key t \<and> complete (unat (cnt s)) t"

text \<open>A step up: what stands where once a node has been exchanged with its parent.\<close>

fun fsib :: "unit frame \<Rightarrow> htree" where
  "fsib (FL p x R) = R"
| "fsib (FR R p x) = R"

fun upl :: "unit frame \<Rightarrow> htree \<Rightarrow> htree \<Rightarrow> htree" where
  "upl (FL p x R) l r = PN l p x r"
| "upl (FR R p x) l r = R"

fun upr :: "unit frame \<Rightarrow> htree \<Rightarrow> htree \<Rightarrow> htree" where
  "upr (FL p x R) l r = R"
| "upr (FR R p x) l r = PN l p x r"

lemma cord_Cons:
  "cord key (f # fs) B \<longleftrightarrow> (\<forall>b\<in>B \<union> set (addrs (fsib f)). key (fpar (f # fs)) \<le> key b) \<and> hord key (fsib f) \<and>
     cord key fs (insert (fpar (f # fs)) (B \<union> set (addrs (fsib f))))"
  by (cases f) simp_all

lemma hfoc_swap_up:
  assumes "hfoc s (f # fs) (PN l n () r)"
  shows "hfoc (liteco_heap_swap (fpar (f # fs)) n s) fs (PN (upl f l r) n () (upr f l r))"
  using assms hfoc_swap_left hfoc_swap_right by (cases f) simp_all

lemma same_shape_up: "same_shape (plug fs (PN (upl f l r) n () (upr f l r))) (plug (f # fs) (PN l n () r))"
proof -
  have "same_shape (PN (upl f l r) n () (upr f l r)) (plug [f] (PN l n () r))"
    by (cases f) (simp_all add: same_shape_def)
  from same_shape_plug [OF this, of fs] show ?thesis by (cases f) simp_all
qed

lemma set_up: "set (addrs (upl f l r)) \<union> set (addrs (upr f l r)) =
    insert (fpar (f # fs)) (set (addrs l) \<union> set (addrs r) \<union> set (addrs (fsib f)))"
  by (cases f) auto

lemma hord_up:
  assumes "hord key (PN l n () r)" "hord key (fsib f)"
    and "\<forall>b\<in>set (addrs l) \<union> set (addrs r) \<union> set (addrs (fsib f)). key (fpar (f # fs)) \<le> key b"
    and "key n < key (fpar (f # fs))"
  shows "hord key (PN (upl f l r) n () (upr f l r))"
  using assms by (cases f) (auto intro: order_trans [OF less_imp_le])

section \<open>The contract of the comparison callback\<close>

locale heap_order =
  fixes cmp :: "addr \<Rightarrow> addr \<Rightarrow> liteco_heap_cmp_result" and key :: "addr \<Rightarrow> 'k::linorder"
  assumes cmp_iff: "cmp p c = HEAP_SWAP \<longleftrightarrow> key c < key p"
begin

lemma up_stop: "hp s n = NIL \<or> \<not> key n < key (hp s n) \<Longrightarrow> heap_up_loop cmp n s = Some s"
  by (subst heap_up_loop.simps) (auto simp: cmp_iff)

lemma up_go: "hp s n = p \<Longrightarrow> p \<noteq> NIL \<Longrightarrow> key n < key p \<Longrightarrow>
    heap_up_loop cmp n s = heap_up_loop cmp n (liteco_heap_swap p n s)"
  by (subst heap_up_loop.simps) (simp add: cmp_iff)

text \<open>The loop up ends with an ordered heap when only the moving node may be too small for its
  ancestors.\<close>

lemma up_loop:
  assumes "hfoc s fs (PN l n () r)" and "hord key (PN l n () r)" and "cord key fs (set (addrs l) \<union> set (addrs r))"
  shows "\<exists>s' t'. heap_up_loop cmp n s = Some s' \<and> heap_holds s' t' \<and> hord key t' \<and>
           same_shape t' (plug fs (PN l n () r)) \<and> cnt s' = cnt s"
  using assms
proof (induction fs arbitrary: s l r)
  case Nil
  have "hp s n = NIL" using hfoc_node(3) [OF Nil.prems(1)] by simp
  moreover have "heap_holds s (PN l n () r)" using Nil.prems(1) hfoc_holds [of s "[]"] by simp
  ultimately show ?case using Nil.prems(2) up_stop by (metis plug.simps(1) same_shape_refl)
next
  case (Cons f fs)
  let ?p = "fpar (f # fs)" and ?B = "set (addrs l) \<union> set (addrs r)"
  have hpn: "hp s n = ?p" using hfoc_node(3) [OF Cons.prems(1)] .
  have p: "?p \<noteq> NIL" using Cons.prems(1) by (cases f) (simp_all add: hfoc_def)
  have c: "\<forall>b\<in>?B \<union> set (addrs (fsib f)). key ?p \<le> key b" "hord key (fsib f)"
    "cord key fs (insert ?p (?B \<union> set (addrs (fsib f))))"
    using Cons.prems(3) unfolding cord_Cons by simp_all
  show ?case
  proof (cases "key n < key ?p")
    case False
    have "cord key fs (insert n (insert ?p (?B \<union> set (addrs (fsib f)))))"
      by (rule cord_add [OF c(3), of ?p]) (use False in auto)
    then have "cord key (f # fs) (set (addrs (PN l n () r)))"
      using c(1,2) False unfolding cord_Cons by (simp add: insert_commute)
    then have "hord key (plug (f # fs) (PN l n () r))"
      using Cons.prems(2) by (simp only: hord_plug simp_thms)
    moreover have "heap_up_loop cmp n s = Some s" using hpn False up_stop by simp
    moreover have "heap_holds s (plug (f # fs) (PN l n () r))" using Cons.prems(1) by (simp only: hfoc_holds)
    ultimately show ?thesis using same_shape_refl by blast
  next
    case True
    let ?s = "liteco_heap_swap ?p n s"
    have "\<exists>s' t'. heap_up_loop cmp n ?s = Some s' \<and> heap_holds s' t' \<and> hord key t' \<and>
        same_shape t' (plug fs (PN (upl f l r) n () (upr f l r))) \<and> cnt s' = cnt ?s"
      by (rule Cons.IH [OF hfoc_swap_up [OF Cons.prems(1)] hord_up [OF Cons.prems(2) c(2,1) True]])
        (use c(3) set_up [of f l r fs] in simp)
    then show ?thesis
      using up_go [OF hpn p True] same_shape_trans [OF _ same_shape_up]
      by (simp only: liteco_heap_swap_cnt) blast
  qed
qed

lemma root_le:
  "hord key t \<Longrightarrow> t = PL \<or> key c \<le> key (taddr t) \<Longrightarrow> \<forall>b\<in>set (addrs t). key c \<le> key b"
  using hord_root [of key t] by (auto intro: order_trans)

text \<open>The three outcomes of the choice of the smaller child.\<close>

lemma small_cases:
  assumes "hfoc s fs (PN l n () r)"
  obtains
    (stay) "heap_small cmp n s = n" "l = PL \<or> key n \<le> key (taddr l)" "r = PL \<or> key n \<le> key (taddr r)"
  | (left) A c B where "heap_small cmp n s = c" "l = PN A c () B" "c \<noteq> n" "r = PL \<or> key c \<le> key (taddr r)" "key c < key n"
  | (right) A c B where "heap_small cmp n s = c" "r = PN A c () B" "c \<noteq> n" "l = PL \<or> key c \<le> key (taddr l)" "key c < key n"
proof -
  note F = hfoc_node [OF assms]
  have nil: "taddr l = NIL \<longleftrightarrow> l = PL" "taddr r = NIL \<longleftrightarrow> r = PL"
    using assms by (auto simp: hfoc_def rep_taddr_nil)
  have ne: "l = PL \<or> taddr l \<noteq> n" "r = PL \<or> taddr r \<noteq> n"
    using hfoc_distinctD(1) [OF assms] by (cases l; cases r; auto)+
  define m where "m = (if l \<noteq> PL \<and> key (taddr l) < key n then taddr l else n)"
  have small: "heap_small cmp n s = (if r \<noteq> PL \<and> key (taddr r) < key m then taddr r else m)"
    by (simp add: heap_small_def F m_def cmp_iff Let_def nil)
  show thesis
  proof (cases "r \<noteq> PL \<and> key (taddr r) < key m")
    case True
    then obtain A c B where "r = PN A c () B" by (cases r) auto
    moreover have "key m \<le> key n" "l = PL \<or> key m \<le> key (taddr l)" by (auto simp: m_def)
    then have "key (taddr r) < key n" "l = PL \<or> key (taddr r) \<le> key (taddr l)" using True by auto
    ultimately show thesis using right [of c A B] True small ne by auto
  next
    case False
    show thesis
    proof (cases "l \<noteq> PL \<and> key (taddr l) < key n")
      case l: True
      then obtain A c B where "l = PN A c () B" by (cases l) auto
      moreover have "m = taddr l" using l by (simp add: m_def)
      moreover have "heap_small cmp n s = m" using False small by auto
      ultimately show thesis using left [of c A B] False l ne by (auto simp: not_less)
    next
      case l: False
      then have "m = n" by (auto simp: m_def)
      moreover have "heap_small cmp n s = m" using False small by auto
      ultimately show thesis using stay False l by (auto simp: not_less)
    qed
  qed
qed

text \<open>The loop down ends where the moving node is not greater than its children; the way up is
  still to be checked.\<close>

lemma down_loop:
  assumes "hfoc s fs (PN l n () r)" "hord key l" "hord key r" "cord key fs (set (addrs l) \<union> set (addrs r))"
  shows "\<exists>s' fs' l' r'. heap_down_loop cmp n s = Some s' \<and> hfoc s' fs' (PN l' n () r') \<and>
    hord key (PN l' n () r') \<and> cord key fs' (set (addrs l') \<union> set (addrs r')) \<and>
    same_shape (plug fs' (PN l' n () r')) (plug fs (PN l n () r)) \<and> cnt s' = cnt s"
  using assms
proof (induction "length (addrs (PN l n () r))" arbitrary: s fs l r rule: less_induct)
  case less
  have step: "heap_small cmp n s = c \<Longrightarrow> c \<noteq> n \<Longrightarrow>
      heap_down_loop cmp n s = heap_down_loop cmp n (liteco_heap_swap n c s)" for c
    by (subst heap_down_loop.simps) simp
  from less.prems(1) show ?case
  proof (cases rule: small_cases)
    case stay
    have "heap_down_loop cmp n s = Some s" using stay(1) by (subst heap_down_loop.simps) simp
    moreover have "hord key (PN l n () r)"
      using less.prems(2,3) root_le [OF less.prems(2) stay(2)] root_le [OF less.prems(3) stay(3)] by auto
    ultimately show ?thesis using less.prems(1,4) same_shape_refl by blast
  next
    case (left A c B)
    have foc: "hfoc (liteco_heap_swap n c s) (FL c () r # fs) (PN A n () B)"
      by (rule hfoc_refocus [OF hfoc_swap_left [of s n r fs A c B]])
        (use less.prems(1) left(2) in \<open>auto elim: hfoc_refocus\<close>)
    have "cord key (FL c () r # fs) (set (addrs A) \<union> set (addrs B))"
      using less.prems(2-4) left(2) root_le [OF less.prems(3) left(4)] by (auto elim: cord_mono)
    from less.hyps [OF _ foc _ _ this] show ?thesis
      using less.prems(2) left(2) step [OF left(1,3)] same_shape_trans [OF _ same_shape_up [of fs "FL n () r" A B c]]
      by simp blast
  next
    case (right A c B)
    have foc: "hfoc (liteco_heap_swap n c s) (FR l c () # fs) (PN A n () B)"
      by (rule hfoc_refocus [OF hfoc_swap_right [of s l n fs A c B]])
        (use less.prems(1) right(2) in \<open>auto elim: hfoc_refocus\<close>)
    have "cord key (FR l c () # fs) (set (addrs A) \<union> set (addrs B))"
      using less.prems(2-4) right(2) root_le [OF less.prems(2) right(4)] by (auto elim: cord_mono)
    from less.hyps [OF _ foc _ _ this] show ?thesis
      using less.prems(3) right(2) step [OF right(1,3)] same_shape_trans [OF _ same_shape_up [of fs "FR l n ()" A B c]]
      by simp blast
  qed
qed

text \<open>Both loops, as removal runs them.\<close>

definition sift :: "addr \<Rightarrow> heap_state \<Rightarrow> (heap_state \<times> int) option" where
  "sift w s = (case heap_down_loop cmp w s of None \<Rightarrow> None
     | Some s3 \<Rightarrow> map_option (\<lambda>s4. (s4, 0)) (heap_up_loop cmp w s3))"

lemma sift_ok:
  assumes "hfoc s fs (PN l w () r)" "hord key l" "hord key r" "cord key fs (set (addrs l) \<union> set (addrs r))"
  shows "\<exists>s' t'. sift w s = Some (s', 0) \<and> heap_holds s' t' \<and> hord key t' \<and>
    same_shape t' (plug fs (PN l w () r)) \<and> cnt s' = cnt s"
proof -
  obtain s3 fs' l' r' where down: "heap_down_loop cmp w s = Some s3"
    "hfoc s3 fs' (PN l' w () r')" "hord key (PN l' w () r')" "cord key fs' (set (addrs l') \<union> set (addrs r'))"
    "same_shape (plug fs' (PN l' w () r')) (plug fs (PN l w () r))" "cnt s3 = cnt s"
    using down_loop [OF assms] by blast
  obtain s4 t' where up: "heap_up_loop cmp w s3 = Some s4" "heap_holds s4 t'" "hord key t'"
    "same_shape t' (plug fs' (PN l' w () r'))" "cnt s4 = cnt s3"
    using up_loop [OF down(2-4)] by blast
  then show ?thesis using down(1,6) same_shape_trans [OF up(4) down(5)] by (auto simp: sift_def)
qed

section \<open>Insertion and removal\<close>

text \<open>Insertion adds the node and nothing else, and keeps the invariant.\<close>

lemma insert_ok:
  assumes inv: "heap_inv key s t" and n: "n \<noteq> NIL" "n \<notin> set (addrs t)"
    and fresh: "hl s n = NIL" "hr s n = NIL" "hp s n = NIL" and room: "unat (cnt s) + 1 < 2 ^ 31"
  shows "\<exists>s' t'. liteco_heap_insert cmp n s = Some (s', 0) \<and> heap_inv key s' t' \<and>
           mset (addrs t') = add_mset n (mset (addrs t))"
proof (cases "cnt s = 0")
  case True
  then have t: "t = PL" using inv by (cases t) (auto simp: heap_inv_def complete_def)
  have "heap_inv key (s\<lparr>hroot := n, cnt := 1\<rparr>) (PN PL n () PL)"
    using n fresh by (simp add: heap_inv_def heap_holds_def complete_def)
  then show ?thesis using True t by (auto simp: liteco_heap_insert_def)
next
  case False
  let ?m = "unat (cnt s)" and ?s = "s\<lparr>cnt := cnt s + 1\<rparr>"
  have m: "0 < ?m" using False by (simp add: unat_gt_0)
  have c: "unat (cnt s + 1) = ?m + 1" using room by (simp add: unat_word_ariths)
  obtain fs where t: "t = plug fs PL" and fs: "fnum 1 fs = ?m + 1"
    using complete_next m inv by (metis heap_inv_def)
  have ne: "fs \<noteq> []" using fs m by (cases fs) auto
  have foc: "hfoc ?s fs PL" using inv t hfoc_holds [of s fs PL] by (simp add: heap_inv_def)
  have ctx: "hctx ?s NIL fs" using foc by (simp add: hfoc_def)
  have f: "fnum 1 fs = unat (cnt ?s)" and b: "unat (cnt ?s) < 2 ^ 31" using fs c room by simp_all
  note place = heap_place [OF ctx f b]
  let ?s2 = "put_p n (fpar fs) (hslot_set (hole fs) n ?s)"
  have foc2: "hfoc ?s2 fs (PN PL n () PL)" by (rule hfoc_link [OF foc]) (use n fresh t in simp_all)
  have "cord key fs {}" using inv t by (simp add: heap_inv_def hord_plug)
  then obtain s' t' where up: "heap_up_loop cmp n ?s2 = Some s'" "heap_holds s' t'" "hord key t'"
    "same_shape t' (plug fs (PN PL n () PL))" "cnt s' = cnt ?s2"
    using up_loop [OF foc2] by auto
  have "complete (unat (cnt s')) t'"
    using complete_link [of ?m fs n] fs inv t complete_same [OF up(4)] up(5) c
    by (simp add: heap_inv_def put_fields hslot_set_fields)
  moreover have "mset (addrs t') = add_mset n (mset (addrs t))"
    using up(4) t by (simp add: same_shape_def addrs_plug)
  moreover have "liteco_heap_insert cmp n s = Some (s', 0)"
    using False place up(1) ne by (simp add: liteco_heap_insert_def Let_def)
  ultimately show ?thesis using up(2,3) by (auto simp: heap_inv_def)
qed

text \<open>Removal takes the node away, wherever it is, and nothing else.\<close>

lemma sift_taken:
  assumes holds: "heap_holds s T" and ord: "hord key T" and cmpl: "complete (unat (cnt s)) T"
    and w: "w \<noteq> NIL" "w \<notin> set (addrs T)" and n: "n \<in> set (addrs T)"
  shows "\<exists>s' t'. sift w (heap_take_place w n s) = Some (s', 0) \<and> heap_inv key s' t' \<and>
    mset (addrs t') = add_mset w (mset (addrs T)) - {#n#}"
proof -
  obtain gs l x r where g: "T = plug gs (PN l n x r)" using n by (rule in_addrs_plug)
  have foc: "hfoc (heap_take_place w n s) gs (PN l w () r)"
    by (rule hfoc_take_place) (use holds g w in \<open>simp_all add: hfoc_holds\<close>)
  have o: "hord key l" "hord key r" "cord key gs (set (addrs l) \<union> set (addrs r))"
    using ord unfolding g hord_plug by (auto elim: cord_mono)
  obtain s' t' where sift: "sift w (heap_take_place w n s) = Some (s', 0)" "heap_holds s' t'" "hord key t'"
    "same_shape t' (plug gs (PN l w () r))" "cnt s' = cnt (heap_take_place w n s)"
    using sift_ok [OF foc o] by blast
  have ct: "cnt (heap_take_place w n s) = cnt s"
    by (simp add: heap_take_place_def Let_def hwrites)
  have "complete (unat (cnt s)) (plug gs (PN l w () r))"
    using cmpl nums_plug_cong [of "PN l n () r" "PN l w () r" 1 gs]
    by (simp add: g complete_def addrs_plug del: One_nat_def)
  then have "heap_inv key s' t'"
    using sift ct complete_same [OF sift(4)] by (simp add: heap_inv_def)
  moreover have "mset (addrs t') = add_mset w (mset (addrs T)) - {#n#}"
    using sift(4) g by (simp add: same_shape_def addrs_plug)
  ultimately show ?thesis using sift(1) by blast
qed

lemma remove_ok:
  assumes inv: "heap_inv key s t" and n: "n \<in> set (addrs t)" and room: "unat (cnt s) < 2 ^ 31"
  shows "\<exists>s' t'. liteco_heap_remove cmp n s = Some (s', 0) \<and> heap_inv key s' t' \<and>
           mset (addrs t') = mset (addrs t) - {#n#}"
proof -
  let ?m = "unat (cnt s)" and ?s1 = "s\<lparr>cnt := cnt s - 1\<rparr>"
  have m: "0 < ?m" using inv n by (cases t) (auto simp: heap_inv_def complete_def)
  then have nz: "cnt s \<noteq> 0" by (simp add: unat_gt_0)
  have c: "unat (cnt s - 1) = ?m - 1" using nz by (simp add: unat_minus_one)
  obtain fs w where t: "t = plug fs (PN PL w () PL)" and fs: "fnum 1 fs = ?m"
    using complete_last m inv by (metis heap_inv_def)
  have foc: "hfoc s fs (PN PL w () PL)" using inv t hfoc_holds by (simp add: heap_inv_def)
  have ctx: "hctx s w fs" using foc by (simp add: hfoc_def)
  define s2 where "s2 = hslot_set (hole fs) NIL ?s1"
  have c2: "cnt s2 = cnt s - 1" by (simp add: s2_def hslot_set_fields)
  have child: "hslot_get (hole fs) ?s1 = w" by (rule hole_get) (use ctx in simp)
  have foc2: "hfoc s2 fs PL"
    unfolding s2_def by (rule hfoc_unlink [of _ _ "PN PL w () PL"]) (use foc in simp)
  have cmpl: "complete (?m - 1) (plug fs PL)"
    by (rule complete_unlink [of _ _ w, OF _ fs]) (use inv t in \<open>simp add: heap_inv_def\<close>)
  have ord: "hord key (plug fs PL)" using inv t by (auto simp: heap_inv_def hord_plug elim: cord_mono)
  have ms: "mset (addrs t) = add_mset w (mset (addrs (plug fs PL)))" using t by (simp add: addrs_plug)
  have w: "w \<noteq> NIL" "w \<notin> set (addrs (plug fs PL))"
    using foc inv t by (auto simp: hfoc_def distinct_plug set_addrs_plug)
  have start: "liteco_heap_remove cmp n s =
      (if w = n then Some (if w = hroot s2 then s2\<lparr>hroot := NIL\<rparr> else s2, 0)
       else sift w (heap_take_place w n s2))"
    using nz heap_place [OF ctx fs room] child
    by (simp add: liteco_heap_remove_def sift_def Let_def s2_def cong: option.case_cong)
  have holds2: "heap_holds s2 (plug fs PL)" using foc2 by (simp only: hfoc_holds)
  show ?thesis
  proof (cases "w = n")
    case True
    have "w \<noteq> hroot s2" using holds2 w by (cases "plug fs PL") (auto simp: heap_holds_def)
    then have "liteco_heap_remove cmp n s = Some (s2, 0)" using start True by simp
    moreover have "heap_inv key s2 (plug fs PL)" using holds2 ord cmpl c2 c by (simp add: heap_inv_def)
    ultimately show ?thesis using ms True by auto
  next
    case False
    then have "n \<in> set (addrs (plug fs PL))" using n t by (auto simp: set_addrs_plug)
    from sift_taken [OF holds2 ord _ w this] cmpl show ?thesis
      using start False by (simp add: c2 c ms)
  qed
qed

end

end
