(* ===== verification/BinHeap_Props.thy ===== *)
theory BinHeap_Props
  imports BinHeap_Order
begin

text \<open>
  The properties of the binary heap, for every comparison callback that compares keys:
  insertion and removal end, keep the tree complete and ordered, and change exactly one node.
\<close>

definition compares :: "(addr \<Rightarrow> addr \<Rightarrow> liteco_heap_cmp_result) \<Rightarrow> (addr \<Rightarrow> 'k::linorder) \<Rightarrow> bool" where
  "compares cmp key \<longleftrightarrow> (\<forall>p c. cmp p c = HEAP_SWAP \<longleftrightarrow> key c < key p)"

lemma compares_order: "compares cmp key \<Longrightarrow> heap_order cmp key"
  by unfold_locales (auto simp: compares_def)

lemma heap_inv_min:
  "heap_inv key s t \<Longrightarrow> t \<noteq> PL \<Longrightarrow> hroot s \<in> set (addrs t) \<and> (\<forall>b\<in>set (addrs t). key (hroot s) \<le> key b)"
  using hord_root [of key t] taddr_in_addrs [of t] by (auto simp: heap_inv_def heap_holds_def)

section \<open>A small heap for the witnesses\<close>

text \<open>Nodes 10, 20 and 30 with themselves as keys; node 5 is free.\<close>

definition demo_cmp :: "addr \<Rightarrow> addr \<Rightarrow> liteco_heap_cmp_result" where
  "demo_cmp p c = (if c < p then HEAP_SWAP else HEAP_KEEP)"

definition demo_htree :: htree where "demo_htree = PN (PN PL 20 () PL) 10 () (PN PL 30 () PL)"

definition demo_heap :: heap_state where
  "demo_heap = \<lparr>hroot = 10, cnt = 3, hmem = (\<lambda>a.
     if a = 10 then \<lparr>hp_p = NIL, hp_r = 30, hp_l = 20\<rparr>
     else if a = 20 \<or> a = 30 then \<lparr>hp_p = 10, hp_r = NIL, hp_l = NIL\<rparr>
     else \<lparr>hp_p = NIL, hp_r = NIL, hp_l = NIL\<rparr>)\<rparr>"

lemma demo_compares: "compares demo_cmp id"
  by (simp add: compares_def demo_cmp_def)

lemma demo_heap_inv: "heap_inv id demo_heap demo_htree"
  by (auto simp: heap_inv_def heap_holds_def complete_def demo_heap_def demo_htree_def)

section \<open>The properties\<close>

text \<open>C30: Inserting an initialised node into a heap of fewer than \<open>2 ^ 31 - 1\<close> nodes ends,
  reports success, and gives a complete ordered heap with the old nodes and the new one, so that
  the root has the least key.\<close>

theorem heap_insert_spec:
  assumes "compares cmp key" and "heap_inv key s t" and "node \<noteq> NIL" "node \<notin> set (addrs t)"
    and "hmem s node = \<lparr>hp_p = NIL, hp_r = NIL, hp_l = NIL\<rparr>" and "unat (cnt s) + 1 < 2 ^ 31"
  shows "\<exists>s' t'. liteco_heap_insert cmp node s = Some (s', 0) \<and> heap_inv key s' t' \<and>
           mset (addrs t') = add_mset node (mset (addrs t)) \<and>
           (\<forall>b\<in>set (addrs t'). key (hroot s') \<le> key b)"
proof -
  have "hl s node = NIL" "hr s node = NIL" "hp s node = NIL" using assms(5) by simp_all
  from heap_order.insert_ok [OF compares_order [OF assms(1)] assms(2-4) this assms(6)]
  obtain s' t' where R: "liteco_heap_insert cmp node s = Some (s', 0)" "heap_inv key s' t'"
    "mset (addrs t') = add_mset node (mset (addrs t))" by blast
  then have "t' \<noteq> PL" by auto
  then show ?thesis using R heap_inv_min by blast
qed

lemma heap_insert_spec_witness:
  "\<exists>s' t'. liteco_heap_insert demo_cmp 5 demo_heap = Some (s', 0) \<and> heap_inv id s' t' \<and>
     mset (addrs t') = {#5, 10, 20, 30#} \<and> (\<forall>b\<in>set (addrs t'). hroot s' \<le> b)"
  using heap_insert_spec [OF demo_compares demo_heap_inv, of 5]
  by (simp add: demo_heap_def demo_htree_def add_mset_commute)

text \<open>C31: Removing a node of the heap, the root or any other, ends, reports success, and gives a
  complete ordered heap with all the other nodes.\<close>

theorem heap_remove_spec:
  assumes "compares cmp key" and "heap_inv key s t" and "node \<in> set (addrs t)" and "unat (cnt s) < 2 ^ 31"
  shows "\<exists>s' t'. liteco_heap_remove cmp node s = Some (s', 0) \<and> heap_inv key s' t' \<and>
           mset (addrs t') = mset (addrs t) - {#node#} \<and>
           (\<forall>b\<in>set (addrs t'). key (hroot s') \<le> key b)"
proof -
  from heap_order.remove_ok [OF compares_order [OF assms(1)] assms(2-4)]
  obtain s' t' where R: "liteco_heap_remove cmp node s = Some (s', 0)" "heap_inv key s' t'"
    "mset (addrs t') = mset (addrs t) - {#node#}" by blast
  moreover have "\<forall>b\<in>set (addrs t'). key (hroot s') \<le> key b"
    using heap_inv_min [OF R(2)] by (cases "t' = PL") auto
  ultimately show ?thesis by blast
qed

lemma heap_remove_spec_witness:
  "\<exists>s' t'. liteco_heap_remove demo_cmp 10 demo_heap = Some (s', 0) \<and> heap_inv id s' t' \<and>
     mset (addrs t') = {#20, 30#} \<and> (\<forall>b\<in>set (addrs t'). hroot s' \<le> b)"
  using heap_remove_spec [OF demo_compares demo_heap_inv, of 10]
  by (simp add: demo_heap_def demo_htree_def)

end
