(* ===== verification/Timeout.thy ===== *)
theory Timeout
  imports Prelude "HOL-Library.Signed_Division" "HOL-Library.Product_Lexorder"
begin

text \<open>
  The points in time of the timers: \<open>struct timeval\<close> on Darwin
  (\<open>src/platform/darwin/internal.h\<close>) and \<open>struct timespec\<close> on Linux
  (\<open>src/platform/linux/internal.h\<close>), with the arithmetic of the two headers at the width of the
  C types: \<open>tv_sec\<close> has 64 bits, \<open>tv_usec\<close> 32 and \<open>tv_nsec\<close> 64, all signed; the timeouts and
  intervals of the interface are \<open>uint64_t\<close> microseconds.
\<close>

section \<open>Signed division of C\<close>

definition sdiv_w :: "'a::len word \<Rightarrow> int \<Rightarrow> 'a word" where
  "sdiv_w a d = word_of_int (sint a sdiv d)"

definition smod_w :: "'a::len word \<Rightarrow> int \<Rightarrow> 'a word" where
  "smod_w a d = word_of_int (sint a smod d)"

text \<open>Assignment of a signed value to a wider or narrower type.\<close>

definition conv :: "'a::len word \<Rightarrow> 'b::len word" where
  "conv a = word_of_int (sint a)"

section \<open>Timers\<close>

text \<open>The fields of \<open>liteco_timer_t\<close> apart from the heap node; the type of the time depends on
  the platform.\<close>

record 't liteco_timer =
  tm_cb :: addr
  tm_active :: bool
  tm_stop :: bool
  timeout :: 't
  interval :: 't

section \<open>Darwin\<close>

record timeval =
  tv_sec :: u64
  tv_usec :: u32

definition liteco_timer_set_timeout :: "timeval liteco_timer \<Rightarrow> u64 \<Rightarrow> timeval liteco_timer" where
  "liteco_timer_set_timeout t us =
     t\<lparr>timeout := \<lparr>tv_sec = us div 1000000, tv_usec = ucast (us mod 1000000)\<rparr>\<rparr>"

definition liteco_timer_set_interval :: "timeval liteco_timer \<Rightarrow> u64 \<Rightarrow> timeval liteco_timer" where
  "liteco_timer_set_interval t us =
     t\<lparr>interval := \<lparr>tv_sec = us div 1000000, tv_usec = ucast (us mod 1000000)\<rparr>\<rparr>"

text \<open>The carry of microseconds into seconds, the last two statements of both additions.\<close>

definition carry_us :: "timeval \<Rightarrow> timeval" where
  "carry_us v = \<lparr>tv_sec = tv_sec v + conv (sdiv_w (tv_usec v) 1000000), tv_usec = smod_w (tv_usec v) 1000000\<rparr>"

definition liteco_timer_add_timeout :: "timeval liteco_timer \<Rightarrow> u64 \<Rightarrow> timeval liteco_timer" where
  "liteco_timer_add_timeout t us =
     t\<lparr>timeout := carry_us \<lparr>tv_sec = tv_sec (timeout t) + us div 1000000,
        tv_usec = ucast (conv (tv_usec (timeout t)) + us mod 1000000 :: u64)\<rparr>\<rparr>"

definition liteco_timer_add_timeout_interval :: "timeval liteco_timer \<Rightarrow> timeval liteco_timer" where
  "liteco_timer_add_timeout_interval t =
     t\<lparr>timeout := carry_us \<lparr>tv_sec = tv_sec (timeout t) + tv_sec (interval t),
        tv_usec = tv_usec (timeout t) + tv_usec (interval t)\<rparr>\<rparr>"

text \<open>\<open>now\<close> is what \<open>gettimeofday\<close> stores.\<close>

definition liteco_timer_set_timeout_current :: "timeval \<Rightarrow> timeval liteco_timer \<Rightarrow> timeval liteco_timer" where
  "liteco_timer_set_timeout_current now t = t\<lparr>timeout := now\<rparr>"

definition liteco_timer_active :: "timeval liteco_timer \<Rightarrow> timeval \<Rightarrow> bool" where
  "liteco_timer_active t now =
     (if sint (tv_sec (timeout t)) < sint (tv_sec now) then True
      else if tv_sec (timeout t) = tv_sec now \<and> sint (tv_usec (timeout t)) < sint (tv_usec now) then True
      else False)"

definition liteco_timer_kevent_timeout :: "timeval liteco_timer \<Rightarrow> timeval" where
  "liteco_timer_kevent_timeout t = timeout t"

section \<open>Linux\<close>

record timespec =
  ts_sec :: u64
  ts_nsec :: u64

definition linux_timer_set_timeout :: "timespec liteco_timer \<Rightarrow> u64 \<Rightarrow> timespec liteco_timer" where
  "linux_timer_set_timeout t us =
     t\<lparr>timeout := \<lparr>ts_sec = us div 1000000, ts_nsec = (us mod 1000000) * 1000\<rparr>\<rparr>"

definition linux_timer_set_interval :: "timespec liteco_timer \<Rightarrow> u64 \<Rightarrow> timespec liteco_timer" where
  "linux_timer_set_interval t us =
     t\<lparr>interval := \<lparr>ts_sec = us div 1000000, ts_nsec = (us mod 1000000) * 1000\<rparr>\<rparr>"

definition carry_ns :: "timespec \<Rightarrow> timespec" where
  "carry_ns v = \<lparr>ts_sec = ts_sec v + sdiv_w (ts_nsec v) 1000000000, ts_nsec = smod_w (ts_nsec v) 1000000000\<rparr>"

definition linux_timer_add_timeout :: "timespec liteco_timer \<Rightarrow> u64 \<Rightarrow> timespec liteco_timer" where
  "linux_timer_add_timeout t us =
     t\<lparr>timeout := carry_ns \<lparr>ts_sec = ts_sec (timeout t) + us div 1000000,
        ts_nsec = ts_nsec (timeout t) + (us mod 1000000) * 1000\<rparr>\<rparr>"

definition linux_timer_add_timeout_interval :: "timespec liteco_timer \<Rightarrow> timespec liteco_timer" where
  "linux_timer_add_timeout_interval t =
     t\<lparr>timeout := carry_ns \<lparr>ts_sec = ts_sec (timeout t) + ts_sec (interval t),
        ts_nsec = ts_nsec (timeout t) + ts_nsec (interval t)\<rparr>\<rparr>"

definition linux_timer_set_timeout_current :: "timespec \<Rightarrow> timespec liteco_timer \<Rightarrow> timespec liteco_timer" where
  "linux_timer_set_timeout_current now t = t\<lparr>timeout := now\<rparr>"

definition linux_timer_active :: "timespec liteco_timer \<Rightarrow> timespec \<Rightarrow> bool" where
  "linux_timer_active t now =
     (if sint (ts_sec (timeout t)) < sint (ts_sec now) then True
      else if ts_sec (timeout t) = ts_sec now \<and> sint (ts_nsec (timeout t)) < sint (ts_nsec now) then True
      else False)"

definition liteco_timer_timerfd_timeout :: "timespec liteco_timer \<Rightarrow> timespec" where
  "liteco_timer_timerfd_timeout t = timeout t"

section \<open>The order of times\<close>

text \<open>Times are ordered by seconds and then by the smaller unit, as signed numbers.\<close>

instantiation timeval_ext :: (linorder) linorder
begin

definition less_eq_timeval_ext :: "'a timeval_scheme \<Rightarrow> 'a timeval_scheme \<Rightarrow> bool" where
  "less_eq_timeval_ext x y \<longleftrightarrow> (sint (tv_sec x), sint (tv_usec x), timeval.more x) \<le> (sint (tv_sec y), sint (tv_usec y), timeval.more y)"

definition less_timeval_ext :: "'a timeval_scheme \<Rightarrow> 'a timeval_scheme \<Rightarrow> bool" where
  "less_timeval_ext x y \<longleftrightarrow> (sint (tv_sec x), sint (tv_usec x), timeval.more x) < (sint (tv_sec y), sint (tv_usec y), timeval.more y)"

instance
proof
  fix x y :: "'a timeval_scheme"
  assume "x \<le> y" "y \<le> x"
  then have "sint (tv_sec x) = sint (tv_sec y)" "sint (tv_usec x) = sint (tv_usec y)" "timeval.more x = timeval.more y"
    unfolding less_eq_timeval_ext_def by (metis antisym Pair_inject)+
  then show "x = y" by (simp add: signed_word_eqI)
qed (auto simp: less_eq_timeval_ext_def less_timeval_ext_def not_le)

end

instantiation timespec_ext :: (linorder) linorder
begin

definition less_eq_timespec_ext :: "'a timespec_scheme \<Rightarrow> 'a timespec_scheme \<Rightarrow> bool" where
  "less_eq_timespec_ext x y \<longleftrightarrow> (sint (ts_sec x), sint (ts_nsec x), timespec.more x) \<le> (sint (ts_sec y), sint (ts_nsec y), timespec.more y)"

definition less_timespec_ext :: "'a timespec_scheme \<Rightarrow> 'a timespec_scheme \<Rightarrow> bool" where
  "less_timespec_ext x y \<longleftrightarrow> (sint (ts_sec x), sint (ts_nsec x), timespec.more x) < (sint (ts_sec y), sint (ts_nsec y), timespec.more y)"

instance
proof
  fix x y :: "'a timespec_scheme"
  assume "x \<le> y" "y \<le> x"
  then have "sint (ts_sec x) = sint (ts_sec y)" "sint (ts_nsec x) = sint (ts_nsec y)" "timespec.more x = timespec.more y"
    unfolding less_eq_timespec_ext_def by (metis antisym Pair_inject)+
  then show "x = y" by (simp add: signed_word_eqI)
qed (auto simp: less_eq_timespec_ext_def less_timespec_ext_def not_le)

end

section \<open>Time in microseconds and nanoseconds\<close>

definition tv_us :: "timeval \<Rightarrow> int" where
  "tv_us v = sint (tv_sec v) * 1000000 + sint (tv_usec v)"

definition ts_ns :: "timespec \<Rightarrow> int" where
  "ts_ns v = sint (ts_sec v) * 1000000000 + sint (ts_nsec v)"

text \<open>Normal values before the year 146 billion: sums of two of them do not overflow.\<close>

definition tv_norm :: "timeval \<Rightarrow> bool" where
  "tv_norm v \<longleftrightarrow> 0 \<le> sint (tv_sec v) \<and> 0 \<le> sint (tv_usec v) \<and> sint (tv_usec v) < 1000000"

definition ts_norm :: "timespec \<Rightarrow> bool" where
  "ts_norm v \<longleftrightarrow> 0 \<le> sint (ts_sec v) \<and> 0 \<le> sint (ts_nsec v) \<and> sint (ts_nsec v) < 1000000000"

lemma sint_of_int64: "- (2 ^ 63) \<le> i \<Longrightarrow> i < 2 ^ 63 \<Longrightarrow> sint (word_of_int i :: u64) = i"
  by (simp add: signed_of_int signed_take_bit_int_eq_self)

lemma sint_of_int32: "- (2 ^ 31) \<le> i \<Longrightarrow> i < 2 ^ 31 \<Longrightarrow> sint (word_of_int i :: u32) = i"
  by (simp add: signed_of_int signed_take_bit_int_eq_self)

lemma ucast_of_int32: "ucast (word_of_int i :: u64) = (word_of_int i :: u32)"
  by (rule bit_word_eqI) (simp add: bit_simps)

lemma us_split:
  fixes us :: u64
  shows "us div 1000000 = word_of_int (uint us div 1000000)" "us mod 1000000 = word_of_int (uint us mod 1000000)"
    "0 \<le> uint us div 1000000" "uint us div 1000000 < 2 ^ 45" "0 \<le> uint us mod 1000000" "uint us mod 1000000 < 1000000"
  using uint_ge_0 [of us] uint_lt2p [of us] by (simp_all add: word_div_def word_mod_def pos_imp_zdiv_nonneg_iff)

lemma sdiv_nonneg: "0 \<le> (i :: int) \<Longrightarrow> 0 < d \<Longrightarrow> i sdiv d = i div d \<and> i smod d = i mod d"
  by (auto simp: signed_divide_int_eq_divide_int signed_modulo_int_eq_modulo_int sgn_if)

lemma carry_us_spec:
  assumes "0 \<le> sint (tv_sec v)" "sint (tv_sec v) < 2 ^ 63 - 1" "0 \<le> sint (tv_usec v)" "sint (tv_usec v) < 2000000"
  shows "tv_us (carry_us v) = tv_us v" "tv_norm (carry_us v)" "sint (tv_sec (carry_us v)) \<le> sint (tv_sec v) + 1"
proof -
  define u where "u = sint (tv_usec v)"
  define S where "S = sint (tv_sec v)"
  have q: "0 \<le> u div 1000000" "u div 1000000 \<le> 1" and m: "0 \<le> u mod 1000000" "u mod 1000000 < 1000000"
    using assms(3,4) by (auto simp: u_def)
  have d: "u sdiv 1000000 = u div 1000000" "u smod 1000000 = u mod 1000000"
    using assms(3) by (simp_all add: sdiv_nonneg u_def)
  have us: "sint (tv_usec (carry_us v)) = u mod 1000000"
    using m by (simp add: carry_us_def smod_w_def d flip: u_def) (simp add: sint_of_int32)
  have "tv_sec (carry_us v) = word_of_int (S + u div 1000000)"
    using q by (simp add: carry_us_def sdiv_w_def conv_def d sint_of_int32 S_def flip: u_def)
  then have s: "sint (tv_sec (carry_us v)) = S + u div 1000000"
    using q assms(1,2) by (simp only:) (subst sint_of_int64, simp_all add: S_def)
  show "tv_us (carry_us v) = tv_us v" by (simp add: tv_us_def us s flip: u_def S_def)
  show "tv_norm (carry_us v)" "sint (tv_sec (carry_us v)) \<le> sint (tv_sec v) + 1"
    using us m s q assms(1) by (simp_all add: tv_norm_def S_def)
qed

lemma carry_ns_spec:
  assumes "0 \<le> sint (ts_sec v)" "sint (ts_sec v) < 2 ^ 63 - 1" "0 \<le> sint (ts_nsec v)" "sint (ts_nsec v) < 2000000000"
  shows "ts_ns (carry_ns v) = ts_ns v" "ts_norm (carry_ns v)" "sint (ts_sec (carry_ns v)) \<le> sint (ts_sec v) + 1"
proof -
  define u where "u = sint (ts_nsec v)"
  define S where "S = sint (ts_sec v)"
  have q: "0 \<le> u div 1000000000" "u div 1000000000 \<le> 1" and m: "0 \<le> u mod 1000000000" "u mod 1000000000 < 1000000000"
    using assms(3,4) by (auto simp: u_def)
  have d: "u sdiv 1000000000 = u div 1000000000" "u smod 1000000000 = u mod 1000000000"
    using assms(3) by (simp_all add: sdiv_nonneg u_def)
  have us: "sint (ts_nsec (carry_ns v)) = u mod 1000000000"
    using m by (simp add: carry_ns_def smod_w_def d flip: u_def) (simp add: sint_of_int64)
  have "ts_sec (carry_ns v) = word_of_int (S + u div 1000000000)"
    by (simp add: carry_ns_def sdiv_w_def d S_def flip: u_def)
  then have s: "sint (ts_sec (carry_ns v)) = S + u div 1000000000"
    using q assms(1,2) by (simp only:) (subst sint_of_int64, simp_all add: S_def)
  show "ts_ns (carry_ns v) = ts_ns v" by (simp add: ts_ns_def us s flip: u_def S_def)
  show "ts_norm (carry_ns v)" "sint (ts_sec (carry_ns v)) \<le> sint (ts_sec v) + 1"
    using us m s q assms(1) by (simp_all add: ts_norm_def S_def)
qed

lemma set_us_spec:
  "tv_us (timeout (liteco_timer_set_timeout t us)) = uint us \<and> tv_norm (timeout (liteco_timer_set_timeout t us))"
  "tv_us (interval (liteco_timer_set_interval t us)) = uint us \<and> tv_norm (interval (liteco_timer_set_interval t us)) \<and>
     sint (tv_sec (interval (liteco_timer_set_interval t us))) < 2 ^ 45"
  using us_split [of us]
  by (simp_all add: liteco_timer_set_timeout_def liteco_timer_set_interval_def tv_us_def tv_norm_def
      ucast_of_int32 sint_of_int32 sint_of_int64)

lemma ns_sum:
  fixes a b q r x :: int
  assumes "q * 1000000 + r = x"
  shows "(a + q) * 1000000000 + (b + r * 1000) = a * 1000000000 + b + x * 1000"
  unfolding assms [symmetric] by (simp add: distrib_right)

lemma linux_set_us_spec:
  "ts_ns (timeout (linux_timer_set_timeout t us)) = uint us * 1000 \<and> ts_norm (timeout (linux_timer_set_timeout t us))"
  "ts_ns (interval (linux_timer_set_interval t us)) = uint us * 1000 \<and> ts_norm (interval (linux_timer_set_interval t us))"
proof -
  have e: "us mod 1000000 * 1000 = (word_of_int (uint us mod 1000000 * 1000) :: u64)"
    by (simp add: us_split(2))
  have r: "0 \<le> uint us mod 1000000 * 1000" "uint us mod 1000000 * 1000 < 1000000000"
    using us_split(5,6) [of us] by linarith+
  have s: "sint (us mod 1000000 * 1000) = uint us mod 1000000 * 1000"
    unfolding e by (rule sint_of_int64) (use r in simp_all)
  have q: "sint (us div 1000000) = uint us div 1000000"
    unfolding us_split(1) by (rule sint_of_int64) (use us_split(3,4) [of us] in simp_all)
  show "ts_ns (timeout (linux_timer_set_timeout t us)) = uint us * 1000 \<and> ts_norm (timeout (linux_timer_set_timeout t us))"
    "ts_ns (interval (linux_timer_set_interval t us)) = uint us * 1000 \<and> ts_norm (interval (linux_timer_set_interval t us))"
    using r us_split(3) [of us] ns_sum [OF div_mult_mod_eq [of "uint us" 1000000], of 0 0]
    by (simp_all add: linux_timer_set_timeout_def linux_timer_set_interval_def ts_ns_def ts_norm_def s q)
qed

lemma add_timeout_spec:
  assumes "tv_norm (timeout t)" "sint (tv_sec (timeout t)) < 2 ^ 62"
  shows "tv_us (timeout (liteco_timer_add_timeout t us)) = tv_us (timeout t) + uint us"
    "tv_norm (timeout (liteco_timer_add_timeout t us))"
proof -
  let ?v = "timeout t"
  let ?w = "\<lparr>tv_sec = tv_sec ?v + us div 1000000, tv_usec = ucast (conv (tv_usec ?v) + us mod 1000000 :: u64)\<rparr>"
  note B = us_split(3-6) [of us]
  have "tv_sec ?w = word_of_int (sint (tv_sec ?v) + uint us div 1000000)"
    by (simp add: us_split(1))
  then have s: "sint (tv_sec ?w) = sint (tv_sec ?v) + uint us div 1000000"
    using B assms by (simp only:) (subst sint_of_int64, simp_all add: tv_norm_def)
  have r: "0 \<le> sint (tv_usec ?v) + uint us mod 1000000" "sint (tv_usec ?v) + uint us mod 1000000 < 2000000"
    using B(3,4) conjunct1 [OF conjunct2 [OF assms(1) [unfolded tv_norm_def]]]
      conjunct2 [OF conjunct2 [OF assms(1) [unfolded tv_norm_def]]] by linarith+
  have e: "tv_usec ?w = word_of_int (sint (tv_usec ?v) + uint us mod 1000000)"
    unfolding conv_def us_split(2) by (simp only: timeval.simps wi_hom_add ucast_of_int32)
  have u: "sint (tv_usec ?w) = sint (tv_usec ?v) + uint us mod 1000000"
    unfolding e by (rule sint_of_int32) (use r in simp_all)
  have t: "timeout (liteco_timer_add_timeout t us) = carry_us ?w" by (simp add: liteco_timer_add_timeout_def)
  have c: "0 \<le> sint (tv_sec ?w)" "sint (tv_sec ?w) < 2 ^ 63 - 1" "0 \<le> sint (tv_usec ?w)" "sint (tv_usec ?w) < 2000000"
    unfolding s u using B(1,2) r assms by (simp_all add: tv_norm_def)
  have "tv_us ?w = tv_us ?v + uint us" unfolding tv_us_def s u by simp
  then show "tv_us (timeout (liteco_timer_add_timeout t us)) = tv_us (timeout t) + uint us"
    "tv_norm (timeout (liteco_timer_add_timeout t us))"
    unfolding t using carry_us_spec [OF c] by simp_all
qed

lemma add_interval_spec:
  assumes "tv_norm (timeout t)" "sint (tv_sec (timeout t)) < 2 ^ 62"
    and "tv_norm (interval t)" "sint (tv_sec (interval t)) < 2 ^ 62"
  shows "tv_us (timeout (liteco_timer_add_timeout_interval t)) = tv_us (timeout t) + tv_us (interval t)"
    "tv_norm (timeout (liteco_timer_add_timeout_interval t))"
proof -
  let ?v = "timeout t" and ?i = "interval t"
  let ?w = "\<lparr>tv_sec = tv_sec ?v + tv_sec ?i, tv_usec = tv_usec ?v + tv_usec ?i\<rparr>"
  have "tv_sec ?w = word_of_int (sint (tv_sec ?v) + sint (tv_sec ?i))" by simp
  then have s: "sint (tv_sec ?w) = sint (tv_sec ?v) + sint (tv_sec ?i)"
    using assms by (simp only:) (subst sint_of_int64, simp_all add: tv_norm_def)
  have "tv_usec ?w = word_of_int (sint (tv_usec ?v) + sint (tv_usec ?i))" by simp
  then have u: "sint (tv_usec ?w) = sint (tv_usec ?v) + sint (tv_usec ?i)"
    using assms by (simp only:) (subst sint_of_int32, simp_all add: tv_norm_def)
  have t: "timeout (liteco_timer_add_timeout_interval t) = carry_us ?w"
    by (simp add: liteco_timer_add_timeout_interval_def)
  have c: "0 \<le> sint (tv_sec ?w)" "sint (tv_sec ?w) < 2 ^ 63 - 1" "0 \<le> sint (tv_usec ?w)" "sint (tv_usec ?w) < 2000000"
    unfolding s u using assms by (simp_all add: tv_norm_def)
  have "tv_us ?w = tv_us ?v + tv_us ?i" unfolding tv_us_def s u by simp
  then show "tv_us (timeout (liteco_timer_add_timeout_interval t)) = tv_us (timeout t) + tv_us (interval t)"
    "tv_norm (timeout (liteco_timer_add_timeout_interval t))"
    unfolding t using carry_us_spec [OF c] by simp_all
qed

lemma linux_add_timeout_spec:
  assumes "ts_norm (timeout t)" "sint (ts_sec (timeout t)) < 2 ^ 62"
  shows "ts_ns (timeout (linux_timer_add_timeout t us)) = ts_ns (timeout t) + uint us * 1000"
    "ts_norm (timeout (linux_timer_add_timeout t us))"
proof -
  let ?v = "timeout t"
  let ?w = "\<lparr>ts_sec = ts_sec ?v + us div 1000000, ts_nsec = ts_nsec ?v + (us mod 1000000) * 1000\<rparr>"
  note B = us_split(3-6) [of us]
  have "ts_sec ?w = word_of_int (sint (ts_sec ?v) + uint us div 1000000)"
    by (simp add: us_split(1))
  then have s: "sint (ts_sec ?w) = sint (ts_sec ?v) + uint us div 1000000"
    using B assms by (simp only:) (subst sint_of_int64, simp_all add: ts_norm_def)
  have r: "0 \<le> sint (ts_nsec ?v) + uint us mod 1000000 * 1000" "sint (ts_nsec ?v) + uint us mod 1000000 * 1000 < 2000000000"
    using B(3,4) conjunct1 [OF conjunct2 [OF assms(1) [unfolded ts_norm_def]]]
      conjunct2 [OF conjunct2 [OF assms(1) [unfolded ts_norm_def]]] by linarith+
  have e: "ts_nsec ?w = word_of_int (sint (ts_nsec ?v) + uint us mod 1000000 * 1000)"
    by (simp add: us_split(2))
  have u: "sint (ts_nsec ?w) = sint (ts_nsec ?v) + uint us mod 1000000 * 1000"
    unfolding e by (rule sint_of_int64) (use r in simp_all)
  have t: "timeout (linux_timer_add_timeout t us) = carry_ns ?w" by (simp add: linux_timer_add_timeout_def)
  have c: "0 \<le> sint (ts_sec ?w)" "sint (ts_sec ?w) < 2 ^ 63 - 1" "0 \<le> sint (ts_nsec ?w)" "sint (ts_nsec ?w) < 2000000000"
    unfolding s u using B(1,2) r assms by (simp_all add: ts_norm_def)
  have "ts_ns ?w = ts_ns ?v + uint us * 1000" unfolding ts_ns_def s u by (rule ns_sum [OF div_mult_mod_eq])
  then show "ts_ns (timeout (linux_timer_add_timeout t us)) = ts_ns (timeout t) + uint us * 1000"
    "ts_norm (timeout (linux_timer_add_timeout t us))"
    unfolding t using carry_ns_spec [OF c] by simp_all
qed

lemma linux_add_interval_spec:
  assumes "ts_norm (timeout t)" "sint (ts_sec (timeout t)) < 2 ^ 62"
    and "ts_norm (interval t)" "sint (ts_sec (interval t)) < 2 ^ 62"
  shows "ts_ns (timeout (linux_timer_add_timeout_interval t)) = ts_ns (timeout t) + ts_ns (interval t)"
    "ts_norm (timeout (linux_timer_add_timeout_interval t))"
proof -
  let ?v = "timeout t" and ?i = "interval t"
  let ?w = "\<lparr>ts_sec = ts_sec ?v + ts_sec ?i, ts_nsec = ts_nsec ?v + ts_nsec ?i\<rparr>"
  have "ts_sec ?w = word_of_int (sint (ts_sec ?v) + sint (ts_sec ?i))" by simp
  then have s: "sint (ts_sec ?w) = sint (ts_sec ?v) + sint (ts_sec ?i)"
    using assms by (simp only:) (subst sint_of_int64, simp_all add: ts_norm_def)
  have "ts_nsec ?w = word_of_int (sint (ts_nsec ?v) + sint (ts_nsec ?i))" by simp
  then have u: "sint (ts_nsec ?w) = sint (ts_nsec ?v) + sint (ts_nsec ?i)"
    using assms by (simp only:) (subst sint_of_int64, simp_all add: ts_norm_def)
  have t: "timeout (linux_timer_add_timeout_interval t) = carry_ns ?w"
    by (simp add: linux_timer_add_timeout_interval_def)
  have c: "0 \<le> sint (ts_sec ?w)" "sint (ts_sec ?w) < 2 ^ 63 - 1" "0 \<le> sint (ts_nsec ?w)" "sint (ts_nsec ?w) < 2000000000"
    unfolding s u using assms by (simp_all add: ts_norm_def)
  have "ts_ns ?w = ts_ns ?v + ts_ns ?i" unfolding ts_ns_def s u by simp
  then show "ts_ns (timeout (linux_timer_add_timeout_interval t)) = ts_ns (timeout t) + ts_ns (interval t)"
    "ts_norm (timeout (linux_timer_add_timeout_interval t))"
    unfolding t using carry_ns_spec [OF c] by simp_all
qed

text \<open>A timer is due when its time is before now.\<close>

lemma lex_us:
  fixes a b u v :: int
  assumes "0 \<le> u" "u < d" "0 \<le> v" "v < d"
  shows "a < b \<or> a = b \<and> u < v \<longleftrightarrow> a * d + u < b * d + v"
proof (cases "a < b")
  case True
  then have "(a + 1) * d \<le> b * d" using assms by (intro mult_right_mono) auto
  then show ?thesis using True assms by (simp add: algebra_simps)
next
  case False
  show ?thesis
  proof (cases "a = b")
    case ne: False
    then have "(b + 1) * d \<le> a * d" using assms False by (intro mult_right_mono) auto
    then show ?thesis using False ne assms by (simp add: algebra_simps)
  qed simp
qed

lemma active_iff:
  assumes "tv_norm (timeout t)" "tv_norm now"
  shows "liteco_timer_active t now \<longleftrightarrow> tv_us (timeout t) < tv_us now"
  using assms lex_us [of "sint (tv_usec (timeout t))" 1000000 "sint (tv_usec now)" "sint (tv_sec (timeout t))" "sint (tv_sec now)"]
  by (auto simp: liteco_timer_active_def tv_us_def tv_norm_def intro: signed_word_eqI)

lemma linux_active_iff:
  assumes "ts_norm (timeout t)" "ts_norm now"
  shows "linux_timer_active t now \<longleftrightarrow> ts_ns (timeout t) < ts_ns now"
  using assms lex_us [of "sint (ts_nsec (timeout t))" 1000000000 "sint (ts_nsec now)" "sint (ts_sec (timeout t))" "sint (ts_sec now)"]
  by (auto simp: linux_timer_active_def ts_ns_def ts_norm_def intro: signed_word_eqI)

section \<open>The clock of the spin loop\<close>

text \<open>\<open>liteco_now\<close> of \<open>src/lc_coroutine.c\<close>, from the result of \<open>gettimeofday\<close>: the microseconds that
  \<open>liteco_set_status\<close> compares.\<close>

definition liteco_now :: "timeval \<Rightarrow> u64" where
  "liteco_now tv = tv_sec tv * 1000 * 1000 + conv (tv_usec tv)"

lemma liteco_now_us:
  assumes "tv_norm tv" "sint (tv_sec tv) < 2 ^ 43"
  shows "uint (liteco_now tv) = tv_us tv"
proof -
  have "liteco_now tv = word_of_int (tv_us tv)"
    by (simp add: liteco_now_def tv_us_def conv_def algebra_simps flip: wi_hom_add wi_hom_mult)
  moreover have "0 \<le> tv_us tv" "tv_us tv < 2 ^ 64" using assms by (auto simp: tv_us_def tv_norm_def)
  ultimately show ?thesis by (simp add: uint_word_of_int)
qed

end
