(* ===== verification/Timer.thy ===== *)
theory Timer
  imports Channel BinHeap Timeout
begin

text \<open>
  Timers: \<open>src/lc_timer.c\<close> and the timer part of \<open>src/platform/darwin/lc_eloop.c\<close>. The timers
  that are running are in the heap of the event loop; a timer is named by the address of the
  heap node in it. The code of an expired timer (\<open>timer->cb\<close>) is the parameter \<open>call\<close>.
\<close>

section \<open>State\<close>

text \<open>\<open>clock k\<close> is what the \<open>k\<close>-th call of \<open>gettimeofday\<close> stores, \<open>ticks\<close> the number of calls
  so far.\<close>

record tm_world = ch_world +
  tms :: "addr \<Rightarrow> timeval liteco_timer"
  timer_heap :: heap_state
  clock :: "nat \<Rightarrow> timeval"
  ticks :: nat

definition gettimeofday :: "'a tm_world_scheme \<Rightarrow> 'a tm_world_scheme \<times> timeval" where
  "gettimeofday w = (w\<lparr>ticks := Suc (ticks w)\<rparr>, clock w (ticks w))"

definition upd_tm :: "addr \<Rightarrow> (timeval liteco_timer \<Rightarrow> timeval liteco_timer) \<Rightarrow>
    'a tm_world_scheme \<Rightarrow> 'a tm_world_scheme" where
  "upd_tm a f w = w\<lparr>tms := (tms w)(a := f (tms w a))\<rparr>"

section \<open>The heap of the running timers\<close>

definition liteco_timer_heap_cmp_cb ::
    "(addr \<Rightarrow> timeval liteco_timer) \<Rightarrow> addr \<Rightarrow> addr \<Rightarrow> liteco_heap_cmp_result" where
  "liteco_timer_heap_cmp_cb T p c =
     (if sint (tv_sec (timeout (T c))) < sint (tv_sec (timeout (T p))) then HEAP_SWAP
      else if tv_sec (timeout (T c)) = tv_sec (timeout (T p)) \<and>
              sint (tv_usec (timeout (T c))) < sint (tv_usec (timeout (T p))) then HEAP_SWAP
      else HEAP_KEEP)"

definition liteco_eloop_timer_add :: "addr \<Rightarrow> 'a tm_world_scheme \<Rightarrow> ('a tm_world_scheme \<times> int) option" where
  "liteco_eloop_timer_add a w =
     (if tm_active (tms w a) then Some (w, 0)
      else (case liteco_heap_insert (liteco_timer_heap_cmp_cb (tms w)) a
                   (liteco_heapnode_init a (timer_heap w)) of
              None \<Rightarrow> None
            | Some (h, _) \<Rightarrow> Some (upd_tm a (\<lambda>t. t\<lparr>tm_active := True\<rparr>) (w\<lparr>timer_heap := h\<rparr>), 0)))"

definition liteco_eloop_timer_remove :: "addr \<Rightarrow> 'a tm_world_scheme \<Rightarrow> ('a tm_world_scheme \<times> int) option" where
  "liteco_eloop_timer_remove a w =
     (if \<not> tm_active (tms w a) then Some (w, 0)
      else (case liteco_heap_remove (liteco_timer_heap_cmp_cb (tms w)) a (timer_heap w) of
              None \<Rightarrow> None
            | Some (h, _) \<Rightarrow> Some (upd_tm a (\<lambda>t. t\<lparr>tm_active := False\<rparr>) (w\<lparr>timer_heap := h\<rparr>), 0)))"

section \<open>Timers of the interface\<close>

definition liteco_timer_init :: "addr \<Rightarrow> 'a tm_world_scheme \<Rightarrow> 'a tm_world_scheme \<times> int" where
  "liteco_timer_init a w =
     (let w1 = w\<lparr>timer_heap := liteco_heapnode_init a (timer_heap w)\<rparr>
      in (upd_tm a (\<lambda>t. liteco_timer_set_interval (liteco_timer_set_timeout
            (t\<lparr>tm_cb := NIL, tm_active := False, tm_stop := False\<rparr>) 0) 0) w1, 0))"

definition liteco_timer_start :: "addr \<Rightarrow> addr \<Rightarrow> u64 \<Rightarrow> u64 \<Rightarrow> 'a tm_world_scheme \<Rightarrow>
    ('a tm_world_scheme \<times> int) option" where
  "liteco_timer_start a cb us iv w =
     (let (w1, now) = gettimeofday (upd_tm a (\<lambda>t. t\<lparr>tm_stop := False, tm_cb := cb\<rparr>) w);
          w2 = upd_tm a (\<lambda>t. liteco_timer_set_interval (liteco_timer_set_timeout_current now t) iv) w1;
          w3 = upd_tm a (\<lambda>t. if us = 0 then liteco_timer_add_timeout_interval t
                             else liteco_timer_add_timeout t us) w2
      in map_option (\<lambda>(w4, _). (w4, 0)) (liteco_eloop_timer_add a w3))"

definition liteco_timer_stop :: "addr \<Rightarrow> 'a tm_world_scheme \<Rightarrow> ('a tm_world_scheme \<times> int) option" where
  "liteco_timer_stop a w =
     map_option (\<lambda>(w1, _). (w1, 0)) (liteco_eloop_timer_remove a (upd_tm a (\<lambda>t. t\<lparr>tm_stop := True\<rparr>) w))"

section \<open>Expiry\<close>

text \<open>A timer that has run is started again when it has an interval and was not stopped.\<close>

definition timer_rearm :: "addr \<Rightarrow> 'a tm_world_scheme \<Rightarrow> 'a tm_world_scheme option" where
  "timer_rearm a w =
     (if (tv_sec (interval (tms w a)) \<noteq> 0 \<or> tv_usec (interval (tms w a)) \<noteq> 0) \<and> \<not> tm_stop (tms w a)
      then (let (w1, now) = gettimeofday w;
                w2 = upd_tm a (liteco_timer_set_timeout_current now) w1;
                w3 = upd_tm a liteco_timer_add_timeout_interval w2
            in map_option fst (liteco_eloop_timer_add a w3))
      else Some w)"

partial_function (option) liteco_eloop_timer_active ::
    "(addr \<Rightarrow> addr \<Rightarrow> 'a tm_world_scheme \<Rightarrow> 'a tm_world_scheme option) \<Rightarrow> timeval \<Rightarrow>
     'a tm_world_scheme \<Rightarrow> 'a tm_world_scheme option" where
  "liteco_eloop_timer_active call now w =
     (if hroot (timer_heap w) = NIL then Some w
      else if \<not> liteco_timer_active (tms w (hroot (timer_heap w))) now then Some w
      else (case liteco_eloop_timer_remove (hroot (timer_heap w)) w of
              None \<Rightarrow> None
            | Some (w1, _) \<Rightarrow>
                (if tm_cb (tms w1 (hroot (timer_heap w))) = NIL then None
                 else (case call (tm_cb (tms w1 (hroot (timer_heap w)))) (hroot (timer_heap w)) w1 of
                         None \<Rightarrow> None
                       | Some w2 \<Rightarrow>
                           (case timer_rearm (hroot (timer_heap w)) w2 of
                              None \<Rightarrow> None
                            | Some w3 \<Rightarrow> liteco_eloop_timer_active call now w3)))))"

declare liteco_eloop_timer_active.simps [code]

text \<open>How long the event loop may sleep.\<close>

definition liteco_eloop_timer_wait :: "timeval \<Rightarrow> 'a tm_world_scheme \<Rightarrow> timespec" where
  "liteco_eloop_timer_wait now w =
     (if hroot (timer_heap w) = NIL then \<lparr>ts_sec = 0, ts_nsec = 0\<rparr>
      else (let v = liteco_timer_kevent_timeout (tms w (hroot (timer_heap w)));
                v1 = (if sint (tv_usec v) < sint (tv_usec now)
                      then \<lparr>tv_sec = tv_sec v - 1, tv_usec = tv_usec v + 1000000\<rparr> else v)
            in \<lparr>ts_sec = tv_sec v1 - tv_sec now, ts_nsec = conv ((tv_usec v1 - tv_usec now) * 1000)\<rparr>))"

section \<open>Timer channels\<close>

text \<open>A timer and a channel in one structure; \<open>chan_at\<close> is the address of the channel that is
  next to a timer. The callback pushes a null pointer.\<close>

definition timer_chan_cb_id :: addr where "timer_chan_cb_id = 4"

definition liteco_timer_chan_cb :: "(addr \<Rightarrow> addr) \<Rightarrow> addr \<Rightarrow> 'a tm_world_scheme \<Rightarrow> 'a tm_world_scheme option" where
  "liteco_timer_chan_cb chan_at timer w =
     map_option fst (liteco_chan_unenforceable_push (chan_at timer) NIL w)"

definition liteco_timer_chan_init :: "(addr \<Rightarrow> addr) \<Rightarrow> addr \<Rightarrow> addr \<Rightarrow> 'a tm_world_scheme \<Rightarrow> 'a tm_world_scheme \<times> int" where
  "liteco_timer_chan_init chan_at rt timer w =
     (fst (liteco_timer_init timer (fst (liteco_chan_init (chan_at timer) 0 rt w))), 0)"

definition liteco_timer_chan_start :: "addr \<Rightarrow> u64 \<Rightarrow> u64 \<Rightarrow> 'a tm_world_scheme \<Rightarrow> ('a tm_world_scheme \<times> int) option" where
  "liteco_timer_chan_start timer us iv w = liteco_timer_start timer timer_chan_cb_id us iv w"

definition liteco_timer_chan_stop :: "addr \<Rightarrow> 'a tm_world_scheme \<Rightarrow> ('a tm_world_scheme \<times> int) option" where
  "liteco_timer_chan_stop timer w = liteco_timer_stop timer w"

definition liteco_timer_chan_close :: "(addr \<Rightarrow> addr) \<Rightarrow> addr \<Rightarrow> 'a tm_world_scheme \<Rightarrow> ('a tm_world_scheme \<times> int) option" where
  "liteco_timer_chan_close chan_at timer w =
     (case liteco_timer_chan_stop timer w of
        None \<Rightarrow> None
      | Some (w1, _) \<Rightarrow> map_option (\<lambda>(w2, _). (w2, 0)) (liteco_chan_close (chan_at timer) w1))"

definition liteco_timer_chan_pop :: "(addr \<Rightarrow> addr) \<Rightarrow> addr \<Rightarrow> addr \<Rightarrow> bool \<Rightarrow> 'a tm_world_scheme \<Rightarrow>
    ('a tm_world_scheme \<times> addr outcome) option" where
  "liteco_timer_chan_pop chan_at ret timer blocked w = liteco_chan_pop ret (chan_at timer) blocked w"

definition liteco_timer_chan :: "(addr \<Rightarrow> addr) \<Rightarrow> addr \<Rightarrow> addr" where
  "liteco_timer_chan chan_at timer = chan_at timer"

end
