(* ===== verification/Timer_Heap.thy ===== *)
theory Timer_Heap
  imports Timer BinHeap_Order
begin

text \<open>
  The heap of the running timers: the comparison callback of the event loop meets the contract
  of \<open>heap_order\<close> with the time of expiry as key, so the timers in the heap are ordered; adding
  and removing a timer keeps the invariant \<open>tm_inv\<close>.
\<close>

definition tm_key :: "(addr \<Rightarrow> timeval liteco_timer) \<Rightarrow> addr \<Rightarrow> timeval" where
  "tm_key T a = timeout (T a)"

interpretation th: heap_order "liteco_timer_heap_cmp_cb T" "tm_key T" for T
  by unfold_locales (auto simp: liteco_timer_heap_cmp_cb_def tm_key_def less_timeval_ext_def less_prod_simp intro: signed_word_eqI)

lemma tm_key_us:
  assumes "tv_norm (timeout (T a))" "tv_norm (timeout (T b))"
  shows "tm_key T a \<le> tm_key T b \<longleftrightarrow> tv_us (timeout (T a)) \<le> tv_us (timeout (T b))"
  using assms lex_us [of "sint (tv_usec (timeout (T b)))" 1000000 "sint (tv_usec (timeout (T a)))"
    "sint (tv_sec (timeout (T b)))" "sint (tv_sec (timeout (T a)))"]
  by (auto simp: tm_key_def tv_us_def tv_norm_def less_eq_timeval_ext_def less_eq_prod_simp)

text \<open>The heap does not depend on the keys and links of other nodes.\<close>

lemma hord_cong: "(\<And>a. a \<in> set (addrs t) \<Longrightarrow> key a = key' a) \<Longrightarrow> hord key t = hord key' t"
  by (induction t) auto

lemma heap_inv_cong:
  "(\<And>a. a \<in> set (addrs t) \<Longrightarrow> key a = key' a) \<Longrightarrow> heap_inv key s t = heap_inv key' s t"
  using hord_cong [of t key key'] by (auto simp: heap_inv_def)

lemma heap_inv_node_init: "a \<notin> set (addrs t) \<Longrightarrow> heap_inv key (liteco_heapnode_init a s) t = heap_inv key s t"
  by (simp add: heap_inv_def heap_holds_def liteco_heapnode_init_def frame_rules)

lemma heap_inv_empty: "heap_inv key s t \<Longrightarrow> hroot s = NIL \<longleftrightarrow> t = PL"
  by (cases t) (auto simp: heap_inv_def heap_holds_def)

lemma heap_inv_root:
  assumes "heap_inv key s t" and "t \<noteq> PL"
  shows "hroot s \<in> set (addrs t)" "\<And>b. b \<in> set (addrs t) \<Longrightarrow> key (hroot s) \<le> key b"
  using assms taddr_in_addrs [of t] hord_root [of key t] by (auto simp: heap_inv_def heap_holds_def)

section \<open>The invariant of the timers\<close>

text \<open>The running timers are those in the heap; they have normal times and a callback.\<close>

definition tm_good :: "timeval liteco_timer \<Rightarrow> bool" where
  "tm_good t \<longleftrightarrow> tv_norm (timeout t) \<and> tv_norm (interval t) \<and> sint (tv_sec (interval t)) < 2 ^ 62 \<and> tm_cb t \<noteq> NIL"

definition tm_inv :: "'a tm_world_scheme \<Rightarrow> htree \<Rightarrow> bool" where
  "tm_inv w t \<longleftrightarrow> heap_inv (tm_key (tms w)) (timer_heap w) t \<and>
     (\<forall>a. tm_active (tms w a) \<longleftrightarrow> a \<in> set (addrs t)) \<and> (\<forall>a\<in>set (addrs t). tm_good (tms w a)) \<and>
     unat (cnt (timer_heap w)) < 2 ^ 31"

lemma upd_tm_fields [simp]:
  "tms (upd_tm a f w) = (tms w)(a := f (tms w a))" "timer_heap (upd_tm a f w) = timer_heap w"
  "clock (upd_tm a f w) = clock w" "ticks (upd_tm a f w) = ticks w"
  "tm_world.more (upd_tm a f w) = tm_world.more w" "chans (upd_tm a f w) = chans w"
  by (simp_all add: upd_tm_def)

lemma tm_inv_distinct: "tm_inv w t \<Longrightarrow> distinct (addrs t)"
  by (simp add: tm_inv_def heap_inv_def heap_holds_def)

lemma tm_inv_cnt: "tm_inv w t \<Longrightarrow> unat (cnt (timer_heap w)) = length (addrs t)"
  by (simp add: tm_inv_def heap_inv_def complete_def)

lemma tm_inv_nil: "tm_inv w t \<Longrightarrow> NIL \<notin> set (addrs t)"
  by (auto simp: tm_inv_def heap_inv_def heap_holds_def dest: rep_addrs_nonnil)

text \<open>A timer that is not running may be written to.\<close>

lemma tm_inv_upd_idle:
  assumes "tm_inv w t" "a \<notin> set (addrs t)" "tm_active (f (tms w a)) = tm_active (tms w a)"
  shows "tm_inv (upd_tm a f w) t"
proof -
  have "heap_inv (tm_key ((tms w)(a := f (tms w a)))) (timer_heap w) t = heap_inv (tm_key (tms w)) (timer_heap w) t"
    by (rule heap_inv_cong) (use assms(2) in \<open>auto simp: tm_key_def\<close>)
  then show ?thesis using assms by (auto simp: tm_inv_def)
qed

lemma timer_add_ok:
  assumes inv: "tm_inv w t" and a: "a \<noteq> NIL" "a \<notin> set (addrs t)" "tm_good (tms w a)"
    and room: "length (addrs t) + 1 < 2 ^ 31"
  shows "\<exists>h t'. liteco_eloop_timer_add a w =
       Some (upd_tm a (\<lambda>t. t\<lparr>tm_active := True\<rparr>) (w\<lparr>timer_heap := h\<rparr>), 0) \<and>
     tm_inv (upd_tm a (\<lambda>t. t\<lparr>tm_active := True\<rparr>) (w\<lparr>timer_heap := h\<rparr>)) t' \<and>
     mset (addrs t') = add_mset a (mset (addrs t))"
proof -
  let ?h = "liteco_heapnode_init a (timer_heap w)" and ?T = "tms w"
  let ?T' = "?T(a := (?T a)\<lparr>tm_active := True\<rparr>)"
  have na: "\<not> tm_active (?T a)" using inv a(2) by (simp add: tm_inv_def)
  have hi: "heap_inv (tm_key ?T) ?h t" using inv a(2) by (simp add: tm_inv_def heap_inv_node_init)
  have c: "cnt ?h = cnt (timer_heap w)" by (simp add: liteco_heapnode_init_def)
  have fresh: "hl ?h a = NIL" "hr ?h a = NIL" "hp ?h a = NIL" by (simp_all add: liteco_heapnode_init_def)
  have "unat (cnt ?h) + 1 < 2 ^ 31" using room tm_inv_cnt [OF inv] c by simp
  from th.insert_ok [OF hi a(1,2) fresh this] obtain h t'
    where ins: "liteco_heap_insert (liteco_timer_heap_cmp_cb ?T) a ?h = Some (h, 0)"
      "heap_inv (tm_key ?T) h t'" "mset (addrs t') = add_mset a (mset (addrs t))" by blast
  have st: "set (addrs t') = insert a (set (addrs t))" using mset_eq_setD [of "addrs t'" "a # addrs t"] ins(3) by simp
  have "tm_key ?T' = tm_key ?T" by (auto simp: tm_key_def)
  moreover have "length (addrs t') = length (addrs t) + 1"
    using mset_eq_length [of "addrs t'" "a # addrs t"] ins(3) by simp
  ultimately have "tm_inv (upd_tm a (\<lambda>t. t\<lparr>tm_active := True\<rparr>) (w\<lparr>timer_heap := h\<rparr>)) t'"
    using inv ins(2) st a(3) room by (auto simp: tm_inv_def tm_good_def heap_inv_def complete_def)
  then show ?thesis using na ins(1,3) by (auto simp: liteco_eloop_timer_add_def)
qed

lemma timer_remove_ok:
  assumes inv: "tm_inv w t" and a: "a \<in> set (addrs t)"
  shows "\<exists>h t'. liteco_eloop_timer_remove a w =
       Some (upd_tm a (\<lambda>t. t\<lparr>tm_active := False\<rparr>) (w\<lparr>timer_heap := h\<rparr>), 0) \<and>
     tm_inv (upd_tm a (\<lambda>t. t\<lparr>tm_active := False\<rparr>) (w\<lparr>timer_heap := h\<rparr>)) t' \<and>
     mset (addrs t') = mset (addrs t) - {#a#}"
proof -
  let ?T = "tms w"
  let ?T' = "?T(a := (?T a)\<lparr>tm_active := False\<rparr>)"
  have act: "tm_active (?T a)" using inv a by (simp add: tm_inv_def)
  have hi: "heap_inv (tm_key ?T) (timer_heap w) t" "unat (cnt (timer_heap w)) < 2 ^ 31" using inv by (simp_all add: tm_inv_def)
  from th.remove_ok [OF hi(1) a hi(2)] obtain h t'
    where rm: "liteco_heap_remove (liteco_timer_heap_cmp_cb ?T) a (timer_heap w) = Some (h, 0)"
      "heap_inv (tm_key ?T) h t'" "mset (addrs t') = mset (addrs t) - {#a#}" by blast
  have st: "set (addrs t') = set (addrs t) - {a}"
    using rm(3) tm_inv_distinct [OF inv] by (metis set_mset_mset mset_remove1 set_remove1_eq)
  have "tm_key ?T' = tm_key ?T" by (auto simp: tm_key_def)
  moreover have "length (addrs t') \<le> length (addrs t)"
    using mset_eq_length [of "addrs t'" "remove1 a (addrs t)"] rm(3) by (simp add: length_remove1 split: if_splits)
  ultimately have "tm_inv (upd_tm a (\<lambda>t. t\<lparr>tm_active := False\<rparr>) (w\<lparr>timer_heap := h\<rparr>)) t'"
    using inv rm(2) st hi(2) tm_inv_cnt [OF inv] by (auto simp: tm_inv_def heap_inv_def complete_def)
  then show ?thesis using act rm(1,3) by (auto simp: liteco_eloop_timer_remove_def)
qed

end
