(* ===== verification/Timer_Loop.thy ===== *)
theory Timer_Loop
  imports Timer_Heap
begin

text \<open>
  The expiry loop: with callbacks that leave the timers alone it ends, and runs every timer that
  is due, once, in the order of the times of expiry.
\<close>

section \<open>What the loop is about\<close>

definition periodic :: "timeval liteco_timer \<Rightarrow> bool" where
  "periodic t \<longleftrightarrow> (tv_sec (interval t) \<noteq> 0 \<or> tv_usec (interval t) \<noteq> 0) \<and> \<not> tm_stop t"

text \<open>The clock does not go back behind \<open>now\<close>.\<close>

definition clock_ok :: "timeval \<Rightarrow> 'a tm_world_scheme \<Rightarrow> bool" where
  "clock_ok now w \<longleftrightarrow> tv_norm now \<and>
     (\<forall>k\<ge>ticks w. tv_norm (clock w k) \<and> sint (tv_sec (clock w k)) < 2 ^ 62 \<and> tv_us now \<le> tv_us (clock w k))"

text \<open>Callbacks that only record which timer ran.\<close>

definition log_cb :: "addr \<Rightarrow> addr \<Rightarrow> addr list tm_world_scheme \<Rightarrow> addr list tm_world_scheme option" where
  "log_cb cb a w = Some (tm_world.more_update (\<lambda>l. l @ [a]) w)"

definition due_set :: "timeval \<Rightarrow> 'a tm_world_scheme \<Rightarrow> htree \<Rightarrow> addr set" where
  "due_set now w t = {a \<in> set (addrs t). liteco_timer_active (tms w a) now}"

lemma more_update_fields [simp]:
  "tms (tm_world.more_update f w) = tms w" "timer_heap (tm_world.more_update f w) = timer_heap w"
  "clock (tm_world.more_update f w) = clock w" "ticks (tm_world.more_update f w) = ticks w"
  "tm_world.more (tm_world.more_update f w) = f (tm_world.more w)"
  by simp_all

lemma tm_inv_cong:
  "tms w' = tms w \<Longrightarrow> timer_heap w' = timer_heap w \<Longrightarrow> tm_inv w' t = tm_inv w t"
  by (simp add: tm_inv_def)

lemma rearm_ok:
  assumes inv: "tm_inv w t" and a: "a \<noteq> NIL" "a \<notin> set (addrs t)" "tm_good (tms w a)"
    and room: "length (addrs t) + 1 < 2 ^ 31" and clk: "clock_ok now w"
  shows "\<exists>w' t'. timer_rearm a w = Some w' \<and> tm_inv w' t' \<and>
    set (addrs t') = (if periodic (tms w a) then insert a (set (addrs t)) else set (addrs t)) \<and>
    (\<forall>b. b \<noteq> a \<longrightarrow> tms w' b = tms w b) \<and> clock_ok now w' \<and> tm_world.more w' = tm_world.more w \<and>
    (periodic (tms w a) \<longrightarrow> tv_us now + tv_us (interval (tms w a)) \<le> tv_us (timeout (tms w' a)))"
proof (cases "periodic (tms w a)")
  case False
  then have "timer_rearm a w = Some w" by (auto simp: timer_rearm_def periodic_def)
  then show ?thesis using False inv clk by auto
next
  case True
  let ?now = "clock w (ticks w)" and ?w1 = "w\<lparr>ticks := Suc (ticks w)\<rparr>"
  let ?w3 = "upd_tm a liteco_timer_add_timeout_interval (upd_tm a (liteco_timer_set_timeout_current ?now) ?w1)"
  let ?t = "liteco_timer_set_timeout_current ?now (tms w a)"
  have n: "tv_norm ?now" "sint (tv_sec ?now) < 2 ^ 62" "tv_us now \<le> tv_us ?now"
    using clk by (auto simp: clock_ok_def)
  have "tv_norm (timeout ?t)" "sint (tv_sec (timeout ?t)) < 2 ^ 62" "tv_norm (interval ?t)" "sint (tv_sec (interval ?t)) < 2 ^ 62"
    using n a(3) by (simp_all add: liteco_timer_set_timeout_current_def tm_good_def)
  note add = add_interval_spec [OF this]
  have inv3: "tm_inv ?w3 t"
    by (intro tm_inv_upd_idle)
      (use inv a in \<open>simp_all add: tm_inv_cong [of ?w1 w] liteco_timer_set_timeout_current_def liteco_timer_add_timeout_interval_def\<close>)
  have "tm_good (tms ?w3 a)"
    using add(2) a(3)
    by (simp add: tm_good_def liteco_timer_set_timeout_current_def liteco_timer_add_timeout_interval_def)
  from timer_add_ok [OF inv3 a(1,2) this room] obtain h t'
    where R: "liteco_eloop_timer_add a ?w3 = Some (upd_tm a (\<lambda>t. t\<lparr>tm_active := True\<rparr>) (?w3\<lparr>timer_heap := h\<rparr>), 0)"
      "tm_inv (upd_tm a (\<lambda>t. t\<lparr>tm_active := True\<rparr>) (?w3\<lparr>timer_heap := h\<rparr>)) t'"
      "mset (addrs t') = add_mset a (mset (addrs t))" by blast
  let ?w' = "upd_tm a (\<lambda>t. t\<lparr>tm_active := True\<rparr>) (?w3\<lparr>timer_heap := h\<rparr>)"
  have "timer_rearm a w = Some ?w'"
    using True R(1) by (simp add: timer_rearm_def periodic_def gettimeofday_def)
  moreover have "set (addrs t') = insert a (set (addrs t))" using mset_eq_setD [of "addrs t'" "a # addrs t"] R(3) by simp
  moreover have "clock_ok now ?w'" using clk by (auto simp: clock_ok_def)
  moreover have "tv_us now + tv_us (interval (tms w a)) \<le> tv_us (timeout (tms ?w' a))"
    using add(1) n(3) by (simp add: liteco_timer_set_timeout_current_def)
  ultimately show ?thesis using R(2) True by auto
qed

text \<open>Running the due timer \<open>a\<close> takes it out of the set of due timers.\<close>

lemma due_step:
  assumes "tm_inv w t" "tm_inv w1 t1" "clock_ok now w1" "a \<in> due_set now w t" "\<forall>b. b \<noteq> a \<longrightarrow> tms w1 b = tms w b"
    and s: "set (addrs t1) = (if periodic (tms w a) then set (addrs t) else set (addrs t) - {a})"
    and late: "periodic (tms w a) \<longrightarrow> tv_us now + tv_us (interval (tms w a)) \<le> tv_us (timeout (tms w1 a))"
  shows "due_set now w1 t1 = due_set now w t - {a}"
proof -
  have na: "a \<notin> due_set now w1 t1"
  proof (cases "periodic (tms w a)")
    case True
    have "a \<in> set (addrs t1)" using True assms(4) s by (simp add: due_set_def)
    then have "tv_norm (timeout (tms w1 a))" using assms(2) by (auto simp: tm_inv_def tm_good_def)
    moreover have "0 \<le> tv_us (interval (tms w a))"
      using assms(1,4) by (auto simp: tm_inv_def tm_good_def due_set_def tv_norm_def tv_us_def)
    ultimately show ?thesis using assms(3) late True by (auto simp: due_set_def active_iff clock_ok_def)
  qed (use s in \<open>simp add: due_set_def\<close>)
  show ?thesis
  proof (intro set_eqI iffI)
    fix b assume b: "b \<in> due_set now w1 t1"
    then have "b \<noteq> a" using na by metis
    then show "b \<in> due_set now w t - {a}" using b assms(5) s by (simp add: due_set_def split: if_splits)
  next
    fix b assume "b \<in> due_set now w t - {a}"
    then show "b \<in> due_set now w1 t1" using assms(5) s by (simp add: due_set_def)
  qed
qed

lemma due_none: "due_set now w t = {} \<Longrightarrow> tm_inv w t \<Longrightarrow> liteco_eloop_timer_active call now w = Some w"
proof (cases "t = PL")
  case True
  then show "due_set now w t = {} \<Longrightarrow> tm_inv w t \<Longrightarrow> liteco_eloop_timer_active call now w = Some w"
    using heap_inv_empty [of "tm_key (tms w)" "timer_heap w" t]
    by (subst liteco_eloop_timer_active.simps) (auto simp: tm_inv_def)
next
  case False
  assume n: "due_set now w t = {}" and i: "tm_inv w t"
  then have "hroot (timer_heap w) \<in> set (addrs t)" using False heap_inv_root(1) by (auto simp: tm_inv_def)
  then show "liteco_eloop_timer_active call now w = Some w"
    using n by (subst liteco_eloop_timer_active.simps) (auto simp: due_set_def)
qed

section \<open>The contract of the callbacks\<close>

text \<open>A callback that leaves the timers alone, keeps \<open>ok\<close>, and changes the part \<open>st\<close> of the world
  that one is interested in by \<open>eff\<close>. Neither \<open>ok\<close> nor \<open>st\<close> depends on the timers.\<close>

locale timer_callbacks =
  fixes call :: "addr \<Rightarrow> addr \<Rightarrow> 'a tm_world_scheme \<Rightarrow> 'a tm_world_scheme option"
    and ok :: "'a tm_world_scheme \<Rightarrow> bool"
    and st :: "'a tm_world_scheme \<Rightarrow> 's"
    and eff :: "addr \<Rightarrow> addr \<Rightarrow> 's \<Rightarrow> 's"
    and dom :: "addr set"
  assumes call_ok: "ok w \<Longrightarrow> cb \<noteq> NIL \<Longrightarrow> a \<in> dom \<Longrightarrow>
      \<exists>w'. call cb a w = Some w' \<and> ok w' \<and> st w' = eff cb a (st w) \<and> tms w' = tms w \<and>
        timer_heap w' = timer_heap w \<and> clock w' = clock w \<and> ticks w' = ticks w"
    and ok_tm: "ok (w\<lparr>tms := T\<rparr>) = ok w" "ok (w\<lparr>timer_heap := h\<rparr>) = ok w" "ok (w\<lparr>ticks := k\<rparr>) = ok w"
    and st_tm: "st (w\<lparr>tms := T\<rparr>) = st w" "st (w\<lparr>timer_heap := h\<rparr>) = st w" "st (w\<lparr>ticks := k\<rparr>) = st w"
begin

lemma ok_upd: "ok (upd_tm a f w) = ok w" "st (upd_tm a f w) = st w"
  by (simp_all only: upd_tm_def ok_tm st_tm)

lemma ok_rearm: "timer_rearm a w = Some w' \<Longrightarrow> ok w' = ok w \<and> st w' = st w"
  by (auto simp: timer_rearm_def gettimeofday_def liteco_eloop_timer_add_def ok_upd ok_tm st_tm Let_def
      split: if_splits option.splits prod.splits)

text \<open>The first timer of the heap, when it is due, is taken out and run.\<close>

lemma active_step:
  assumes inv: "tm_inv w t" and clk: "clock_ok now w" and due: "due_set now w t \<noteq> {}"
    and w: "ok w" "set (addrs t) \<subseteq> dom"
  shows "\<exists>w' t' a. liteco_eloop_timer_active call now w = liteco_eloop_timer_active call now w' \<and>
    a \<in> due_set now w t \<and> (\<forall>b\<in>set (addrs t). tv_us (timeout (tms w a)) \<le> tv_us (timeout (tms w b))) \<and>
    tm_inv w' t' \<and> clock_ok now w' \<and> ok w' \<and> st w' = eff (tm_cb (tms w a)) a (st w) \<and>
    (\<forall>b. b \<noteq> a \<longrightarrow> tms w' b = tms w b) \<and>
    set (addrs t') = (if periodic (tms w a) then set (addrs t) else set (addrs t) - {a}) \<and>
    (periodic (tms w a) \<longrightarrow> tv_us now + tv_us (interval (tms w a)) \<le> tv_us (timeout (tms w' a)))"
proof -
  define a where "a = hroot (timer_heap w)"
  have t: "t \<noteq> PL" using due by (auto simp: due_set_def)
  have hi: "heap_inv (tm_key (tms w)) (timer_heap w) t" using inv by (simp add: tm_inv_def)
  have at: "a \<in> set (addrs t)" and min: "\<And>b. b \<in> set (addrs t) \<Longrightarrow> tm_key (tms w) a \<le> tm_key (tms w) b"
    using heap_inv_root [OF hi t] by (simp_all add: a_def)
  have norm: "\<And>b. b \<in> set (addrs t) \<Longrightarrow> tv_norm (timeout (tms w b))" and good: "tm_good (tms w a)"
    using inv at by (auto simp: tm_inv_def tm_good_def)
  have le: "\<forall>b\<in>set (addrs t). tv_us (timeout (tms w a)) \<le> tv_us (timeout (tms w b))"
    using min tm_key_us norm at by blast
  have act: "liteco_timer_active (tms w a) now"
    using due le norm at clk by (force simp: due_set_def active_iff clock_ok_def)
  have nil: "a \<noteq> NIL" using at tm_inv_nil [OF inv] by metis
  from timer_remove_ok [OF inv at] obtain h t1
    where rm: "liteco_eloop_timer_remove a w = Some (upd_tm a (\<lambda>t. t\<lparr>tm_active := False\<rparr>) (w\<lparr>timer_heap := h\<rparr>), 0)"
      "tm_inv (upd_tm a (\<lambda>t. t\<lparr>tm_active := False\<rparr>) (w\<lparr>timer_heap := h\<rparr>)) t1"
      "mset (addrs t1) = mset (addrs t) - {#a#}" by blast
  have s1: "set (addrs t1) = set (addrs t) - {a}"
    using rm(3) tm_inv_distinct [OF inv] by (metis set_mset_mset mset_remove1 set_remove1_eq)
  have l1: "length (addrs t1) + 1 < 2 ^ 31"
    using mset_eq_length [of "addrs t1" "remove1 a (addrs t)"] rm(3) at inv tm_inv_cnt [OF inv]
      length_pos_if_in_set [OF at] by (simp add: length_remove1 tm_inv_def)
  let ?w1 = "upd_tm a (\<lambda>t. t\<lparr>tm_active := False\<rparr>) (w\<lparr>timer_heap := h\<rparr>)"
  have "ok ?w1" "st ?w1 = st w" using w(1) by (simp_all add: ok_upd ok_tm st_tm)
  moreover have "tm_cb (tms ?w1 a) \<noteq> NIL" "a \<in> dom" using good at w(2) by (auto simp: tm_good_def)
  ultimately obtain w2 where w2: "call (tm_cb (tms w a)) a ?w1 = Some w2" "ok w2"
      "st w2 = eff (tm_cb (tms w a)) a (st w)" "tms w2 = tms ?w1" "timer_heap w2 = timer_heap ?w1"
      "clock w2 = clock ?w1" "ticks w2 = ticks ?w1"
    using call_ok [of ?w1 "tm_cb (tms w a)" a] by auto
  have inv2: "tm_inv w2 t1" using rm(2) by (simp only: tm_inv_cong [OF w2(4,5)])
  have a2: "a \<notin> set (addrs t1)" "tm_good (tms w2 a)" using s1 good w2(4) by (auto simp: tm_good_def)
  have clk2: "clock_ok now w2" using clk w2(6,7) by (simp add: clock_ok_def)
  from rearm_ok [OF inv2 nil a2 l1 clk2] obtain w3 t3
    where re: "timer_rearm a w2 = Some w3" "tm_inv w3 t3"
      "set (addrs t3) = (if periodic (tms w2 a) then insert a (set (addrs t1)) else set (addrs t1))"
      "\<forall>b. b \<noteq> a \<longrightarrow> tms w3 b = tms w2 b" "clock_ok now w3"
      "periodic (tms w2 a) \<longrightarrow> tv_us now + tv_us (interval (tms w2 a)) \<le> tv_us (timeout (tms w3 a))" by blast
  have p: "periodic (tms w2 a) = periodic (tms w a)" "interval (tms w2 a) = interval (tms w a)"
    using w2(4) by (simp_all add: periodic_def)
  have k: "ok w3" "st w3 = eff (tm_cb (tms w a)) a (st w)" using ok_rearm [OF re(1)] w2(2,3) by simp_all
  have "liteco_eloop_timer_active call now w = liteco_eloop_timer_active call now w3"
    using act nil rm(1) re(1) good w2(1)
    by (subst liteco_eloop_timer_active.simps) (simp add: tm_good_def flip: a_def)
  moreover have "a \<in> due_set now w t" using at act by (simp add: due_set_def)
  ultimately show ?thesis using le re k s1 at p w2(4) by (intro exI [of _ w3] exI [of _ t3] exI [of _ a]) auto
qed

lemma active_loop:
  assumes "tm_inv w t" and "clock_ok now w" and "ok w" and "set (addrs t) \<subseteq> dom"
  shows "\<exists>w' t' fs. liteco_eloop_timer_active call now w = Some w' \<and> tm_inv w' t' \<and>
    ok w' \<and> st w' = fold (\<lambda>a. eff (tm_cb (tms w a)) a) fs (st w) \<and> distinct fs \<and> set fs = due_set now w t \<and>
    sorted_wrt (\<lambda>a b. tv_us (timeout (tms w a)) \<le> tv_us (timeout (tms w b))) fs \<and>
    set (addrs t') = {a \<in> set (addrs t). a \<notin> due_set now w t \<or> periodic (tms w a)} \<and>
    due_set now w' t' = {} \<and> (\<forall>a. a \<notin> due_set now w t \<longrightarrow> tms w' a = tms w a) \<and>
    (\<forall>a\<in>due_set now w t. periodic (tms w a) \<longrightarrow>
       tv_us now + tv_us (interval (tms w a)) \<le> tv_us (timeout (tms w' a)))"
  using assms
proof (induction "card (due_set now w t)" arbitrary: w t)
  case 0
  then have none: "due_set now w t = {}" by (simp add: due_set_def)
  then show ?case using due_none [OF none "0.prems"(1)] "0.prems"
    by (intro exI [of _ w] exI [of _ t] exI [of _ "[]"]) auto
next
  case (Suc n)
  let ?D = "due_set now w t"
  have "?D \<noteq> {}" using Suc(2) by auto
  from active_step [OF Suc.prems(1,2) this Suc.prems(3,4)] obtain w1 t1 a
    where S: "liteco_eloop_timer_active call now w = liteco_eloop_timer_active call now w1"
      "a \<in> ?D" "\<forall>b\<in>set (addrs t). tv_us (timeout (tms w a)) \<le> tv_us (timeout (tms w b))"
      "tm_inv w1 t1" "clock_ok now w1" "ok w1" "st w1 = eff (tm_cb (tms w a)) a (st w)"
      "\<forall>b. b \<noteq> a \<longrightarrow> tms w1 b = tms w b"
      "set (addrs t1) = (if periodic (tms w a) then set (addrs t) else set (addrs t) - {a})"
      "periodic (tms w a) \<longrightarrow> tv_us now + tv_us (interval (tms w a)) \<le> tv_us (timeout (tms w1 a))"
    by (elim exE conjE) (rule that; assumption)
  have D1: "due_set now w1 t1 = ?D - {a}" by (rule due_step [OF Suc.prems(1) S(4,5,2,8,9,10)])
  have n: "n = card (due_set now w1 t1)" using Suc(2) S(2) by (simp add: D1 card_Diff_singleton)
  have dom: "set (addrs t1) \<subseteq> dom" using S(9) Suc.prems(4) by (auto split: if_splits)
  from Suc(1) [OF n S(4,5,6) dom, unfolded D1] obtain w' t' fs
    where R: "liteco_eloop_timer_active call now w1 = Some w'" "tm_inv w' t'" "ok w'"
      "st w' = fold (\<lambda>a. eff (tm_cb (tms w1 a)) a) fs (st w1)" "distinct fs" "set fs = ?D - {a}"
      "sorted_wrt (\<lambda>a b. tv_us (timeout (tms w1 a)) \<le> tv_us (timeout (tms w1 b))) fs"
      "set (addrs t') = {b \<in> set (addrs t1). b \<notin> ?D - {a} \<or> periodic (tms w1 b)}"
      "due_set now w' t' = {}" "\<forall>b. b \<notin> ?D - {a} \<longrightarrow> tms w' b = tms w1 b"
      "\<forall>b\<in>?D - {a}. periodic (tms w1 b) \<longrightarrow> tv_us now + tv_us (interval (tms w1 b)) \<le> tv_us (timeout (tms w' b))"
    by (elim exE conjE) (rule that; assumption)
  have eq: "tms w1 b = tms w b" if "b \<in> set fs" for b using that R(6) S(8) by auto
  have "sorted_wrt (\<lambda>a b. tv_us (timeout (tms w a)) \<le> tv_us (timeout (tms w b))) fs"
    by (rule sorted_wrt_mono_rel [OF _ R(7)]) (simp add: eq)
  then have srt: "sorted_wrt (\<lambda>a b. tv_us (timeout (tms w a)) \<le> tv_us (timeout (tms w b))) (a # fs)"
    using S(3) R(6) by (auto simp: due_set_def)
  have f: "st w' = fold (\<lambda>a. eff (tm_cb (tms w a)) a) (a # fs) (st w)"
    unfolding R(4) fold_simps S(7) by (rule fold_cong) (simp_all add: eq)
  have st: "set (addrs t') = {b \<in> set (addrs t). b \<notin> ?D \<or> periodic (tms w b)}"
  proof (rule set_eqI)
    fix b
    have "b \<in> set (addrs t1) \<longleftrightarrow> b \<in> set (addrs t) \<and> (b \<noteq> a \<or> periodic (tms w a))"
      using S(2,9) by (simp add: due_set_def)
    then show "b \<in> set (addrs t') \<longleftrightarrow> b \<in> {b \<in> set (addrs t). b \<notin> ?D \<or> periodic (tms w b)}"
      unfolding R(8) using S(2,8) by (cases "b = a") simp_all
  qed
  have un: "\<forall>b. b \<notin> ?D \<longrightarrow> tms w' b = tms w b" using R(10) S(2,8) by auto
  have late: "\<forall>b\<in>?D. periodic (tms w b) \<longrightarrow> tv_us now + tv_us (interval (tms w b)) \<le> tv_us (timeout (tms w' b))"
    using R(10,11) S(8,10) by auto
  have set: "set (a # fs) = ?D" "distinct (a # fs)" using R(5,6) S(2) by auto
  show ?case
    by (intro exI [of _ w'] exI [of _ t'] exI [of _ "a # fs"] conjI)
      (use S(1) R(1-3,9) f srt st un late set in \<open>simp_all only:\<close>)
qed

end

section \<open>Callbacks that record\<close>

interpretation log: timer_callbacks log_cb "\<lambda>_. True" tm_world.more "\<lambda>_ a l. l @ [a]" UNIV
  by unfold_locales (auto simp: log_cb_def)

lemma fold_log: "fold (\<lambda>a l. l @ [a]) fs xs = xs @ fs"
  by (induction fs arbitrary: xs) simp_all

lemmas log_loop = log.active_loop [unfolded fold_log simp_thms subset_UNIV]

end
