(* ===== verification/Timer_Props.thy ===== *)
theory Timer_Props
  imports Timer_Loop
begin

text \<open>
  The properties of the timers: their times are exact, the loop runs exactly the due timers in
  order, the event loop sleeps until the next one, and what happens when a running timer is
  started again.
\<close>

section \<open>A small world for the witnesses\<close>

text \<open>Timers 10, 20 and 30 are running; their times are 1, 2 and 9 seconds, and timer 20 is
  periodic with an interval of 4 seconds. The clock shows 5 seconds.\<close>

definition tm_demo_timer :: "u64 \<Rightarrow> u64 \<Rightarrow> timeval liteco_timer" where
  "tm_demo_timer s iv = \<lparr>tm_cb = 7, tm_active = True, tm_stop = False,
     timeout = \<lparr>tv_sec = s, tv_usec = 0\<rparr>, interval = \<lparr>tv_sec = iv, tv_usec = 0\<rparr>\<rparr>"

definition tm_demo_tree :: htree where "tm_demo_tree = PN (PN PL 20 () PL) 10 () (PN PL 30 () PL)"

definition tm_demo :: "addr list tm_world_scheme" where
  "tm_demo = \<lparr>this_co = 11, cos = (\<lambda>c. \<lparr>co_p_ctx = NoCtx, co_st = 0, co_st_size = 0,
     co_status = STATUS_READY, co_cb = 0, co_arg = 0, co_fin_st = [], co_ret = 0\<rparr>),
     asyncs = (\<lambda>h. \<lparr>as_cb = runtime_cb_id, as_status = ASYNC_NO_PADDING\<rparr>),
     async_list = [], async_inited = False, ev = 0,
     rts = (\<lambda>_. \<lparr>rt_async = 5, rq = []\<rparr>), mallocs = [],
     chans = (\<lambda>_. \<lparr>queue = None, head = 0, tail = 0, full = False, ch_w = [], ch_r = [],
       closed = False, ch_rt = 9\<rparr>), stores = (\<lambda>_. 0),
     tms = (\<lambda>a. if a = 10 then tm_demo_timer 1 0 else if a = 20 then tm_demo_timer 2 4
                else if a = 30 then tm_demo_timer 9 0 else (tm_demo_timer 0 0)\<lparr>tm_active := False\<rparr>),
     timer_heap = \<lparr>hroot = 10, cnt = 3, hmem = (\<lambda>a.
       if a = 10 then \<lparr>hp_p = NIL, hp_r = 30, hp_l = 20\<rparr>
       else if a = 20 \<or> a = 30 then \<lparr>hp_p = 10, hp_r = NIL, hp_l = NIL\<rparr>
       else \<lparr>hp_p = NIL, hp_r = NIL, hp_l = NIL\<rparr>)\<rparr>,
     clock = (\<lambda>_. \<lparr>tv_sec = 5, tv_usec = 0\<rparr>), ticks = 0, \<dots> = []\<rparr>"

definition five :: timeval where "five = \<lparr>tv_sec = 5, tv_usec = 0\<rparr>"

lemma tm_demo_inv: "tm_inv tm_demo tm_demo_tree"
  by (auto simp: tm_inv_def heap_inv_def heap_holds_def complete_def tm_demo_def tm_demo_tree_def
      tm_key_def tm_demo_timer_def tm_good_def tv_norm_def less_eq_timeval_ext_def less_eq_prod_simp)

lemma tm_demo_clock: "clock_ok five tm_demo"
  by (simp add: clock_ok_def tm_demo_def five_def tv_norm_def tv_us_def)

lemma tm_demo_due: "due_set five tm_demo tm_demo_tree = {10, 20}"
  by (auto simp: due_set_def tm_demo_def tm_demo_tree_def tm_demo_timer_def liteco_timer_active_def five_def)

section \<open>Times\<close>

text \<open>The difference that \<open>liteco_eloop_timer_wait\<close> computes.\<close>

definition tv_minus :: "timeval \<Rightarrow> timeval \<Rightarrow> timespec" where
  "tv_minus v now = (let v1 = (if sint (tv_usec v) < sint (tv_usec now)
      then \<lparr>tv_sec = tv_sec v - 1, tv_usec = tv_usec v + 1000000\<rparr> else v)
    in \<lparr>ts_sec = tv_sec v1 - tv_sec now, ts_nsec = conv ((tv_usec v1 - tv_usec now) * 1000)\<rparr>)"

lemma wait_time:
  assumes "tv_norm v" "tv_norm now" "tv_us now \<le> tv_us v"
  shows "ts_norm (tv_minus v now)" "ts_ns (tv_minus v now) = (tv_us v - tv_us now) * 1000"
proof -
  define S where "S = sint (tv_sec v)" define s where "s = sint (tv_sec now)"
  define U where "U = sint (tv_usec v)" define u where "u = sint (tv_usec now)"
  define b where "b = (if U < u then 1 else 0 :: int)"
  have n: "0 \<le> S" "0 \<le> s" "0 \<le> U" "U < 1000000" "0 \<le> u" "u < 1000000" "s * 1000000 + u \<le> S * 1000000 + U"
    using assms by (simp_all add: tv_norm_def tv_us_def S_def s_def U_def u_def)
  have S63: "S < 2 ^ 63" using sint_lt [of "tv_sec v"] by (simp add: S_def)
  have d: "0 \<le> U + b * 1000000 - u" "U + b * 1000000 - u < 1000000" "0 \<le> S - b - s"
    using n by (auto simp: b_def)
  have sec: "ts_sec (tv_minus v now) = word_of_int (S - b - s)"
    by (simp add: tv_minus_def Let_def S_def s_def b_def U_def u_def)
  have s1: "sint (ts_sec (tv_minus v now)) = S - b - s"
    unfolding sec by (rule sint_of_int64) (use d S63 n in \<open>simp_all add: b_def\<close>)
  have usec: "ts_nsec (tv_minus v now) = conv (word_of_int ((U + b * 1000000 - u) * 1000) :: u32)"
    by (simp add: tv_minus_def Let_def b_def U_def u_def)
  have c: "sint (word_of_int ((U + b * 1000000 - u) * 1000) :: u32) = (U + b * 1000000 - u) * 1000"
    by (rule sint_of_int32) (use d in simp_all)
  have n1: "sint (ts_nsec (tv_minus v now)) = (U + b * 1000000 - u) * 1000"
    unfolding usec conv_def c by (rule sint_of_int64) (use d in simp_all)
  show "ts_norm (tv_minus v now)" unfolding ts_norm_def s1 n1 using d by simp
  show "ts_ns (tv_minus v now) = (tv_us v - tv_us now) * 1000"
    unfolding ts_ns_def tv_us_def s1 n1 by (simp add: S_def s_def U_def u_def algebra_simps)
qed

text \<open>C32: Adding a timeout or the interval to a time gives exactly the sum of the two, in
  microseconds on Darwin and in nanoseconds on Linux, and a normal value, for every 64-bit
  timeout: the additions do not overflow as long as the seconds are below \<open>2 ^ 62\<close>.\<close>

theorem timeouts_exact:
  assumes "tv_norm (timeout d)" "sint (tv_sec (timeout d)) < 2 ^ 62"
    and "ts_norm (timeout l)" "sint (ts_sec (timeout l)) < 2 ^ 62"
    and "tv_norm (interval d)" "sint (tv_sec (interval d)) < 2 ^ 62"
    and "ts_norm (interval l)" "sint (ts_sec (interval l)) < 2 ^ 62"
  shows "tv_us (timeout (liteco_timer_add_timeout d us)) = tv_us (timeout d) + uint us \<and>
      tv_norm (timeout (liteco_timer_add_timeout d us)) \<and>
      tv_us (timeout (liteco_timer_add_timeout_interval d)) = tv_us (timeout d) + tv_us (interval d) \<and>
      tv_norm (timeout (liteco_timer_add_timeout_interval d)) \<and>
      ts_ns (timeout (linux_timer_add_timeout l us)) = ts_ns (timeout l) + uint us * 1000 \<and>
      ts_norm (timeout (linux_timer_add_timeout l us)) \<and>
      ts_ns (timeout (linux_timer_add_timeout_interval l)) = ts_ns (timeout l) + ts_ns (interval l) \<and>
      ts_norm (timeout (linux_timer_add_timeout_interval l))"
  using add_timeout_spec [OF assms(1,2)] linux_add_timeout_spec [OF assms(3,4)]
    add_interval_spec [OF assms(1,2,5,6)] linux_add_interval_spec [OF assms(3,4,7,8)] by simp

definition d_demo :: "timeval liteco_timer" where
  "d_demo = \<lparr>tm_cb = 7, tm_active = False, tm_stop = False,
     timeout = \<lparr>tv_sec = 5, tv_usec = 999999\<rparr>, interval = \<lparr>tv_sec = 1, tv_usec = 500000\<rparr>\<rparr>"

definition l_demo :: "timespec liteco_timer" where
  "l_demo = \<lparr>tm_cb = 7, tm_active = False, tm_stop = False,
     timeout = \<lparr>ts_sec = 5, ts_nsec = 999999000\<rparr>, interval = \<lparr>ts_sec = 1, ts_nsec = 500000000\<rparr>\<rparr>"

lemma time_demo_norm:
  "tv_norm (timeout d_demo)" "tv_norm (interval d_demo)" "ts_norm (timeout l_demo)" "ts_norm (interval l_demo)"
  "sint (tv_sec (timeout d_demo)) < 2 ^ 62" "sint (tv_sec (interval d_demo)) < 2 ^ 62"
  "sint (ts_sec (timeout l_demo)) < 2 ^ 62" "sint (ts_sec (interval l_demo)) < 2 ^ 62"
  by (simp_all add: d_demo_def l_demo_def tv_norm_def ts_norm_def)

lemma timeouts_exact_witness:
  "tv_us (timeout (liteco_timer_add_timeout d_demo (- 1))) = 5999999 + (2 ^ 64 - 1) \<and>
   ts_ns (timeout (linux_timer_add_timeout l_demo (- 1))) = 5999999000 + (2 ^ 64 - 1) * 1000 \<and>
   tv_us (timeout (liteco_timer_add_timeout_interval d_demo)) = 7499999"
  using timeouts_exact [OF time_demo_norm(1,5,3,7,2,6,4,8), of "- 1"]
  by (simp add: d_demo_def l_demo_def tv_us_def ts_ns_def unsigned_minus_1_eq_mask mask_eq_exp_minus_1)

text \<open>C33: Linux and Darwin agree: from equal times and intervals, the additions, the conversion
  of an interval and the test for expiry give equal results on both platforms.\<close>

theorem platforms_agree:
  assumes "tv_norm (timeout d)" "sint (tv_sec (timeout d)) < 2 ^ 62"
    and "ts_norm (timeout l)" "sint (ts_sec (timeout l)) < 2 ^ 62"
    and "tv_norm (interval d)" "sint (tv_sec (interval d)) < 2 ^ 62"
    and "ts_norm (interval l)" "sint (ts_sec (interval l)) < 2 ^ 62"
    and "ts_ns (timeout l) = tv_us (timeout d) * 1000" "ts_ns (interval l) = tv_us (interval d) * 1000"
    and "tv_norm now" "ts_norm now'" "ts_ns now' = tv_us now * 1000"
  shows "ts_ns (timeout (linux_timer_add_timeout l us)) = tv_us (timeout (liteco_timer_add_timeout d us)) * 1000 \<and>
      ts_ns (timeout (linux_timer_add_timeout_interval l)) =
        tv_us (timeout (liteco_timer_add_timeout_interval d)) * 1000 \<and>
      ts_ns (interval (linux_timer_set_interval l us)) = tv_us (interval (liteco_timer_set_interval d us)) * 1000 \<and>
      linux_timer_active l now' = liteco_timer_active d now"
  using add_timeout_spec [OF assms(1,2)] linux_add_timeout_spec [OF assms(3,4)]
    add_interval_spec [OF assms(1,2,5,6)] linux_add_interval_spec [OF assms(3,4,7,8)]
    set_us_spec(2) linux_set_us_spec(2) active_iff [OF assms(1,11)] linux_active_iff [OF assms(3,12)] assms(9,10,13)
  by simp

lemma platforms_agree_witness:
  "ts_ns (timeout (linux_timer_add_timeout l_demo 1)) = tv_us (timeout (liteco_timer_add_timeout d_demo 1)) * 1000 \<and>
   linux_timer_active l_demo \<lparr>ts_sec = 6, ts_nsec = 0\<rparr> = liteco_timer_active d_demo \<lparr>tv_sec = 6, tv_usec = 0\<rparr>"
proof -
  have e: "ts_ns (timeout l_demo) = tv_us (timeout d_demo) * 1000" "ts_ns (interval l_demo) = tv_us (interval d_demo) * 1000"
    "tv_norm \<lparr>tv_sec = 6, tv_usec = 0\<rparr>" "ts_norm \<lparr>ts_sec = 6, ts_nsec = 0\<rparr>"
    "ts_ns \<lparr>ts_sec = 6, ts_nsec = 0\<rparr> = tv_us \<lparr>tv_sec = 6, tv_usec = 0\<rparr> * 1000"
    by (simp_all add: d_demo_def l_demo_def tv_us_def ts_ns_def tv_norm_def ts_norm_def)
  show ?thesis using platforms_agree [OF time_demo_norm(1,5,3,7,2,6,4,8) e, of 1] by blast
qed

section \<open>Expiry\<close>

text \<open>C34: The expiry loop ends, and runs exactly the timers whose time is before \<open>now\<close>, each once
  and in the order of their times. Afterwards no running timer is due; the timers that ran are no
  longer running, except the periodic ones, whose next time is at least an interval after \<open>now\<close>;
  the other timers are as before. The callbacks only record that they ran, and the clock does not
  go back.\<close>

theorem timers_expire:
  assumes "tm_inv w t" and "clock_ok now w"
  shows "\<exists>w' t' fs. liteco_eloop_timer_active log_cb now w = Some w' \<and> tm_inv w' t' \<and>
    tm_world.more w' = tm_world.more w @ fs \<and> distinct fs \<and> set fs = due_set now w t \<and>
    sorted_wrt (\<lambda>a b. tv_us (timeout (tms w a)) \<le> tv_us (timeout (tms w b))) fs \<and>
    set (addrs t') = {a \<in> set (addrs t). a \<notin> due_set now w t \<or> periodic (tms w a)} \<and>
    due_set now w' t' = {} \<and> (\<forall>a. a \<notin> due_set now w t \<longrightarrow> tms w' a = tms w a) \<and>
    (\<forall>a\<in>due_set now w t. periodic (tms w a) \<longrightarrow>
       tv_us now + tv_us (interval (tms w a)) \<le> tv_us (timeout (tms w' a)))"
  by (rule log_loop) (simp_all add: assms)

lemma timers_expire_witness:
  "\<exists>w' t' fs. liteco_eloop_timer_active log_cb five tm_demo = Some w' \<and> tm_inv w' t' \<and>
     tm_world.more w' = [] @ fs \<and> set fs = {10, 20} \<and> set (addrs t') = {20, 30}"
proof -
  have s: "{a \<in> set (addrs tm_demo_tree). a \<notin> {10, 20} \<or> periodic (tms tm_demo a)} = {20, 30}"
    by (auto simp: tm_demo_tree_def tm_demo_def tm_demo_timer_def periodic_def)
  have m: "tm_world.more tm_demo = []" by (simp add: tm_demo_def)
  show ?thesis using timers_expire [OF tm_demo_inv tm_demo_clock] unfolding tm_demo_due s m
    by (elim exE conjE) (intro exI conjI; assumption)
qed

text \<open>When no timer is due, the time the event loop waits for events is normal and is exactly
  the time until the first running timer: no timer is slept over and no wake-up comes early.\<close>

theorem timer_wait_exact:
  assumes "tm_inv w t" and "t \<noteq> PL" and "tv_norm now" and "due_set now w t = {}"
  shows "ts_norm (liteco_eloop_timer_wait now w) \<and>
    (\<exists>a\<in>set (addrs t). ts_ns (liteco_eloop_timer_wait now w) = (tv_us (timeout (tms w a)) - tv_us now) * 1000) \<and>
    (\<forall>a\<in>set (addrs t). ts_ns (liteco_eloop_timer_wait now w) \<le> (tv_us (timeout (tms w a)) - tv_us now) * 1000)"
proof -
  let ?a = "hroot (timer_heap w)"
  have hi: "heap_inv (tm_key (tms w)) (timer_heap w) t" using assms(1) by (simp add: tm_inv_def)
  note root = heap_inv_root [OF hi assms(2)]
  have norm: "\<And>b. b \<in> set (addrs t) \<Longrightarrow> tv_norm (timeout (tms w b))"
    using assms(1) by (auto simp: tm_inv_def tm_good_def)
  have le: "\<And>b. b \<in> set (addrs t) \<Longrightarrow> tv_us (timeout (tms w ?a)) \<le> tv_us (timeout (tms w b))"
    using root tm_key_us norm by blast
  have "tv_us now \<le> tv_us (timeout (tms w ?a))"
    using assms(4) root(1) active_iff [OF norm [OF root(1)] assms(3)] by (auto simp: due_set_def)
  note wt = wait_time [OF norm [OF root(1)] assms(3) this]
  have "liteco_eloop_timer_wait now w = tv_minus (timeout (tms w ?a)) now"
    using heap_inv_empty [OF hi] assms(2)
    by (simp add: liteco_eloop_timer_wait_def liteco_timer_kevent_timeout_def tv_minus_def Let_def)
  then show ?thesis using root(1) le wt by auto
qed

definition zero :: timeval where "zero = \<lparr>tv_sec = 0, tv_usec = 500000\<rparr>"

lemma timer_wait_exact_witness:
  "ts_norm (liteco_eloop_timer_wait zero tm_demo) \<and>
   (\<exists>a\<in>{10, 20, 30}. ts_ns (liteco_eloop_timer_wait zero tm_demo) = (tv_us (timeout (tms tm_demo a)) - 500000) * 1000)"
proof -
  have e: "tv_norm zero" "tm_demo_tree \<noteq> PL" "due_set zero tm_demo tm_demo_tree = {}"
    "set (addrs tm_demo_tree) = {10, 20, 30}" "tv_us zero = 500000"
    by (auto simp: zero_def tv_norm_def tm_demo_tree_def due_set_def tm_demo_def tm_demo_timer_def
        liteco_timer_active_def tv_us_def)
  show ?thesis using timer_wait_exact [OF tm_demo_inv e(2,1,3)] unfolding e(4,5) by blast
qed

section \<open>Starting and stopping\<close>

text \<open>The time a started timer gets.\<close>

definition start_us :: "u64 \<Rightarrow> u64 \<Rightarrow> int" where
  "start_us us iv = (if us = 0 then uint iv else uint us)"

text \<open>The timer as \<open>liteco_timer_start\<close> writes it before it is added.\<close>

definition started :: "timeval \<Rightarrow> addr \<Rightarrow> u64 \<Rightarrow> u64 \<Rightarrow> timeval liteco_timer \<Rightarrow> timeval liteco_timer" where
  "started now cb us iv t0 =
     (let t = liteco_timer_set_interval (liteco_timer_set_timeout_current now (t0\<lparr>tm_stop := False, tm_cb := cb\<rparr>)) iv
      in if us = 0 then liteco_timer_add_timeout_interval t else liteco_timer_add_timeout t us)"

lemma start_unfold:
  "liteco_timer_start a cb us iv w = map_option (\<lambda>(w', _). (w', 0))
     (liteco_eloop_timer_add a (upd_tm a (started (clock w (ticks w)) cb us iv) (w\<lparr>ticks := Suc (ticks w)\<rparr>)))"
  by (simp add: liteco_timer_start_def gettimeofday_def started_def upd_tm_def Let_def split_def)

lemma started_fields:
  assumes "tv_norm now" "sint (tv_sec now) < 2 ^ 62"
  shows "tv_us (timeout (started now cb us iv t)) = tv_us now + start_us us iv"
    "tv_norm (timeout (started now cb us iv t))" "tv_us (interval (started now cb us iv t)) = uint iv"
    "tv_norm (interval (started now cb us iv t))" "sint (tv_sec (interval (started now cb us iv t))) < 2 ^ 62"
    "tm_cb (started now cb us iv t) = cb" "tm_stop (started now cb us iv t) = False"
    "tm_active (started now cb us iv t) = tm_active t"
proof -
  let ?t = "liteco_timer_set_interval (liteco_timer_set_timeout_current now (t\<lparr>tm_stop := False, tm_cb := cb\<rparr>)) iv"
  have t: "timeout ?t = now" by (simp add: liteco_timer_set_interval_def liteco_timer_set_timeout_current_def)
  have i: "tv_us (interval ?t) = uint iv" "tv_norm (interval ?t)" "sint (tv_sec (interval ?t)) < 2 ^ 62"
    using set_us_spec(2) [of "liteco_timer_set_timeout_current now (t\<lparr>tm_stop := False, tm_cb := cb\<rparr>)" iv] by simp_all
  have e: "interval (liteco_timer_add_timeout ?t us) = interval ?t"
    "interval (liteco_timer_add_timeout_interval ?t) = interval ?t"
    by (simp_all add: liteco_timer_add_timeout_def liteco_timer_add_timeout_interval_def)
  show "tv_us (timeout (started now cb us iv t)) = tv_us now + start_us us iv"
    "tv_norm (timeout (started now cb us iv t))" "tv_us (interval (started now cb us iv t)) = uint iv"
    "tv_norm (interval (started now cb us iv t))" "sint (tv_sec (interval (started now cb us iv t))) < 2 ^ 62"
    using add_timeout_spec [of ?t us, unfolded t, OF assms] add_interval_spec [of ?t, unfolded t, OF assms i(2,3)] i(3)
    unfolding started_def Let_def start_us_def by (simp_all add: i e)
  show "tm_cb (started now cb us iv t) = cb" "tm_stop (started now cb us iv t) = False"
    "tm_active (started now cb us iv t) = tm_active t"
    by (simp_all add: started_def Let_def liteco_timer_set_interval_def liteco_timer_set_timeout_current_def
        liteco_timer_add_timeout_def liteco_timer_add_timeout_interval_def)
qed

lemma start_idle:
  assumes inv: "tm_inv w t" and a: "a \<noteq> NIL" "a \<notin> set (addrs t)" and room: "length (addrs t) + 1 < 2 ^ 31"
    and clk: "tv_norm (clock w (ticks w))" "sint (tv_sec (clock w (ticks w))) < 2 ^ 62" and cb: "cb \<noteq> NIL"
  shows "\<exists>w' t'. liteco_timer_start a cb us iv w = Some (w', 0) \<and> tm_inv w' t' \<and>
    mset (addrs t') = add_mset a (mset (addrs t)) \<and>
    tv_us (timeout (tms w' a)) = tv_us (clock w (ticks w)) + start_us us iv \<and>
    tv_us (interval (tms w' a)) = uint iv \<and> tm_cb (tms w' a) = cb"
proof -
  let ?now = "clock w (ticks w)"
  let ?w1 = "upd_tm a (started ?now cb us iv) (w\<lparr>ticks := Suc (ticks w)\<rparr>)"
  note F = started_fields [OF clk]
  have inv1: "tm_inv ?w1 t"
    by (rule tm_inv_upd_idle) (use inv a F in \<open>simp_all add: tm_inv_cong [of "w\<lparr>ticks := Suc (ticks w)\<rparr>" w]\<close>)
  have "tm_good (tms ?w1 a)" using F cb by (simp add: tm_good_def)
  from timer_add_ok [OF inv1 a this room] obtain h t' where R:
    "liteco_eloop_timer_add a ?w1 = Some (upd_tm a (\<lambda>t. t\<lparr>tm_active := True\<rparr>) (?w1\<lparr>timer_heap := h\<rparr>), 0)"
    "tm_inv (upd_tm a (\<lambda>t. t\<lparr>tm_active := True\<rparr>) (?w1\<lparr>timer_heap := h\<rparr>)) t'"
    "mset (addrs t') = add_mset a (mset (addrs t))" by blast
  have "liteco_timer_start a cb us iv w = Some (upd_tm a (\<lambda>t. t\<lparr>tm_active := True\<rparr>) (?w1\<lparr>timer_heap := h\<rparr>), 0)"
    by (simp add: start_unfold R(1))
  then show ?thesis using R(2,3) F by (intro exI conjI) (assumption | simp)+
qed

lemma stop_running:
  assumes "tm_inv w t" and "a \<in> set (addrs t)"
  shows "\<exists>w' t'. liteco_timer_stop a w = Some (w', 0) \<and> tm_inv w' t' \<and> mset (addrs t') = mset (addrs t) - {#a#}"
proof -
  let ?w = "upd_tm a (\<lambda>t. t\<lparr>tm_stop := True\<rparr>) w"
  have "tm_key (tms ?w) = tm_key (tms w)" by (auto simp: tm_key_def)
  then have inv: "tm_inv ?w t" using assms by (auto simp: tm_inv_def tm_good_def)
  from timer_remove_ok [OF inv assms(2)] show ?thesis by (auto simp: liteco_timer_stop_def)
qed

text \<open>Starting a timer that is not running makes it run at the current time plus its timeout,
  or plus its interval when the timeout is 0; stopping it takes it, and only it, out again.\<close>

theorem timer_start_stop:
  assumes "tm_inv w t" and "a \<noteq> NIL" "a \<notin> set (addrs t)" and "length (addrs t) + 1 < 2 ^ 31"
    and "tv_norm (clock w (ticks w))" "sint (tv_sec (clock w (ticks w))) < 2 ^ 62" and "cb \<noteq> NIL"
  shows "\<exists>w' t'. liteco_timer_start a cb us iv w = Some (w', 0) \<and> tm_inv w' t' \<and>
    mset (addrs t') = add_mset a (mset (addrs t)) \<and>
    tv_us (timeout (tms w' a)) = tv_us (clock w (ticks w)) + (if us = 0 then uint iv else uint us) \<and>
    tv_us (interval (tms w' a)) = uint iv \<and> tm_cb (tms w' a) = cb \<and>
    (\<exists>w'' t''. liteco_timer_stop a w' = Some (w'', 0) \<and> tm_inv w'' t'' \<and> mset (addrs t'') = mset (addrs t))"
proof -
  from start_idle [OF assms] obtain w' t' where R: "liteco_timer_start a cb us iv w = Some (w', 0)" "tm_inv w' t'"
    "mset (addrs t') = add_mset a (mset (addrs t))"
    "tv_us (timeout (tms w' a)) = tv_us (clock w (ticks w)) + start_us us iv"
    "tv_us (interval (tms w' a)) = uint iv" "tm_cb (tms w' a) = cb" by blast
  have at: "a \<in> set (addrs t')" using mset_eq_setD [of "addrs t'" "a # addrs t"] R(3) by simp
  from stop_running [OF R(2) at] obtain w'' t''
    where S: "liteco_timer_stop a w' = Some (w'', 0)" "tm_inv w'' t''" "mset (addrs t'') = mset (addrs t') - {#a#}" by blast
  have "mset (addrs t'') = mset (addrs t)" using S(3) R(3) by simp
  then show ?thesis using R [unfolded start_us_def] S(1,2) by blast
qed

lemma timer_start_stop_witness:
  "\<exists>w' t'. liteco_timer_start 40 7 2500000 0 tm_demo = Some (w', 0) \<and> tm_inv w' t' \<and>
    mset (addrs t') = {#40, 20, 10, 30#} \<and> tv_us (timeout (tms w' 40)) = 7500000"
proof -
  have e: "(40::nat) \<noteq> NIL" "40 \<notin> set (addrs tm_demo_tree)" "length (addrs tm_demo_tree) + 1 < 2 ^ 31"
    "tv_norm (clock tm_demo (ticks tm_demo))" "sint (tv_sec (clock tm_demo (ticks tm_demo))) < 2 ^ 62" "(7::nat) \<noteq> NIL"
    by (simp_all add: tm_demo_tree_def tm_demo_def tv_norm_def)
  have s: "mset (addrs tm_demo_tree) = {#20, 10, 30#}" "tv_us (clock tm_demo (ticks tm_demo)) = 5000000"
    by (simp_all add: tm_demo_tree_def tm_demo_def tv_us_def)
  show ?thesis using timer_start_stop [OF tm_demo_inv e, of 2500000 0] unfolding s by auto
qed

text \<open>Starting a timer that is already running changes its time but not its place in the
  heap: when another timer is first and not due, the loop runs nothing, although the restarted
  timer is due.\<close>

theorem timer_restart_missed:
  assumes "tm_inv w t" and "a \<in> set (addrs t)" and "hroot (timer_heap w) \<noteq> a" and "cb \<noteq> NIL"
    and "tv_norm (clock w (ticks w))" "sint (tv_sec (clock w (ticks w))) < 2 ^ 62"
    and "tv_norm now" and "tv_us (clock w (ticks w)) + (if us = 0 then uint iv else uint us) < tv_us now"
    and "tv_us now \<le> tv_us (timeout (tms w (hroot (timer_heap w))))"
  shows "\<exists>w'. liteco_timer_start a cb us iv w = Some (w', 0) \<and> tm_active (tms w' a) \<and>
    timer_heap w' = timer_heap w \<and> liteco_timer_active (tms w' a) now \<and>
    (\<forall>call. liteco_eloop_timer_active call now w' = Some w')"
proof -
  let ?w1 = "upd_tm a (started (clock w (ticks w)) cb us iv) (w\<lparr>ticks := Suc (ticks w)\<rparr>)"
  let ?r = "hroot (timer_heap w)"
  note F = started_fields [OF assms(5,6)]
  have act: "tm_active (tms w a)" using assms(1,2) by (simp add: tm_inv_def)
  have hi: "heap_inv (tm_key (tms w)) (timer_heap w) t" using assms(1) by (simp add: tm_inv_def)
  have "t \<noteq> PL" using assms(2) by auto
  then have r: "?r \<in> set (addrs t)" using heap_inv_root(1) [OF hi] by simp
  then have "tv_norm (timeout (tms w ?r))" using assms(1) by (auto simp: tm_inv_def tm_good_def)
  then have "\<not> liteco_timer_active (tms w ?r) now" using active_iff assms(7,9) by auto
  then have "liteco_eloop_timer_active call now ?w1 = Some ?w1" for call
    using assms(3) by (subst liteco_eloop_timer_active.simps) simp
  moreover have "liteco_timer_start a cb us iv w = Some (?w1, 0)"
    using act F(8) by (simp add: start_unfold liteco_eloop_timer_add_def)
  moreover have "liteco_timer_active (tms ?w1 a) now"
    using active_iff [OF _ assms(7), of "tms ?w1 a"] F(1,2) assms(8) by (simp add: start_us_def)
  ultimately show ?thesis using act F(8) by (intro exI [of _ ?w1]) simp
qed

lemma timer_restart_missed_witness:
  "\<exists>w'. liteco_timer_start 30 7 1000 0 (tm_demo\<lparr>clock := (\<lambda>_. zero)\<rparr>) = Some (w', 0) \<and>
    liteco_timer_active (tms w' 30) \<lparr>tv_sec = 1, tv_usec = 0\<rparr> \<and>
    liteco_eloop_timer_active log_cb \<lparr>tv_sec = 1, tv_usec = 0\<rparr> w' = Some w'"
proof -
  let ?w = "tm_demo\<lparr>clock := (\<lambda>_. zero)\<rparr>" and ?n = "\<lparr>tv_sec = 1, tv_usec = 0\<rparr>"
  have inv: "tm_inv ?w tm_demo_tree" using tm_demo_inv by (simp add: tm_inv_cong [of ?w tm_demo])
  have e: "30 \<in> set (addrs tm_demo_tree)" "hroot (timer_heap ?w) \<noteq> 30" "(7::nat) \<noteq> NIL"
    "tv_norm (clock ?w (ticks ?w))" "sint (tv_sec (clock ?w (ticks ?w))) < 2 ^ 62" "tv_norm ?n"
    "tv_us (clock ?w (ticks ?w)) + (if (1000::u64) = 0 then uint (0::u64) else uint (1000::u64)) < tv_us ?n"
    "tv_us ?n \<le> tv_us (timeout (tms ?w (hroot (timer_heap ?w))))"
    by (simp_all add: tm_demo_tree_def tm_demo_def tm_demo_timer_def zero_def tv_norm_def tv_us_def)
  show ?thesis using timer_restart_missed [OF inv e] by blast
qed

end
