(* ===== verification/Rbt_Morris.thy ===== *)
theory Rbt_Morris
  imports Rbt_Props
begin

text \<open>
  The iterator of the red-black tree (\<open>liteco_rbt_iterator_next\<close> of \<open>src/lc_rbt.c\<close> and the macro
  \<open>liteco_rbt_foreach\<close>): Morris' traversal, which threads the tree through \<open>morris_link\<close> instead
  of keeping a stack, stopped at every node and resumed by the flags \<open>interrupt\<close>. The threads
  are gone at the end: the traversal visits the nodes in order and restores the memory.
\<close>

section \<open>The iterator\<close>

record liteco_rbt_iterator =
  interrupt0 :: bool
  interrupt1 :: bool
  it_ptr :: addr
  it_mr :: addr

definition liteco_rbt_iterator_init :: "addr \<Rightarrow> liteco_rbt_iterator" where
  "liteco_rbt_iterator_init rt = \<lparr>interrupt0 = False, interrupt1 = False, it_ptr = rt, it_mr = NIL\<rparr>"

definition liteco_rbt_iterator_end :: "liteco_rbt_iterator \<Rightarrow> bool" where
  "liteco_rbt_iterator_end it \<longleftrightarrow> it_ptr it = NIL"

text \<open>The macro \<open>__r\<close>.\<close>

definition itr_r :: "rbt_state \<Rightarrow> addr \<Rightarrow> addr" where
  "itr_r s n = (if rgt s n \<noteq> NIL then rgt s n else morris_link (mem s n))"

definition set_morris :: "addr \<Rightarrow> addr \<Rightarrow> rbt_state \<Rightarrow> rbt_state" where
  "set_morris a v s = s\<lparr>mem := (mem s)(a := (mem s a)\<lparr>morris_link := v\<rparr>)\<rparr>"

partial_function (option) itr_mr_loop :: "rbt_state \<Rightarrow> addr \<Rightarrow> addr \<Rightarrow> addr option" where
  "itr_mr_loop s ptr mr =
     (if itr_r s mr \<noteq> NIL \<and> itr_r s mr \<noteq> ptr then itr_mr_loop s ptr (itr_r s mr) else Some mr)"

text \<open>The \<open>while\<close> loop from its head to the next \<open>return\<close>.\<close>

partial_function (option) itr_loop ::
    "liteco_rbt_iterator \<Rightarrow> rbt_state \<Rightarrow> (addr \<times> liteco_rbt_iterator \<times> rbt_state) option" where
  "itr_loop it s =
     (if liteco_rbt_iterator_end it then Some (NIL, it, s)
      else if lft s (it_ptr it) = NIL then Some (it_ptr it, it\<lparr>interrupt0 := True\<rparr>, s)
      else (case itr_mr_loop s (it_ptr it) (lft s (it_ptr it)) of
              None \<Rightarrow> None
            | Some m \<Rightarrow>
                (if itr_r s m = NIL
                 then itr_loop (it\<lparr>it_mr := m, it_ptr := lft (set_morris m (it_ptr it) s) (it_ptr it)\<rparr>)
                        (set_morris m (it_ptr it) s)
                 else Some (it_ptr it, it\<lparr>it_mr := m, interrupt1 := True\<rparr>, s))))"

text \<open>The jumps to \<open>travel_0\<close> and \<open>travel_1\<close>: what is left to do for the node that was returned
  last, up to the loop head.\<close>

definition itr_resume :: "liteco_rbt_iterator \<Rightarrow> rbt_state \<Rightarrow> liteco_rbt_iterator \<times> rbt_state" where
  "itr_resume it s =
     (if interrupt0 it then (it\<lparr>interrupt0 := False, it_ptr := itr_r s (it_ptr it)\<rparr>, s)
      else if interrupt1 it then
        (let p = itr_r s (it_mr it);
             s1 = set_morris (it_mr it) NIL s
         in (it\<lparr>interrupt1 := False, it_ptr := itr_r s1 p\<rparr>, s1))
      else (it, s))"

definition liteco_rbt_iterator_next ::
    "liteco_rbt_iterator \<Rightarrow> rbt_state \<Rightarrow> (addr \<times> liteco_rbt_iterator \<times> rbt_state) option" where
  "liteco_rbt_iterator_next it s = (let (it1, s1) = itr_resume it s in itr_loop it1 s1)"

text \<open>The macro \<open>liteco_rbt_foreach\<close> with a body that works on a state of its own.\<close>

partial_function (option) rbt_foreach_loop ::
    "(addr \<Rightarrow> 'b \<Rightarrow> 'b option) \<Rightarrow> liteco_rbt_iterator \<Rightarrow> rbt_state \<Rightarrow> 'b \<Rightarrow> (rbt_state \<times> 'b) option" where
  "rbt_foreach_loop body it s b =
     (case liteco_rbt_iterator_next it s of
        None \<Rightarrow> None
      | Some (node, it1, s1) \<Rightarrow>
          (if liteco_rbt_iterator_end it1 then Some (s1, b)
           else (case body node b of
                   None \<Rightarrow> None
                 | Some b1 \<Rightarrow> rbt_foreach_loop body it1 s1 b1)))"

declare itr_mr_loop.simps [code] itr_loop.simps [code] rbt_foreach_loop.simps [code]

definition liteco_rbt_foreach :: "(addr \<Rightarrow> 'b \<Rightarrow> 'b option) \<Rightarrow> rbt_state \<Rightarrow> 'b \<Rightarrow> (rbt_state \<times> 'b) option" where
  "liteco_rbt_foreach body s b = rbt_foreach_loop body (liteco_rbt_iterator_init (root s)) s b"

section \<open>Runs of the loop\<close>

text \<open>From one loop head to another: the pointer and the memory, and the nodes returned in
  between.\<close>

inductive mrun :: "addr \<Rightarrow> rbt_state \<Rightarrow> addr list \<Rightarrow> addr \<Rightarrow> rbt_state \<Rightarrow> bool" where
  stop: "mrun p s [] p s"
| leaf: "p \<noteq> NIL \<Longrightarrow> lft s p = NIL \<Longrightarrow> mrun (itr_r s p) s xs q s' \<Longrightarrow> mrun p s (p # xs) q s'"
| thread: "p \<noteq> NIL \<Longrightarrow> lft s p \<noteq> NIL \<Longrightarrow> itr_mr_loop s p (lft s p) = Some m \<Longrightarrow> itr_r s m = NIL \<Longrightarrow>
    mrun (lft (set_morris m p s) p) (set_morris m p s) xs q s' \<Longrightarrow> mrun p s xs q s'"
| unthread: "p \<noteq> NIL \<Longrightarrow> lft s p \<noteq> NIL \<Longrightarrow> itr_mr_loop s p (lft s p) = Some m \<Longrightarrow> itr_r s m \<noteq> NIL \<Longrightarrow>
    mrun (itr_r (set_morris m NIL s) (itr_r s m)) (set_morris m NIL s) xs q s' \<Longrightarrow> mrun p s (p # xs) q s'"

lemma mrun_append: "mrun p s xs q s' \<Longrightarrow> mrun q s' ys r s'' \<Longrightarrow> mrun p s (xs @ ys) r s''"
  by (induction rule: mrun.induct) (auto intro: mrun.intros)

lemma set_morris_fields [simp]:
  "lft (set_morris a v s) b = lft s b" "rgt (set_morris a v s) b = rgt s b" "par (set_morris a v s) b = par s b"
  "col (set_morris a v s) b = col s b" "root (set_morris a v s) = root s"
  "morris_link (mem (set_morris a v s) b) = (if b = a then v else morris_link (mem s b))"
  by (simp_all add: set_morris_def)

lemma trep_morris [simp]: "rep rb_l rb_r rb_p rb_color (mem (set_morris a v s)) q t = trep s q t"
  by (induction t arbitrary: q) auto

lemma set_morris_back: "morris_link (mem s a) = NIL \<Longrightarrow> set_morris a NIL (set_morris a v s) = s"
  by (cases s; cases "mem s a") (simp add: set_morris_def fun_upd_idem)

text \<open>The last node of a subtree.\<close>

fun rmost :: "ctree \<Rightarrow> addr" where
  "rmost PL = NIL"
| "rmost (PN l a x r) = (if r = PL then a else rmost r)"

lemma rmost_in: "t \<noteq> PL \<Longrightarrow> rmost t \<in> set (addrs t)"
  by (induction t) auto

text \<open>A subtree whose only thread goes from its last node to \<open>q\<close>.\<close>

definition threaded :: "rbt_state \<Rightarrow> addr \<Rightarrow> ctree \<Rightarrow> addr \<Rightarrow> bool" where
  "threaded s p t q \<longleftrightarrow> trep s p t \<and> distinct (addrs t) \<and> q \<notin> set (addrs t) \<and>
     (\<forall>a\<in>set (addrs t). morris_link (mem s a) = (if a = rmost t then q else NIL))"

lemma threaded_right:
  "threaded s p (PN l a x r) q \<Longrightarrow> r \<noteq> PL \<Longrightarrow> threaded s a r q"
  using rmost_in [of r] by (auto simp: threaded_def)

lemma threaded_left:
  assumes "threaded s p (PN l a x r) q" "l \<noteq> PL"
  shows "threaded s a l NIL" "threaded (set_morris (rmost l) a s) a l a"
proof -
  have n: "rmost (PN l a x r) \<notin> set (addrs l)" using assms rmost_in [of r] by (auto simp: threaded_def)
  have nil: "NIL \<notin> set (addrs l)" using assms by (auto simp: threaded_def dest: rep_addrs_nonnil)
  have l: "\<forall>b\<in>set (addrs l). morris_link (mem s b) = NIL" using assms(1) n by (auto simp: threaded_def)
  show "threaded s a l NIL" using assms(1) l nil by (auto simp: threaded_def)
  show "threaded (set_morris (rmost l) a s) a l a" using assms(1) l by (auto simp: threaded_def)
qed

lemma threaded_next:
  "threaded s p (PN l a x r) q \<Longrightarrow> itr_r s a = (if r = PL then q else taddr r)"
  by (cases r) (auto simp: threaded_def itr_r_def)

lemma mr_loop_end:
  assumes "threaded s p t q" "t \<noteq> PL" "ptr \<notin> set (addrs t)" "q = NIL \<or> q = ptr"
  shows "itr_mr_loop s ptr (taddr t) = Some (rmost t) \<and> itr_r s (rmost t) = q"
  using assms
proof (induction t arbitrary: p)
  case (PN l a x r)
  note nx = threaded_next [OF PN.prems(1)]
  show ?case
  proof (cases "r = PL")
    case True
    then show ?thesis using nx PN.prems(4) by (subst itr_mr_loop.simps) auto
  next
    case False
    have "taddr r \<noteq> NIL" using PN.prems(1) False by (cases r) (auto simp: threaded_def)
    moreover have "taddr r \<noteq> ptr" using PN.prems(3) False by (cases r) auto
    moreover have "itr_mr_loop s ptr (taddr r) = Some (rmost r) \<and> itr_r s (rmost r) = q"
      by (rule PN.IH(2) [OF threaded_right [OF PN.prems(1) False] False]) (use PN.prems in auto)
    ultimately show ?thesis using nx False by (subst itr_mr_loop.simps) auto
  qed
qed simp

text \<open>The loop passes through a subtree in order and leaves the memory as it was.\<close>

lemma mrun_tree: "threaded s p t q \<Longrightarrow> t \<noteq> PL \<Longrightarrow> mrun (taddr t) s (addrs t) q s"
proof (induction t arbitrary: s p q)
  case (PN l a x r)
  note thr = PN.prems(1)
  have a: "a \<noteq> NIL" "lft s a = taddr l" using thr by (simp_all add: threaded_def)
  have right: "mrun (itr_r s a) s (addrs r) q s"
    using threaded_next [OF thr] PN.IH(2) [OF threaded_right [OF thr]] mrun.stop by (cases "r = PL") auto
  show ?case
  proof (cases "l = PL")
    case True
    then show ?thesis using right a by (auto intro: mrun.leaf)
  next
    case False
    let ?m = "rmost l" and ?s = "set_morris (rmost l) a s"
    have la: "lft s a \<noteq> NIL" "a \<notin> set (addrs l)" "a \<noteq> ?m"
      using a(2) thr False rmost_in [OF False] by (cases l; auto simp: threaded_def)+
    have m1: "itr_mr_loop s a (lft s a) = Some ?m" "itr_r s ?m = NIL"
      using mr_loop_end [OF threaded_left(1) [OF thr False] False la(2)] a(2) by simp_all
    have m2: "itr_mr_loop ?s a (lft s a) = Some ?m" "itr_r ?s ?m = a"
      using mr_loop_end [OF threaded_left(2) [OF thr False] False la(2)] a(2) by simp_all
    have "morris_link (mem s ?m) = NIL"
      using threaded_left(1) [OF thr False] rmost_in [OF False] by (auto simp: threaded_def)
    then have bk: "set_morris ?m NIL ?s = s" by (rule set_morris_back)
    have "mrun a ?s (a # addrs r) q s"
      by (rule mrun.unthread [of _ _ ?m]) (use a la m2 bk right in simp_all)
    then have "mrun (taddr l) ?s (addrs l @ a # addrs r) q s"
      by (rule mrun_append [OF PN.IH(1) [OF threaded_left(2) [OF thr False] False]])
    then have "mrun a s (addrs l @ a # addrs r) q s"
      by (intro mrun.thread [OF a(1) la(1) m1]) (simp add: a(2))
    then show ?thesis by simp
  qed
qed simp

section \<open>The loop over the tree\<close>

text \<open>The body, run for the nodes of a list in turn.\<close>

fun each :: "(addr \<Rightarrow> 'b \<Rightarrow> 'b option) \<Rightarrow> addr list \<Rightarrow> 'b \<Rightarrow> 'b option" where
  "each body [] b = Some b"
| "each body (x # xs) b = (case body x b of None \<Rightarrow> None | Some b1 \<Rightarrow> each body xs b1)"

text \<open>The loop head that a call of \<open>liteco_rbt_iterator_next\<close> starts at.\<close>

definition at_head :: "liteco_rbt_iterator \<Rightarrow> rbt_state \<Rightarrow> addr \<Rightarrow> rbt_state \<Rightarrow> bool" where
  "at_head it s p s0 \<longleftrightarrow> (\<exists>it1. itr_resume it s = (it1, s0) \<and> it_ptr it1 = p \<and> \<not> interrupt0 it1 \<and> \<not> interrupt1 it1)"

lemma foreach_run:
  assumes "mrun p s0 xs q s'" and "at_head it s p s0"
  shows "(case each body xs b of
       None \<Rightarrow> rbt_foreach_loop body it s b = None
     | Some b' \<Rightarrow> \<exists>it' s2. at_head it' s2 q s' \<and>
         rbt_foreach_loop body it s b = rbt_foreach_loop body it' s2 b')"
  using assms
proof (induction arbitrary: it s b rule: mrun.induct)
  case (stop p s0)
  then show ?case by auto
next
  case (leaf p s0 xs q s')
  from leaf.prems obtain it1 where it1: "itr_resume it s = (it1, s0)" "it_ptr it1 = p" "\<not> interrupt0 it1" "\<not> interrupt1 it1"
    by (auto simp: at_head_def)
  let ?it = "it1\<lparr>interrupt0 := True\<rparr>"
  have "liteco_rbt_iterator_next it s = Some (p, ?it, s0)"
    using it1 leaf.hyps(1,2) unfolding liteco_rbt_iterator_next_def
    by (simp, subst itr_loop.simps) (simp add: liteco_rbt_iterator_end_def)
  then have u: "rbt_foreach_loop body it s b =
      (case body p b of None \<Rightarrow> None | Some b1 \<Rightarrow> rbt_foreach_loop body ?it s0 b1)"
    using it1(2) leaf.hyps(1) by (subst rbt_foreach_loop.simps) (simp add: liteco_rbt_iterator_end_def)
  have "at_head ?it s0 (itr_r s0 p) s0" using it1 by (simp add: at_head_def itr_resume_def)
  from leaf.IH [OF this] show ?case using u by (cases "body p b") (simp_all cong: option.case_cong)
next
  case (thread p s0 m xs q s')
  from thread.prems obtain it1 where it1: "itr_resume it s = (it1, s0)" "it_ptr it1 = p" "\<not> interrupt0 it1" "\<not> interrupt1 it1"
    by (auto simp: at_head_def)
  let ?s = "set_morris m p s0"
  let ?it = "it1\<lparr>it_mr := m, it_ptr := lft ?s p\<rparr>"
  have "liteco_rbt_iterator_next it s = itr_loop ?it ?s"
    using it1 thread.hyps(1-4) unfolding liteco_rbt_iterator_next_def
    by (simp, subst itr_loop.simps) (simp add: liteco_rbt_iterator_end_def)
  moreover have "liteco_rbt_iterator_next ?it ?s = itr_loop ?it ?s"
    using it1 by (simp add: liteco_rbt_iterator_next_def itr_resume_def)
  ultimately have u: "rbt_foreach_loop body it s b = rbt_foreach_loop body ?it ?s b"
    by (subst (1 2) rbt_foreach_loop.simps) simp
  have "at_head ?it ?s (lft ?s p) ?s" using it1 by (simp add: at_head_def itr_resume_def)
  from thread.IH [OF this, of b] show ?case unfolding u .
next
  case (unthread p s0 m xs q s')
  from unthread.prems obtain it1 where it1: "itr_resume it s = (it1, s0)" "it_ptr it1 = p" "\<not> interrupt0 it1" "\<not> interrupt1 it1"
    by (auto simp: at_head_def)
  let ?it = "it1\<lparr>it_mr := m, interrupt1 := True\<rparr>"
  have "liteco_rbt_iterator_next it s = Some (p, ?it, s0)"
    using it1 unthread.hyps(1-4) unfolding liteco_rbt_iterator_next_def
    by (simp, subst itr_loop.simps) (simp add: liteco_rbt_iterator_end_def)
  then have u: "rbt_foreach_loop body it s b =
      (case body p b of None \<Rightarrow> None | Some b1 \<Rightarrow> rbt_foreach_loop body ?it s0 b1)"
    using it1(2) unthread.hyps(1) by (subst rbt_foreach_loop.simps) (simp add: liteco_rbt_iterator_end_def)
  have "at_head ?it s0 (itr_r (set_morris m NIL s0) (itr_r s0 m)) (set_morris m NIL s0)"
    using it1 by (simp add: at_head_def itr_resume_def Let_def)
  from unthread.IH [OF this] show ?case using u by (cases "body p b") (simp_all cong: option.case_cong)
qed

definition links_clear :: "rbt_state \<Rightarrow> ctree \<Rightarrow> bool" where
  "links_clear s t \<longleftrightarrow> (\<forall>a\<in>set (addrs t). morris_link (mem s a) = NIL)"

lemma foreach_spec:
  assumes "rbt_holds s t" and "links_clear s t"
  shows "liteco_rbt_foreach body s b = map_option (\<lambda>b'. (s, b')) (each body (addrs t) b)"
proof -
  have "NIL \<notin> set (addrs t)" using assms(1) by (auto simp: rbt_holds_def dest: rep_addrs_nonnil)
  then have thr: "threaded s NIL t NIL" using assms by (auto simp: threaded_def rbt_holds_def links_clear_def)
  have "root s = taddr t" using assms(1) by (simp add: rbt_holds_def)
  then have run: "mrun (root s) s (addrs t) NIL s" using mrun_tree [OF thr] mrun.stop by (cases "t = PL") auto
  have "at_head (liteco_rbt_iterator_init (root s)) s (root s) s"
    by (simp add: at_head_def itr_resume_def liteco_rbt_iterator_init_def)
  note R = foreach_run [OF run this, of body b]
  have last: "rbt_foreach_loop body it s2 b' = Some (s, b')" if "at_head it s2 NIL s" for it s2 b'
  proof -
    from that obtain it1 where "itr_resume it s2 = (it1, s)" "it_ptr it1 = NIL" by (auto simp: at_head_def)
    then have "liteco_rbt_iterator_next it s2 = Some (NIL, it1, s)"
      unfolding liteco_rbt_iterator_next_def by (simp, subst itr_loop.simps) (simp add: liteco_rbt_iterator_end_def)
    then show ?thesis using \<open>it_ptr it1 = NIL\<close>
      by (subst rbt_foreach_loop.simps) (simp add: liteco_rbt_iterator_end_def)
  qed
  show ?thesis
  proof (cases "each body (addrs t) b")
    case None
    then show ?thesis using R by (simp add: liteco_rbt_foreach_def)
  next
    case (Some b')
    then show ?thesis using R last by (auto simp: liteco_rbt_foreach_def)
  qed
qed

section \<open>Property\<close>

text \<open>C4: The loop \<open>liteco_rbt_foreach\<close> over a tree ends when its body does, runs the body for every
  node exactly once, in the order of the keys, and restores every node: the threads it put into
  the tree are gone.\<close>

theorem foreach_in_order:
  assumes "rbt_wf keys s t" and "links_clear s t"
  shows "liteco_rbt_foreach body s b = map_option (\<lambda>b'. (s, b')) (each body (addrs t) b) \<and>
    liteco_rbt_foreach (\<lambda>a xs. Some (xs @ [a])) s [] = Some (s, addrs t) \<and> key_sorted keys (addrs t)"
proof -
  have h: "rbt_holds s t" "key_sorted keys (addrs t)" using assms(1) by (simp_all add: rbt_wf_def)
  have "each (\<lambda>a xs. Some (xs @ [a])) ys zs = Some (zs @ ys)" for ys zs by (induction ys arbitrary: zs) auto
  then show ?thesis
    using foreach_spec [OF h(1) assms(2), of body b] foreach_spec [OF h(1) assms(2), of "\<lambda>a xs. Some (xs @ [a])" "[]"] h(2)
    by simp
qed

lemma foreach_in_order_witness:
  "liteco_rbt_foreach (\<lambda>a xs. Some (xs @ [a])) demo_state [] = Some (demo_state, [1, 2, 3, 4])"
proof -
  have "links_clear demo_state demo_tree" "addrs demo_tree = [1, 2, 3, 4]"
    by (simp_all add: links_clear_def demo_state_def demo_tree_def demo_node_def)
  then show ?thesis using foreach_in_order [OF demo_wf, of "\<lambda>a xs. Some (xs @ [a])" "[]"] by simp
qed

end
