(* ===== verification/Io.thy ===== *)
theory Io
  imports Timer Rbt_Morris
begin

text \<open>
  File descriptors and the event loop: \<open>src/platform/linux/lc_io.c\<close> and the loop of
  \<open>src/platform/linux/lc_eloop.c\<close>, and their Darwin counterparts. The descriptors that are
  listened to are nodes of the red-black tree \<open>mon\<close>; \<open>reg\<close> is the tree of the descriptors that
  were given to the kernel.

  The kernel is not part of the program. What the library relies on is modelled as documented:
  a registration of an open descriptor that is not registered adds it to the set of watched
  descriptors, every other one fails without effect; closing a descriptor takes it out of the
  set. The events that a call of \<open>epoll_wait\<close> or \<open>kevent\<close> reports, and what the callbacks of
  the descriptors do, are parameters.
\<close>

section \<open>State\<close>

text \<open>\<open>liteco_io_t\<close>; its tree node is in the memory of \<open>mon\<close>.\<close>

record liteco_io =
  io_key :: u32
  io_cb :: addr
  listening_events :: u32

text \<open>\<open>fd_marks\<close> are the keys of the nodes of \<open>reg\<close>, \<open>next_mark\<close> the address of the next node that
  \<open>malloc\<close> returns; \<open>fd_open\<close> and \<open>watched\<close> are the kernel's open and watched descriptors, the
  latter with their events and \<open>data.ptr\<close>.\<close>

record io_world = tm_world +
  el_closed :: bool
  ios :: "addr \<Rightarrow> liteco_io"
  mon :: rbt_state
  reg :: rbt_state
  fd_marks :: "addr \<Rightarrow> u32"
  next_mark :: addr
  fd_open :: "u32 \<Rightarrow> bool"
  watched :: "u32 \<Rightarrow> (u32 \<times> addr) option"

definition upd_io :: "addr \<Rightarrow> (liteco_io \<Rightarrow> liteco_io) \<Rightarrow> 'a io_world_scheme \<Rightarrow> 'a io_world_scheme" where
  "upd_io io f w = w\<lparr>ios := (ios w)(io := f (ios w io))\<rparr>"

text \<open>The search key: \<open>&io->key\<close>. The callback reads 8 bytes and uses the lower 4 (\<open>int_find\<close>).\<close>

definition io_key64 :: "u32 \<Rightarrow> u64" where
  "io_key64 k = ucast k"

definition mon_cmp :: "'a io_world_scheme \<Rightarrow> u64 \<Rightarrow> addr \<Rightarrow> liteco_rbt_cmp_result" where
  "mon_cmp w k a = liteco_rbt_int_cmp_cb k (io_key (ios w a))"

definition reg_cmp :: "'a io_world_scheme \<Rightarrow> u64 \<Rightarrow> addr \<Rightarrow> liteco_rbt_cmp_result" where
  "reg_cmp w k a = liteco_rbt_int_cmp_cb k (fd_marks w a)"

section \<open>The kernel\<close>

definition liteco_platform_close :: "u32 \<Rightarrow> 'a io_world_scheme \<Rightarrow> 'a io_world_scheme" where
  "liteco_platform_close fd w = w\<lparr>fd_open := (fd_open w)(fd := False), watched := (watched w)(fd := None)\<rparr>"

definition watch_add :: "u32 \<Rightarrow> u32 \<Rightarrow> addr \<Rightarrow> 'a io_world_scheme \<Rightarrow> 'a io_world_scheme" where
  "watch_add fd events ptr w =
     (if fd_open w fd \<and> watched w fd = None then w\<lparr>watched := (watched w)(fd := Some (events, ptr))\<rparr> else w)"

section \<open>Descriptors\<close>

text \<open>A failed assertion ends the program.\<close>

definition liteco_io_init :: "addr \<Rightarrow> addr \<Rightarrow> u32 \<Rightarrow> 'a io_world_scheme \<Rightarrow> ('a io_world_scheme \<times> int) option" where
  "liteco_io_init io cb fd w =
     (if cb = NIL \<or> sint fd < -1 then None
      else Some (upd_io io (\<lambda>_. \<lparr>io_key = fd, io_cb = cb, listening_events = 0\<rparr>)
                  (w\<lparr>mon := (mon w)\<lparr>mem := (mem (mon w))(io := liteco_rbt_node_init)\<rparr>\<rparr>), 0))"

definition liteco_io_start :: "addr \<Rightarrow> u32 \<Rightarrow> 'a io_world_scheme \<Rightarrow> ('a io_world_scheme \<times> int) option" where
  "liteco_io_start io events w =
     (let w1 = upd_io io (\<lambda>x. x\<lparr>listening_events := listening_events x OR events\<rparr>) w;
          k = io_key64 (io_key (ios w1 io))
      in case liteco_rbt_find_impl (mon_cmp w1) k (mon w1) of
           None \<Rightarrow> None
         | Some a \<Rightarrow>
             (if a = NIL
              then map_option (\<lambda>(t, _). (w1\<lparr>mon := t\<rparr>, 0)) (liteco_rbt_insert_impl (mon_cmp w1) k io (mon w1))
              else Some (w1, 0)))"

text \<open>\<open>mid\<close> is the address of the local node of \<open>liteco_rbt_remove_impl\<close>; \<open>*io = *del\<close> writes a
  structure to itself.\<close>

definition liteco_io_stop :: "addr \<Rightarrow> addr \<Rightarrow> u32 \<Rightarrow> 'a io_world_scheme \<Rightarrow> ('a io_world_scheme \<times> int) option" where
  "liteco_io_stop mid io events w =
     (case liteco_rbt_find_impl (mon_cmp w) (io_key64 (io_key (ios w io))) (mon w) of
        None \<Rightarrow> None
      | Some a \<Rightarrow>
          (if a = NIL then Some (w, 0)
           else (let w1 = upd_io io (\<lambda>x. x\<lparr>listening_events := listening_events x AND NOT events\<rparr>) w
                 in if listening_events (ios w1 io) = 0
                    then map_option (\<lambda>(t, _). (liteco_platform_close (io_key (ios w1 io)) (w1\<lparr>mon := t\<rparr>), 0))
                           (liteco_rbt_remove_impl mid io (mon w1))
                    else Some (w1, 0))))"

section \<open>Registration\<close>

definition liteco_eloop_reg_io :: "addr \<Rightarrow> 'a io_world_scheme \<Rightarrow> 'a io_world_scheme option" where
  "liteco_eloop_reg_io io w =
     (let fd = io_key (ios w io); k = io_key64 fd
      in case liteco_rbt_find_impl (reg_cmp w) k (reg w) of
           None \<Rightarrow> None
         | Some a \<Rightarrow>
             (if a \<noteq> NIL then Some w
              else (let (w1, ok) = malloc w
                    in if \<not> ok then Some w1
                       else (let n = next_mark w1;
                                 w2 = w1\<lparr>next_mark := n + 1, fd_marks := (fd_marks w1)(n := fd),
                                         reg := (reg w1)\<lparr>mem := (mem (reg w1))(n := liteco_rbt_node_init)\<rparr>\<rparr>
                             in map_option (\<lambda>(t, _). watch_add fd (listening_events (ios w2 io)) io (w2\<lparr>reg := t\<rparr>))
                                  (liteco_rbt_insert_impl (reg_cmp w2) k n (reg w2))))))"

text \<open>The first loop of every turn of the event loop.\<close>

definition eloop_register :: "'a io_world_scheme \<Rightarrow> 'a io_world_scheme option" where
  "eloop_register w =
     (case liteco_rbt_foreach (\<lambda>io w. liteco_eloop_reg_io io w) (mon w) w of
        None \<Rightarrow> None
      | Some (t, w1) \<Rightarrow> Some (w1\<lparr>mon := t\<rparr>))"

section \<open>The event loop\<close>

fun eloop_dispatch ::
    "(addr \<Rightarrow> addr \<Rightarrow> u32 \<Rightarrow> 'a io_world_scheme \<Rightarrow> 'a io_world_scheme option) \<Rightarrow> (addr \<times> u32) list \<Rightarrow>
     'a io_world_scheme \<Rightarrow> 'a io_world_scheme option" where
  "eloop_dispatch call [] w = Some w"
| "eloop_dispatch call ((io, fl) # es) w =
     (case call (io_cb (ios w io)) io fl w of None \<Rightarrow> None | Some w1 \<Rightarrow> eloop_dispatch call es w1)"

text \<open>One turn on Linux and one on Darwin, which also runs the timers. \<open>poll\<close> gives the events
  that the kernel reports after the time it may sleep.\<close>

definition eloop_turn_linux ::
    "(addr \<Rightarrow> addr \<Rightarrow> u32 \<Rightarrow> 'a io_world_scheme \<Rightarrow> 'a io_world_scheme option) \<Rightarrow>
     ('a io_world_scheme \<Rightarrow> (addr \<times> u32) list) \<Rightarrow> 'a io_world_scheme \<Rightarrow> 'a io_world_scheme option" where
  "eloop_turn_linux call poll w =
     (case eloop_register w of
        None \<Rightarrow> None
      | Some w1 \<Rightarrow> eloop_dispatch call (poll w1) w1)"

partial_function (option) liteco_eloop_run_linux ::
    "(addr \<Rightarrow> addr \<Rightarrow> u32 \<Rightarrow> 'a io_world_scheme \<Rightarrow> 'a io_world_scheme option) \<Rightarrow>
     ('a io_world_scheme \<Rightarrow> (addr \<times> u32) list) \<Rightarrow> 'a io_world_scheme \<Rightarrow> 'a io_world_scheme option" where
  "liteco_eloop_run_linux call poll w =
     (if el_closed w then Some w
      else (case eloop_turn_linux call poll w of
              None \<Rightarrow> None
            | Some w1 \<Rightarrow> liteco_eloop_run_linux call poll w1))"

definition eloop_turn_darwin ::
    "(addr \<Rightarrow> addr \<Rightarrow> u32 \<Rightarrow> 'a io_world_scheme \<Rightarrow> 'a io_world_scheme option) \<Rightarrow>
     (addr \<Rightarrow> addr \<Rightarrow> 'a io_world_scheme \<Rightarrow> 'a io_world_scheme option) \<Rightarrow>
     (timespec \<Rightarrow> 'a io_world_scheme \<Rightarrow> (addr \<times> u32) list) \<Rightarrow> 'a io_world_scheme \<Rightarrow> 'a io_world_scheme option" where
  "eloop_turn_darwin call tcall poll w =
     (case eloop_register w of
        None \<Rightarrow> None
      | Some w1 \<Rightarrow>
          (let (w2, now) = gettimeofday w1
           in case liteco_eloop_timer_active tcall now w2 of
                None \<Rightarrow> None
              | Some w3 \<Rightarrow> eloop_dispatch call (poll (liteco_eloop_timer_wait now w3) w3) w3))"

partial_function (option) liteco_eloop_run_darwin ::
    "(addr \<Rightarrow> addr \<Rightarrow> u32 \<Rightarrow> 'a io_world_scheme \<Rightarrow> 'a io_world_scheme option) \<Rightarrow>
     (addr \<Rightarrow> addr \<Rightarrow> 'a io_world_scheme \<Rightarrow> 'a io_world_scheme option) \<Rightarrow>
     (timespec \<Rightarrow> 'a io_world_scheme \<Rightarrow> (addr \<times> u32) list) \<Rightarrow> 'a io_world_scheme \<Rightarrow> 'a io_world_scheme option" where
  "liteco_eloop_run_darwin call tcall poll w =
     (if el_closed w then Some w
      else (case eloop_turn_darwin call tcall poll w of
              None \<Rightarrow> None
            | Some w1 \<Rightarrow> liteco_eloop_run_darwin call tcall poll w1))"

declare liteco_eloop_run_linux.simps [code] liteco_eloop_run_darwin.simps [code]

definition liteco_eloop_close :: "u32 \<Rightarrow> 'a io_world_scheme \<Rightarrow> 'a io_world_scheme \<times> int" where
  "liteco_eloop_close kfd w =
     (if el_closed w then (w, 0) else (liteco_platform_close kfd (w\<lparr>el_closed := True\<rparr>), 0))"

end
