(* ===== verification/Udp.thy ===== *)
theory Udp
  imports Io
begin

text \<open>
  Datagram sockets (\<open>src/lc_udp.c\<close>), addresses (\<open>src/lc_addr.c\<close>) and the datagram channels that
  put every datagram into a channel. The socket calls of the kernel are parameters; so are the
  user's callbacks, which are called by their identifier.
\<close>

section \<open>Addresses\<close>

text \<open>\<open>union liteco_addr_u\<close>: the family and the bytes behind it. A copy through \<open>struct sockaddr_in\<close>
  or \<open>struct sockaddr_in6\<close> copies as many bytes as that structure has.\<close>

type_synonym u8 = "8 word"
type_synonym u16 = "16 word"

record liteco_addr =
  sa_family :: u16
  sa_data :: "nat \<Rightarrow> u8"

definition AF_UNIX :: u16 where "AF_UNIX = 1"
definition AF_INET :: u16 where "AF_INET = 2"
definition AF_INET6 :: u16 where "AF_INET6 = 10"

definition sizeof_sockaddr_in :: nat where "sizeof_sockaddr_in = 16"
definition sizeof_sockaddr_in6 :: nat where "sizeof_sockaddr_in6 = 28"

definition copy_addr :: "nat \<Rightarrow> liteco_addr \<Rightarrow> liteco_addr \<Rightarrow> liteco_addr" where
  "copy_addr n src dst =
     \<lparr>sa_family = sa_family src, sa_data = (\<lambda>i. if i + 2 < n then sa_data src i else sa_data dst i)\<rparr>"

definition liteco_addr_type_size :: "liteco_addr \<Rightarrow> nat" where
  "liteco_addr_type_size addr =
     (if sa_family addr = AF_INET then sizeof_sockaddr_in
      else if sa_family addr = AF_INET6 then sizeof_sockaddr_in6 else 0)"

text \<open>The switch that \<open>liteco_udp_bind\<close> and \<open>liteco_udp_chan_recv_udp_cb\<close> copy an address with.\<close>

definition assign_addr :: "liteco_addr \<Rightarrow> liteco_addr \<Rightarrow> liteco_addr option" where
  "assign_addr src dst =
     (if sa_family src = AF_INET then Some (copy_addr sizeof_sockaddr_in src dst)
      else if sa_family src = AF_INET6 then Some (copy_addr sizeof_sockaddr_in6 src dst) else None)"

text \<open>The port is stored with its high byte first, then the 4 bytes of the address. \<open>aton\<close> is
  \<open>inet_aton\<close>; when it fails the bytes of the local variable keep the values \<open>junk\<close>.\<close>

definition liteco_ipv4 :: "('s \<Rightarrow> (nat \<Rightarrow> u8) option) \<Rightarrow> (nat \<Rightarrow> u8) \<Rightarrow> 's \<Rightarrow> u16 \<Rightarrow> liteco_addr" where
  "liteco_ipv4 aton junk ip port =
     \<lparr>sa_family = AF_INET,
      sa_data = (\<lambda>i. if i = 0 then ucast (drop_bit 8 port) else if i = 1 then ucast port
                     else if i < 6 then (case aton ip of Some b \<Rightarrow> b (i - 2) | None \<Rightarrow> junk (i - 2))
                     else 0)\<rparr>"

section \<open>State\<close>

datatype liteco_handler_type =
  handler_type_async | handler_type_timer | handler_type_udp | handler_type_pipe | handler_type_runtime

record liteco_udp =
  ud_type :: liteco_handler_type
  ud_alloc_cb :: addr
  ud_recv_cb :: addr
  bd_addr :: liteco_addr

record liteco_udp_chan =
  uc_chan :: addr
  uc_alloc_cb :: addr
  uc_recovery_cb :: addr

record liteco_udp_chan_ele =
  loc_addr :: liteco_addr
  rmt_addr :: liteco_addr
  ue_ret :: int
  ue_b_size :: u64

record udp_world = io_world +
  udps :: "addr \<Rightarrow> liteco_udp"
  uchans :: "addr \<Rightarrow> liteco_udp_chan"
  ueles :: "addr \<Rightarrow> liteco_udp_chan_ele"

text \<open>\<open>container_of\<close> subtracts the offset of the member, on 64-bit pointers.\<close>

definition container_of :: "nat \<Rightarrow> addr \<Rightarrow> addr" where
  "container_of off p = unat (of_nat p - of_nat off :: u64)"

definition off_udp_io :: nat where "off_udp_io = 16"
definition off_ele_buf :: nat where "off_ele_buf = 72"

definition udp_io :: "addr \<Rightarrow> addr" where "udp_io udp = udp + off_udp_io"

definition upd_udp :: "addr \<Rightarrow> (liteco_udp \<Rightarrow> liteco_udp) \<Rightarrow> 'a udp_world_scheme \<Rightarrow> 'a udp_world_scheme" where
  "upd_udp a f w = w\<lparr>udps := (udps w)(a := f (udps w a))\<rparr>"

definition upd_uchan :: "addr \<Rightarrow> (liteco_udp_chan \<Rightarrow> liteco_udp_chan) \<Rightarrow> 'a udp_world_scheme \<Rightarrow> 'a udp_world_scheme" where
  "upd_uchan a f w = w\<lparr>uchans := (uchans w)(a := f (uchans w a))\<rparr>"

definition upd_ele :: "addr \<Rightarrow> (liteco_udp_chan_ele \<Rightarrow> liteco_udp_chan_ele) \<Rightarrow> 'a udp_world_scheme \<Rightarrow> 'a udp_world_scheme" where
  "upd_ele a f w = w\<lparr>ueles := (ueles w)(a := f (ueles w a))\<rparr>"

text \<open>What the kernel does: \<open>socket\<close>, \<open>bind\<close>, \<open>sendmsg\<close> and \<open>recvmsg\<close>. The last one gives the
  return value, \<open>errno\<close> and the address of the peer.\<close>

record recv_result =
  rm_ret :: int
  rm_errno :: int
  rm_peer :: liteco_addr

type_synonym 'w sys_socket = "u16 \<Rightarrow> u32 \<Rightarrow> 'w \<Rightarrow> 'w \<times> u32"
type_synonym 'w sys_bind = "u32 \<Rightarrow> liteco_addr \<Rightarrow> nat \<Rightarrow> 'w \<Rightarrow> 'w \<times> int"
type_synonym 'w sys_sendmsg = "u32 \<Rightarrow> liteco_addr \<Rightarrow> nat \<Rightarrow> addr \<Rightarrow> u64 \<Rightarrow> 'w \<Rightarrow> 'w \<times> int"
type_synonym 'w sys_recvmsg = "u32 \<Rightarrow> addr \<Rightarrow> u64 \<Rightarrow> 'w \<Rightarrow> 'w \<times> recv_result"

definition EAGAIN :: int where "EAGAIN = 11"
definition EWOULDBLOCK :: int where "EWOULDBLOCK = 11"

text \<open>The calls through \<open>alloc_cb\<close>, which gives a buffer and its size, and \<open>recv_cb\<close>.\<close>

type_synonym 'w alloc_call = "addr \<Rightarrow> addr \<Rightarrow> 'w \<Rightarrow> ('w \<times> addr \<times> u64) option"
type_synonym 'w recv_call = "addr \<Rightarrow> addr \<Rightarrow> int \<Rightarrow> liteco_addr option \<Rightarrow> addr \<Rightarrow> u64 \<Rightarrow> 'w \<Rightarrow> 'w option"

definition udp_io_cb_id :: addr where "udp_io_cb_id = 3"

section \<open>Sockets\<close>

text \<open>\<open>SOCK_DGRAM | SOCK_NONBLOCK | SOCK_CLOEXEC\<close>.\<close>

definition liteco_udp_socket :: "'w sys_socket \<Rightarrow> u16 \<Rightarrow> 'w \<Rightarrow> 'w \<times> u32" where
  "liteco_udp_socket sock domain w = sock domain (2 OR 0x800 OR 0x80000) w"

definition liteco_udp_init :: "'a udp_world_scheme sys_socket \<Rightarrow> addr \<Rightarrow> 'a udp_world_scheme \<Rightarrow>
    ('a udp_world_scheme \<times> int) option" where
  "liteco_udp_init sock udp w =
     (let (w1, fd) = liteco_udp_socket sock AF_INET (upd_udp udp (\<lambda>x. x\<lparr>ud_type := handler_type_udp\<rparr>) w)
      in if sint fd < 0 then Some (w1, -1)
         else (case liteco_io_init (udp_io udp) udp_io_cb_id fd w1 of
                 None \<Rightarrow> None
               | Some (w2, _) \<Rightarrow> Some (upd_udp udp (\<lambda>x. x\<lparr>ud_alloc_cb := NIL, ud_recv_cb := NIL\<rparr>) w2, 0)))"

definition liteco_udp_bind :: "'a udp_world_scheme sys_bind \<Rightarrow> addr \<Rightarrow> liteco_addr \<Rightarrow> 'a udp_world_scheme \<Rightarrow>
    'a udp_world_scheme \<times> int" where
  "liteco_udp_bind bind udp a w =
     (case assign_addr a (bd_addr (udps w udp)) of
        None \<Rightarrow> (w, -1)
      | Some b \<Rightarrow>
          (let w1 = upd_udp udp (\<lambda>x. x\<lparr>bd_addr := b\<rparr>) w
           in bind (io_key (ios w1 (udp_io udp))) a (liteco_addr_type_size a) w1))"

definition liteco_udp_sendto :: "'a udp_world_scheme sys_sendmsg \<Rightarrow> addr \<Rightarrow> liteco_addr \<Rightarrow> addr \<Rightarrow> u64 \<Rightarrow>
    'a udp_world_scheme \<Rightarrow> 'a udp_world_scheme \<times> int" where
  "liteco_udp_sendto send udp a buf len w =
     (if sa_family a = AF_INET \<or> sa_family a = AF_INET6
      then send (io_key (ios w (udp_io udp))) a (liteco_addr_type_size a) buf len w
      else (w, -1))"

text \<open>\<open>EPOLLIN | EPOLLET\<close>.\<close>

definition EPOLL_IN_ET :: u32 where "EPOLL_IN_ET = 0x80000001"

definition liteco_eloop_udp_add :: "addr \<Rightarrow> 'a udp_world_scheme \<Rightarrow> ('a udp_world_scheme \<times> int) option" where
  "liteco_eloop_udp_add udp w = map_option (\<lambda>(w1, _). (w1, 0)) (liteco_io_start (udp_io udp) EPOLL_IN_ET w)"

definition liteco_udp_recv :: "addr \<Rightarrow> addr \<Rightarrow> addr \<Rightarrow> 'a udp_world_scheme \<Rightarrow> ('a udp_world_scheme \<times> int) option" where
  "liteco_udp_recv udp alloc_cb recv_cb w =
     map_option (\<lambda>(w1, _). (w1, 0))
       (liteco_eloop_udp_add udp (upd_udp udp (\<lambda>x. x\<lparr>ud_alloc_cb := alloc_cb, ud_recv_cb := recv_cb\<rparr>) w))"

definition liteco_udp_close :: "addr \<Rightarrow> addr \<Rightarrow> 'a udp_world_scheme \<Rightarrow> ('a udp_world_scheme \<times> int) option" where
  "liteco_udp_close mid udp w = liteco_io_stop mid (udp_io udp) (listening_events (ios w (udp_io udp))) w"

text \<open>The loop that reads datagrams until there is none. The result of \<open>recvmsg\<close> is a \<open>ssize_t\<close> that
  is assigned to an \<open>int\<close>.\<close>

definition to_int :: "int \<Rightarrow> int" where
  "to_int n = sint (word_of_int n :: 32 word)"

partial_function (option) udp_recv_loop ::
    "'a udp_world_scheme sys_recvmsg \<Rightarrow> 'a udp_world_scheme alloc_call \<Rightarrow> 'a udp_world_scheme recv_call \<Rightarrow> addr \<Rightarrow>
     'a udp_world_scheme \<Rightarrow> 'a udp_world_scheme option" where
  "udp_recv_loop rcv alloc recv udp w =
     (case alloc (ud_alloc_cb (udps w udp)) udp w of
        None \<Rightarrow> None
      | Some (w1, base, len) \<Rightarrow>
          (if base = NIL \<or> len = 0 then recv (ud_recv_cb (udps w1 udp)) udp (-1) None base len w1
           else (let (w2, r) = rcv (io_key (ios w1 (udp_io udp))) base len w1
                 in if to_int (rm_ret r) = -1 then
                      (if rm_errno r = EAGAIN \<or> rm_errno r = EWOULDBLOCK
                       then recv (ud_recv_cb (udps w2 udp)) udp 0 None base len w2
                       else recv (ud_recv_cb (udps w2 udp)) udp (rm_errno r) (Some (rm_peer r)) base len w2)
                    else (case recv (ud_recv_cb (udps w2 udp)) udp (to_int (rm_ret r)) (Some (rm_peer r)) base len w2 of
                            None \<Rightarrow> None
                          | Some w3 \<Rightarrow> udp_recv_loop rcv alloc recv udp w3))))"

declare udp_recv_loop.simps [code]

definition liteco_udp_io_cb ::
    "'a udp_world_scheme sys_recvmsg \<Rightarrow> 'a udp_world_scheme alloc_call \<Rightarrow> 'a udp_world_scheme recv_call \<Rightarrow> addr \<Rightarrow>
     'a udp_world_scheme \<Rightarrow> 'a udp_world_scheme option" where
  "liteco_udp_io_cb rcv alloc recv handler w =
     (let udp = container_of off_udp_io handler
      in if ud_alloc_cb (udps w udp) = NIL \<or> ud_recv_cb (udps w udp) = NIL then Some w
         else udp_recv_loop rcv alloc recv udp w)"

section \<open>Datagram channels\<close>

text \<open>The socket is the first member of \<open>liteco_udp_chan_t\<close>, so both have the same address. The
  user's callbacks: \<open>alloc_cb\<close> gives an element or a null pointer, \<open>recovery_cb\<close> takes one back.\<close>

type_synonym 'w uchan_alloc = "addr \<Rightarrow> addr \<Rightarrow> 'w \<Rightarrow> ('w \<times> addr) option"
type_synonym 'w uchan_recovery = "addr \<Rightarrow> addr \<Rightarrow> addr \<Rightarrow> 'w \<Rightarrow> 'w option"

definition udp_chan_alloc_id :: addr where "udp_chan_alloc_id = 4"
definition udp_chan_recv_id :: addr where "udp_chan_recv_id = 5"

definition liteco_udp_chan_alloc_udp_cb :: "'a udp_world_scheme uchan_alloc \<Rightarrow> addr \<Rightarrow> 'a udp_world_scheme \<Rightarrow>
    ('a udp_world_scheme \<times> addr \<times> u64) option" where
  "liteco_udp_chan_alloc_udp_cb ualloc udp w =
     (let uchan = container_of 0 udp
      in case ualloc (uc_alloc_cb (uchans w uchan)) uchan w of
           None \<Rightarrow> None
         | Some (w1, ele) \<Rightarrow>
             (if ele = NIL then Some (w1, NIL, 0)
              else Some (w1, ele + off_ele_buf, ue_b_size (ueles w1 ele))))"

definition liteco_udp_chan_recv_udp_cb :: "'a udp_world_scheme uchan_recovery \<Rightarrow> addr \<Rightarrow> int \<Rightarrow> liteco_addr option \<Rightarrow>
    addr \<Rightarrow> 'a udp_world_scheme \<Rightarrow> 'a udp_world_scheme option" where
  "liteco_udp_chan_recv_udp_cb urec udp ret peer buf w =
     (let uchan = container_of 0 udp;
          ele = container_of off_ele_buf buf
      in if ret \<le> 0 then urec (uc_recovery_cb (uchans w uchan)) uchan ele w
         else (case peer of
                 None \<Rightarrow> None
               | Some p \<Rightarrow>
                   (let w1 = upd_ele ele (\<lambda>x. x\<lparr>ue_ret := ret, loc_addr := bd_addr (udps w udp)\<rparr>) w;
                        w2 = (case assign_addr p (rmt_addr (ueles w1 ele)) of
                                None \<Rightarrow> w1 | Some b \<Rightarrow> upd_ele ele (\<lambda>x. x\<lparr>rmt_addr := b\<rparr>) w1)
                    in map_option fst (liteco_chan_unenforceable_push (uc_chan (uchans w2 uchan)) ele w2))))"

text \<open>The callbacks of a socket by their identifiers: the two of the datagram channels, or the
  user's.\<close>

definition udp_alloc_call :: "'a udp_world_scheme uchan_alloc \<Rightarrow> 'a udp_world_scheme alloc_call \<Rightarrow>
    'a udp_world_scheme alloc_call" where
  "udp_alloc_call ualloc user cb udp w =
     (if cb = udp_chan_alloc_id then liteco_udp_chan_alloc_udp_cb ualloc udp w else user cb udp w)"

definition udp_recv_call :: "'a udp_world_scheme uchan_recovery \<Rightarrow> 'a udp_world_scheme recv_call \<Rightarrow>
    'a udp_world_scheme recv_call" where
  "udp_recv_call urec user cb udp ret peer buf len w =
     (if cb = udp_chan_recv_id then liteco_udp_chan_recv_udp_cb urec udp ret peer buf w
      else user cb udp ret peer buf len w)"

definition liteco_udp_chan_init :: "'a udp_world_scheme sys_socket \<Rightarrow> addr \<Rightarrow> 'a udp_world_scheme \<Rightarrow>
    ('a udp_world_scheme \<times> int) option" where
  "liteco_udp_chan_init sock uchan w =
     map_option (\<lambda>(w1, _). (w1, 0))
       (liteco_udp_init sock uchan (upd_uchan uchan (\<lambda>_. \<lparr>uc_chan = NIL, uc_alloc_cb = NIL, uc_recovery_cb = NIL\<rparr>) w))"

definition liteco_udp_chan_bind :: "'a udp_world_scheme sys_bind \<Rightarrow> addr \<Rightarrow> liteco_addr \<Rightarrow> addr \<Rightarrow>
    'a udp_world_scheme \<Rightarrow> 'a udp_world_scheme \<times> int" where
  "liteco_udp_chan_bind bind uchan a c w = liteco_udp_bind bind uchan a (upd_uchan uchan (\<lambda>x. x\<lparr>uc_chan := c\<rparr>) w)"

definition liteco_udp_chan_sendto :: "'a udp_world_scheme sys_sendmsg \<Rightarrow> addr \<Rightarrow> liteco_addr \<Rightarrow> addr \<Rightarrow> u64 \<Rightarrow>
    'a udp_world_scheme \<Rightarrow> 'a udp_world_scheme \<times> int" where
  "liteco_udp_chan_sendto send uchan a buf len w = liteco_udp_sendto send uchan a buf len w"

definition liteco_udp_chan_recv :: "addr \<Rightarrow> addr \<Rightarrow> addr \<Rightarrow> 'a udp_world_scheme \<Rightarrow> ('a udp_world_scheme \<times> int) option" where
  "liteco_udp_chan_recv uchan alloc_cb recovery_cb w =
     liteco_udp_recv uchan udp_chan_alloc_id udp_chan_recv_id
       (upd_uchan uchan (\<lambda>x. x\<lparr>uc_alloc_cb := alloc_cb, uc_recovery_cb := recovery_cb\<rparr>) w)"

definition liteco_udp_chan_close :: "addr \<Rightarrow> addr \<Rightarrow> 'a udp_world_scheme \<Rightarrow> ('a udp_world_scheme \<times> int) option" where
  "liteco_udp_chan_close mid uchan w = map_option (\<lambda>(w1, _). (w1, 0)) (liteco_udp_close mid uchan w)"

end
