(* ===== verification/Platform.thy ===== *)
theory Platform
  imports Udp
begin

text \<open>
  The Darwin side of the platform layer: the system call wrappers of
  \<open>src/platform/darwin/internal.c\<close>, and the initialisation and the wake-up pipe of the event loop in
  \<open>src/platform/darwin/lc_eloop.c\<close>. System calls are parameters that return the new world and the
  result; \<open>errno\<close> is part of the world.
\<close>

section \<open>State\<close>

text \<open>\<open>async_r\<close> is the address of \<open>eloop->async_r\<close>, a descriptor like every other.\<close>

record sys_world = udp_world +
  errno :: int
  async_r :: addr
  async_wfd :: u32
  kqueue_fd :: u32

definition EINTR :: int where "EINTR = 4"
definition DARWIN_EAGAIN :: int where "DARWIN_EAGAIN = 35"
definition DARWIN_EWOULDBLOCK :: int where "DARWIN_EWOULDBLOCK = 35"
definition EVFILT_READ :: u32 where "EVFILT_READ = - 1"

definition no_fd :: u32 where "no_fd = - 1"

datatype ioctl_request = FIOCLEX | FIONCLEX | FIONBIO bool

type_synonym 'w sys_ioctl = "u32 \<Rightarrow> ioctl_request \<Rightarrow> 'w \<Rightarrow> 'w \<times> int"
type_synonym 'w sys_pipe = "'w \<Rightarrow> 'w \<times> int \<times> u32 \<times> u32"
type_synonym 'w sys_accept = "u32 \<Rightarrow> 'w \<Rightarrow> 'w \<times> int"

section \<open>System calls\<close>

text \<open>\<open>do { r = call(); } while (r == -1 && errno == EINTR)\<close>\<close>

partial_function (option) retry_loop ::
    "('a sys_world_scheme \<Rightarrow> 'a sys_world_scheme \<times> int) \<Rightarrow> 'a sys_world_scheme \<Rightarrow> ('a sys_world_scheme \<times> int) option" where
  "retry_loop call w =
     (let (w1, r) = call w
      in if r = -1 \<and> errno w1 = EINTR then retry_loop call w1 else Some (w1, r))"

declare retry_loop.simps [code]

definition liteco_platform_cloexec :: "'a sys_world_scheme sys_ioctl \<Rightarrow> u32 \<Rightarrow> bool \<Rightarrow> 'a sys_world_scheme \<Rightarrow>
    ('a sys_world_scheme \<times> int) option" where
  "liteco_platform_cloexec ioctl fd st w =
     map_option (\<lambda>(w1, r). (w1, if r \<noteq> 0 then errno w1 else 0))
       (retry_loop (ioctl fd (if st then FIOCLEX else FIONCLEX)) w)"

definition liteco_platform_nonblock :: "'a sys_world_scheme sys_ioctl \<Rightarrow> u32 \<Rightarrow> bool \<Rightarrow> 'a sys_world_scheme \<Rightarrow>
    ('a sys_world_scheme \<times> int) option" where
  "liteco_platform_nonblock ioctl fd st w =
     map_option (\<lambda>(w1, r). (w1, if r \<noteq> 0 then errno w1 else 0)) (retry_loop (ioctl fd (FIONBIO st)) w)"

text \<open>The error of the first \<open>cloexec\<close> that fails closes both ends.\<close>

definition liteco_platform_pipe :: "'a sys_world_scheme sys_pipe \<Rightarrow> 'a sys_world_scheme sys_ioctl \<Rightarrow>
    'a sys_world_scheme \<Rightarrow> ('a sys_world_scheme \<times> int \<times> u32 \<times> u32) option" where
  "liteco_platform_pipe pipe ioctl w =
     (let (w1, r, fd0, fd1) = pipe w
      in if r \<noteq> 0 then Some (w1, errno w1, fd0, fd1)
         else (case liteco_platform_cloexec ioctl fd0 True w1 of
                 None \<Rightarrow> None
               | Some (w2, err) \<Rightarrow>
                   (if err \<noteq> 0 then Some (liteco_platform_close fd1 (liteco_platform_close fd0 w2), err, fd0, fd1)
                    else map_option (\<lambda>(w3, err). if err \<noteq> 0
                             then (liteco_platform_close fd1 (liteco_platform_close fd0 w3), err, fd0, fd1)
                             else (w3, 0, fd0, fd1))
                           (liteco_platform_cloexec ioctl fd1 True w2))))"

text \<open>The flags of a new socket; the results of the two calls are not looked at.\<close>

definition socket_flags :: "'a sys_world_scheme sys_ioctl \<Rightarrow> u32 \<Rightarrow> 'a sys_world_scheme \<Rightarrow> 'a sys_world_scheme option" where
  "socket_flags ioctl fd w =
     Option.bind (liteco_platform_nonblock ioctl fd True w)
       (\<lambda>(w1, _). map_option fst (liteco_platform_cloexec ioctl fd True w1))"

definition darwin_udp_socket :: "'a sys_world_scheme sys_socket \<Rightarrow> 'a sys_world_scheme sys_ioctl \<Rightarrow> u16 \<Rightarrow>
    'a sys_world_scheme \<Rightarrow> ('a sys_world_scheme \<times> u32) option" where
  "darwin_udp_socket sock ioctl domain w =
     (let (w1, fd) = sock domain 2 w in map_option (\<lambda>w2. (w2, fd)) (socket_flags ioctl fd w1))"

definition liteco_pipe_socket :: "'a sys_world_scheme sys_socket \<Rightarrow> 'a sys_world_scheme sys_ioctl \<Rightarrow>
    'a sys_world_scheme \<Rightarrow> ('a sys_world_scheme \<times> u32) option" where
  "liteco_pipe_socket sock ioctl w =
     (let (w1, fd) = sock AF_UNIX 1 w in map_option (\<lambda>w2. (w2, fd)) (socket_flags ioctl fd w1))"

text \<open>The flags are set on the listening descriptor \<open>fd\<close>, not on the new one.\<close>

definition liteco_platform_accept :: "'a sys_world_scheme sys_accept \<Rightarrow> 'a sys_world_scheme sys_ioctl \<Rightarrow> u32 \<Rightarrow>
    'a sys_world_scheme \<Rightarrow> ('a sys_world_scheme \<times> int) option" where
  "liteco_platform_accept accept ioctl fd w =
     (case retry_loop (accept fd) w of
        None \<Rightarrow> None
      | Some (w1, peerfd) \<Rightarrow>
          (if peerfd = -1 then Some (w1, -1)
           else Option.bind (liteco_platform_cloexec ioctl fd True w1)
                  (\<lambda>(w2, _). map_option (\<lambda>(w3, _). (w3, peerfd)) (liteco_platform_nonblock ioctl fd True w2))))"

section \<open>The event loop\<close>

text \<open>\<open>kqueue\<close> is the system call. The lists of the event loop are empty afterwards.\<close>

definition darwin_eloop_init :: "('a sys_world_scheme \<Rightarrow> 'a sys_world_scheme \<times> u32) \<Rightarrow> 'a sys_world_scheme \<Rightarrow>
    'a sys_world_scheme \<times> int" where
  "darwin_eloop_init kqueue w =
     (let w1 = w\<lparr>el_closed := False, async_wfd := no_fd, mon := (mon w)\<lparr>root := NIL\<rparr>, reg := (reg w)\<lparr>root := NIL\<rparr>\<rparr>;
          (w2, kfd) = kqueue w1
      in (w2\<lparr>kqueue_fd := kfd, async_list := [], timer_heap := liteco_heap_init (timer_heap w2)\<rparr>, 0))"

definition async_r_cb_id :: addr where "async_r_cb_id = 6"

definition darwin_async_init :: "'a sys_world_scheme sys_pipe \<Rightarrow> 'a sys_world_scheme sys_ioctl \<Rightarrow>
    'a sys_world_scheme \<Rightarrow> ('a sys_world_scheme \<times> int) option" where
  "darwin_async_init pipe ioctl w =
     (if async_wfd w \<noteq> no_fd then Some (w, 0)
      else (case liteco_platform_pipe pipe ioctl w of
              None \<Rightarrow> None
            | Some (w1, err, fd0, fd1) \<Rightarrow>
                (if err \<noteq> 0 then Some (w1, err)
                 else Option.bind (liteco_platform_nonblock ioctl fd0 True w1) (\<lambda>(w2, _).
                      Option.bind (liteco_platform_nonblock ioctl fd1 True w2) (\<lambda>(w3, _).
                      Option.bind (liteco_io_init (async_r w3) async_r_cb_id fd0 w3) (\<lambda>(w4, _).
                      map_option (\<lambda>(w5, _). (w5\<lparr>async_wfd := fd1\<rparr>, 0))
                        (liteco_io_start (async_r w4) EVFILT_READ w4)))))))"

text \<open>The pipe is read byte by byte until it is empty; \<open>False\<close> means that the callback returns
  at once. \<open>read\<close> is the system call for one byte.\<close>

partial_function (option) pipe_drain ::
    "('a sys_world_scheme \<Rightarrow> 'a sys_world_scheme \<times> int) \<Rightarrow> 'a sys_world_scheme \<Rightarrow> ('a sys_world_scheme \<times> bool) option" where
  "pipe_drain read w =
     (let (w1, len) = read w
      in if len = 1 then pipe_drain read w1
         else if errno w1 = DARWIN_EAGAIN \<or> errno w1 = DARWIN_EWOULDBLOCK then Some (w1, True)
         else if errno w1 = EINTR then pipe_drain read w1
         else Some (w1, False))"

declare pipe_drain.simps [code]

definition darwin_async_io_cb ::
    "(u32 \<Rightarrow> 'a sys_world_scheme \<Rightarrow> 'a sys_world_scheme \<times> int) \<Rightarrow>
     (addr \<Rightarrow> addr \<Rightarrow> 'a sys_world_scheme \<Rightarrow> 'a sys_world_scheme option) \<Rightarrow> addr \<Rightarrow>
     'a sys_world_scheme \<Rightarrow> 'a sys_world_scheme option" where
  "darwin_async_io_cb read call io w =
     (if io \<noteq> async_r w then None
      else (case pipe_drain (read (io_key (ios w io))) w of
              None \<Rightarrow> None
            | Some (w1, go) \<Rightarrow> (if go then async_dispatch call 0 w1 else Some w1)))"

definition darwin_async_send :: "(u32 \<Rightarrow> 'a sys_world_scheme \<Rightarrow> 'a sys_world_scheme \<times> int) \<Rightarrow>
    'a sys_world_scheme \<Rightarrow> ('a sys_world_scheme \<times> int) option" where
  "darwin_async_send write w =
     map_option (\<lambda>(w1, r). (w1, if r = 1 then 0 else -1)) (retry_loop (write (async_wfd w)) w)"

end
