(* ===== verification/Streams.thy ===== *)
theory Streams
  imports Platform
begin

text \<open>
  Streams and pipes: \<open>src/lc_stream.c\<close> and \<open>src/lc_pipe.c\<close>, with the two functions of
  \<open>src/platform/darwin/lc_eloop.c\<close> that start and stop a stream (Linux has none). A pipe is a stream
  with one more field, so both are the same record.
\<close>

section \<open>State\<close>

record liteco_stream =
  st_type :: liteco_handler_type
  accept_fd :: u32
  connection_cb :: addr
  st_alloc_cb :: addr
  st_recv_cb :: addr
  ipc :: bool

record st_world = sys_world +
  streams :: "addr \<Rightarrow> liteco_stream"

definition DARWIN_ECONNABORTED :: int where "DARWIN_ECONNABORTED = 53"
definition sun_path_size :: nat where "sun_path_size = 104"

definition off_stream_io :: nat where "off_stream_io = 16"

definition stream_io :: "addr \<Rightarrow> addr" where "stream_io st = st + off_stream_io"

definition stream_io_cb_id :: addr where "stream_io_cb_id = 8"
definition server_io_cb_id :: addr where "server_io_cb_id = 9"

definition upd_st :: "addr \<Rightarrow> (liteco_stream \<Rightarrow> liteco_stream) \<Rightarrow> 'a st_world_scheme \<Rightarrow> 'a st_world_scheme" where
  "upd_st a f w = w\<lparr>streams := (streams w)(a := f (streams w a))\<rparr>"

definition stream_fd :: "'a st_world_scheme \<Rightarrow> addr \<Rightarrow> u32" where
  "stream_fd w st = io_key (ios w (stream_io st))"

definition set_stream_fd :: "addr \<Rightarrow> u32 \<Rightarrow> 'a st_world_scheme \<Rightarrow> 'a st_world_scheme" where
  "set_stream_fd st fd w = upd_io (stream_io st) (\<lambda>x. x\<lparr>io_key := fd\<rparr>) w"

text \<open>\<open>listen\<close>, \<open>bind\<close> and \<open>connect\<close> to a path, \<open>send\<close> and \<open>read\<close> or \<open>recvmsg\<close>.\<close>

type_synonym 'w sys_listen = "u32 \<Rightarrow> int \<Rightarrow> 'w \<Rightarrow> 'w \<times> int"
type_synonym 'w sys_path = "u32 \<Rightarrow> string \<Rightarrow> 'w \<Rightarrow> 'w \<times> int"
type_synonym 'w sys_buffer = "u32 \<Rightarrow> addr \<Rightarrow> u64 \<Rightarrow> 'w \<Rightarrow> 'w \<times> int"

type_synonym 'w conn_call = "addr \<Rightarrow> addr \<Rightarrow> int \<Rightarrow> 'w \<Rightarrow> 'w option"
type_synonym 'w stream_recv_call = "addr \<Rightarrow> addr \<Rightarrow> int \<Rightarrow> addr \<Rightarrow> u64 \<Rightarrow> 'w \<Rightarrow> 'w option"

section \<open>Starting and stopping a stream\<close>

definition liteco_eloop_stream_add :: "addr \<Rightarrow> 'a st_world_scheme \<Rightarrow> ('a st_world_scheme \<times> int) option" where
  "liteco_eloop_stream_add st w = map_option (\<lambda>(w1, _). (w1, 0)) (liteco_io_start (stream_io st) EVFILT_READ w)"

definition liteco_eloop_stream_remove :: "addr \<Rightarrow> addr \<Rightarrow> 'a st_world_scheme \<Rightarrow> ('a st_world_scheme \<times> int) option" where
  "liteco_eloop_stream_remove mid st w = map_option (\<lambda>(w1, _). (w1, 0)) (liteco_io_stop mid (stream_io st) EVFILT_READ w)"

section \<open>Streams\<close>

definition liteco_stream_init :: "addr \<Rightarrow> liteco_handler_type \<Rightarrow> 'a st_world_scheme \<Rightarrow> 'a st_world_scheme \<times> int" where
  "liteco_stream_init st ty w =
     (set_stream_fd st no_fd
        (upd_st st (\<lambda>x. x\<lparr>st_type := ty, st_alloc_cb := NIL, connection_cb := NIL, st_recv_cb := NIL\<rparr>) w), 0)"

definition liteco_pipe_init :: "addr \<Rightarrow> bool \<Rightarrow> 'a st_world_scheme \<Rightarrow> 'a st_world_scheme \<times> int" where
  "liteco_pipe_init p i w = (upd_st p (\<lambda>x. x\<lparr>ipc := i\<rparr>) (fst (liteco_stream_init p handler_type_pipe w)), 0)"

definition liteco_pipe_listen :: "'a st_world_scheme sys_listen \<Rightarrow> addr \<Rightarrow> int \<Rightarrow> addr \<Rightarrow> 'a st_world_scheme \<Rightarrow>
    ('a st_world_scheme \<times> int) option" where
  "liteco_pipe_listen listen p backlog cb w =
     (if stream_fd w p = no_fd then Some (w, -1)
      else if ipc (streams w p) then Some (w, -1)
      else (let (w1, r) = listen (stream_fd w p) backlog w
            in if r \<noteq> 0 then Some (w1, -1)
               else (let w2 = upd_st p (\<lambda>x. x\<lparr>connection_cb := cb\<rparr>) w1
                     in Option.bind (liteco_io_init (stream_io p) server_io_cb_id (stream_fd w2 p) w2)
                          (\<lambda>(w3, _). map_option (\<lambda>(w4, _). (w4, 0)) (liteco_eloop_stream_add p w3)))))"

definition liteco_stream_listen :: "'a st_world_scheme sys_listen \<Rightarrow> addr \<Rightarrow> int \<Rightarrow> addr \<Rightarrow> 'a st_world_scheme \<Rightarrow>
    ('a st_world_scheme \<times> int) option" where
  "liteco_stream_listen listen st backlog cb w =
     (if st_type (streams w st) = handler_type_pipe then liteco_pipe_listen listen st backlog cb w else Some (w, -1))"

definition liteco_stream_accept :: "addr \<Rightarrow> addr \<Rightarrow> 'a st_world_scheme \<Rightarrow> ('a st_world_scheme \<times> int) option" where
  "liteco_stream_accept server client w =
     (if accept_fd (streams w server) = no_fd then Some (w, -1)
      else if st_type (streams w client) \<noteq> handler_type_pipe then Some (w, -2)
      else (let w1 = set_stream_fd client (accept_fd (streams w server)) w;
                w2 = upd_st server (\<lambda>x. x\<lparr>accept_fd := no_fd\<rparr>) w1
            in map_option (\<lambda>(w3, _). (w3, 0)) (liteco_eloop_stream_add server w2)))"

definition liteco_stream_recv :: "addr \<Rightarrow> addr \<Rightarrow> addr \<Rightarrow> 'a st_world_scheme \<Rightarrow> ('a st_world_scheme \<times> int) option" where
  "liteco_stream_recv st alloc_cb recv_cb w =
     (let w1 = upd_st st (\<lambda>x. x\<lparr>st_alloc_cb := alloc_cb, st_recv_cb := recv_cb\<rparr>) w
      in Option.bind (liteco_io_init (stream_io st) stream_io_cb_id (stream_fd w1 st) w1)
           (\<lambda>(w2, _). map_option (\<lambda>(w3, _). (w3, 0)) (liteco_eloop_stream_add st w2)))"

text \<open>\<open>send\<close> returns the number of bytes; only 0 counts as success.\<close>

definition liteco_stream_send :: "'a st_world_scheme sys_buffer \<Rightarrow> addr \<Rightarrow> addr \<Rightarrow> u64 \<Rightarrow> 'a st_world_scheme \<Rightarrow>
    'a st_world_scheme \<times> int" where
  "liteco_stream_send send st buf b_size w =
     (if stream_fd w st = no_fd then (w, -1)
      else (let (w1, r) = send (stream_fd w st) buf b_size w in if r \<noteq> 0 then (w1, -1) else (w1, 0)))"

text \<open>The read loop: \<open>recvmsg\<close> for a pipe between processes and \<open>read\<close> otherwise. A return value
  of 0, the end of the stream, is treated like an error, with the \<open>errno\<close> that is left over.\<close>

partial_function (option) stream_recv_loop ::
    "'a st_world_scheme sys_buffer \<Rightarrow> 'a st_world_scheme sys_buffer \<Rightarrow> 'a st_world_scheme alloc_call \<Rightarrow>
     'a st_world_scheme stream_recv_call \<Rightarrow> addr \<Rightarrow> 'a st_world_scheme \<Rightarrow> 'a st_world_scheme option" where
  "stream_recv_loop rcvmsg read alloc recv st w =
     (case alloc (st_alloc_cb (streams w st)) st w of
        None \<Rightarrow> None
      | Some (w1, base, len) \<Rightarrow>
          (if base = NIL \<or> len = 0 then recv (st_recv_cb (streams w1 st)) st (-1) base len w1
           else
             (let i = (st_type (streams w1 st) = handler_type_pipe \<and> ipc (streams w1 st))
              in case retry_loop ((if i then rcvmsg else read) (stream_fd w1 st) base len) w1 of
                   None \<Rightarrow> None
                 | Some (w2, ret) \<Rightarrow>
                     (if ret \<le> 0 then
                        (if errno w2 = DARWIN_EAGAIN \<or> errno w2 = DARWIN_EWOULDBLOCK
                         then recv (st_recv_cb (streams w2 st)) st 0 base len w2
                         else recv (st_recv_cb (streams w2 st)) st (errno w2) base len w2)
                      else (case recv (st_recv_cb (streams w2 st)) st ret base len w2 of
                              None \<Rightarrow> None
                            | Some w3 \<Rightarrow> stream_recv_loop rcvmsg read alloc recv st w3)))))"

declare stream_recv_loop.simps [code]

definition liteco_stream_io_cb ::
    "'a st_world_scheme sys_buffer \<Rightarrow> 'a st_world_scheme sys_buffer \<Rightarrow> 'a st_world_scheme alloc_call \<Rightarrow>
     'a st_world_scheme stream_recv_call \<Rightarrow> addr \<Rightarrow> 'a st_world_scheme \<Rightarrow> 'a st_world_scheme option" where
  "liteco_stream_io_cb rcvmsg read alloc recv handler w =
     (let st = container_of off_stream_io handler
      in if st_alloc_cb (streams w st) = NIL \<or> st_recv_cb (streams w st) = NIL then Some w
         else stream_recv_loop rcvmsg read alloc recv st w)"

section \<open>Servers\<close>

text \<open>The accept loop of a server, up to the end or the next turn. \<open>mid\<close> is the address of the
  local node of a removal.\<close>

partial_function (option) server_loop ::
    "'a st_world_scheme sys_accept \<Rightarrow> 'a st_world_scheme sys_ioctl \<Rightarrow> 'a st_world_scheme conn_call \<Rightarrow> addr \<Rightarrow> addr \<Rightarrow>
     'a st_world_scheme \<Rightarrow> 'a st_world_scheme option" where
  "server_loop accept ioctl conn mid st w =
     (if stream_fd w st = no_fd then Some w
      else (case liteco_platform_accept accept ioctl (stream_fd w st) w of
              None \<Rightarrow> None
            | Some (w1, ret) \<Rightarrow>
                (if ret < 0 \<and> (errno w1 = DARWIN_EAGAIN \<or> errno w1 = DARWIN_EWOULDBLOCK) then Some w1
                 else if ret < 0 \<and> errno w1 = DARWIN_ECONNABORTED then server_loop accept ioctl conn mid st w1
                 else (case (if ret < 0 then conn (connection_cb (streams w1 st)) st ret w1 else Some w1) of
                         None \<Rightarrow> None
                       | Some w2 \<Rightarrow>
                           (let w3 = upd_st st (\<lambda>x. x\<lparr>accept_fd := word_of_int ret\<rparr>) w2
                            in case conn (connection_cb (streams w3 st)) st 0 w3 of
                                 None \<Rightarrow> None
                               | Some w4 \<Rightarrow>
                                   (if accept_fd (streams w4 st) \<noteq> no_fd
                                    then map_option fst (liteco_eloop_stream_remove mid st w4)
                                    else server_loop accept ioctl conn mid st w4))))))"

declare server_loop.simps [code]

definition liteco_server_io_cb ::
    "'a st_world_scheme sys_accept \<Rightarrow> 'a st_world_scheme sys_ioctl \<Rightarrow> 'a st_world_scheme conn_call \<Rightarrow> addr \<Rightarrow> addr \<Rightarrow>
     'a st_world_scheme \<Rightarrow> 'a st_world_scheme option" where
  "liteco_server_io_cb accept ioctl conn mid io w =
     (let st = container_of off_stream_io io
      in Option.bind (liteco_eloop_stream_add st w) (\<lambda>(w1, _). server_loop accept ioctl conn mid st w1))"

section \<open>Pipes by name\<close>

text \<open>\<open>strcpy\<close> into \<open>sun_path\<close> writes the name and its end without a check; a longer name is
  undefined behaviour, here \<open>None\<close>.\<close>

definition liteco_pipe_bind :: "'a st_world_scheme sys_socket \<Rightarrow> 'a st_world_scheme sys_ioctl \<Rightarrow> 'a st_world_scheme sys_path \<Rightarrow>
    addr \<Rightarrow> string \<Rightarrow> 'a st_world_scheme \<Rightarrow> ('a st_world_scheme \<times> int) option" where
  "liteco_pipe_bind sock ioctl bind p name w =
     (case liteco_pipe_socket sock ioctl w of
        None \<Rightarrow> None
      | Some (w1, fd) \<Rightarrow>
          (if sint fd < 0 then Some (w1, -1)
           else if sun_path_size \<le> length name then None
           else (let (w2, r) = bind fd name w1
                 in if r \<noteq> 0 then Some (liteco_platform_close fd w2, -1)
                    else Some (set_stream_fd p fd w2, 0))))"

definition liteco_pipe_connect :: "'a st_world_scheme sys_socket \<Rightarrow> 'a st_world_scheme sys_ioctl \<Rightarrow> 'a st_world_scheme sys_path \<Rightarrow>
    addr \<Rightarrow> string \<Rightarrow> 'a st_world_scheme \<Rightarrow> ('a st_world_scheme \<times> int) option" where
  "liteco_pipe_connect sock ioctl connect p name w =
     (case liteco_pipe_socket sock ioctl w of
        None \<Rightarrow> None
      | Some (w1, fd) \<Rightarrow>
          (if sint fd < 0 then Some (w1, -1)
           else if sun_path_size \<le> length name then None
           else retry_loop (connect fd name) (set_stream_fd p fd w1)))"

end
