(* ===== verification/Rbt_Index.thy ===== *)
theory Rbt_Index
  imports Rbt_Morris
begin

text \<open>
  The red-black tree as an index: a map from keys to nodes. The contract of an index is the locale
  \<open>index\<close>; every sequence of insertions, searches and walks of an implementation of it returns what
  the map returns. \<open>lc_rbt.c\<close> meets it as long as nothing is removed (\<open>remove_order\<close> says what a
  removal does to it).
\<close>

section \<open>Insertion leaves the threads alone\<close>

definition threads :: "rbt_state \<Rightarrow> addr \<Rightarrow> addr" where
  "threads s a = morris_link (mem s a)"

lemma threads_setters [simp]:
  "threads (set_l a v s) = threads s" "threads (set_r a v s) = threads s" "threads (set_p a v s) = threads s"
  "threads (set_c a c s) = threads s" "threads (s\<lparr>root := v\<rparr>) = threads s"
  by (auto simp: threads_def rbt_setters fun_eq_iff)

lemma threads_lr [simp]: "threads (rbt_lr n s) = threads s"
  unfolding rbt_lr_def Let_def by (simp split del: if_split add: if_distrib [of threads] cong: if_cong)

lemma threads_rr [simp]: "threads (rbt_rr n s) = threads s"
  unfolding rbt_rr_def Let_def by (simp split del: if_split add: if_distrib [of threads] cong: if_cong)

lemma threads_fix_body: "threads (fst (rbt_fix_body sn)) = threads (fst sn)"
  unfolding rbt_fix_body_def Let_def by (simp split: prod.split)

lemma threads_fix_loop: "rbt_fix_loop sn = Some s' \<Longrightarrow> threads s' = threads (fst sn)"
proof (erule rbt_fix_loop.raw_induct [rotated, of _ _ "\<lambda>sn s'. threads s' = threads (fst sn)"])
  fix f sn s'
  assume IH: "\<And>x y. f x = Some y \<Longrightarrow> threads y = threads (fst x)"
    and r: "(if col (fst sn) (par (fst sn) (snd sn)) = RBT_RED then f (rbt_fix_body sn) else Some (fst sn)) = Some s'"
  show "threads s' = threads (fst sn)"
    using r IH [of "rbt_fix_body sn"] threads_fix_body [of sn] by (simp split: if_splits)
qed

lemma threads_slot_set: "threads (slot_set i v s) = threads s"
  by (cases i) simp_all

lemma threads_insert: "liteco_rbt_insert_impl cb k n s = Some (s', e) \<Longrightarrow> threads s' = threads s"
  by (auto simp: liteco_rbt_insert_impl_def rbt_fix_def threads_slot_set dest!: threads_fix_loop
      split: option.splits)

lemma links_clear_threads: "links_clear s t \<longleftrightarrow> (\<forall>a\<in>set (addrs t). threads s a = NIL)"
  by (simp add: links_clear_def threads_def)

section \<open>The contract\<close>

text \<open>A walk is a loop \<open>liteco_rbt_foreach\<close> that collects the nodes.\<close>

datatype idx_op = Ins addr | Look u64 | Walk
datatype idx_out = Code int | Found addr | Nodes "addr list"

fun map_step :: "(addr \<Rightarrow> u64) \<Rightarrow> idx_op \<Rightarrow> (u64 \<rightharpoonup> addr) \<Rightarrow> (u64 \<rightharpoonup> addr) \<times> idx_out" where
  "map_step keys (Ins a) m =
     (case m (keys a) of
        None \<Rightarrow> (m(keys a \<mapsto> a), Code liteco_rbt_err_success)
      | Some _ \<Rightarrow> (m, Code liteco_rbt_err_conflict))"
| "map_step keys (Look k) m = (m, Found (case m k of None \<Rightarrow> NIL | Some a \<Rightarrow> a))"
| "map_step keys Walk m = (m, Nodes (map (\<lambda>k. the (m k)) (sorted_list_of_set (dom m))))"

fun map_run :: "(addr \<Rightarrow> u64) \<Rightarrow> idx_op list \<Rightarrow> (u64 \<rightharpoonup> addr) \<Rightarrow> (u64 \<rightharpoonup> addr) \<times> idx_out list" where
  "map_run keys [] m = (m, [])"
| "map_run keys (x # xs) m =
     (let (m1, r) = map_step keys x m; (m2, rs) = map_run keys xs m1 in (m2, r # rs))"

fun idx_run :: "(idx_op \<Rightarrow> 's \<Rightarrow> ('s \<times> idx_out) option) \<Rightarrow> idx_op list \<Rightarrow> 's \<Rightarrow> ('s \<times> idx_out list) option" where
  "idx_run step [] s = Some (s, [])"
| "idx_run step (x # xs) s =
     (case step x s of
        None \<Rightarrow> None
      | Some (s1, r) \<Rightarrow> map_option (\<lambda>(s2, rs). (s2, r # rs)) (idx_run step xs s1))"

text \<open>The nodes that a sequence inserts. A node is inserted once.\<close>

fun new_nodes :: "idx_op list \<Rightarrow> addr list" where
  "new_nodes [] = []"
| "new_nodes (Ins a # xs) = a # new_nodes xs"
| "new_nodes (Look k # xs) = new_nodes xs"
| "new_nodes (Walk # xs) = new_nodes xs"

locale index =
  fixes keys :: "addr \<Rightarrow> u64"
    and step :: "idx_op \<Rightarrow> 's \<Rightarrow> ('s \<times> idx_out) option"
    and holds :: "'s \<Rightarrow> (u64 \<rightharpoonup> addr) \<Rightarrow> bool"
  assumes step_map: "holds s m \<Longrightarrow> NIL \<notin> set (new_nodes [x]) \<Longrightarrow> set (new_nodes [x]) \<inter> ran m = {} \<Longrightarrow>
    \<exists>s'. step x s = Some (s', snd (map_step keys x m)) \<and> holds s' (fst (map_step keys x m))"
begin

lemma run_map:
  assumes "holds s m" "NIL \<notin> set (new_nodes xs)" "distinct (new_nodes xs)" "set (new_nodes xs) \<inter> ran m = {}"
  shows "\<exists>s'. idx_run step xs s = Some (s', snd (map_run keys xs m)) \<and> holds s' (fst (map_run keys xs m))"
  using assms
proof (induction xs arbitrary: s m)
  case (Cons x xs)
  have n: "set (new_nodes (x # xs)) = set (new_nodes [x]) \<union> set (new_nodes xs)" "distinct (new_nodes xs)"
    "set (new_nodes [x]) \<inter> set (new_nodes xs) = {}"
    using Cons.prems(3) by (cases x; simp)+
  obtain s1 where s1: "step x s = Some (s1, snd (map_step keys x m))" "holds s1 (fst (map_step keys x m))"
    using step_map [OF Cons.prems(1), of x] Cons.prems(2,4) n(1) by auto
  have "ran (fst (map_step keys x m)) \<subseteq> ran m \<union> set (new_nodes [x])"
    by (cases x) (auto simp: ran_def split: option.splits if_splits)
  then have "set (new_nodes xs) \<inter> ran (fst (map_step keys x m)) = {}" using n Cons.prems(4) by blast
  from Cons.IH [OF s1(2) _ n(2) this] Cons.prems(2) n(1) s1(1) show ?case
    by (auto simp: split_def Let_def)
qed simp

end

section \<open>The tree\<close>

text \<open>A user of the tree initialises a node, sets its key and inserts it.\<close>

fun rbt_step :: "(addr \<Rightarrow> u64) \<Rightarrow> idx_op \<Rightarrow> rbt_state \<Rightarrow> (rbt_state \<times> idx_out) option" where
  "rbt_step keys (Ins a) s =
     map_option (\<lambda>(s1, e). (s1, Code e))
       (liteco_rbt_insert_impl (\<lambda>k b. liteco_rbt_uint64_cmp_cb k (keys b)) (keys a) a
          (s\<lparr>mem := (mem s)(a := liteco_rbt_node_init)\<rparr>))"
| "rbt_step keys (Look k) s =
     map_option (\<lambda>a. (s, Found a)) (liteco_rbt_find_impl (\<lambda>k b. liteco_rbt_uint64_cmp_cb k (keys b)) k s)"
| "rbt_step keys Walk s =
     map_option (\<lambda>(s1, xs). (s1, Nodes xs)) (liteco_rbt_foreach (\<lambda>a xs. Some (xs @ [a])) s [])"

definition rbt_map :: "(addr \<Rightarrow> u64) \<Rightarrow> rbt_state \<Rightarrow> (u64 \<rightharpoonup> addr) \<Rightarrow> bool" where
  "rbt_map keys s m \<longleftrightarrow> (\<exists>t. rbt_wf keys s t \<and> links_clear s t \<and>
     (\<forall>k a. m k = Some a \<longleftrightarrow> a \<in> set (addrs t) \<and> keys a = k))"

lemma rbt_map_init_node:
  assumes "rbt_wf keys s t" "links_clear s t" "a \<noteq> NIL" "a \<notin> set (addrs t)"
  shows "rbt_wf keys (s\<lparr>mem := (mem s)(a := liteco_rbt_node_init)\<rparr>) t"
    "links_clear (s\<lparr>mem := (mem s)(a := liteco_rbt_node_init)\<rparr>) t"
proof -
  let ?s = "s\<lparr>mem := (mem s)(a := liteco_rbt_node_init)\<rparr>"
  have "trep ?s NIL t = trep s NIL t" using assms(4) by (simp add: frame_rules)
  then show "rbt_wf keys ?s t" using assms(1,3) by (simp add: rbt_wf_def rbt_holds_def)
  show "links_clear ?s t" using assms(2,4) by (auto simp: links_clear_def)
qed

lemma rbt_map_in: "\<forall>k a. m k = Some a \<longleftrightarrow> a \<in> set (addrs t) \<and> keys a = k \<Longrightarrow>
    dom m = keys ` set (addrs t) \<and> ran m = set (addrs t)"
  by (auto simp: dom_def ran_def)

lemma rbt_map_ins:
  assumes r: "rbt_map keys s m" and a: "a \<noteq> NIL" "a \<notin> ran m"
  shows "\<exists>s'. rbt_step keys (Ins a) s = Some (s', snd (map_step keys (Ins a) m)) \<and>
    rbt_map keys s' (fst (map_step keys (Ins a) m))"
proof -
  let ?s = "s\<lparr>mem := (mem s)(a := liteco_rbt_node_init)\<rparr>"
  obtain t where t: "rbt_wf keys s t" "links_clear s t" "\<forall>k b. m k = Some b \<longleftrightarrow> b \<in> set (addrs t) \<and> keys b = k"
    using r by (auto simp: rbt_map_def)
  note D = rbt_map_in [OF t(3)]
  have n: "a \<notin> set (addrs t)" using a(2) D by simp
  note w = rbt_map_init_node [OF t(1,2) a(1) n]
  show ?thesis
  proof (cases "m (keys a)")
    case None
    then have new: "keys a \<notin> keys ` set (addrs t)" using D by auto
    with uint64.insert_success [of ?s t keys "keys a" a] w(1) a(1) n obtain s' t' xs ys where
      i: "liteco_rbt_insert_impl (\<lambda>k b. liteco_rbt_uint64_cmp_cb k (keys b)) (keys a) a ?s = Some (s', liteco_rbt_err_success)"
        "rbt_holds s' t'" "rb_inv t'" "addrs t = xs @ ys" "addrs t' = xs @ a # ys" "key_sorted keys (addrs t')"
      by (auto simp: rbt_wf_def)
    have "links_clear s' t'"
      using w(2) threads_insert [OF i(1)] i(4,5)
      by (auto simp: links_clear_threads) (simp_all add: threads_def liteco_rbt_node_init_def)
    moreover have new': "\<forall>b\<in>set xs \<union> set ys. keys b \<noteq> keys a" using new i(4) by (metis set_append image_eqI)
    moreover have "\<forall>k b. (m(keys a \<mapsto> a)) k = Some b \<longleftrightarrow> b \<in> set (addrs t') \<and> keys b = k"
      using t(3) new' i(4,5) by auto
    ultimately show ?thesis using i None by (auto simp: rbt_map_def rbt_wf_def)
  next
    case (Some b)
    then have "keys a \<in> keys ` set (addrs t)" using D by auto
    with uint64.insert_conflict [of ?s t keys "keys a" a] w(1)
    have "liteco_rbt_insert_impl (\<lambda>k b. liteco_rbt_uint64_cmp_cb k (keys b)) (keys a) a ?s = Some (?s, liteco_rbt_err_conflict)"
      by (simp add: rbt_wf_def)
    moreover have "rbt_map keys ?s m" using w t(3) by (auto simp: rbt_map_def)
    ultimately show ?thesis using Some by simp
  qed
qed

lemma rbt_map_look:
  assumes "rbt_map keys s m"
  shows "rbt_step keys (Look k) s = Some (s, snd (map_step keys (Look k) m))"
proof -
  obtain t where t: "rbt_wf keys s t" "\<forall>k b. m k = Some b \<longleftrightarrow> b \<in> set (addrs t) \<and> keys b = k"
    using assms by (auto simp: rbt_map_def)
  obtain a where a: "liteco_rbt_find_impl (\<lambda>k b. liteco_rbt_uint64_cmp_cb k (keys b)) k s = Some a"
    "if k \<in> keys ` set (addrs t) then a \<in> set (addrs t) \<and> keys a = k else a = NIL"
    using uint64.find_spec [of s t keys k] t(1) by (auto simp: rbt_wf_def split: if_splits)
  have "a = (case m k of None \<Rightarrow> NIL | Some a \<Rightarrow> a)"
  proof (cases "m k")
    case None
    then have "k \<notin> keys ` set (addrs t)" using rbt_map_in [OF t(2)] by auto
    then show ?thesis using a(2) None by simp
  next
    case (Some b)
    then have "b \<in> set (addrs t)" "keys b = k" using t(2) by auto
    then have "m k = Some a" using a(2) t(2) by (auto split: if_splits)
    then show ?thesis by simp
  qed
  then show ?thesis using a(1) by simp
qed

lemma rbt_map_walk:
  assumes "rbt_map keys s m"
  shows "rbt_step keys Walk s = Some (s, snd (map_step keys Walk m))"
proof -
  obtain t where t: "rbt_wf keys s t" "links_clear s t" "\<forall>k b. m k = Some b \<longleftrightarrow> b \<in> set (addrs t) \<and> keys b = k"
    using assms by (auto simp: rbt_map_def)
  have h: "rbt_holds s t" "sorted_wrt (<) (map keys (addrs t))"
    using t(1) by (auto simp: rbt_wf_def key_sorted_def sorted_wrt_map)
  have "sorted_list_of_set (dom m) = map keys (addrs t)"
    using rbt_map_in [OF t(3)] by (intro strict_sorted_equal h(2)) simp_all
  moreover have "map (\<lambda>a. the (m (keys a))) (addrs t) = addrs t" using t(3) by (intro map_idI) (metis option.sel)
  moreover have "each (\<lambda>a xs. Some (xs @ [a])) ys zs = Some (zs @ ys)" for ys zs by (induction ys arbitrary: zs) auto
  ultimately show ?thesis using foreach_spec [OF h(1) t(2), of "\<lambda>a xs. Some (xs @ [a])" "[]"] by (simp add: comp_def)
qed

interpretation tree: index keys "rbt_step keys" "rbt_map keys"
  for keys :: "addr \<Rightarrow> u64"
proof
  fix s m x
  assume "rbt_map keys s m" "NIL \<notin> set (new_nodes [x])" "set (new_nodes [x]) \<inter> ran m = {}"
  then show "\<exists>s'. rbt_step keys x s = Some (s', snd (map_step keys x m)) \<and> rbt_map keys s' (fst (map_step keys x m))"
    using rbt_map_ins [of keys s m] rbt_map_look [of keys s m] rbt_map_walk [of keys s m]
    by (cases x) (simp_all del: rbt_step.simps)
qed

section \<open>Property\<close>

text \<open>C5: a tree that nothing is removed from is a map. From an empty tree, every sequence of insertions
  of different nodes (initialised, with any keys), searches and loops over the tree ends, and each
  operation returns what it returns on a map from keys to nodes: an insertion succeeds when the key is
  new and reports the conflict otherwise, a search returns the node of the key or the sentinel, and a
  loop visits the nodes in the order of their keys.\<close>

theorem tree_refines_map:
  assumes "root s = NIL" "mem s NIL = liteco_rbt_nil_instance" "NIL \<notin> set (new_nodes ops)" "distinct (new_nodes ops)"
  shows "\<exists>s'. idx_run (rbt_step keys) ops s = Some (s', snd (map_run keys ops Map.empty))"
proof -
  have "rbt_map keys s Map.empty"
    unfolding rbt_map_def using assms(1,2)
    by (intro exI [of _ PL]) (simp add: rbt_wf_def rbt_holds_def rb_inv_def key_sorted_def links_clear_def)
  from tree.run_map [OF this assms(3,4)] show ?thesis by auto
qed

lemma tree_refines_map_witness:
  "\<exists>s'. idx_run (rbt_step (\<lambda>a. of_nat (a mod 10))) [Ins 23, Ins 41, Look 1, Ins 33, Ins 17, Look 9, Walk]
     (demo_state\<lparr>root := NIL\<rparr>) =
   Some (s', [Code 0, Code 0, Found 41, Code (-1), Code 0, Found NIL, Nodes [41, 23, 17]])"
proof -
  have "snd (map_run (\<lambda>a. of_nat (a mod 10)) [Ins 23, Ins 41, Look 1, Ins 33, Ins 17, Look 9, Walk] Map.empty) =
    [Code 0, Code 0, Found 41, Code (-1), Code 0, Found NIL, Nodes [41, 23, 17]]"
    by (simp add: liteco_rbt_err_success_def liteco_rbt_err_conflict_def word_le_nat_alt)
  then show ?thesis
    using tree_refines_map [of "demo_state\<lparr>root := NIL\<rparr>" "[Ins 23, Ins 41, Look 1, Ins 33, Ins 17, Look 9, Walk]"
      "\<lambda>a. of_nat (a mod 10)"]
    by (simp add: demo_state_def)
qed

end
