(* ===== verification/Io_Props.thy ===== *)
theory Io_Props
  imports Io Timer_Props Rbt_Index
begin

text \<open>
  Properties of descriptors and registration. The invariants of the two trees: \<open>mon\<close> holds the
  descriptors in the order of their numbers, without threads of the iterator, and \<open>reg\<close> holds the
  marks. A pass of the registration loop is the iterator (\<open>foreach_spec\<close>) over \<open>liteco_eloop_reg_io\<close>.
\<close>

section \<open>The invariants of the trees\<close>

definition mon_ok :: "'a io_world_scheme \<Rightarrow> ctree \<Rightarrow> bool" where
  "mon_ok w t \<longleftrightarrow> rbt_wf (\<lambda>a. sint (io_key (ios w a))) (mon w) t \<and> links_clear (mon w) t"

definition reg_ok :: "'a io_world_scheme \<Rightarrow> ctree \<Rightarrow> bool" where
  "reg_ok w r \<longleftrightarrow> rbt_wf (\<lambda>a. sint (fd_marks w a)) (reg w) r \<and> (\<forall>a\<in>set (addrs r). a < next_mark w) \<and>
     next_mark w \<noteq> NIL"

definition fds :: "'a io_world_scheme \<Rightarrow> ctree \<Rightarrow> u32 set" where
  "fds w t = (\<lambda>a. io_key (ios w a)) ` set (addrs t)"

definition marks :: "'a io_world_scheme \<Rightarrow> ctree \<Rightarrow> u32 set" where
  "marks w r = fd_marks w ` set (addrs r)"

lemma key_low [simp]: "ucast (io_key64 k) = k"
  by (simp add: io_key64_def ucast_up_ucast_id is_up)

lemma sint_image: "sint (k :: u32) \<in> (\<lambda>a. sint (f a)) ` S \<longleftrightarrow> k \<in> f ` S"
  by (auto simp: image_iff intro: signed_word_eqI)

lemma io_find:
  assumes "rbt_holds s t" "key_sorted (\<lambda>a. sint (keys a)) (addrs t)"
  shows "\<exists>a. liteco_rbt_find_impl (\<lambda>k a. liteco_rbt_int_cmp_cb k (keys a)) (io_key64 k) s = Some a \<and>
    (a = NIL \<longleftrightarrow> k \<notin> keys ` set (addrs t))"
  using int32.find_spec [OF assms, of "io_key64 k"] by (auto simp: sint_image split: if_splits)

lemma key_sorted_cong: "(\<And>a. a \<in> set xs \<Longrightarrow> f a = g a) \<Longrightarrow> key_sorted f xs = key_sorted g xs"
  by (induction xs) (auto simp: key_sorted_def)

text \<open>A new node in one of the trees.\<close>

lemma io_insert:
  assumes "rbt_wf (\<lambda>a. sint (keys a)) s t" "k \<notin> keys ` set (addrs t)" "keys n = k"
    and "n \<noteq> NIL" "n \<notin> set (addrs t)" "mem s n = liteco_rbt_node_init"
  shows "\<exists>s' t'. liteco_rbt_insert_impl (\<lambda>k a. liteco_rbt_int_cmp_cb k (keys a)) (io_key64 k) n s =
      Some (s', liteco_rbt_err_success) \<and> rbt_wf (\<lambda>a. sint (keys a)) s' t' \<and>
    set (addrs t') = insert n (set (addrs t)) \<and> threads s' = threads s"
proof -
  have "sint (ucast (io_key64 k) :: u32) \<notin> (\<lambda>a. sint (keys a)) ` set (addrs t)"
    using assms(2) by (simp add: sint_image)
  from int32.insert_success [of s t keys "io_key64 k" n, OF _ _ _ this] assms
  obtain s' t' xs ys where i: "liteco_rbt_insert_impl (\<lambda>k a. liteco_rbt_int_cmp_cb k (keys a)) (io_key64 k) n s =
      Some (s', liteco_rbt_err_success)"
    "rbt_holds s' t'" "rb_inv t'" "addrs t = xs @ ys" "addrs t' = xs @ n # ys" "key_sorted (\<lambda>a. sint (keys a)) (addrs t')"
    by (auto simp: rbt_wf_def)
  then have "set (addrs t') = insert n (set (addrs t))" by auto
  then show ?thesis using i threads_insert [OF i(1)] by (auto simp: rbt_wf_def)
qed

section \<open>Registration\<close>

text \<open>A call for one descriptor. What it leaves alone, and what it does for a descriptor with a
  mark, without one, and when \<open>malloc\<close> fails.\<close>

lemma reg_io_new:
  assumes ok: "reg_ok w r" and new: "io_key (ios w io) \<notin> marks w r" and m: "malloc w = (w0, True)"
  shows "\<exists>w1 r1. liteco_eloop_reg_io io w = Some w1 \<and> reg_ok w1 r1 \<and> mon w1 = mon w \<and> ios w1 = ios w \<and>
    fd_open w1 = fd_open w \<and> mallocs w1 = mallocs w0 \<and>
    marks w1 r1 = insert (io_key (ios w io)) (marks w r) \<and>
    watched w1 = watched (watch_add (io_key (ios w io)) (listening_events (ios w io)) io w)"
proof -
  let ?fd = "io_key (ios w io)" and ?n = "next_mark w"
  let ?keys = "(fd_marks w)(?n := ?fd)"
  let ?s = "(reg w)\<lparr>mem := (mem (reg w))(?n := liteco_rbt_node_init)\<rparr>"
  have R: "rbt_wf (\<lambda>a. sint (fd_marks w a)) (reg w) r" "\<forall>a\<in>set (addrs r). a < ?n" "?n \<noteq> NIL"
    using ok by (auto simp: reg_ok_def)
  have a: "liteco_rbt_find_impl (reg_cmp w) (io_key64 ?fd) (reg w) = Some NIL"
    using io_find [of "reg w" r "fd_marks w" ?fd] R(1) new
    by (auto simp: rbt_wf_def marks_def reg_cmp_def [abs_def])
  have w0: "w0 = w\<lparr>mallocs := mallocs w0\<rparr>" using m by (auto simp: malloc_def split: list.splits)
  have f0: "reg w0 = reg w" "fd_marks w0 = fd_marks w" "next_mark w0 = next_mark w" "ios w0 = ios w" "mon w0 = mon w"
    "fd_open w0 = fd_open w" "watched w0 = watched w"
    by (subst w0, simp)+
  have n: "?n \<notin> set (addrs r)" using R(2) by blast
  have "trep ?s NIL r = trep (reg w) NIL r" using n by (simp add: frame_rules)
  then have h: "rbt_holds ?s r" using R(1,3) by (simp add: rbt_wf_def rbt_holds_def)
  have "key_sorted (\<lambda>a. sint (?keys a)) (addrs r) = key_sorted (\<lambda>a. sint (fd_marks w a)) (addrs r)"
    by (rule key_sorted_cong) (use n in auto)
  then have wf: "rbt_wf (\<lambda>a. sint (?keys a)) ?s r" using R(1) h by (simp add: rbt_wf_def)
  have im: "?keys ` set (addrs r) = marks w r" using n by (auto simp: marks_def image_iff)
  obtain s' t' where i: "liteco_rbt_insert_impl (\<lambda>k a. liteco_rbt_int_cmp_cb k (?keys a)) (io_key64 ?fd) ?n ?s =
      Some (s', liteco_rbt_err_success)" "rbt_wf (\<lambda>a. sint (?keys a)) s' t'"
    "set (addrs t') = insert ?n (set (addrs r))"
    using io_insert [OF wf, of ?fd ?n] im new R(3) n by auto
  let ?w3 = "watch_add ?fd (listening_events (ios w io)) io (w0\<lparr>next_mark := ?n + 1, fd_marks := ?keys, reg := s'\<rparr>)"
  have "liteco_eloop_reg_io io w = Some ?w3"
    using a m i(1) f0 by (simp add: liteco_eloop_reg_io_def Let_def reg_cmp_def [abs_def])
  moreover have f3: "reg ?w3 = s'" "fd_marks ?w3 = ?keys" "next_mark ?w3 = ?n + 1" "mon ?w3 = mon w" "ios ?w3 = ios w"
    "fd_open ?w3 = fd_open w" "mallocs ?w3 = mallocs w0"
    "watched ?w3 = watched (watch_add ?fd (listening_events (ios w io)) io w)"
    by (simp_all add: watch_add_def f0)
  moreover have "reg_ok ?w3 t'" unfolding reg_ok_def f3 using i(2,3) R(2) by auto
  moreover have "marks ?w3 t' = insert ?fd (marks w r)" unfolding marks_def f3 using i(3) n by auto
  ultimately show ?thesis by (intro exI [of _ ?w3] exI [of _ t']) auto
qed

lemma reg_io_step:
  assumes "reg_ok w r"
  shows "\<exists>w1 r1. liteco_eloop_reg_io io w = Some w1 \<and> reg_ok w1 r1 \<and> mon w1 = mon w \<and> ios w1 = ios w \<and>
    fd_open w1 = fd_open w \<and> (mallocs w = [] \<longrightarrow> mallocs w1 = []) \<and> marks w r \<subseteq> marks w1 r1 \<and>
    (if io_key (ios w io) \<in> marks w r then w1 = w \<and> r1 = r
     else if snd (malloc w)
       then marks w1 r1 = insert (io_key (ios w io)) (marks w r) \<and>
         watched w1 = watched (watch_add (io_key (ios w io)) (listening_events (ios w io)) io w)
       else marks w1 r1 = marks w r \<and> watched w1 = watched w)"
proof -
  let ?fd = "io_key (ios w io)"
  obtain a where a: "liteco_rbt_find_impl (reg_cmp w) (io_key64 ?fd) (reg w) = Some a" "a = NIL \<longleftrightarrow> ?fd \<notin> marks w r"
    using io_find [of "reg w" r "fd_marks w" ?fd] assms
    by (auto simp: reg_ok_def rbt_wf_def marks_def reg_cmp_def [abs_def])
  obtain w0 ok where m: "malloc w = (w0, ok)" by fastforce
  have w0: "w0 = w\<lparr>mallocs := mallocs w0\<rparr>" "mallocs w = [] \<longrightarrow> mallocs w0 = [] \<and> ok"
    using m by (auto simp: malloc_def split: list.splits)
  consider (marked) "?fd \<in> marks w r" | (failed) "?fd \<notin> marks w r" "\<not> ok" | (new) "?fd \<notin> marks w r" "ok" by blast
  then show ?thesis
  proof cases
    case marked
    then show ?thesis using a assms
      by (intro exI [of _ w] exI [of _ r]) (simp add: liteco_eloop_reg_io_def Let_def)
  next
    case failed
    have f0: "reg w0 = reg w" "fd_marks w0 = fd_marks w" "next_mark w0 = next_mark w" "ios w0 = ios w" "mon w0 = mon w"
      "fd_open w0 = fd_open w" "watched w0 = watched w"
      by (subst w0(1), simp)+
    have "reg_ok w0 r" "marks w0 r = marks w r" using assms by (simp_all add: reg_ok_def marks_def f0)
    then show ?thesis using a m failed w0(2) f0
      by (intro exI [of _ w0] exI [of _ r]) (simp add: liteco_eloop_reg_io_def Let_def)
  next
    case new
    then obtain w1 r1 where "liteco_eloop_reg_io io w = Some w1" "reg_ok w1 r1" "mon w1 = mon w" "ios w1 = ios w"
      "fd_open w1 = fd_open w" "mallocs w1 = mallocs w0" "marks w1 r1 = insert ?fd (marks w r)"
      "watched w1 = watched (watch_add ?fd (listening_events (ios w io)) io w)"
      using reg_io_new [OF assms, of io w0] m by auto
    then show ?thesis using m new w0(2) by (intro exI [of _ w1] exI [of _ r1]) auto
  qed
qed

text \<open>The marks and everything that concerns a marked number, over a whole pass.\<close>

lemma each_marked:
  assumes "reg_ok w r" "fd \<in> marks w r"
  shows "\<exists>w1 r1. each (\<lambda>io w. liteco_eloop_reg_io io w) xs w = Some w1 \<and> reg_ok w1 r1 \<and> fd \<in> marks w1 r1 \<and>
    watched w1 fd = watched w fd"
  using assms
proof (induction xs arbitrary: w r)
  case (Cons io xs)
  obtain w1 r1 where s: "liteco_eloop_reg_io io w = Some w1" "reg_ok w1 r1" "marks w r \<subseteq> marks w1 r1"
    "if io_key (ios w io) \<in> marks w r then w1 = w \<and> r1 = r
     else if snd (malloc w)
       then marks w1 r1 = insert (io_key (ios w io)) (marks w r) \<and>
         watched w1 = watched (watch_add (io_key (ios w io)) (listening_events (ios w io)) io w)
       else marks w1 r1 = marks w r \<and> watched w1 = watched w"
    using reg_io_step [OF Cons.prems(1), of io] by blast
  have "watched w1 fd = watched w fd"
    using s(4) Cons.prems(2) by (auto simp: watch_add_def split: if_splits)
  moreover have "fd \<in> marks w1 r1" using s(3) Cons.prems(2) by blast
  ultimately show ?case using Cons.IH [OF s(2)] s(1) by auto
qed auto

lemma each_registers:
  assumes "reg_ok w r" "mallocs w = []" "distinct (map (\<lambda>a. io_key (ios w a)) xs)"
  shows "\<exists>w1 r1. each (\<lambda>io w. liteco_eloop_reg_io io w) xs w = Some w1 \<and> reg_ok w1 r1 \<and> mon w1 = mon w \<and>
    ios w1 = ios w \<and> fd_open w1 = fd_open w \<and>
    marks w1 r1 = marks w r \<union> (\<lambda>a. io_key (ios w a)) ` set xs \<and>
    (\<forall>fd. fd \<notin> (\<lambda>a. io_key (ios w a)) ` set xs \<or> fd \<in> marks w r \<longrightarrow> watched w1 fd = watched w fd) \<and>
    (\<forall>io\<in>set xs. io_key (ios w io) \<notin> marks w r \<longrightarrow>
       watched w1 (io_key (ios w io)) =
         watched (watch_add (io_key (ios w io)) (listening_events (ios w io)) io w) (io_key (ios w io)))"
  using assms
proof (induction xs arbitrary: w r)
  case (Cons io xs)
  let ?k = "\<lambda>a. io_key (ios w a)"
  have ok: "snd (malloc w)" using Cons.prems(2) by (simp add: malloc_def)
  obtain w1 r1 where s: "liteco_eloop_reg_io io w = Some w1" "reg_ok w1 r1" "mon w1 = mon w" "ios w1 = ios w"
    "fd_open w1 = fd_open w" "mallocs w1 = []" "marks w r \<subseteq> marks w1 r1"
    "if ?k io \<in> marks w r then w1 = w \<and> r1 = r
     else marks w1 r1 = insert (?k io) (marks w r) \<and> watched w1 = watched (watch_add (?k io) (listening_events (ios w io)) io w)"
    using reg_io_step [OF Cons.prems(1), of io, unfolded if_P [OF ok]] Cons.prems(2) by blast
  have m1: "marks w1 r1 = insert (?k io) (marks w r)" using s(8) by (auto split: if_splits)
  have other: "watched w1 fd = watched w fd" if "fd \<noteq> ?k io \<or> fd \<in> marks w r" for fd
    using s(8) that by (auto simp: watch_add_def split: if_splits)
  have own: "watched w1 (?k io) = watched (watch_add (?k io) (listening_events (ios w io)) io w) (?k io)"
    if "?k io \<notin> marks w r" using s(8) that by simp
  obtain w2 r2 where t: "each (\<lambda>io w. liteco_eloop_reg_io io w) xs w1 = Some w2" "reg_ok w2 r2" "mon w2 = mon w"
    "ios w2 = ios w" "fd_open w2 = fd_open w" "marks w2 r2 = marks w1 r1 \<union> ?k ` set xs"
    "\<forall>fd. fd \<notin> ?k ` set xs \<or> fd \<in> marks w1 r1 \<longrightarrow> watched w2 fd = watched w1 fd"
    "\<forall>io\<in>set xs. ?k io \<notin> marks w1 r1 \<longrightarrow>
       watched w2 (?k io) = watched (watch_add (?k io) (listening_events (ios w io)) io w1) (?k io)"
    using Cons.IH [OF s(2,6)] Cons.prems(3) by (simp add: s(3-5)) blast
  have "\<forall>fd. fd \<notin> ?k ` set (io # xs) \<or> fd \<in> marks w r \<longrightarrow> watched w2 fd = watched w fd"
  proof (intro allI impI)
    fix fd assume a: "fd \<notin> ?k ` set (io # xs) \<or> fd \<in> marks w r"
    then have "fd \<notin> ?k ` set xs \<or> fd \<in> marks w1 r1" "fd \<noteq> ?k io \<or> fd \<in> marks w r" by (auto simp: m1)
    then show "watched w2 fd = watched w fd" using t(7) other by simp
  qed
  moreover have "watched w2 (?k a) = watched (watch_add (?k a) (listening_events (ios w a)) a w) (?k a)"
    if a: "a \<in> set (io # xs)" "?k a \<notin> marks w r" for a
  proof (cases "?k a = ?k io")
    case True
    then have "a = io" using a(1) Cons.prems(3) by (auto simp: image_iff)
    then show ?thesis using t(7) m1 own a(2) by auto
  next
    case False
    then have "watched w2 (?k a) = watched (watch_add (?k a) (listening_events (ios w a)) a w1) (?k a)"
      using t(8) a m1 by auto
    then show ?thesis using other [of "?k a"] False s(5) by (simp add: watch_add_def)
  qed
  ultimately show ?case using s(1) t m1 by (intro exI [of _ w2] exI [of _ r2]) auto
qed auto

lemma mon_keys_distinct: "mon_ok w t \<Longrightarrow> distinct (map (\<lambda>a. io_key (ios w a)) (addrs t))"
  using key_sorted_inj [of "\<lambda>a. sint (io_key (ios w a))" "addrs t"]
  by (auto simp: mon_ok_def rbt_wf_def rbt_holds_def distinct_map inj_on_def)

lemma register_each:
  "rbt_holds (mon w) t \<Longrightarrow> links_clear (mon w) t \<Longrightarrow>
   eloop_register w = map_option (\<lambda>w1. w1\<lparr>mon := mon w\<rparr>) (each (\<lambda>io w. liteco_eloop_reg_io io w) (addrs t) w)"
  by (simp add: eloop_register_def foreach_spec option.map_comp o_def split: option.split)

section \<open>A concrete world\<close>

text \<open>Four descriptors whose numbers are their addresses; the first is marked and watched.\<close>

definition io_demo_reg :: ctree where "io_demo_reg = PN PL 1 RBT_BLACK PL"

definition io_demo :: io_world where
  "io_demo = tm_world.extend (tm_world.truncate tm_demo)
     (io_world.fields False (\<lambda>a. \<lparr>io_key = of_nat a, io_cb = 7, listening_events = 1\<rparr>) demo_state
       \<lparr>root = 1, mem = (\<lambda>a. if a = 1 then demo_node NIL NIL NIL RBT_BLACK
                          else if a = NIL then liteco_rbt_nil_instance else liteco_rbt_node_init)\<rparr>
       of_nat 2 (\<lambda>_. True) [1 \<mapsto> (1, 1)])"

lemma io_demo_fields:
  "ios io_demo = (\<lambda>a. \<lparr>io_key = of_nat a, io_cb = 7, listening_events = 1\<rparr>)" "mon io_demo = demo_state"
  "root (reg io_demo) = 1" "mem (reg io_demo) = (\<lambda>a. if a = 1 then demo_node NIL NIL NIL RBT_BLACK
     else if a = NIL then liteco_rbt_nil_instance else liteco_rbt_node_init)"
  "fd_marks io_demo = of_nat" "next_mark io_demo = 2" "fd_open io_demo = (\<lambda>_. True)"
  "watched io_demo = [1 \<mapsto> (1, 1)]" "mallocs io_demo = []"
  by (simp_all add: io_demo_def tm_world.extend_def tm_world.truncate_def io_world.fields_def tm_demo_def)

lemma io_demo_ok: "mon_ok io_demo demo_tree" "reg_ok io_demo io_demo_reg"
proof -
  have "rbt_wf (\<lambda>a. sint (of_nat a :: u32)) demo_state demo_tree"
    using demo_holds by (simp add: rbt_wf_def key_sorted_def demo_tree_def)
  then show "mon_ok io_demo demo_tree"
    by (simp add: mon_ok_def io_demo_fields links_clear_def demo_state_def demo_tree_def demo_node_def)
  show "reg_ok io_demo io_demo_reg"
    by (simp add: reg_ok_def rbt_wf_def rbt_holds_def rb_inv_def key_sorted_def io_demo_reg_def io_demo_fields demo_node_def)
qed

lemma io_demo_sets: "set (addrs demo_tree) = {1, 2, 3, 4}" "marks io_demo io_demo_reg = {1}" "fds io_demo demo_tree = {1, 2, 3, 4}"
  by (auto simp: demo_tree_def marks_def io_demo_reg_def io_demo_fields fds_def)

section \<open>Starting and stopping a descriptor\<close>

lemma upd_io_fields [simp]:
  "ios (upd_io io f w) = (ios w)(io := f (ios w io))" "mon (upd_io io f w) = mon w" "reg (upd_io io f w) = reg w"
  "fd_marks (upd_io io f w) = fd_marks w" "next_mark (upd_io io f w) = next_mark w"
  "fd_open (upd_io io f w) = fd_open w" "watched (upd_io io f w) = watched w" "mallocs (upd_io io f w) = mallocs w"
  by (simp_all add: upd_io_def)

text \<open>Starting a descriptor always returns 0 and adds the events. The descriptor becomes a
  node of \<open>mon\<close> when no node of \<open>mon\<close> has its number, and \<open>mon\<close> stays as it is otherwise; \<open>mon\<close> is a
  sorted red-black tree without threads again.\<close>

theorem io_start_adds:
  assumes "mon_ok w t" and "io \<noteq> NIL" and "io \<in> set (addrs t) \<or> mem (mon w) io = liteco_rbt_node_init"
  shows "\<exists>w' t'. liteco_io_start io events w = Some (w', 0) \<and> mon_ok w' t' \<and>
    set (addrs t') = (if io_key (ios w io) \<in> fds w t then set (addrs t) else insert io (set (addrs t))) \<and>
    listening_events (ios w' io) = (listening_events (ios w io) OR events) \<and>
    fds w' t' = insert (io_key (ios w io)) (fds w t) \<and>
    reg w' = reg w \<and> fd_marks w' = fd_marks w \<and> watched w' = watched w"
proof -
  let ?w = "upd_io io (\<lambda>x. x\<lparr>listening_events := listening_events x OR events\<rparr>) w"
  let ?keys = "\<lambda>a. io_key (ios w a)"
  have keys: "(\<lambda>a. io_key (ios ?w a)) = ?keys" "(\<lambda>a. sint (io_key (ios ?w a))) = (\<lambda>a. sint (?keys a))"
    by (simp_all add: fun_eq_iff)
  have cmp: "mon_cmp ?w = (\<lambda>k a. liteco_rbt_int_cmp_cb k (?keys a))" by (simp add: mon_cmp_def fun_eq_iff)
  have W: "rbt_wf (\<lambda>a. sint (?keys a)) (mon w) t" "links_clear (mon w) t" using assms(1) by (auto simp: mon_ok_def)
  obtain a where a: "liteco_rbt_find_impl (mon_cmp ?w) (io_key64 (?keys io)) (mon w) = Some a"
    "a = NIL \<longleftrightarrow> ?keys io \<notin> fds w t"
    using io_find [of "mon w" t ?keys "?keys io"] W(1) unfolding rbt_wf_def fds_def cmp by blast
  show ?thesis
  proof (cases "?keys io \<in> fds w t")
    case True
    have "mon_ok ?w t" "fds ?w t = fds w t" using W unfolding mon_ok_def fds_def keys by (simp_all only: upd_io_fields simp_thms)
    then show ?thesis using a True
      by (intro exI [of _ ?w] exI [of _ t]) (simp add: liteco_io_start_def Let_def insert_absorb)
  next
    case False
    then have n: "io \<notin> set (addrs t)" by (auto simp: fds_def)
    obtain s' t' where i: "liteco_rbt_insert_impl (mon_cmp ?w) (io_key64 (?keys io)) io (mon w) =
        Some (s', liteco_rbt_err_success)" "rbt_wf (\<lambda>a. sint (?keys a)) s' t'"
      "set (addrs t') = insert io (set (addrs t))" "threads s' = threads (mon w)"
      using io_insert [OF W(1), of "?keys io" io] False assms(2,3) n
      unfolding fds_def cmp by blast
    let ?w' = "?w\<lparr>mon := s'\<rparr>"
    have "links_clear s' t'" using W(2) i(3,4) n assms(3) by (auto simp: links_clear_threads threads_def liteco_rbt_node_init_def)
    then have "mon_ok ?w' t'"
      using i(2) keys(2) unfolding mon_ok_def by (simp del: fun_upd_apply upd_io_fields(1))
    moreover have "fds ?w' t' = insert (?keys io) (fds w t)" using i(3) by (auto simp: fds_def)
    ultimately show ?thesis using a False i
      by (intro exI [of _ ?w'] exI [of _ t']) (simp add: liteco_io_start_def Let_def)
  qed
qed

lemma io_start_adds_witness:
  "\<exists>w' t'. liteco_io_start 5 2 io_demo = Some (w', 0) \<and> mon_ok w' t' \<and> set (addrs t') = {1, 2, 3, 4, 5} \<and>
    listening_events (ios w' 5) = 3"
proof -
  have "mem (mon io_demo) 5 = liteco_rbt_node_init" by (simp add: io_demo_fields demo_free)
  moreover have "insert 5 {1, 2, 3, 4 :: nat} = {1, 2, 3, 4, 5}" by auto
  ultimately show ?thesis
    using io_start_adds [OF io_demo_ok(1), of 5 2] by (auto simp: io_demo_sets io_demo_fields(1))
qed

lemma io_stop_closes:
  assumes "mon_ok w t" "io \<in> set (addrs t)" "listening_events (ios w io) AND NOT events = 0"
    and "mid \<notin> set (addrs t)" "mid \<noteq> NIL"
  shows "\<exists>w' t'. liteco_io_stop mid io events w = Some (w', 0) \<and> rbt_holds (mon w') t' \<and> rb_inv t' \<and>
    set (addrs t') = set (addrs t) - {io} \<and> \<not> fd_open w' (io_key (ios w io)) \<and>
    watched w' (io_key (ios w io)) = None \<and> reg w' = reg w \<and> fd_marks w' = fd_marks w \<and> next_mark w' = next_mark w"
proof -
  let ?k = "io_key (ios w io)"
  have W: "rbt_wf (\<lambda>a. sint (io_key (ios w a))) (mon w) t" using assms(1) by (simp add: mon_ok_def)
  have "?k \<in> (\<lambda>a. io_key (ios w a)) ` set (addrs t)" using assms(2) by blast
  then obtain a where a: "liteco_rbt_find_impl (mon_cmp w) (io_key64 ?k) (mon w) = Some a" "a \<noteq> NIL"
    using io_find [of "mon w" t "\<lambda>a. io_key (ios w a)" ?k] W unfolding rbt_wf_def mon_cmp_def [abs_def] by auto
  obtain fs l c r where t: "t = plug fs (PN l io c r)" using in_addrs_plug [OF assms(2)] by blast
  obtain s' t' where r: "liteco_rbt_remove_impl mid io (mon w) = Some (s', io, liteco_rbt_err_success)"
    "rbt_holds s' t'" "rb_inv t'" "addrs t' = lefts fs @ removal_order l r @ rights fs"
    using remove_spec [of "mon w" fs l io c r mid] W assms(4,5) by (auto simp: rbt_wf_def t)
  have "distinct (addrs t)" using W by (simp add: rbt_wf_def rbt_holds_def)
  then have d: "set (addrs t') = set (addrs t) - {io}" by (auto simp: t r(4) addrs_plug removal_order_set)
  show ?thesis using a r(1-3) assms(3) d
    by (intro exI [of _ "liteco_platform_close ?k (upd_io io (\<lambda>x. x\<lparr>listening_events := listening_events x AND NOT events\<rparr>) w\<lparr>mon := s'\<rparr>)"]
        exI [of _ t']) (simp add: liteco_io_stop_def liteco_platform_close_def Let_def)
qed

section \<open>Properties of the registration loop\<close>

text \<open>C36: A pass of the registration loop ends, leaves \<open>mon\<close> as it was and marks every descriptor of
  \<open>mon\<close>. Those without a mark before, and open, are given to the kernel with their events and their
  address; all others stay as they were.\<close>

theorem register_pass:
  assumes "mon_ok w t" and "reg_ok w r" and "mallocs w = []"
    and "\<forall>a\<in>set (addrs t). io_key (ios w a) \<notin> marks w r \<longrightarrow>
      fd_open w (io_key (ios w a)) \<and> watched w (io_key (ios w a)) = None"
  shows "\<exists>w' r'. eloop_register w = Some w' \<and> mon_ok w' t \<and> mon w' = mon w \<and> ios w' = ios w \<and> reg_ok w' r' \<and>
    marks w' r' = marks w r \<union> fds w t \<and>
    (\<forall>fd. fd \<in> marks w r \<union> - fds w t \<longrightarrow> watched w' fd = watched w fd) \<and>
    (\<forall>a\<in>set (addrs t). io_key (ios w a) \<notin> marks w r \<longrightarrow>
      watched w' (io_key (ios w a)) = Some (listening_events (ios w a), a))"
proof -
  have M: "rbt_holds (mon w) t" "links_clear (mon w) t" using assms(1) by (auto simp: mon_ok_def rbt_wf_def)
  obtain w1 r1 where e: "each (\<lambda>io w. liteco_eloop_reg_io io w) (addrs t) w = Some w1" "reg_ok w1 r1" "mon w1 = mon w"
    "ios w1 = ios w" "marks w1 r1 = marks w r \<union> fds w t"
    "\<forall>fd. fd \<notin> fds w t \<or> fd \<in> marks w r \<longrightarrow> watched w1 fd = watched w fd"
    "\<forall>a\<in>set (addrs t). io_key (ios w a) \<notin> marks w r \<longrightarrow> watched w1 (io_key (ios w a)) =
       watched (watch_add (io_key (ios w a)) (listening_events (ios w a)) a w) (io_key (ios w a))"
    using each_registers [OF assms(2,3) mon_keys_distinct [OF assms(1)]] unfolding fds_def by blast
  have "w1\<lparr>mon := mon w\<rparr> = w1" using e(3) by (metis io_world.surjective io_world.update_convs(3))
  then have "eloop_register w = Some w1" using register_each [OF M] e(1) by simp
  moreover have "mon_ok w1 t" using assms(1) by (simp add: mon_ok_def e(3,4))
  ultimately show ?thesis using e assms(4)
    by (intro exI [of _ w1] exI [of _ r1]) (simp add: watch_add_def)
qed

lemma register_pass_witness:
  "\<exists>w'. eloop_register io_demo = Some w' \<and> mon w' = demo_state \<and> watched w' 1 = Some (1, 1) \<and>
    watched w' 4 = Some (1, 4) \<and> watched w' 5 = None"
proof -
  have "\<forall>a\<in>set (addrs demo_tree). io_key (ios io_demo a) \<notin> marks io_demo io_demo_reg \<longrightarrow>
      fd_open io_demo (io_key (ios io_demo a)) \<and> watched io_demo (io_key (ios io_demo a)) = None"
    by (simp add: io_demo_sets io_demo_fields)
  from register_pass [OF io_demo_ok io_demo_fields(9) this] obtain w' where
    w': "eloop_register io_demo = Some w'" "mon w' = demo_state"
    "\<forall>fd. fd \<in> {1} \<union> - {1, 2, 3, 4} \<longrightarrow> watched w' fd = watched io_demo fd"
    "\<forall>a\<in>{1, 2, 3, 4}. of_nat a \<notin> {1 :: u32} \<longrightarrow> watched w' (of_nat a) = Some (1, a)"
    unfolding io_demo_sets by (auto simp: io_demo_fields)
  have "watched w' 4 = Some (1, 4)" using bspec [OF w'(4), of 4] by simp
  moreover have "watched w' 1 = Some (1, 1)" "watched w' 5 = None"
    using w'(3) by (simp_all add: io_demo_fields)
  ultimately show ?thesis using w'(1,2) by blast
qed

text \<open>A descriptor whose number has a mark is closed by \<open>liteco_io_stop\<close>, but the mark stays:
  whatever is started under the same number later, no pass of the registration loop gives it to the
  kernel any more.\<close>

theorem fd_reuse_deaf:
  fixes w :: "'a io_world_scheme"
  assumes "mon_ok w t" and "reg_ok w r" and "io \<in> set (addrs t)" and "io_key (ios w io) \<in> marks w r"
    and "listening_events (ios w io) AND NOT events = 0" and "mid \<notin> set (addrs t)" and "mid \<noteq> NIL"
  shows "\<exists>w1. liteco_io_stop mid io events w = Some (w1, 0) \<and> \<not> fd_open w1 (io_key (ios w io)) \<and>
    (\<forall>(w2 :: 'a io_world_scheme) t2. mon_ok w2 t2 \<and> reg w2 = reg w1 \<and> fd_marks w2 = fd_marks w1 \<and> next_mark w2 = next_mark w1 \<and>
      watched w2 (io_key (ios w io)) = None \<longrightarrow>
      (\<exists>w3. eloop_register w2 = Some w3 \<and> watched w3 (io_key (ios w io)) = None))"
proof -
  let ?k = "io_key (ios w io)"
  obtain w1 where s: "liteco_io_stop mid io events w = Some (w1, 0)" "\<not> fd_open w1 ?k" "reg w1 = reg w"
    "fd_marks w1 = fd_marks w" "next_mark w1 = next_mark w"
    using io_stop_closes [OF assms(1,3,5-7)] by blast
  have "\<exists>w3. eloop_register w2 = Some w3 \<and> watched w3 ?k = None"
    if w2: "mon_ok w2 t2" "reg w2 = reg w1" "fd_marks w2 = fd_marks w1" "next_mark w2 = next_mark w1" "watched w2 ?k = None"
    for w2 :: "'a io_world_scheme" and t2
  proof -
    have "reg_ok w2 r" "?k \<in> marks w2 r"
      using assms(2,4) by (simp_all add: reg_ok_def marks_def s(3-5) w2(2-4))
    then obtain w3 where "each (\<lambda>io w. liteco_eloop_reg_io io w) (addrs t2) w2 = Some w3" "watched w3 ?k = watched w2 ?k"
      using each_marked by blast
    then show ?thesis using register_each [of w2 t2] w2(1,5) by (simp add: mon_ok_def rbt_wf_def)
  qed
  then show ?thesis using s(1,2) by blast
qed

lemma fd_reuse_deaf_witness:
  "\<exists>w1 w3. liteco_io_stop 9 1 1 io_demo = Some (w1, 0) \<and> \<not> fd_open w1 1 \<and>
    eloop_register (io_demo\<lparr>reg := reg w1, fd_marks := fd_marks w1, next_mark := next_mark w1, watched := Map.empty\<rparr>) = Some w3 \<and>
    watched w3 1 = None"
proof -
  have k: "io_key (ios io_demo 1) = 1" by (simp add: io_demo_fields)
  have ev: "listening_events (ios io_demo 1) AND NOT 1 = 0" by (simp add: io_demo_fields)
  obtain w1 where w1: "liteco_io_stop 9 1 1 io_demo = Some (w1, 0)" "\<not> fd_open w1 1"
    "\<forall>(w2 :: io_world) t2. mon_ok w2 t2 \<and> reg w2 = reg w1 \<and> fd_marks w2 = fd_marks w1 \<and>
       next_mark w2 = next_mark w1 \<and> watched w2 1 = None \<longrightarrow> (\<exists>w3. eloop_register w2 = Some w3 \<and> watched w3 1 = None)"
    using fd_reuse_deaf [OF io_demo_ok _ _ ev, of 9] unfolding k io_demo_sets by auto
  let ?w2 = "io_demo\<lparr>reg := reg w1, fd_marks := fd_marks w1, next_mark := next_mark w1, watched := Map.empty\<rparr>"
  have "mon_ok ?w2 demo_tree" using io_demo_ok(1) by (simp add: mon_ok_def)
  then have "\<exists>w3. eloop_register ?w2 = Some w3 \<and> watched w3 1 = None"
    by (intro w1(3) [rule_format, of _ demo_tree]) simp
  then show ?thesis using w1(1,2) by blast
qed

end
