(* ===== verification/Udp_Props.thy ===== *)
theory Udp_Props
  imports Udp Io_Props
begin

text \<open>
  Properties of datagram channels: what one turn of the receive loop does with the answer of the
  kernel, through the two callbacks that the library puts between the socket and the channel.
\<close>

section \<open>Addresses and pointers\<close>

lemma container_of_add: "p + off < 2 ^ 64 \<Longrightarrow> container_of off (p + off) = p"
proof -
  assume a: "p + off < 2 ^ 64"
  have "of_nat (p + off) - of_nat off = (of_nat p :: u64)" by simp
  then have "container_of off (p + off) = unat (of_nat p :: u64)" by (simp add: container_of_def)
  also have "\<dots> = p" using a by (simp add: unat_of_nat take_bit_nat_eq_self)
  finally show ?thesis .
qed

lemma assign_addr_size:
  "assign_addr a b = (if liteco_addr_type_size a = 0 then None else Some (copy_addr (liteco_addr_type_size a) a b))"
  by (simp add: assign_addr_def liteco_addr_type_size_def sizeof_sockaddr_in_def sizeof_sockaddr_in6_def)

text \<open>The peer after a datagram: the address that was received, as far as its family is known.\<close>

definition peer_addr :: "liteco_addr \<Rightarrow> liteco_addr \<Rightarrow> liteco_addr" where
  "peer_addr p old = (case assign_addr p old of None \<Rightarrow> old | Some b \<Rightarrow> b)"

text \<open>The element that goes into the channel, and the push of it.\<close>

definition filled :: "addr \<Rightarrow> addr \<Rightarrow> int \<Rightarrow> liteco_addr \<Rightarrow> 'a udp_world_scheme \<Rightarrow> 'a udp_world_scheme" where
  "filled udp ele ret p w =
     upd_ele ele (\<lambda>x. x\<lparr>ue_ret := ret, loc_addr := bd_addr (udps w udp), rmt_addr := peer_addr p (rmt_addr x)\<rparr>) w"

lemma recv_pushes:
  assumes "0 < ret" "udp < 2 ^ 64" "ele + off_ele_buf < 2 ^ 64"
  shows "liteco_udp_chan_recv_udp_cb urec udp ret (Some p) (ele + off_ele_buf) w =
    map_option fst (liteco_chan_unenforceable_push (uc_chan (uchans w udp)) ele (filled udp ele ret p w))"
proof -
  have c: "container_of 0 udp = udp" "container_of off_ele_buf (ele + off_ele_buf) = ele"
    using container_of_add [of udp 0] container_of_add [OF assms(3)] assms(2) by simp_all
  show ?thesis using assms(1)
    by (simp add: liteco_udp_chan_recv_udp_cb_def Let_def c filled_def peer_addr_def upd_ele_def split: option.split)
qed

lemma recv_returns:
  assumes "ret \<le> 0" "udp < 2 ^ 64" "ele + off_ele_buf < 2 ^ 64"
  shows "liteco_udp_chan_recv_udp_cb urec udp ret p (ele + off_ele_buf) w = urec (uc_recovery_cb (uchans w udp)) udp ele w"
proof -
  have "container_of 0 udp = udp" "container_of off_ele_buf (ele + off_ele_buf) = ele"
    using container_of_add [of udp 0] container_of_add [OF assms(3)] assms(2) by simp_all
  then show ?thesis using assms(1) by (simp add: liteco_udp_chan_recv_udp_cb_def)
qed

section \<open>One turn of the receive loop\<close>

text \<open>A socket whose callbacks are the two of the datagram channels, as \<open>liteco_udp_chan_recv\<close>
  sets them.\<close>

definition is_uchan :: "addr \<Rightarrow> 'a udp_world_scheme \<Rightarrow> bool" where
  "is_uchan u w \<longleftrightarrow> ud_alloc_cb (udps w u) = udp_chan_alloc_id \<and> ud_recv_cb (udps w u) = udp_chan_recv_id"

abbreviation uchan_loop where
  "uchan_loop rcv ualloc urec user_a user_r \<equiv>
     udp_recv_loop rcv (udp_alloc_call ualloc user_a) (udp_recv_call urec user_r)"

lemma to_int_id [simp]: "- (2 ^ 31) \<le> n \<Longrightarrow> n < 2 ^ 31 \<Longrightarrow> to_int n = n"
  by (simp add: to_int_def signed_of_int signed_take_bit_int_eq_self)

lemma uchan_turn:
  fixes w :: "'a udp_world_scheme"
  assumes "is_uchan u w" "u < 2 ^ 64"
    and "ualloc (uc_alloc_cb (uchans w u)) u w = Some (w1, ele)" "ele \<noteq> NIL" "ele + off_ele_buf < 2 ^ 64"
    and "ue_b_size (ueles w1 ele) \<noteq> 0"
    and "rcv (io_key (ios w1 (udp_io u))) (ele + off_ele_buf) (ue_b_size (ueles w1 ele)) w1 = (w2, r)"
    and "is_uchan u w2"
  shows "uchan_loop rcv ualloc urec ua ur u w =
    (if to_int (rm_ret r) = -1 then
       (if rm_errno r = EAGAIN then urec (uc_recovery_cb (uchans w2 u)) u ele w2
        else if 0 < rm_errno r
          then map_option fst (liteco_chan_unenforceable_push (uc_chan (uchans w2 u)) ele (filled u ele (rm_errno r) (rm_peer r) w2))
        else urec (uc_recovery_cb (uchans w2 u)) u ele w2)
     else if 0 < to_int (rm_ret r) then
       (case map_option fst (liteco_chan_unenforceable_push (uc_chan (uchans w2 u)) ele (filled u ele (to_int (rm_ret r)) (rm_peer r) w2)) of
          None \<Rightarrow> None | Some w3 \<Rightarrow> uchan_loop rcv ualloc urec ua ur u w3)
     else (case urec (uc_recovery_cb (uchans w2 u)) u ele w2 of
             None \<Rightarrow> None | Some w3 \<Rightarrow> uchan_loop rcv ualloc urec ua ur u w3))"
proof -
  have c: "container_of 0 u = u" using container_of_add [of u 0] assms(2) by simp
  have b: "ele + off_ele_buf \<noteq> NIL" using assms(4) by simp
  show ?thesis using assms b
    by (subst udp_recv_loop.simps)
      (simp add: udp_alloc_call_def udp_recv_call_def liteco_udp_chan_alloc_udp_cb_def c is_uchan_def
        EAGAIN_def EWOULDBLOCK_def recv_pushes recv_returns)
qed

lemma uchan_io_cb:
  assumes "is_uchan u w" "u + off_udp_io < 2 ^ 64"
  shows "liteco_udp_io_cb rcv a r (udp_io u) w = udp_recv_loop rcv a r u w"
  using assms container_of_add [OF assms(2)]
  by (simp add: liteco_udp_io_cb_def udp_io_def is_uchan_def udp_chan_alloc_id_def udp_chan_recv_id_def)

section \<open>A concrete world\<close>

text \<open>The socket 40 of a datagram channel with the channel 20, and the element 50.\<close>

definition udp_demo :: udp_world where
  "udp_demo = io_world.extend io_demo (udp_world.fields
     (\<lambda>_. \<lparr>ud_type = handler_type_udp, ud_alloc_cb = udp_chan_alloc_id, ud_recv_cb = udp_chan_recv_id,
           bd_addr = \<lparr>sa_family = AF_INET, sa_data = (\<lambda>_. 1)\<rparr>\<rparr>)
     (\<lambda>_. \<lparr>uc_chan = 20, uc_alloc_cb = 60, uc_recovery_cb = 61\<rparr>)
     (\<lambda>_. \<lparr>loc_addr = \<lparr>sa_family = 0, sa_data = (\<lambda>_. 0)\<rparr>, rmt_addr = \<lparr>sa_family = 0, sa_data = (\<lambda>_. 0)\<rparr>,
           ue_ret = 0, ue_b_size = 1500\<rparr>))"

definition demo_peer :: liteco_addr where "demo_peer = \<lparr>sa_family = AF_INET, sa_data = (\<lambda>_. 9)\<rparr>"

text \<open>The user's \<open>alloc_cb\<close> always gives the element 50, and the kernel answers with an error.\<close>

definition demo_ualloc :: "udp_world uchan_alloc" where "demo_ualloc cb u w = Some (w, 50)"
definition demo_urec :: "udp_world uchan_recovery" where "demo_urec cb u ele w = Some w"

definition demo_refused :: "udp_world sys_recvmsg" where
  "demo_refused fd buf len w = (w, \<lparr>rm_ret = -1, rm_errno = 111, rm_peer = demo_peer\<rparr>)"

lemma udp_demo_fields:
  "udps udp_demo u = \<lparr>ud_type = handler_type_udp, ud_alloc_cb = udp_chan_alloc_id, ud_recv_cb = udp_chan_recv_id,
     bd_addr = \<lparr>sa_family = AF_INET, sa_data = (\<lambda>_. 1)\<rparr>\<rparr>"
  "uchans udp_demo u = \<lparr>uc_chan = 20, uc_alloc_cb = 60, uc_recovery_cb = 61\<rparr>"
  "ueles udp_demo e = \<lparr>loc_addr = \<lparr>sa_family = 0, sa_data = (\<lambda>_. 0)\<rparr>, rmt_addr = \<lparr>sa_family = 0, sa_data = (\<lambda>_. 0)\<rparr>,
     ue_ret = 0, ue_b_size = 1500\<rparr>"
  "chans udp_demo c = \<lparr>queue = None, head = 0, tail = 0, full = False, ch_w = [], ch_r = [], closed = False, ch_rt = 9\<rparr>"
  "mallocs udp_demo = []"
  by (simp_all add: udp_demo_def io_world.extend_def udp_world.fields_def io_demo_def tm_world.extend_def
      tm_world.truncate_def io_world.fields_def tm_demo_def)

lemma udp_demo_uchan: "is_uchan u udp_demo"
  by (simp add: is_uchan_def udp_demo_fields)

text \<open>A push to a channel without buffer and readers leaves the element with a waiter that is no
  coroutine.\<close>

lemma filled_fields [simp]:
  "chans (filled u ele r p w) = chans w" "mallocs (filled u ele r p w) = mallocs w" "uchans (filled u ele r p w) = uchans w"
  "udps (filled u ele r p w) = udps w" "ios (filled u ele r p w) = ios w"
  "ueles (filled u ele r p w) e = (if e = ele then (ueles w ele)\<lparr>ue_ret := r, loc_addr := bd_addr (udps w u),
     rmt_addr := peer_addr p (rmt_addr (ueles w ele))\<rparr> else ueles w e)"
  by (simp_all add: filled_def upd_ele_def)

lemma unbuffered_push:
  assumes "queue (chans w c) = None" "\<not> closed (chans w c)" "ch_r (chans w c) = []" "mallocs w = []"
  shows "liteco_chan_unenforceable_push c ele w =
    Some (upd_ch c (\<lambda>x. x\<lparr>ch_w := \<lparr>wt_co = liteco_ignore_awake_co, wt_select = False, wt_ele = ele\<rparr> # ch_w x\<rparr>) w, 0)"
  using assms by (simp add: liteco_chan_unenforceable_push_def liteco_chan_w_def liteco_chan_wblocked_def malloc_def)

definition demo_pushed :: "int \<Rightarrow> udp_world" where
  "demo_pushed n = upd_ch 20 (\<lambda>x. x\<lparr>ch_w := \<lparr>wt_co = liteco_ignore_awake_co, wt_select = False, wt_ele = 50\<rparr> # ch_w x\<rparr>)
     (filled 40 50 n demo_peer udp_demo)"

lemma demo_push:
  "liteco_chan_unenforceable_push 20 50 (filled 40 50 n demo_peer udp_demo) = Some (demo_pushed n, 0)"
  unfolding demo_pushed_def by (rule unbuffered_push) (simp_all add: udp_demo_fields)

lemma demo_pushed_fields:
  "udps (demo_pushed n) = udps udp_demo" "uchans (demo_pushed n) = uchans udp_demo"
  "ueles (demo_pushed n) = ueles (filled 40 50 n demo_peer udp_demo)" "map wt_ele (ch_w (chans (demo_pushed n) 20)) = [50]"
  by (simp_all add: demo_pushed_def upd_ch_def udp_demo_fields)

lemma demo_offsets: "(40 :: nat) + off_udp_io < 2 ^ 64" "(50 :: nat) + off_ele_buf < 2 ^ 64" "(50 :: nat) \<noteq> NIL"
  by (simp_all add: off_ele_buf_def off_udp_io_def)

lemma demo_alloc: "demo_ualloc cb u w = Some (w, 50)"
  by (simp add: demo_ualloc_def)

lemma demo_sizes: "ue_b_size (ueles udp_demo 50) \<noteq> 0"
  by (simp add: udp_demo_fields)

lemma demo_kernel: "demo_refused fd b l w = (w, \<lparr>rm_ret = -1, rm_errno = 111, rm_peer = demo_peer\<rparr>)"
  by (simp add: demo_refused_def)

section \<open>Properties\<close>

text \<open>C38: An error of the socket other than \<open>EAGAIN\<close> reaches the reader of the datagram channel as a
  message: the element is pushed with the value of \<open>errno\<close> as its size, exactly as a datagram of that
  many bytes would be.\<close>

theorem udp_chan_error_delivered:
  fixes w :: "'a udp_world_scheme"
  assumes "is_uchan u w" and "u + off_udp_io < 2 ^ 64"
    and "ualloc (uc_alloc_cb (uchans w u)) u w = Some (w1, ele)" and "ele \<noteq> NIL" and "ele + off_ele_buf < 2 ^ 64"
    and "ue_b_size (ueles w1 ele) \<noteq> 0"
    and "rcv (io_key (ios w1 (udp_io u))) (ele + off_ele_buf) (ue_b_size (ueles w1 ele)) w1 = (w2, r)"
    and "is_uchan u w2" and "rm_ret r = -1" and "rm_errno r \<noteq> EAGAIN" and "0 < rm_errno r"
  shows "liteco_udp_io_cb rcv (udp_alloc_call ualloc ua) (udp_recv_call urec ur) (udp_io u) w =
      map_option fst (liteco_chan_unenforceable_push (uc_chan (uchans w2 u)) ele (filled u ele (rm_errno r) (rm_peer r) w2)) \<and>
    ue_ret (ueles (filled u ele (rm_errno r) (rm_peer r) w2) ele) = rm_errno r"
proof -
  have "u < 2 ^ 64" using assms(2) by simp
  from uchan_turn [where ualloc = ualloc and rcv = rcv and ua = ua and ur = ur and urec = urec, OF assms(1) this assms(3-8)] assms(9-11)
  show ?thesis unfolding uchan_io_cb [OF assms(1,2)] by simp
qed

lemma udp_chan_error_delivered_witness:
  "\<exists>w'. liteco_udp_io_cb demo_refused (udp_alloc_call demo_ualloc (\<lambda>_ _ _. None)) (udp_recv_call demo_urec (\<lambda>_ _ _ _ _ _ _. None))
      (udp_io 40) udp_demo = Some w' \<and>
    map wt_ele (ch_w (chans w' 20)) = [50] \<and> ue_ret (ueles w' 50) = 111"
proof -
  let ?a = "udp_alloc_call demo_ualloc (\<lambda>_ _ _. None)" and ?r = "udp_recv_call demo_urec (\<lambda>_ _ _ _ _ _ _. None)"
  let ?w = "filled 40 50 111 demo_peer udp_demo"
  have "liteco_udp_io_cb demo_refused ?a ?r (udp_io 40) udp_demo = map_option fst (liteco_chan_unenforceable_push 20 50 ?w)"
    using udp_chan_error_delivered [where u = 40 and ualloc = demo_ualloc and rcv = demo_refused and ua = "\<lambda>_ _ _. None" and ur = "\<lambda>_ _ _ _ _ _ _. None" and urec = demo_urec,
        OF udp_demo_uchan demo_offsets(1) demo_alloc demo_offsets(3,2) demo_sizes demo_kernel udp_demo_uchan]
    by (simp add: udp_demo_fields(2) EAGAIN_def)
  then show ?thesis by (simp add: demo_push demo_pushed_fields)
qed

end
