(* ===== verification/Stream_Props.thy ===== *)
theory Stream_Props
  imports Streams Udp_Props
begin

text \<open>
  Properties of streams and servers: the end of a stream, an accept call that fails, and a
  connection that is not taken at once.
\<close>

section \<open>Fields\<close>

lemma upd_st_fields [simp]:
  "streams (upd_st a f w) = (streams w)(a := f (streams w a))" "ios (upd_st a f w) = ios w" "mon (upd_st a f w) = mon w"
  "errno (upd_st a f w) = errno w" "reg (upd_st a f w) = reg w" "stream_fd (upd_st a f w) st = stream_fd w st"
  by (simp_all add: upd_st_def stream_fd_def)

lemma stream_io_handler: "st + off_stream_io < 2 ^ 64 \<Longrightarrow> container_of off_stream_io (stream_io st) = st"
  by (simp add: stream_io_def container_of_add)

lemma retry_once: "call w = (w1, r) \<Longrightarrow> r \<noteq> -1 \<or> errno w1 \<noteq> EINTR \<Longrightarrow> retry_loop call w = Some (w1, r)"
  by (subst retry_loop.simps) auto

lemma accept_failed:
  "accept fd w = (w1, -1) \<Longrightarrow> errno w1 \<noteq> EINTR \<Longrightarrow> liteco_platform_accept accept ioctl fd w = Some (w1, -1)"
  by (simp add: liteco_platform_accept_def retry_once)

section \<open>A concrete world\<close>

text \<open>The server 20 is the only descriptor that is listened to.\<close>

definition st_demo_tree :: ctree where "st_demo_tree = PN PL 36 RBT_BLACK PL"

definition st_demo :: st_world where
  "st_demo = (sys_world.extend (udp_world.extend udp_demo (sys_world.fields 0 1 9 5)) (st_world.fields
     (\<lambda>_. \<lparr>st_type = handler_type_pipe, accept_fd = no_fd, connection_cb = 70, st_alloc_cb = 71, st_recv_cb = 72, ipc = False\<rparr>)))
     \<lparr>mon := \<lparr>root = 36, mem = (\<lambda>a. if a = NIL then liteco_rbt_nil_instance else demo_node NIL NIL NIL RBT_BLACK)\<rparr>\<rparr>"

lemma st_demo_fields:
  "streams st_demo a = \<lparr>st_type = handler_type_pipe, accept_fd = no_fd, connection_cb = 70, st_alloc_cb = 71,
     st_recv_cb = 72, ipc = False\<rparr>"
  "ios st_demo = (\<lambda>a. \<lparr>io_key = of_nat a, io_cb = 7, listening_events = 1\<rparr>)"
  "mon st_demo = \<lparr>root = 36, mem = (\<lambda>a. if a = NIL then liteco_rbt_nil_instance else demo_node NIL NIL NIL RBT_BLACK)\<rparr>"
  by (simp_all add: st_demo_def udp_world.extend_def sys_world.extend_def sys_world.fields_def st_world.fields_def udp_demo_def
      io_world.extend_def udp_world.fields_def io_demo_def tm_world.extend_def tm_world.truncate_def io_world.fields_def)

lemma st_demo_fd: "stream_fd st_demo 20 = 36" "stream_io 20 = 36"
  by (simp_all add: stream_fd_def stream_io_def off_stream_io_def st_demo_fields)

lemma st_demo_mon: "mon_ok st_demo st_demo_tree"
  by (simp add: mon_ok_def rbt_wf_def rbt_holds_def rb_inv_def key_sorted_def st_demo_tree_def st_demo_fields
      demo_node_def links_clear_def)

text \<open>A \<open>read\<close> that returns \<open>r\<close> with \<open>errno\<close> set to \<open>EAGAIN\<close>, an \<open>accept\<close> that fails for want of
  descriptors and one that succeeds, and callbacks that do nothing but note what they are told.\<close>

definition demo_read :: "int \<Rightarrow> st_world sys_buffer" where
  "demo_read r fd buf len w = (w\<lparr>errno := DARWIN_EAGAIN\<rparr>, r)"

definition demo_salloc :: "st_world alloc_call" where "demo_salloc cb st w = Some (w, 50, 64)"

definition demo_srecv :: "st_world stream_recv_call" where
  "demo_srecv cb st ret buf len w = Some (w\<lparr>errno := 100 + ret\<rparr>)"

definition demo_emfile :: "st_world sys_accept" where "demo_emfile fd w = (w\<lparr>errno := 24\<rparr>, -1)"
definition demo_accept :: "st_world sys_accept" where "demo_accept fd w = (w, 77)"
definition demo_ioctl :: "st_world sys_ioctl" where "demo_ioctl fd req w = (w, 0)"
definition demo_conn :: "st_world conn_call" where "demo_conn cb st s w = Some w"

section \<open>The end of a stream\<close>

text \<open>When the peer has closed a stream and \<open>errno\<close> still is \<open>EAGAIN\<close> from an earlier read, as
  after every callback that read all there was, the callback does exactly what it does when there is
  nothing to read: the user is told 0 in both cases, so the end of the stream is not seen.\<close>

theorem stream_eof_hidden:
  fixes w :: "'a st_world_scheme"
  assumes "alloc (st_alloc_cb (streams w st)) st w = Some (w1, base, len)" and "base \<noteq> NIL" and "len \<noteq> 0"
    and "closed_read (stream_fd w1 st) base len w1 = (w2, 0)" and "errno w2 = DARWIN_EAGAIN"
    and "empty_read (stream_fd w1 st) base len w1 = (w2, -1)"
    and "st_alloc_cb (streams w st) \<noteq> NIL" and "st_recv_cb (streams w st) \<noteq> NIL" and "st + off_stream_io < 2 ^ 64"
  shows "liteco_stream_io_cb closed_read closed_read alloc recv (stream_io st) w =
      recv (st_recv_cb (streams w2 st)) st 0 base len w2 \<and>
    liteco_stream_io_cb empty_read empty_read alloc recv (stream_io st) w =
      liteco_stream_io_cb closed_read closed_read alloc recv (stream_io st) w"
proof -
  have "retry_loop (closed_read (stream_fd w1 st) base len) w1 = Some (w2, 0)"
    "retry_loop (empty_read (stream_fd w1 st) base len) w1 = Some (w2, -1)"
    using assms(4-6) by (auto intro!: retry_once simp: DARWIN_EAGAIN_def EINTR_def)
  then have "stream_recv_loop closed_read closed_read alloc recv st w = recv (st_recv_cb (streams w2 st)) st 0 base len w2"
    "stream_recv_loop empty_read empty_read alloc recv st w = recv (st_recv_cb (streams w2 st)) st 0 base len w2"
    using assms(1-3,5) by (subst stream_recv_loop.simps, simp add: Let_def)+
  then show ?thesis using assms(7,8) stream_io_handler [OF assms(9)] by (simp add: liteco_stream_io_cb_def)
qed

lemma stream_eof_hidden_witness:
  "\<exists>w'. liteco_stream_io_cb (demo_read 0) (demo_read 0) demo_salloc demo_srecv (stream_io 20) st_demo = Some w' \<and>
    liteco_stream_io_cb (demo_read (-1)) (demo_read (-1)) demo_salloc demo_srecv (stream_io 20) st_demo = Some w' \<and>
    errno w' = 100"
proof -
  have r: "demo_read n (stream_fd st_demo 20) 50 64 st_demo = (st_demo\<lparr>errno := DARWIN_EAGAIN\<rparr>, n)" for n
    by (simp add: demo_read_def)
  have "(20 :: nat) + off_stream_io < 2 ^ 64" by (simp add: off_stream_io_def)
  from stream_eof_hidden [where alloc = demo_salloc and st = 20 and w = st_demo and recv = demo_srecv and
      closed_read = "demo_read 0" and empty_read = "demo_read (-1)", OF _ _ _ r _ r _ _ this]
  show ?thesis by (simp add: demo_salloc_def demo_srecv_def st_demo_fields)
qed

section \<open>Servers\<close>

text \<open>C39: When \<open>accept\<close> keeps failing with an error other than \<open>EAGAIN\<close> and \<open>ECONNABORTED\<close>, as when
  no descriptors are left, the server callback never returns, whatever the user's callback does short
  of taking the stream away: the loop only ends with a connection that was accepted.\<close>

theorem server_accept_error_spins:
  fixes w :: "'a st_world_scheme"
  assumes "I w" and "\<forall>w. I w \<longrightarrow> stream_fd w st \<noteq> no_fd"
    and "\<forall>w. I w \<longrightarrow> (\<exists>w1. accept (stream_fd w st) w = (w1, -1) \<and> I w1 \<and>
      errno w1 \<notin> {EINTR, DARWIN_EAGAIN, DARWIN_EWOULDBLOCK, DARWIN_ECONNABORTED})"
    and "\<forall>w. I w \<longrightarrow> I (upd_st st (\<lambda>x. x\<lparr>accept_fd := no_fd\<rparr>) w)"
    and "\<forall>w w1 cb s. I w \<and> conn cb st s w = Some w1 \<longrightarrow> I w1 \<and> (accept_fd (streams w st) = no_fd \<longrightarrow> accept_fd (streams w1 st) = no_fd)"
  shows "server_loop accept ioctl conn mid st w = None"
proof -
  have "False" if "server_loop accept ioctl conn mid st w = Some y" for y
  proof -
    have "accept' = accept \<and> conn' = conn \<and> st' = st \<and> I w' \<longrightarrow> False"
      if "server_loop accept' ioctl' conn' mid' st' w' = Some y" for accept' ioctl' conn' mid' st' w' y
      using that
    proof (rule server_loop.raw_induct [rotated, of _ _ _ _ _ _ _ "\<lambda>accept' ioctl' conn' mid' st' w' y.
        accept' = accept \<and> conn' = conn \<and> st' = st \<and> I w' \<longrightarrow> False"])
      fix f a' i' c' m' s' w' y
      assume IH: "\<And>a' i' c' m' s' w' y. f a' i' c' m' s' w' = Some y \<Longrightarrow> a' = accept \<and> c' = conn \<and> s' = st \<and> I w' \<longrightarrow> False"
        and run: "(if stream_fd w' s' = no_fd then Some w'
          else (case liteco_platform_accept a' i' (stream_fd w' s') w' of None \<Rightarrow> None
            | Some (w1, ret) \<Rightarrow>
                if ret < 0 \<and> (errno w1 = DARWIN_EAGAIN \<or> errno w1 = DARWIN_EWOULDBLOCK) then Some w1
                else if ret < 0 \<and> errno w1 = DARWIN_ECONNABORTED then f a' i' c' m' s' w1
                else (case (if ret < 0 then c' (connection_cb (streams w1 s')) s' ret w1 else Some w1) of None \<Rightarrow> None
                  | Some w2 \<Rightarrow>
                      let w3 = upd_st s' (\<lambda>x. x\<lparr>accept_fd := word_of_int ret\<rparr>) w2
                      in case c' (connection_cb (streams w3 s')) s' 0 w3 of None \<Rightarrow> None
                        | Some w4 \<Rightarrow> if accept_fd (streams w4 s') \<noteq> no_fd
                            then map_option fst (liteco_eloop_stream_remove m' s' w4) else f a' i' c' m' s' w4))) = Some y"
      show "a' = accept \<and> c' = conn \<and> s' = st \<and> I w' \<longrightarrow> False"
      proof
        assume eq: "a' = accept \<and> c' = conn \<and> s' = st \<and> I w'"
        then obtain w1 where w1: "accept (stream_fd w' st) w' = (w1, -1)" "I w1"
          "errno w1 \<notin> {EINTR, DARWIN_EAGAIN, DARWIN_EWOULDBLOCK, DARWIN_ECONNABORTED}"
          using assms(3) by blast
        have acc: "liteco_platform_accept accept i' (stream_fd w' st) w' = Some (w1, -1)"
          using accept_failed [of accept, OF w1(1)] w1(3) by simp
        have m1: "(word_of_int (-1) :: u32) = no_fd" by (simp add: no_fd_def)
        obtain w2 where w2: "conn (connection_cb (streams w1 st)) st (-1) w1 = Some w2"
          using run eq acc assms(2) w1(3) by (cases "conn (connection_cb (streams w1 st)) st (-1) w1") auto
        let ?w3 = "upd_st st (\<lambda>x. x\<lparr>accept_fd := no_fd\<rparr>) w2"
        have I3: "I ?w3" using assms(4,5) w1(2) w2 by blast
        obtain w4 where w4: "conn (connection_cb (streams ?w3 st)) st 0 ?w3 = Some w4" "f accept i' conn m' st w4 = Some y \<or> accept_fd (streams w4 st) \<noteq> no_fd"
          using run eq acc assms(2) w1(3) w2 m1
          by (cases "conn (connection_cb (streams ?w3 st)) st 0 ?w3") (auto simp: Let_def split: if_splits)
        have "I w4" "accept_fd (streams w4 st) = no_fd" using assms(5) [rule_format, OF conjI [OF I3 w4(1)]] by simp_all
        then show False using IH [of accept i' conn m' st w4 y] w4(2) by blast
      qed
    qed
    then show False using that assms(1) by blast
  qed
  then show ?thesis by (cases "server_loop accept ioctl conn mid st w") auto
qed

lemma server_accept_error_spins_witness:
  "server_loop demo_emfile demo_ioctl demo_conn 9 20 st_demo = None"
proof (rule server_accept_error_spins [where I = "\<lambda>w. stream_fd w 20 = 36"])
  have "stream_fd (w\<lparr>errno := e\<rparr>) st = stream_fd w st" for w :: st_world and e st by (simp add: stream_fd_def)
  then show "\<forall>w. stream_fd w 20 = 36 \<longrightarrow> (\<exists>w1. demo_emfile (stream_fd w 20) w = (w1, -1) \<and> stream_fd w1 20 = 36 \<and>
      errno w1 \<notin> {EINTR, DARWIN_EAGAIN, DARWIN_EWOULDBLOCK, DARWIN_ECONNABORTED})"
    by (simp add: demo_emfile_def EINTR_def DARWIN_EAGAIN_def DARWIN_EWOULDBLOCK_def DARWIN_ECONNABORTED_def)
qed (auto simp: st_demo_fd no_fd_def demo_conn_def)

text \<open>When the connection callback does not take an accepted connection at once, the server
  closes its own listening descriptor: \<open>liteco_eloop_stream_remove\<close> clears all events, so
  \<open>liteco_io_stop\<close> closes the descriptor and takes it out of the tree.\<close>

theorem server_deferred_accept_closes:
  fixes w :: "'a st_world_scheme"
  assumes "stream_fd w st \<noteq> no_fd" and "liteco_platform_accept accept ioctl (stream_fd w st) w = Some (w1, peer)"
    and "0 \<le> peer"
    and "conn (connection_cb (streams w1 st)) st 0 (upd_st st (\<lambda>x. x\<lparr>accept_fd := word_of_int peer\<rparr>) w1) = Some w2"
    and "accept_fd (streams w2 st) \<noteq> no_fd" and "mon_ok w2 t" and "stream_io st \<in> set (addrs t)"
    and "mid \<notin> set (addrs t)" and "mid \<noteq> NIL"
  shows "\<exists>w3 t3. server_loop accept ioctl conn mid st w = Some w3 \<and> rbt_holds (mon w3) t3 \<and>
    set (addrs t3) = set (addrs t) - {stream_io st} \<and> \<not> fd_open w3 (stream_fd w2 st) \<and> watched w3 (stream_fd w2 st) = None"
proof -
  have "listening_events (ios w2 (stream_io st)) AND NOT EVFILT_READ = 0" by (simp add: EVFILT_READ_def)
  from io_stop_closes [OF assms(6,7) this assms(8,9)] obtain w3 t3 where
    s: "liteco_io_stop mid (stream_io st) EVFILT_READ w2 = Some (w3, 0)" "rbt_holds (mon w3) t3"
    "set (addrs t3) = set (addrs t) - {stream_io st}" "\<not> fd_open w3 (stream_fd w2 st)" "watched w3 (stream_fd w2 st) = None"
    unfolding stream_fd_def by blast
  have "server_loop accept ioctl conn mid st w = Some w3"
    using assms(1-5) s(1) by (subst server_loop.simps) (simp add: liteco_eloop_stream_remove_def)
  then show ?thesis using s by blast
qed

lemma server_deferred_accept_closes_witness:
  "\<exists>w3 t3. server_loop demo_accept demo_ioctl demo_conn 9 20 st_demo = Some w3 \<and> rbt_holds (mon w3) t3 \<and>
    addrs t3 = [] \<and> \<not> fd_open w3 36"
proof -
  have acc: "liteco_platform_accept demo_accept demo_ioctl (stream_fd st_demo 20) st_demo = Some (st_demo, 77)"
    by (simp add: liteco_platform_accept_def liteco_platform_cloexec_def liteco_platform_nonblock_def retry_once
        demo_accept_def demo_ioctl_def)
  let ?w = "upd_st 20 (\<lambda>x. x\<lparr>accept_fd := word_of_int 77\<rparr>) st_demo"
  have m: "mon_ok ?w st_demo_tree" using st_demo_mon by (simp add: mon_ok_def)
  have "stream_fd st_demo 20 \<noteq> no_fd" "accept_fd (streams ?w 20) \<noteq> no_fd" "stream_io 20 \<in> set (addrs st_demo_tree)"
    "9 \<notin> set (addrs st_demo_tree)" "(9 :: nat) \<noteq> NIL" "demo_conn (connection_cb (streams st_demo 20)) 20 0 ?w = Some ?w"
    by (simp_all add: st_demo_fd no_fd_def st_demo_tree_def demo_conn_def)
  from server_deferred_accept_closes [where accept = demo_accept and ioctl = demo_ioctl and conn = demo_conn,
      OF this(1) acc _ this(6,2) m this(3-5)]
  obtain w3 t3 where "server_loop demo_accept demo_ioctl demo_conn 9 20 st_demo = Some w3" "rbt_holds (mon w3) t3"
    "set (addrs t3) = set (addrs st_demo_tree) - {36}" "\<not> fd_open w3 36"
    unfolding upd_st_fields(6) st_demo_fd by auto
  then show ?thesis by (intro exI [of _ w3] exI [of _ t3]) (simp add: st_demo_tree_def)
qed

end
