(* ===== verification/Linux_Timer.thy ===== *)
theory Linux_Timer
  imports Udp Timer_Heap
begin

text \<open>
  The timers and the initialisation of the Linux event loop
  (\<open>src/platform/linux/lc_eloop.c\<close>). Unlike on Darwin, adding and removing a timer run the expiry
  loop, so the loop and \<open>liteco_eloop_timer_remove\<close> call each other. The Linux
  \<open>liteco_eloop_init\<close> does not give the heap a comparison callback: the one it is used with is the
  parameter \<open>cmp\<close>.
\<close>

section \<open>State\<close>

text \<open>\<open>timer_io\<close> is the address of \<open>eloop->timer_io\<close>, \<open>timerfd\<close> the absolute time the timerfd was
  last set to.\<close>

record lx_world = io_world +
  lx_tms :: "addr \<Rightarrow> timespec liteco_timer"
  lx_heap :: heap_state
  lx_clock :: "nat \<Rightarrow> timespec"
  lx_ticks :: nat
  timer_io :: addr
  timerfd :: timespec
  epoll_fd :: u32

definition clock_gettime :: "'a lx_world_scheme \<Rightarrow> 'a lx_world_scheme \<times> timespec" where
  "clock_gettime w = (w\<lparr>lx_ticks := Suc (lx_ticks w)\<rparr>, lx_clock w (lx_ticks w))"

definition upd_lx :: "addr \<Rightarrow> (timespec liteco_timer \<Rightarrow> timespec liteco_timer) \<Rightarrow> 'a lx_world_scheme \<Rightarrow> 'a lx_world_scheme" where
  "upd_lx a f w = w\<lparr>lx_tms := (lx_tms w)(a := f (lx_tms w a))\<rparr>"

type_synonym 'w timer_call = "addr \<Rightarrow> addr \<Rightarrow> 'w \<Rightarrow> 'w option"
type_synonym timer_cmp = "(addr \<Rightarrow> timespec liteco_timer) \<Rightarrow> addr \<Rightarrow> addr \<Rightarrow> liteco_heap_cmp_result"

section \<open>Initialisation\<close>

definition linux_eloop_init :: "('a lx_world_scheme \<Rightarrow> 'a lx_world_scheme \<times> u32) \<Rightarrow> 'a lx_world_scheme \<Rightarrow>
    'a lx_world_scheme \<times> int" where
  "linux_eloop_init epoll_create w =
     (let w1 = w\<lparr>el_closed := False, mon := (mon w)\<lparr>root := NIL\<rparr>, reg := (reg w)\<lparr>root := NIL\<rparr>\<rparr>;
          (w2, fd) = epoll_create w1;
          w3 = upd_io (timer_io w2) (\<lambda>x. x\<lparr>io_key := - 1\<rparr>) (w2\<lparr>epoll_fd := fd\<rparr>)
      in (w3\<lparr>async_inited := False, async_list := []\<rparr>, 0))"

definition linux_eloop_close :: "'a lx_world_scheme \<Rightarrow> 'a lx_world_scheme \<times> int" where
  "linux_eloop_close w = liteco_eloop_close (epoll_fd w) w"

text \<open>Closing twice closes the descriptor of \<open>epoll\<close> once.\<close>

lemma linux_eloop_close_once: "fst (linux_eloop_close (fst (linux_eloop_close w))) = fst (linux_eloop_close w)"
  by (simp add: linux_eloop_close_def liteco_eloop_close_def liteco_platform_close_def)

definition timer_io_cb_id :: addr where "timer_io_cb_id = 10"

definition linux_eloop_timer_init :: "('a lx_world_scheme \<Rightarrow> 'a lx_world_scheme \<times> u32) \<Rightarrow> 'a lx_world_scheme \<Rightarrow>
    ('a lx_world_scheme \<times> int) option" where
  "linux_eloop_timer_init timerfd_create w =
     (if io_key (ios w (timer_io w)) \<noteq> - 1 then Some (w, 0)
      else (let (w1, fd) = timerfd_create w
            in Option.bind (liteco_io_init (timer_io w1) timer_io_cb_id fd w1)
                 (\<lambda>(w2, _). map_option (\<lambda>(w3, _). (w3, 0)) (liteco_io_start (timer_io w2) EPOLL_IN_ET w2))))"

section \<open>Expiry\<close>

text \<open>The changes of the heap in \<open>liteco_eloop_timer_add\<close> and \<open>liteco_eloop_timer_remove\<close>, before
  the expiry loop runs.\<close>

definition lx_link :: "timer_cmp \<Rightarrow> addr \<Rightarrow> 'a lx_world_scheme \<Rightarrow> 'a lx_world_scheme option" where
  "lx_link cmp a w =
     (case liteco_heap_insert (cmp (lx_tms w)) a (liteco_heapnode_init a (lx_heap w)) of
        None \<Rightarrow> None
      | Some (h, _) \<Rightarrow> Some (upd_lx a (\<lambda>t. t\<lparr>tm_active := True\<rparr>) (w\<lparr>lx_heap := h\<rparr>)))"

definition lx_unlink :: "timer_cmp \<Rightarrow> addr \<Rightarrow> 'a lx_world_scheme \<Rightarrow> 'a lx_world_scheme option" where
  "lx_unlink cmp a w =
     (case liteco_heap_remove (cmp (lx_tms w)) a (lx_heap w) of
        None \<Rightarrow> None
      | Some (h, _) \<Rightarrow> Some (upd_lx a (\<lambda>t. t\<lparr>tm_active := False\<rparr>) (w\<lparr>lx_heap := h\<rparr>)))"

text \<open>The new expiry of a periodic timer.\<close>

definition lx_next :: "addr \<Rightarrow> 'a lx_world_scheme \<Rightarrow> 'a lx_world_scheme" where
  "lx_next a w =
     (let (w1, now) = clock_gettime w
      in upd_lx a linux_timer_add_timeout_interval (upd_lx a (linux_timer_set_timeout_current now) w1))"

definition lx_periodic :: "timespec liteco_timer \<Rightarrow> bool" where
  "lx_periodic t \<longleftrightarrow> (ts_sec (interval t) \<noteq> 0 \<or> ts_nsec (interval t) \<noteq> 0) \<and> \<not> tm_stop t"

text \<open>The loop, with the bodies of \<open>liteco_eloop_timer_remove\<close> and \<open>liteco_eloop_timer_add\<close> in it.\<close>

partial_function (option) linux_eloop_timer_active ::
    "timer_cmp \<Rightarrow> 'a lx_world_scheme timer_call \<Rightarrow> timespec \<Rightarrow> 'a lx_world_scheme \<Rightarrow> 'a lx_world_scheme option" where
  "linux_eloop_timer_active cmp call now w =
     (if hroot (lx_heap w) = NIL then Some w
      else if \<not> linux_timer_active (lx_tms w (hroot (lx_heap w))) now
      then Some (w\<lparr>timerfd := liteco_timer_timerfd_timeout (lx_tms w (hroot (lx_heap w)))\<rparr>)
      else
        Option.bind
          (if \<not> tm_active (lx_tms w (hroot (lx_heap w))) then Some w
           else Option.bind (lx_unlink cmp (hroot (lx_heap w)) w)
                  (\<lambda>w1. linux_eloop_timer_active cmp call (snd (clock_gettime w1)) (fst (clock_gettime w1))))
          (\<lambda>w2. if tm_cb (lx_tms w2 (hroot (lx_heap w))) = NIL then None
                else Option.bind (call (tm_cb (lx_tms w2 (hroot (lx_heap w)))) (hroot (lx_heap w)) w2)
                  (\<lambda>w3. if \<not> lx_periodic (lx_tms w3 (hroot (lx_heap w))) then linux_eloop_timer_active cmp call now w3
                        else Option.bind
                          (if tm_active (lx_tms (lx_next (hroot (lx_heap w)) w3) (hroot (lx_heap w)))
                           then Some (lx_next (hroot (lx_heap w)) w3)
                           else Option.bind (lx_link cmp (hroot (lx_heap w)) (lx_next (hroot (lx_heap w)) w3))
                                  (\<lambda>w4. linux_eloop_timer_active cmp call (snd (clock_gettime w4)) (fst (clock_gettime w4))))
                          (\<lambda>w5. linux_eloop_timer_active cmp call now w5))))"

declare linux_eloop_timer_active.simps [code]

definition linux_eloop_timer_add :: "timer_cmp \<Rightarrow> 'a lx_world_scheme timer_call \<Rightarrow> addr \<Rightarrow> 'a lx_world_scheme \<Rightarrow>
    ('a lx_world_scheme \<times> int) option" where
  "linux_eloop_timer_add cmp call a w =
     (if tm_active (lx_tms w a) then Some (w, 0)
      else (case lx_link cmp a w of
              None \<Rightarrow> None
            | Some w1 \<Rightarrow>
                (let (w2, now) = clock_gettime w1
                 in map_option (\<lambda>w3. (w3, 0)) (linux_eloop_timer_active cmp call now w2))))"

definition linux_eloop_timer_remove :: "timer_cmp \<Rightarrow> 'a lx_world_scheme timer_call \<Rightarrow> addr \<Rightarrow> 'a lx_world_scheme \<Rightarrow>
    ('a lx_world_scheme \<times> int) option" where
  "linux_eloop_timer_remove cmp call a w =
     (if \<not> tm_active (lx_tms w a) then Some (w, 0)
      else (case lx_unlink cmp a w of
              None \<Rightarrow> None
            | Some w1 \<Rightarrow>
                (let (w2, now) = clock_gettime w1
                 in map_option (\<lambda>w3. (w3, 0)) (linux_eloop_timer_active cmp call now w2))))"

text \<open>\<open>read\<close> takes the count of the timerfd.\<close>

definition liteco_timer_io_cb :: "(u32 \<Rightarrow> 'a lx_world_scheme \<Rightarrow> 'a lx_world_scheme) \<Rightarrow> timer_cmp \<Rightarrow>
    'a lx_world_scheme timer_call \<Rightarrow> addr \<Rightarrow> 'a lx_world_scheme \<Rightarrow> 'a lx_world_scheme option" where
  "liteco_timer_io_cb read cmp call io w =
     (let (w1, now) = clock_gettime (read (io_key (ios w io)) w)
      in linux_eloop_timer_active cmp call now w1)"

end
