(* ===== verification/Linux_Timer_Props.thy ===== *)
theory Linux_Timer_Props
  imports Linux_Timer Io_Props
begin

text \<open>
  The order in which the Linux expiry loop runs timers. The callback of a timer runs after
  \<open>liteco_eloop_timer_remove\<close>, which has run all other due timers by then: they run in the reverse
  order of their times. The hypotheses on the heap are those of \<open>heap_order\<close> for some comparison
  callback; the code of the Linux event loop never sets one.
\<close>

section \<open>The invariant\<close>

definition lx_key :: "(addr \<Rightarrow> timespec liteco_timer) \<Rightarrow> addr \<Rightarrow> timespec" where
  "lx_key T a = timeout (T a)"

lemma lx_key_ns:
  assumes "ts_norm (timeout (T a))" "ts_norm (timeout (T b))"
  shows "lx_key T a \<le> lx_key T b \<longleftrightarrow> ts_ns (timeout (T a)) \<le> ts_ns (timeout (T b))"
  using assms lex_us [of "sint (ts_nsec (timeout (T b)))" 1000000000 "sint (ts_nsec (timeout (T a)))"
    "sint (ts_sec (timeout (T b)))" "sint (ts_sec (timeout (T a)))"]
  by (auto simp: lx_key_def ts_ns_def ts_norm_def less_eq_timespec_ext_def less_eq_prod_simp)

text \<open>Running timers that run once.\<close>

definition lx_once :: "timespec liteco_timer \<Rightarrow> bool" where
  "lx_once t \<longleftrightarrow> ts_norm (timeout t) \<and> tm_cb t \<noteq> NIL \<and> \<not> lx_periodic t"

definition lx_inv :: "'a lx_world_scheme \<Rightarrow> htree \<Rightarrow> bool" where
  "lx_inv w t \<longleftrightarrow> heap_inv (lx_key (lx_tms w)) (lx_heap w) t \<and>
     (\<forall>a. tm_active (lx_tms w a) \<longleftrightarrow> a \<in> set (addrs t)) \<and> (\<forall>a\<in>set (addrs t). lx_once (lx_tms w a)) \<and>
     unat (cnt (lx_heap w)) < 2 ^ 31"

definition lx_due :: "timespec \<Rightarrow> 'a lx_world_scheme \<Rightarrow> htree \<Rightarrow> addr set" where
  "lx_due now w t = {a \<in> set (addrs t). linux_timer_active (lx_tms w a) now}"

definition lx_log :: "addr list lx_world_scheme timer_call" where
  "lx_log cb a w = Some (lx_world.more_update (\<lambda>l. l @ [a]) w)"

text \<open>What the loop leaves alone.\<close>

definition lx_same :: "'a lx_world_scheme \<Rightarrow> 'a lx_world_scheme \<Rightarrow> bool" where
  "lx_same w w' \<longleftrightarrow> lx_clock w' = lx_clock w \<and>
     (\<forall>a. lx_tms w' a = (lx_tms w a)\<lparr>tm_active := tm_active (lx_tms w' a)\<rparr>)"

lemma lx_same_refl: "lx_clock w' = lx_clock w \<Longrightarrow> lx_tms w' = lx_tms w \<Longrightarrow> lx_same w w'"
  by (simp add: lx_same_def)

lemma lx_same_trans: "lx_same w w' \<Longrightarrow> lx_same w' w'' \<Longrightarrow> lx_same w w''"
  by (simp add: lx_same_def) (metis liteco_timer.surjective liteco_timer.update_convs(2))

lemma lx_same_fields:
  assumes "lx_same w w'"
  shows "timeout (lx_tms w' a) = timeout (lx_tms w a)" "tm_cb (lx_tms w' a) = tm_cb (lx_tms w a)"
    "lx_periodic (lx_tms w' a) = lx_periodic (lx_tms w a)" "lx_clock w' = lx_clock w"
    "linux_timer_active (lx_tms w' a) now = linux_timer_active (lx_tms w a) now"
    "lx_once (lx_tms w' a) = lx_once (lx_tms w a)"
proof -
  have e: "lx_tms w' a = (lx_tms w a)\<lparr>tm_active := tm_active (lx_tms w' a)\<rparr>" using assms by (simp add: lx_same_def)
  show "timeout (lx_tms w' a) = timeout (lx_tms w a)" "tm_cb (lx_tms w' a) = tm_cb (lx_tms w a)"
    "lx_periodic (lx_tms w' a) = lx_periodic (lx_tms w a)"
    "linux_timer_active (lx_tms w' a) now = linux_timer_active (lx_tms w a) now"
    "lx_once (lx_tms w' a) = lx_once (lx_tms w a)"
    by (subst e, simp add: lx_periodic_def linux_timer_active_def lx_once_def)+
  show "lx_clock w' = lx_clock w" using assms by (simp add: lx_same_def)
qed

lemma lx_same_due: "lx_same w w' \<Longrightarrow> lx_due now w' t = {a \<in> set (addrs t). linux_timer_active (lx_tms w a) now}"
  by (simp add: lx_due_def lx_same_fields)

text \<open>Worlds that differ in nothing the invariant is about.\<close>

lemma lx_inv_cong: "lx_tms w' = lx_tms w \<Longrightarrow> lx_heap w' = lx_heap w \<Longrightarrow> lx_inv w' t = lx_inv w t"
  by (simp add: lx_inv_def)

lemma lx_unlink_ok:
  assumes ord: "heap_order (cmp (lx_tms w)) (lx_key (lx_tms w))" and inv: "lx_inv w t" and a: "a \<in> set (addrs t)"
  shows "\<exists>w' t'. lx_unlink cmp a w = Some w' \<and> lx_inv w' t' \<and> set (addrs t') = set (addrs t) - {a} \<and> lx_same w w' \<and>
    lx_world.more w' = lx_world.more w \<and> lx_ticks w' = lx_ticks w"
proof -
  let ?T = "lx_tms w"
  let ?T' = "?T(a := (?T a)\<lparr>tm_active := False\<rparr>)"
  have hi: "heap_inv (lx_key ?T) (lx_heap w) t" "unat (cnt (lx_heap w)) < 2 ^ 31" using inv by (simp_all add: lx_inv_def)
  from heap_order.remove_ok [OF ord hi(1) a hi(2)] obtain h t'
    where rm: "liteco_heap_remove (cmp ?T) a (lx_heap w) = Some (h, 0)" "heap_inv (lx_key ?T) h t'"
      "mset (addrs t') = mset (addrs t) - {#a#}" by blast
  have "distinct (addrs t)" using hi(1) by (simp add: heap_inv_def heap_holds_def)
  then have st: "set (addrs t') = set (addrs t) - {a}"
    using rm(3) by (metis set_mset_mset mset_remove1 set_remove1_eq)
  have k: "lx_key ?T' = lx_key ?T" by (auto simp: lx_key_def)
  have "length (addrs t') \<le> length (addrs t)"
    using mset_eq_length [of "addrs t'" "remove1 a (addrs t)"] rm(3) by (simp add: length_remove1 split: if_splits)
  then have c: "unat (cnt h) < 2 ^ 31" using rm(2) hi by (simp add: heap_inv_def complete_def)
  let ?w' = "upd_lx a (\<lambda>t. t\<lparr>tm_active := False\<rparr>) (w\<lparr>lx_heap := h\<rparr>)"
  have f: "lx_tms ?w' = ?T'" "lx_heap ?w' = h" "lx_clock ?w' = lx_clock w" "lx_world.more ?w' = lx_world.more w"
    "lx_ticks ?w' = lx_ticks w" by (simp_all add: upd_lx_def)
  have "lx_inv ?w' t'" unfolding lx_inv_def f k using inv rm(2) st c by (auto simp: lx_inv_def)
  moreover have "lx_same w ?w'" by (simp add: lx_same_def f)
  ultimately show ?thesis using rm(1) st f by (intro exI [of _ ?w'] exI [of _ t']) (simp add: lx_unlink_def)
qed

section \<open>The loop\<close>

lemma lx_root:
  assumes "lx_inv w t" "t \<noteq> PL"
  shows "hroot (lx_heap w) \<in> set (addrs t)" "hroot (lx_heap w) \<noteq> NIL"
    "b \<in> set (addrs t) \<Longrightarrow> ts_ns (timeout (lx_tms w (hroot (lx_heap w)))) \<le> ts_ns (timeout (lx_tms w b))"
proof -
  have hi: "heap_inv (lx_key (lx_tms w)) (lx_heap w) t" using assms(1) by (simp add: lx_inv_def)
  note R = heap_inv_root [OF hi assms(2)]
  show r: "hroot (lx_heap w) \<in> set (addrs t)" by (rule R(1))
  have "NIL \<notin> set (addrs t)" using hi by (auto simp: heap_inv_def heap_holds_def dest: rep_addrs_nonnil)
  then show "hroot (lx_heap w) \<noteq> NIL" using r by metis
  show "ts_ns (timeout (lx_tms w (hroot (lx_heap w)))) \<le> ts_ns (timeout (lx_tms w b))" if "b \<in> set (addrs t)"
    using R(2) [OF that] lx_key_ns r that assms(1) by (simp add: lx_inv_def lx_once_def)
qed

text \<open>Nothing is due: the loop sets the timerfd at most.\<close>

lemma lx_idle:
  assumes "lx_inv w t" "lx_due now w t = {}"
  shows "\<exists>w'. linux_eloop_timer_active cmp call now w = Some w' \<and> lx_inv w' t \<and> lx_same w w' \<and>
    lx_world.more w' = lx_world.more w"
proof (cases "t = PL")
  case True
  then have "hroot (lx_heap w) = NIL" using assms(1) heap_inv_empty by (auto simp: lx_inv_def)
  then show ?thesis using assms(1) by (subst linux_eloop_timer_active.simps) (simp add: lx_same_refl)
next
  case False
  note R = lx_root [OF assms(1) False]
  have "\<not> linux_timer_active (lx_tms w (hroot (lx_heap w))) now" using assms(2) R(1) by (auto simp: lx_due_def)
  moreover let ?w = "w\<lparr>timerfd := liteco_timer_timerfd_timeout (lx_tms w (hroot (lx_heap w)))\<rparr>"
  have "lx_inv ?w t" using assms(1) lx_inv_cong [of ?w w t] by simp
  moreover have "lx_same w ?w" by (rule lx_same_refl) simp_all
  ultimately show ?thesis using R(2)
    by (intro exI [of _ ?w]) (subst linux_eloop_timer_active.simps, simp)
qed

text \<open>The first step of a pass with a due timer: the first timer of the heap is due and taken out.\<close>

lemma lx_first:
  fixes w :: "'a lx_world_scheme"
  assumes "\<forall>T. heap_order (cmp T) (lx_key T)" and inv: "lx_inv w t" and n: "ts_norm now"
    and c: "\<forall>k. lx_clock w k = now" and due: "lx_due now w t \<noteq> {}" and a: "a = hroot (lx_heap w)"
  shows "\<exists>w1 w2 t1. lx_unlink cmp a w = Some w1 \<and> clock_gettime w1 = (w2, now) \<and> a \<noteq> NIL \<and>
    linux_timer_active (lx_tms w a) now \<and> tm_active (lx_tms w a) \<and> lx_once (lx_tms w a) \<and> a \<in> lx_due now w t \<and>
    (\<forall>b\<in>set (addrs t). ts_ns (timeout (lx_tms w a)) \<le> ts_ns (timeout (lx_tms w b))) \<and>
    lx_inv w2 t1 \<and> lx_same w w2 \<and> (\<forall>k. lx_clock w2 k = now) \<and> lx_world.more w2 = lx_world.more w \<and>
    set (addrs t1) = set (addrs t) - {a} \<and> lx_due now w2 t1 = lx_due now w t - {a}"
proof -
  let ?D = "lx_due now w t"
  have t: "t \<noteq> PL" using due by (auto simp: lx_due_def)
  note R = lx_root [OF inv t, folded a]
  have norm: "ts_norm (timeout (lx_tms w b))" if "b \<in> set (addrs t)" for b
    using inv that by (auto simp: lx_inv_def lx_once_def)
  obtain b where b: "b \<in> set (addrs t)" "linux_timer_active (lx_tms w b) now" using due by (auto simp: lx_due_def)
  have act: "linux_timer_active (lx_tms w a) now"
    using b R(1) R(3) [OF b(1)] norm n by (simp add: linux_active_iff)
  have aD: "a \<in> ?D" using R(1) act by (simp add: lx_due_def)
  have on: "tm_active (lx_tms w a)" "lx_once (lx_tms w a)" using inv R(1) by (simp_all add: lx_inv_def)
  obtain w1 t1 where u: "lx_unlink cmp a w = Some w1" "lx_inv w1 t1" "set (addrs t1) = set (addrs t) - {a}"
    "lx_same w w1" "lx_world.more w1 = lx_world.more w" "lx_ticks w1 = lx_ticks w"
    using lx_unlink_ok [of cmp, OF assms(1) [rule_format] inv R(1)] by blast
  let ?w2 = "fst (clock_gettime w1)"
  have w2: "lx_tms ?w2 = lx_tms w1" "lx_heap ?w2 = lx_heap w1" "lx_clock ?w2 = lx_clock w1"
    "lx_world.more ?w2 = lx_world.more w1" by (simp_all add: clock_gettime_def)
  have clk: "\<forall>k. lx_clock w1 k = now" using c lx_same_fields(4) [OF u(4)] by simp
  then have now: "clock_gettime w1 = (?w2, now)" by (simp add: clock_gettime_def)
  have inv2: "lx_inv ?w2 t1" using u(2) lx_inv_cong [of ?w2 w1] w2 by simp
  have same2: "lx_same w ?w2" using lx_same_trans [OF u(4) lx_same_refl] w2 by simp
  have D2: "lx_due now ?w2 t1 = ?D - {a}"
    unfolding lx_same_due [OF same2] u(3) unfolding lx_due_def by blast
  show ?thesis
    by (intro exI [of _ w1] exI [of _ ?w2] exI [of _ t1] conjI ballI u(1) now R(2) act on aD inv2 same2 u(3) D2 R(3))
      (use w2 u(5) clk in simp_all)
qed

lemma lx_active:
  assumes "\<forall>T. heap_order (cmp T) (lx_key T)" and "lx_inv w t" and "ts_norm now" and "\<forall>k. lx_clock w k = now"
  shows "\<exists>w' t' fs. linux_eloop_timer_active cmp lx_log now w = Some w' \<and> lx_inv w' t' \<and> lx_same w w' \<and>
    lx_world.more w' = lx_world.more w @ fs \<and> distinct fs \<and> set fs = lx_due now w t \<and>
    sorted_wrt (\<lambda>a b. ts_ns (timeout (lx_tms w b)) \<le> ts_ns (timeout (lx_tms w a))) fs \<and>
    set (addrs t') = set (addrs t) - lx_due now w t"
  using assms(2,4)
proof (induction "card (lx_due now w t)" arbitrary: w t)
  case 0
  then have "lx_due now w t = {}" by (simp add: lx_due_def)
  then show ?case using lx_idle [OF 0(2), of now cmp lx_log] by force
next
  case (Suc n)
  define a where "a = hroot (lx_heap w)"
  let ?D = "lx_due now w t"
  have "?D \<noteq> {}" using Suc(2) by auto
  from lx_first [OF assms(1) Suc.prems(1) assms(3) Suc.prems(2) this a_def] obtain w1 w2 t1 where
    u: "lx_unlink cmp a w = Some w1" "clock_gettime w1 = (w2, now)" "a \<noteq> NIL" "linux_timer_active (lx_tms w a) now"
      "tm_active (lx_tms w a)" "lx_once (lx_tms w a)" "a \<in> ?D"
      "\<forall>b\<in>set (addrs t). ts_ns (timeout (lx_tms w a)) \<le> ts_ns (timeout (lx_tms w b))"
      "lx_inv w2 t1" "lx_same w w2" "\<forall>k. lx_clock w2 k = now" "lx_world.more w2 = lx_world.more w"
      "set (addrs t1) = set (addrs t) - {a}" "lx_due now w2 t1 = ?D - {a}"
    by (elim exE conjE) (rule that; assumption)
  have "n = card (lx_due now w2 t1)" using Suc(2) u(7) by (simp add: u(14) card_Diff_singleton)
  from Suc(1) [OF this u(9,11), unfolded u(14,12)] obtain w3 t3 fs where i:
    "linux_eloop_timer_active cmp lx_log now w2 = Some w3" "lx_inv w3 t3" "lx_same w2 w3"
    "lx_world.more w3 = lx_world.more w @ fs" "distinct fs" "set fs = ?D - {a}"
    "sorted_wrt (\<lambda>a b. ts_ns (timeout (lx_tms w2 b)) \<le> ts_ns (timeout (lx_tms w2 a))) fs"
    "set (addrs t3) = set (addrs t1) - (?D - {a})"
    by (elim exE conjE) (rule that; assumption)
  have same3: "lx_same w w3" by (rule lx_same_trans [OF u(10) i(3)])
  let ?w4 = "lx_world.more_update (\<lambda>l. l @ [a]) w3"
  have w4: "lx_tms ?w4 = lx_tms w3" "lx_heap ?w4 = lx_heap w3" "lx_clock ?w4 = lx_clock w3"
    "lx_world.more ?w4 = lx_world.more w @ fs @ [a]" using i(4) by simp_all
  have inv4: "lx_inv ?w4 t3" using i(2) lx_inv_cong [of ?w4 w3] w4 by simp
  have same4: "lx_same w ?w4" using lx_same_trans [OF same3 lx_same_refl] w4 by simp
  have D4: "lx_due now ?w4 t3 = {}"
    unfolding lx_same_due [OF same4] i(8) u(13) unfolding lx_due_def by blast
  obtain w5 where w5: "linux_eloop_timer_active cmp lx_log now ?w4 = Some w5" "lx_inv w5 t3" "lx_same ?w4 w5"
    "lx_world.more w5 = lx_world.more ?w4" using lx_idle [OF inv4 D4] by blast
  have "tm_cb (lx_tms w3 a) \<noteq> NIL" "\<not> lx_periodic (lx_tms ?w4 a)"
    using u(6) lx_same_fields(2) [OF same3] lx_same_fields(3) [OF same4] by (simp_all add: lx_once_def)
  then have run: "linux_eloop_timer_active cmp lx_log now w = Some w5"
    using u(1-5) i(1) w5(1)
    by (subst linux_eloop_timer_active.simps) (simp add: lx_log_def flip: a_def)
  have "sorted_wrt (\<lambda>a b. ts_ns (timeout (lx_tms w b)) \<le> ts_ns (timeout (lx_tms w a))) fs"
    using i(7) by (simp only: lx_same_fields(1) [OF u(10)])
  then have srt: "sorted_wrt (\<lambda>a b. ts_ns (timeout (lx_tms w b)) \<le> ts_ns (timeout (lx_tms w a))) (fs @ [a])"
    using u(8) i(6) by (auto simp: sorted_wrt_append lx_due_def)
  have "set (fs @ [a]) = ?D" "distinct (fs @ [a])" using i(5,6) u(7) by auto
  moreover have "set (addrs t3) = set (addrs t) - ?D" unfolding i(8) u(13) using u(7) by blast
  moreover have "lx_world.more w5 = lx_world.more w @ (fs @ [a])" using w5(4) w4(4) by simp
  ultimately show ?case using run w5(2) lx_same_trans [OF same4 w5(3)] srt
    by (intro exI [of _ w5] exI [of _ t3] exI [of _ "fs @ [a]"]) simp
qed

section \<open>A concrete world\<close>

text \<open>The timers 10 and 20 were due one and two seconds after the start; it is second 5. The
  comparison callback is the one of Darwin on the times of Linux.\<close>

definition lx_demo_cmp :: timer_cmp where
  "lx_demo_cmp T p c =
     (if sint (ts_sec (timeout (T c))) < sint (ts_sec (timeout (T p))) then HEAP_SWAP
      else if ts_sec (timeout (T c)) = ts_sec (timeout (T p)) \<and>
              sint (ts_nsec (timeout (T c))) < sint (ts_nsec (timeout (T p))) then HEAP_SWAP
      else HEAP_KEEP)"

interpretation lx: heap_order "lx_demo_cmp T" "lx_key T" for T
  by unfold_locales (auto simp: lx_demo_cmp_def lx_key_def less_timespec_ext_def less_prod_simp intro: signed_word_eqI)

definition lx_demo_timer :: "u64 \<Rightarrow> bool \<Rightarrow> timespec liteco_timer" where
  "lx_demo_timer s on = \<lparr>tm_cb = 7, tm_active = on, tm_stop = False,
     timeout = \<lparr>ts_sec = s, ts_nsec = 0\<rparr>, interval = \<lparr>ts_sec = 0, ts_nsec = 0\<rparr>\<rparr>"

definition lx_demo_tree :: htree where "lx_demo_tree = PN (PN PL 20 () PL) 10 () PL"

definition lx_five :: timespec where "lx_five = \<lparr>ts_sec = 5, ts_nsec = 0\<rparr>"

definition lx_demo :: "addr list lx_world_scheme" where
  "lx_demo = lx_world.extend (io_world.extend io_demo (lx_world.fields
     (\<lambda>a. if a = 10 then lx_demo_timer 1 True else if a = 20 then lx_demo_timer 2 True else lx_demo_timer 0 False)
     \<lparr>hroot = 10, cnt = 2, hmem = (\<lambda>a. if a = 10 then \<lparr>hp_p = NIL, hp_r = NIL, hp_l = 20\<rparr>
        else if a = 20 then \<lparr>hp_p = 10, hp_r = NIL, hp_l = NIL\<rparr> else \<lparr>hp_p = NIL, hp_r = NIL, hp_l = NIL\<rparr>)\<rparr>
     (\<lambda>_. lx_five) 0 8 lx_five 4)) []"

lemma lx_demo_fields:
  "lx_tms lx_demo = (\<lambda>a. if a = 10 then lx_demo_timer 1 True else if a = 20 then lx_demo_timer 2 True else lx_demo_timer 0 False)"
  "lx_heap lx_demo = \<lparr>hroot = 10, cnt = 2, hmem = (\<lambda>a. if a = 10 then \<lparr>hp_p = NIL, hp_r = NIL, hp_l = 20\<rparr>
     else if a = 20 then \<lparr>hp_p = 10, hp_r = NIL, hp_l = NIL\<rparr> else \<lparr>hp_p = NIL, hp_r = NIL, hp_l = NIL\<rparr>)\<rparr>"
  "lx_clock lx_demo = (\<lambda>_. lx_five)" "lx_world.more lx_demo = []"
  by (simp_all add: lx_demo_def lx_world.extend_def io_world.extend_def lx_world.fields_def)

lemma lx_demo_inv: "lx_inv lx_demo lx_demo_tree" "lx_due lx_five lx_demo lx_demo_tree = {10, 20}"
  by (auto simp: lx_inv_def heap_inv_def heap_holds_def complete_def lx_demo_fields lx_demo_tree_def lx_key_def
      lx_demo_timer_def lx_once_def lx_periodic_def ts_norm_def less_eq_timespec_ext_def less_eq_prod_simp lx_due_def linux_timer_active_def lx_five_def)

section \<open>Property\<close>

text \<open>\<open>liteco_eloop_init\<close> of Linux never sets the comparison callback of the heap; the statement is
  about a heap that somebody has given one. With a clock that stands still, timers that do not repeat
  and callbacks that only record their call, the expiry loop runs every due timer once, and ends, but
  in the reverse order of their times: the timer that was due last runs first (on Darwin it runs
  last). The timers that are not due stay in the heap.\<close>

theorem linux_timers_reversed:
  assumes "\<forall>T. heap_order (cmp T) (lx_key T)" and "lx_inv w t" and "ts_norm now" and "\<forall>k. lx_clock w k = now"
  shows "\<exists>w' t' fs. linux_eloop_timer_active cmp lx_log now w = Some w' \<and> lx_inv w' t' \<and>
    lx_world.more w' = lx_world.more w @ fs \<and> distinct fs \<and> set fs = lx_due now w t \<and>
    sorted_wrt (\<lambda>a b. ts_ns (timeout (lx_tms w b)) \<le> ts_ns (timeout (lx_tms w a))) fs \<and>
    set (addrs t') = set (addrs t) - lx_due now w t"
  using lx_active [OF assms] by blast

lemma linux_timers_reversed_witness:
  "\<exists>w'. linux_eloop_timer_active lx_demo_cmp lx_log lx_five lx_demo = Some w' \<and> lx_world.more w' = [20, 10]"
proof -
  have "\<forall>T. heap_order (lx_demo_cmp T) (lx_key T)" by (intro allI lx.heap_order_axioms)
  moreover have "ts_norm lx_five" "\<forall>k. lx_clock lx_demo k = lx_five" by (simp_all add: lx_five_def ts_norm_def lx_demo_fields)
  ultimately obtain w' fs where w': "linux_eloop_timer_active lx_demo_cmp lx_log lx_five lx_demo = Some w'"
    "lx_world.more w' = fs" "distinct fs" "set fs = {10, 20}"
    "sorted_wrt (\<lambda>a b. ts_ns (timeout (lx_tms lx_demo b)) \<le> ts_ns (timeout (lx_tms lx_demo a))) fs"
    using linux_timers_reversed [of lx_demo_cmp lx_demo lx_demo_tree lx_five] lx_demo_inv
    by (auto simp: lx_demo_fields(4))
  have "length fs = 2" using distinct_card [OF w'(3)] w'(4) by simp
  then obtain x y where fs: "fs = [x, y]" by (auto simp: numeral_2_eq_2 length_Suc_conv)
  then have "x = 10 \<and> y = 20 \<or> x = 20 \<and> y = 10" using w'(3,4) by (auto simp: doubleton_eq_iff)
  then have "fs = [20, 10]" using w'(5) fs by (auto simp: lx_demo_fields lx_demo_timer_def ts_ns_def)
  then show ?thesis using w'(1,2) by blast
qed

end
