(* ===== verification/Machine.thy ===== *)
theory Machine
  imports Prelude
begin

text \<open>
  The part of the x86-64 instruction set that the four assembly files of
  \<open>src/arch/x86_64\<close> are written in: registers, the zero flag, a byte memory and a
  small-step interpreter of instruction lists. Every instruction has the operand order of
  the AT\&T syntax of the files (source first).
\<close>

section \<open>Memory\<close>

type_synonym bytes = "u64 \<Rightarrow> 8 word"

definition load :: "bytes \<Rightarrow> u64 \<Rightarrow> 'a::len word" where
  "load m a = horner_sum of_bool 2 (map (\<lambda>i. bit (m (a + of_nat (i div 8))) (i mod 8)) [0..<LENGTH('a)])"

definition store :: "u64 \<Rightarrow> 'a::len word \<Rightarrow> bytes \<Rightarrow> bytes" where
  "store a w m = (\<lambda>b. let k = unat (b - a) in
     if 8 * k < LENGTH('a) then ucast (drop_bit (8 * k) w) else m b)"

text \<open>Two quad words that share no byte, and a quad word outside the bytes of a context.\<close>

definition sep :: "u64 \<Rightarrow> u64 \<Rightarrow> bool" where
  "sep a b \<longleftrightarrow> 8 \<le> b - a \<and> 8 \<le> a - b"

lemma bit_load: "bit (load m a :: 'a::len word) n \<longleftrightarrow> n < LENGTH('a) \<and> bit (m (a + of_nat (n div 8))) (n mod 8)"
  by (auto simp: load_def bit_horner_sum_bit_word_iff)

lemma unat_of_small: "k < 8 \<Longrightarrow> unat (of_nat k :: u64) = k"
  by (simp add: unat_of_nat)

lemma load_store [simp]: "load (store a w m) a = (w :: 'a::len word)" if "LENGTH('a) \<le> 64"
proof (rule bit_word_eqI)
  fix n assume n: "n < LENGTH('a)"
  then have k: "n div 8 < 8" using that by linarith
  have "8 * (n div 8) < LENGTH('a)" using n by linarith
  then show "bit (load (store a w m) a :: 'a word) n = bit w n"
    using n by (simp add: bit_load store_def Let_def unat_of_small [OF k] bit_simps)
qed

lemma store_byte_sep:
  assumes "sep a b" "k < 8"
  shows "store a (w :: u64) m (b + of_nat k) = m (b + of_nat k)"
proof -
  have "8 \<le> unat (b + of_nat k - a)"
  proof -
    have 1: "8 \<le> unat (b - a)" and 3: "8 \<le> unat (a - b)"
      using assms by (simp_all add: sep_def word_le_nat_alt)
    have 2: "unat (b - a) + 8 \<le> 2 ^ 64"
      using 1 3 by (simp add: unat_sub_if' split: if_splits)
    have "unat ((b - a) + of_nat k) = unat (b - a) + k"
      using 2 assms(2) by (subst unat_add_lem [THEN iffD1]) (auto simp: unat_of_small)
    then show ?thesis using 1 by (simp add: algebra_simps)
  qed
  then show ?thesis by (simp add: store_def Let_def)
qed

lemma load_store_sep:
  assumes "sep a b"
  shows "load (store a (w :: u64) m) b = (load m b :: u64)"
  by (rule bit_word_eqI) (simp add: bit_load store_byte_sep [OF assms] less_mult_imp_div_less)

lemma sep_offsets: "sep (c + i) (c + j) \<longleftrightarrow> 8 \<le> j - i \<and> 8 \<le> i - j"
  by (simp add: sep_def)

lemma sep_offset0: "sep c (c + j) \<longleftrightarrow> 8 \<le> j \<and> 8 \<le> - j" "sep (c + j) c \<longleftrightarrow> 8 \<le> j \<and> 8 \<le> - j"
  by (auto simp: sep_def)

section \<open>Registers and instructions\<close>

datatype reg = RAX | RBX | RCX | RDX | RSI | RDI | RBP | RSP
  | R8 | R9 | R10 | R11 | R12 | R13 | R14 | R15

datatype instr =
    MovR reg reg              \<comment> \<open>\<open>movq %s, %d\<close>\<close>
  | MovI u64 reg              \<comment> \<open>\<open>movq $i, %d\<close>\<close>
  | Load u64 reg reg          \<comment> \<open>\<open>movq o(%b), %d\<close>\<close>
  | Store reg u64 reg         \<comment> \<open>\<open>movq %s, o(%b)\<close>\<close>
  | StoreI u64 u64 reg        \<comment> \<open>\<open>movq $i, o(%b)\<close>\<close>
  | Lea u64 reg reg           \<comment> \<open>\<open>leaq o(%b), %d\<close>\<close>
  | AddR reg reg              \<comment> \<open>\<open>addq %s, %d\<close>\<close>
  | SubI u64 reg              \<comment> \<open>\<open>subq $i, %d\<close>\<close>
  | AndI u64 reg              \<comment> \<open>\<open>andq $i, %d\<close>\<close>
  | XorR reg reg              \<comment> \<open>\<open>xorq %s, %d\<close>\<close>
  | PushM u64 reg             \<comment> \<open>\<open>pushq o(%b)\<close>\<close>
  | Cmpxchg16 reg u64 reg     \<comment> \<open>\<open>lock cmpxchg %s, o(%b)\<close> with a 16 bit register\<close>
  | Pause
  | Je nat                    \<comment> \<open>jump to an index of the list\<close>
  | Jnz nat
  | Ret

text \<open>\<open>rip\<close> is the address that the code continues at after its \<open>ret\<close>; \<open>pauses\<close> counts the
  \<open>pause\<close> instructions.\<close>

record x86 =
  regs :: "reg \<Rightarrow> u64"
  zf :: bool
  mem :: bytes
  rip :: u64
  pauses :: nat

definition set_reg :: "reg \<Rightarrow> u64 \<Rightarrow> x86 \<Rightarrow> x86" where
  "set_reg r v s = s\<lparr>regs := (regs s)(r := v)\<rparr>"

definition alu :: "reg \<Rightarrow> u64 \<Rightarrow> x86 \<Rightarrow> x86" where
  "alu r v s = (set_reg r v s)\<lparr>zf := (v = 0)\<rparr>"

fun x86_exec :: "instr \<Rightarrow> x86 \<Rightarrow> x86" where
  "x86_exec (MovR r d) s = set_reg d (regs s r) s"
| "x86_exec (MovI i d) s = set_reg d i s"
| "x86_exec (Load k b d) s = set_reg d (load (mem s) (regs s b + k)) s"
| "x86_exec (Store r k b) s = s\<lparr>mem := store (regs s b + k) (regs s r) (mem s)\<rparr>"
| "x86_exec (StoreI i k b) s = s\<lparr>mem := store (regs s b + k) i (mem s)\<rparr>"
| "x86_exec (Lea k b d) s = set_reg d (regs s b + k) s"
| "x86_exec (AddR r d) s = alu d (regs s d + regs s r) s"
| "x86_exec (SubI i d) s = alu d (regs s d - i) s"
| "x86_exec (AndI i d) s = alu d (and (regs s d) i) s"
| "x86_exec (XorR r d) s = alu d (xor (regs s d) (regs s r)) s"
| "x86_exec (PushM k b) s =
     (let v = load (mem s) (regs s b + k); p = regs s RSP - 8
      in (set_reg RSP p s)\<lparr>mem := store p (v :: u64) (mem s)\<rparr>)"
| "x86_exec (Cmpxchg16 r k b) s =
     (let a = regs s b + k; v = (load (mem s) a :: 16 word)
      in if v = ucast (regs s RAX)
         then s\<lparr>mem := store a (ucast (regs s r) :: 16 word) (mem s), zf := True\<rparr>
         else (set_reg RAX (or (and (regs s RAX) (not (mask 16))) (ucast v)) s)\<lparr>zf := False\<rparr>)"
| "x86_exec Pause s = s\<lparr>pauses := pauses s + 1\<rparr>"
| "x86_exec (Je l) s = s"
| "x86_exec (Jnz l) s = s"
| "x86_exec Ret s = (set_reg RSP (regs s RSP + 8) s)\<lparr>rip := load (mem s) (regs s RSP)\<rparr>"

fun x86_next :: "instr \<Rightarrow> nat \<Rightarrow> x86 \<Rightarrow> nat" where
  "x86_next (Je l) pc s = (if zf s then l else pc + 1)"
| "x86_next (Jnz l) pc s = (if zf s then pc + 1 else l)"
| "x86_next i pc s = pc + 1"

text \<open>Runs a function up to its \<open>ret\<close>; \<open>None\<close> when it does not get there.\<close>

partial_function (option) x86_run :: "instr list \<Rightarrow> nat \<Rightarrow> x86 \<Rightarrow> x86 option" where
  "x86_run code pc s =
     (if length code \<le> pc then None
      else if code ! pc = Ret then Some (x86_exec Ret s)
      else x86_run code (x86_next (code ! pc) pc s) (x86_exec (code ! pc) s))"

subsection \<open>Straight-line code\<close>

definition straight :: "instr \<Rightarrow> bool" where
  "straight i = (case i of Je _ \<Rightarrow> False | Jnz _ \<Rightarrow> False | Ret \<Rightarrow> False | _ \<Rightarrow> True)"

lemma straight_next: "straight i \<Longrightarrow> x86_next i pc s = pc + 1 \<and> i \<noteq> Ret"
  by (cases i) (auto simp: straight_def)

lemma x86_run_straight:
  "list_all straight is \<Longrightarrow> x86_run (pre @ is @ rest) (length pre) s
     = x86_run (pre @ is @ rest) (length pre + length is) (fold x86_exec is s)"
proof (induction "is" arbitrary: pre s)
  case (Cons i "is")
  then have i: "straight i" "list_all straight is" by auto
  have "x86_run (pre @ (i # is) @ rest) (length pre) s
      = x86_run ((pre @ [i]) @ is @ rest) (length (pre @ [i])) (x86_exec i s)"
    by (subst x86_run.simps) (simp add: straight_next [OF i(1)] nth_append)
  also have "\<dots> = x86_run ((pre @ [i]) @ is @ rest) (length (pre @ [i]) + length is) (fold x86_exec is (x86_exec i s))"
    by (rule Cons.IH [OF i(2)])
  finally show ?case by simp
qed simp

lemma x86_run_to_ret:
  assumes "list_all straight is"
  shows "x86_run (is @ Ret # rest) 0 s = Some (x86_exec Ret (fold x86_exec is s))"
  using x86_run_straight [OF assms, of "[]" "Ret # rest" s]
  by (simp del: x86_exec.simps) (subst x86_run.simps, simp del: x86_exec.simps add: nth_append)

end
