(* ===== verification/Context.thy ===== *)
theory Context
  imports Machine
begin

text \<open>
  The assembly of \<open>src/arch/x86_64/elf\<close> (the \<open>macho\<close> copies differ in directives only):
  switching contexts, the first context of a coroutine, the compare-and-swap of the
  statuses and the pause loop. A context is the byte array \<open>liteco_context_t\<close>.
\<close>

section \<open>Contexts\<close>

text \<open>The offset of a register in \<open>liteco_context_t\<close>, and of the address to continue at.\<close>

fun slot :: "reg \<Rightarrow> u64" where
  "slot R8 = 0x08" | "slot R9 = 0x10" | "slot R10 = 0x18" | "slot R11 = 0x20"
| "slot R12 = 0x28" | "slot R13 = 0x30" | "slot R14 = 0x38" | "slot R15 = 0x40"
| "slot RDI = 0x48" | "slot RSI = 0x50" | "slot RBP = 0x58" | "slot RBX = 0x60"
| "slot RDX = 0x68" | "slot RAX = 0x70" | "slot RCX = 0x78" | "slot RSP = 0x80"

definition func_addr :: u64 where "func_addr = 0x88"

text \<open>The contexts at two addresses share no byte; a quad word lies outside of a context.\<close>

definition ctx_apart :: "u64 \<Rightarrow> u64 \<Rightarrow> bool" where
  "ctx_apart f t \<longleftrightarrow> 0x90 \<le> t - f \<and> 0x90 \<le> f - t"

definition outside :: "u64 \<Rightarrow> u64 \<Rightarrow> bool" where
  "outside c p \<longleftrightarrow> 0x90 \<le> p - c \<and> 8 \<le> c - p"

section \<open>The functions\<close>

definition liteco_context_swap :: "instr list" where
  "liteco_context_swap =
    [Store R8 0x08 RDI, Store R9 0x10 RDI, Store R10 0x18 RDI, Store R11 0x20 RDI,
     Store R12 0x28 RDI, Store R13 0x30 RDI, Store R14 0x38 RDI, Store R15 0x40 RDI,
     Store RDI 0x48 RDI, Store RSI 0x50 RDI, Store RBP 0x58 RDI, Store RBX 0x60 RDI,
     Store RDX 0x68 RDI, StoreI 0 0x70 RDI, Store RCX 0x78 RDI,
     Load 0 RSP RCX, Store RCX 0x88 RDI,
     Lea 0x08 RSP RCX, Store RCX 0x80 RDI,
     Load 0x08 RSI R8, Load 0x10 RSI R9, Load 0x18 RSI R10, Load 0x20 RSI R11,
     Load 0x28 RSI R12, Load 0x30 RSI R13, Load 0x38 RSI R14, Load 0x40 RSI R15,
     Load 0x48 RSI RDI, Load 0x58 RSI RBP, Load 0x60 RSI RBX, Load 0x68 RSI RDX,
     Load 0x70 RSI RAX, Load 0x78 RSI RAX, Load 0x80 RSI RSP,
     PushM 0x88 RSI,
     Load 0x50 RSI RSI,
     Ret]"

definition liteco_context_init :: "instr list" where
  "liteco_context_init =
    [Store RCX 0x88 RDI,
     MovR RSI RAX, AddR RDX RAX,
     SubI 0x08 RAX, AndI 0xfffffffffffffff0 RAX,
     Store RAX 0x60 RDI,
     SubI 0x08 RAX, Store RAX 0x80 RDI,
     Store R8 0x48 RDI,
     Ret]"

definition liteco_cas :: "instr list" where
  "liteco_cas =
    [Load 0 RDI RBX, MovR RSI RAX, MovR RDX RCX,
     Cmpxchg16 RCX 0 RDI,
     Je 7,
     XorR RAX RAX, Ret,
     MovI 1 RAX, Ret]"

definition liteco_cas_yield :: "instr list" where
  "liteco_cas_yield = [MovR RDI RAX, Pause, SubI 1 RAX, Jnz 1, Ret]"

section \<open>Addresses of slots\<close>

lemma sep_ctx:
  assumes "ctx_apart f t" "a \<le> 0x88" "b \<le> 0x88"
  shows "sep (f + a) (t + b)"
  using assms unfolding sep_def ctx_apart_def by uint_arith

lemma sep_outside:
  assumes "outside c p" "a \<le> 0x88"
  shows "sep (c + a) p" "sep p (c + a)"
  using assms unfolding sep_def outside_def by uint_arith+

lemma ctx_apart_sym: "ctx_apart f t \<Longrightarrow> ctx_apart t f"
  by (simp add: ctx_apart_def)

lemmas mem_simps = load_store_sep [OF sep_ctx] load_store_sep [OF sep_outside(1)] load_store_sep [OF sep_outside(2)]
  sep_offsets load_store_sep

section \<open>What a switch does\<close>

text \<open>The two halves of the function: the stores, and what restores the other context.\<close>

definition swap_save :: "instr list" where "swap_save = take 19 liteco_context_swap"
definition swap_restore :: "instr list" where "swap_restore = butlast (drop 19 liteco_context_swap)"

lemma swap_code: "liteco_context_swap = (swap_save @ swap_restore) @ Ret # []"
  by (simp add: swap_save_def swap_restore_def liteco_context_swap_def)

lemma swap_run:
  "x86_run liteco_context_swap 0 s
     = Some (x86_exec Ret (fold x86_exec swap_restore (fold x86_exec swap_save s)))"
proof -
  have "list_all straight (swap_save @ swap_restore)"
    by (simp add: swap_save_def swap_restore_def liteco_context_swap_def straight_def)
  from x86_run_to_ret [OF this, of "[]" s] show ?thesis
    by (simp only: swap_code [symmetric] fold_append comp_apply)
qed

text \<open>The memory after the stores into \<open>f\<close>, and after the push of \<open>v\<close> at \<open>q\<close>.\<close>

definition saved :: "u64 \<Rightarrow> x86 \<Rightarrow> bytes" where
  "saved f s = fold (\<lambda>kv. store (f + fst kv) (snd kv :: u64))
     [(0x08, regs s R8), (0x10, regs s R9), (0x18, regs s R10), (0x20, regs s R11),
      (0x28, regs s R12), (0x30, regs s R13), (0x38, regs s R14), (0x40, regs s R15),
      (0x48, regs s RDI), (0x50, regs s RSI), (0x58, regs s RBP), (0x60, regs s RBX),
      (0x68, regs s RDX), (0x70, 0), (0x78, regs s RCX),
      (0x88, load (mem s) (regs s RSP)), (0x80, regs s RSP + 8)] (mem s)"

lemma fold_store_frame:
  "\<forall>kv\<in>set kvs. sep (f + fst kv) a \<Longrightarrow>
     load (fold (\<lambda>kv. store (f + fst kv) (snd kv :: u64)) kvs m) a = (load m a :: u64)"
  by (induction kvs arbitrary: m) (simp_all add: load_store_sep)

lemma saved_frame:
  assumes "\<And>k. k \<le> 0x88 \<Longrightarrow> sep (f + k) a"
  shows "load (saved f s) a = (load (mem s) a :: u64)"
  unfolding saved_def by (rule fold_store_frame) (auto intro: assms)

lemma saved_slot:
  "r \<noteq> RAX \<Longrightarrow> r \<noteq> RSP \<Longrightarrow> load (saved f s) (f + slot r) = regs s r"
  "load (saved f s) (f + slot RAX) = (0 :: u64)"
  "load (saved f s) (f + slot RSP) = regs s RSP + 8"
  "load (saved f s) (f + func_addr) = (load (mem s) (regs s RSP) :: u64)"
  by (cases r; simp add: saved_def load_store_sep sep_offsets func_addr_def)+

lemma swap_save_run:
  "fold x86_exec swap_save s
     = s\<lparr>regs := (regs s)(RCX := regs s RSP + 8), mem := saved (regs s RDI) s\<rparr>" if "outside (regs s RDI) (regs s RSP)"
  using that by (simp add: swap_save_def liteco_context_swap_def saved_def set_reg_def mem_simps)

lemma swap_restore_run:
  fixes t q :: u64
  assumes "regs u RSI = t" "q = load (mem u) (t + slot RSP) - 8" "outside t q"
  shows "\<exists>u'. x86_exec Ret (fold x86_exec swap_restore u) = u' \<and>
     rip u' = load (mem u) (t + func_addr) \<and>
     (\<forall>r. r \<noteq> RAX \<longrightarrow> r \<noteq> RCX \<longrightarrow> regs u' r = load (mem u) (t + slot r)) \<and>
     mem u' = store q (load (mem u) (t + func_addr) :: u64) (mem u)"
  using assms
  by (simp add: swap_restore_def liteco_context_swap_def set_reg_def mem_simps func_addr_def Let_def)
    (intro allI impI; case_tac r; simp add: mem_simps)

lemma swap_effect:
  fixes f t q :: u64
  assumes r: "regs s RDI = f" "regs s RSI = t"
    and a: "ctx_apart f t" "outside f (regs s RSP)"
    and q: "q = load (mem s) (t + slot RSP) - 8" "outside t q"
  obtains s' where "x86_run liteco_context_swap 0 s = Some s'"
    and "rip s' = load (mem s) (t + func_addr)"
    and "\<And>r. r \<noteq> RAX \<Longrightarrow> r \<noteq> RCX \<Longrightarrow> regs s' r = load (mem s) (t + slot r)"
    and "mem s' = store q (load (mem s) (t + func_addr) :: u64) (saved f s)"
proof -
  let ?u = "fold x86_exec swap_save s"
  have u: "?u = s\<lparr>regs := (regs s)(RCX := regs s RSP + 8), mem := saved f s\<rparr>"
    using swap_save_run [of s] r a by simp
  have m: "load (saved f s) (t + k) = (load (mem s) (t + k) :: u64)" if "k \<le> 0x88" for k
    using a(1) that by (intro saved_frame sep_ctx)
  have k: "slot r \<le> 0x88" for r by (cases r) auto
  have "regs ?u RSI = t" "q = load (mem ?u) (t + slot RSP) - 8"
    using r q by (simp_all add: u m)
  from swap_restore_run [OF this q(2)] show ?thesis
    by (elim exE conjE) (rule that, simp add: swap_run, simp_all add: u m k func_addr_def)
qed

section \<open>The first context\<close>

lemma align16:
  fixes x :: u64
  defines "y \<equiv> and x 0xfffffffffffffff0"
  shows "uint y \<le> uint x" "uint x < uint y + 16" "uint y mod 16 = 0"
proof -
  have "0xfffffffffffffff0 = (not (mask 4) :: u64)" by (simp add: mask_numeral)
  then have y: "y = push_bit 4 (drop_bit 4 x)"
    unfolding y_def by (simp add: bit_eq_iff bit_simps) auto
  have "uint y = take_bit 64 (push_bit 4 (drop_bit 4 (uint x)))"
    unfolding y unsigned_push_bit_eq unsigned_drop_bit_eq
    using uint_bounded [of x] by (simp add: take_bit_int_eq_self)
  also have "\<dots> = uint x div 16 * 16"
  proof -
    have "uint x < 2 ^ 64" using uint_bounded [of x] by simp
    moreover have "0 \<le> uint x div 16 * 16" by (simp add: pos_imp_zdiv_nonneg_iff)
    moreover have "uint x div 16 * 16 \<le> uint x" by presburger
    ultimately have "0 \<le> uint x div 16 * 16" "uint x div 16 * 16 < 2 ^ 64" by linarith+
    then show ?thesis by (simp add: take_bit_eq_mod drop_bit_eq_div push_bit_eq_mult)
  qed
  finally have "uint y = uint x div 16 * 16" .
  then show "uint y \<le> uint x" "uint x < uint y + 16" "uint y mod 16 = 0"
    by (presburger, presburger, simp)
qed

definition stack_top :: "u64 \<Rightarrow> u64 \<Rightarrow> u64" where
  "stack_top st sz = and (st + sz - 8) 0xfffffffffffffff0 - 8"

lemma stack_top_bounds:
  assumes "uint st + uint sz < 2 ^ 64" "40 \<le> uint sz"
  shows "uint st + 8 \<le> uint (stack_top st sz)"
    and "uint (stack_top st sz) + 8 \<le> uint st + uint sz"
    and "uint (stack_top st sz - 8) = uint (stack_top st sz) - 8"
    and "uint (stack_top st sz + 8) mod 16 = 0"
proof -
  let ?x = "st + sz - 8"
  have "uint (st + sz) = uint st + uint sz" using uint_add_lem [of st sz] assms by simp
  moreover from this have "uint ?x = uint (st + sz) - uint (8 :: u64)"
    using uint_sub_lem [of 8 "st + sz"] assms uint_ge_0 [of st] by simp
  ultimately have x: "uint ?x = uint st + uint sz - 8" by simp
  note a = align16 [of ?x]
  have t: "uint (stack_top st sz) = uint (and ?x 0xfffffffffffffff0) - 8"
    unfolding stack_top_def
    using uint_sub_lem [of 8 "and ?x 0xfffffffffffffff0"] a(2) x assms uint_ge_0 [of st] by simp
  show "uint st + 8 \<le> uint (stack_top st sz)" "uint (stack_top st sz) + 8 \<le> uint st + uint sz"
    using t a x assms by linarith+
  have "8 \<le> uint (stack_top st sz)" using t a x assms uint_ge_0 [of st] by linarith
  then show "uint (stack_top st sz - 8) = uint (stack_top st sz) - 8"
    using uint_sub_lem [of 8 "stack_top st sz"] by simp
  show "uint (stack_top st sz + 8) mod 16 = 0"
    unfolding stack_top_def using a(3) by simp
qed

lemma init_effect:
  assumes "regs s RDI = c" "outside c (regs s RSP)"
  obtains s' where "x86_run liteco_context_init 0 s = Some s'"
    and "rip s' = load (mem s) (regs s RSP)" "regs s' RSP = regs s RSP + 8"
    and "load (mem s') (c + func_addr) = regs s RCX"
    and "load (mem s') (c + slot RSP) = stack_top (regs s RSI) (regs s RDX)"
    and "load (mem s') (c + slot RDI) = regs s R8"
proof -
  have "list_all straight (butlast liteco_context_init)"
    by (simp add: liteco_context_init_def straight_def)
  from x86_run_to_ret [OF this, of "[]" s]
  have "x86_run liteco_context_init 0 s
      = Some (x86_exec Ret (fold x86_exec (butlast liteco_context_init) s))"
    by (simp add: liteco_context_init_def del: x86_exec.simps fold_simps)
  then show ?thesis
    by (rule that) (use assms in \<open>simp_all add: liteco_context_init_def set_reg_def alu_def
      mem_simps func_addr_def stack_top_def\<close>)
qed

section \<open>Switching away and back\<close>

text \<open>Registers that a C function must leave unchanged.\<close>

definition callee_saved :: "reg set" where
  "callee_saved = {RBX, RBP, R12, R13, R14, R15}"

text \<open>The call \<open>liteco_context_swap (f, t)\<close> in the state \<open>s\<close>: two different contexts, and the
  stack pointer of the caller lies outside of \<open>f\<close>. What a later switch reads of a context.\<close>

definition swap_call :: "u64 \<Rightarrow> u64 \<Rightarrow> x86 \<Rightarrow> bool" where
  "swap_call f t s \<longleftrightarrow> regs s RDI = f \<and> regs s RSI = t \<and> ctx_apart f t \<and> outside f (regs s RSP)"

definition same_ctx :: "u64 \<Rightarrow> x86 \<Rightarrow> x86 \<Rightarrow> bool" where
  "same_ctx c s1 s2 \<longleftrightarrow> load (mem s1) (c + func_addr) = (load (mem s2) (c + func_addr) :: u64) \<and>
     (\<forall>r \<in> {RDI, RSP} \<union> callee_saved. load (mem s1) (c + slot r) = (load (mem s2) (c + slot r) :: u64))"

text \<open>C7: A switch away from a coroutine and a later switch back is a return from the call
  of \<open>liteco_context_swap\<close>. The first call goes on at the address and with the stack pointer that
  the context \<open>t\<close> holds; when, from any other context \<open>g\<close>, \<open>f\<close> is switched to again and its bytes
  are the ones that were stored, the code goes on after the first call, with the stack pointer
  after a return and every callee-saved register as it was.\<close>

theorem context_switch_roundtrip:
  assumes sw: "swap_call f t s" "outside f (load (mem s) (t + slot RSP) - 8)"
    "outside t (load (mem s) (t + slot RSP) - 8)"
  shows "\<exists>s1. x86_run liteco_context_swap 0 s = Some s1 \<and>
     rip s1 = load (mem s) (t + func_addr) \<and> regs s1 RSP = load (mem s) (t + slot RSP) \<and>
     (\<forall>s2 g. swap_call g f s2 \<and> same_ctx f s1 s2 \<longrightarrow>
       (\<exists>s3. x86_run liteco_context_swap 0 s2 = Some s3 \<and>
          rip s3 = load (mem s) (regs s RSP) \<and> regs s3 RSP = regs s RSP + 8 \<and>
          (\<forall>r \<in> callee_saved. regs s3 r = regs s r)))"
proof -
  let ?q = "load (mem s) (t + slot RSP) - 8 :: u64"
  obtain s1 where s1: "x86_run liteco_context_swap 0 s = Some s1"
      "rip s1 = load (mem s) (t + func_addr)"
      "\<And>r. r \<noteq> RAX \<Longrightarrow> r \<noteq> RCX \<Longrightarrow> regs s1 r = load (mem s) (t + slot r)"
      "mem s1 = store ?q (load (mem s) (t + func_addr) :: u64) (saved f s)"
    by (rule swap_effect [of s f t ?q]) (use sw in \<open>simp_all add: swap_call_def del: slot.simps\<close>)
  have k: "slot r \<le> 0x88" "func_addr \<le> 0x88" for r by (cases r; simp add: func_addr_def)+
  have m: "load (mem s1) (f + slot r) = regs s r" "load (mem s1) (f + slot RSP) = regs s RSP + 8"
    "load (mem s1) (f + func_addr) = (load (mem s) (regs s RSP) :: u64)"
    if "r \<in> callee_saved" for r
    using that by (simp_all add: s1(4) load_store_sep [OF sep_outside(2) [OF sw(2) k(1)]]
      load_store_sep [OF sep_outside(2) [OF sw(2) k(2)]] saved_slot del: slot.simps)
      (auto simp: callee_saved_def intro!: saved_slot(1))
  have again: "\<exists>s3. x86_run liteco_context_swap 0 s2 = Some s3 \<and>
      rip s3 = load (mem s) (regs s RSP) \<and> regs s3 RSP = regs s RSP + 8 \<and>
      (\<forall>r \<in> callee_saved. regs s3 r = regs s r)"
    if c: "swap_call g f s2" "same_ctx f s1 s2" for g s2
  proof -
    have e: "load (mem s2) (f + func_addr) = (load (mem s) (regs s RSP) :: u64)"
        "load (mem s2) (f + slot RSP) = regs s RSP + 8"
        "\<forall>r \<in> callee_saved. load (mem s2) (f + slot r) = regs s r"
      using c(2) m(2,3) [of RBX] m(1) by (simp_all add: same_ctx_def callee_saved_def del: slot.simps)
    show ?thesis
      by (rule swap_effect [of s2 g f "regs s RSP"])
        (use c(1) sw(1) e in \<open>simp_all add: swap_call_def callee_saved_def del: slot.simps\<close>)
  qed
  have "regs s1 RSP = load (mem s) (t + slot RSP)" by (rule s1(3)) simp_all
  with s1(1,2) again show ?thesis by blast
qed

definition demo_swap :: x86 where
  "demo_swap = \<lparr>regs = (\<lambda>_. 7)(RDI := 0x2000, RSI := 0x1000, RSP := 0x9000), zf = False,
     mem = store (0x1080 :: u64) (0x8000 :: u64) (\<lambda>_. 0), rip = 0, pauses = 0\<rparr>"

theorem context_switch_roundtrip_witness:
  "\<exists>s1 s3. x86_run liteco_context_swap 0 demo_swap = Some s1 \<and>
     x86_run liteco_context_swap 0 (s1\<lparr>regs := (regs s1)(RDI := 0x3000, RSI := 0x2000)\<rparr>) = Some s3 \<and>
     regs s3 RSP = 0x9008 \<and> regs s3 RBX = 7"
proof -
  have l: "load (mem demo_swap) (0x1000 + slot RSP) = (0x8000 :: u64)"
    by (simp add: demo_swap_def)
  obtain s1 where s1: "x86_run liteco_context_swap 0 demo_swap = Some s1" "regs s1 RSP = 0x8000"
      "\<forall>s2 g. swap_call g 0x2000 s2 \<and> same_ctx 0x2000 s1 s2 \<longrightarrow>
       (\<exists>s3. x86_run liteco_context_swap 0 s2 = Some s3 \<and>
          rip s3 = load (mem demo_swap) (regs demo_swap RSP) \<and> regs s3 RSP = regs demo_swap RSP + 8 \<and>
          (\<forall>r \<in> callee_saved. regs s3 r = regs demo_swap r))"
    using context_switch_roundtrip [where f = "0x2000" and t = "0x1000" and s = demo_swap] unfolding l
    by (simp add: swap_call_def ctx_apart_def outside_def demo_swap_def) blast
  let ?s2 = "s1\<lparr>regs := (regs s1)(RDI := 0x3000, RSI := 0x2000)\<rparr>"
  have "swap_call 0x3000 0x2000 ?s2" "same_ctx 0x2000 s1 ?s2"
    using s1(2) by (simp_all add: swap_call_def ctx_apart_def outside_def same_ctx_def)
  then show ?thesis using s1 by (force simp: callee_saved_def demo_swap_def)
qed

text \<open>C8: The context that \<open>liteco_context_init\<close> builds starts the function: the first switch to it
  enters \<open>func_addr\<close> with \<open>arg\<close> in the first argument register, with the stack pointer that the
  calling convention asks for at the entry of a function (a multiple of 16 after the return
  address), and with the stack pointer and the pushed address inside of the given stack, when this
  has at least 40 bytes.\<close>

theorem context_first_entry:
  assumes "regs s RDI = c" "regs s RSI = st" "regs s RDX = sz" "outside c (regs s RSP)"
    and "uint st + uint sz < 2 ^ 64" "40 \<le> uint sz"
    and "\<forall>p. uint st \<le> uint p \<and> uint p + 8 \<le> uint st + uint sz \<longrightarrow> outside c p"
  shows "\<exists>s1. x86_run liteco_context_init 0 s = Some s1 \<and>
     rip s1 = load (mem s) (regs s RSP) \<and> regs s1 RSP = regs s RSP + 8 \<and>
     (\<forall>s2 f. swap_call f c s2 \<and> same_ctx c s1 s2 \<longrightarrow>
       (\<exists>s3. x86_run liteco_context_swap 0 s2 = Some s3 \<and>
          rip s3 = regs s RCX \<and> regs s3 RDI = regs s R8 \<and>
          uint (regs s3 RSP + 8) mod 16 = 0 \<and>
          uint st + 8 \<le> uint (regs s3 RSP) \<and> uint (regs s3 RSP) + 8 \<le> uint st + uint sz))"
proof -
  note b = stack_top_bounds [OF assms(5,6)]
  obtain s1 where s1: "x86_run liteco_context_init 0 s = Some s1"
      "rip s1 = load (mem s) (regs s RSP)" "regs s1 RSP = regs s RSP + 8"
      "load (mem s1) (c + func_addr) = regs s RCX"
      "load (mem s1) (c + slot RSP) = stack_top (regs s RSI) (regs s RDX)"
      "load (mem s1) (c + slot RDI) = regs s R8"
    by (rule init_effect [OF assms(1,4)])
  have enter: "\<exists>s3. x86_run liteco_context_swap 0 s2 = Some s3 \<and>
          rip s3 = regs s RCX \<and> regs s3 RDI = regs s R8 \<and> regs s3 RSP = stack_top st sz"
    if c: "swap_call f c s2" "same_ctx c s1 s2" for f s2
  proof -
    have e: "load (mem s2) (c + func_addr) = regs s RCX" "load (mem s2) (c + slot RSP) = stack_top st sz"
        "load (mem s2) (c + slot RDI) = regs s R8"
      using c(2) s1(4-6) assms(2,3) by (simp_all add: same_ctx_def del: slot.simps)
    have o: "outside c (stack_top st sz - 8)" using b assms(7) by simp
    show ?thesis
      by (rule swap_effect [of s2 f c "stack_top st sz - 8"])
        (use c(1) e o in \<open>simp_all add: swap_call_def del: slot.simps\<close>)
  qed
  have top: "uint (stack_top st sz + 8) mod 16 = 0 \<and> uint st + 8 \<le> uint (stack_top st sz) \<and>
      uint (stack_top st sz) + 8 \<le> uint st + uint sz"
    using b by simp
  show ?thesis
  proof (rule exI [of _ s1], intro conjI allI impI s1(1-3), elim conjE)
    fix s2 f
    assume "swap_call f c s2" "same_ctx c s1 s2"
    then obtain s3 where "x86_run liteco_context_swap 0 s2 = Some s3"
        "rip s3 = regs s RCX" "regs s3 RDI = regs s R8" "regs s3 RSP = stack_top st sz"
      using enter by blast
    with top show "\<exists>s3. x86_run liteco_context_swap 0 s2 = Some s3 \<and>
          rip s3 = regs s RCX \<and> regs s3 RDI = regs s R8 \<and>
          uint (regs s3 RSP + 8) mod 16 = 0 \<and>
          uint st + 8 \<le> uint (regs s3 RSP) \<and> uint (regs s3 RSP) + 8 \<le> uint st + uint sz"
      by (intro exI [of _ s3]) simp
  qed
qed

definition demo_init :: x86 where
  "demo_init = \<lparr>regs = (\<lambda>_. 0)(RDI := 0x1000, RSI := 0x4000, RDX := 0x1000, RCX := 0x400000, R8 := 9, RSP := 0x9000),
     zf = False, mem = (\<lambda>_. 0), rip = 0, pauses = 0\<rparr>"

theorem context_first_entry_witness:
  "\<exists>s1 s3. x86_run liteco_context_init 0 demo_init = Some s1 \<and>
     x86_run liteco_context_swap 0 (s1\<lparr>regs := (regs s1)(RDI := 0x2000, RSI := 0x1000)\<rparr>) = Some s3 \<and>
     rip s3 = 0x400000 \<and> regs s3 RDI = 9"
proof -
  have o: "outside 0x1000 p" if "0x4000 \<le> uint p" "uint p + 8 \<le> 0x5000" for p
    using that unfolding outside_def by uint_arith
  obtain s1 where s1: "x86_run liteco_context_init 0 demo_init = Some s1" "regs s1 RSP = 0x9008"
      "\<forall>s2 f. swap_call f 0x1000 s2 \<and> same_ctx 0x1000 s1 s2 \<longrightarrow>
       (\<exists>s3. x86_run liteco_context_swap 0 s2 = Some s3 \<and> rip s3 = 0x400000 \<and> regs s3 RDI = 9)"
    using context_first_entry [where s = demo_init and c = "0x1000" and st = "0x4000" and sz = "0x1000"] o
    by (simp add: demo_init_def outside_def) blast
  let ?s2 = "s1\<lparr>regs := (regs s1)(RDI := 0x2000, RSI := 0x1000)\<rparr>"
  have "swap_call 0x2000 0x1000 ?s2" "same_ctx 0x1000 s1 ?s2"
    using s1(2) by (simp_all add: swap_call_def ctx_apart_def outside_def same_ctx_def)
  then show ?thesis using s1 by blast
qed

section \<open>Compare-and-swap\<close>

lemma cas_run:
  fixes s :: x86
  defines "v \<equiv> (load (mem s) (regs s RDI) :: 16 word)"
  shows "\<exists>s'. x86_run liteco_cas 0 s = Some s' \<and> rip s' = load (mem s') (regs s RSP) \<and>
     regs s' RAX = (if v = ucast (regs s RSI) then 1 else 0) \<and>
     mem s' = (if v = ucast (regs s RSI)
               then store (regs s RDI) (ucast (regs s RDX) :: 16 word) (mem s) else mem s) \<and>
     regs s' RBX = load (mem s) (regs s RDI)"
  by (simp add: liteco_cas_def x86_run.simps v_def set_reg_def alu_def Let_def)

lemma load_low_half: "(load m a :: 16 word) = ucast (load m a :: u32)"
  by (rule bit_word_eqI) (simp add: bit_load bit_simps)

lemma load_store_low_half:
  "(load (store a (w :: 16 word) m) a :: u32) = or (and (load m a) 0xffff0000) (ucast w)"
proof (rule bit_word_eqI)
  fix n assume "n < LENGTH(32)"
  then have n: "n < 32" by simp
  then have k: "n div 8 < 8" by linarith
  have h: "(0xffff0000 :: u32) = push_bit 16 (mask 16)" by (simp add: mask_numeral)
  show "bit (load (store a w m) a :: u32) n = bit (or (and (load m a) 0xffff0000) (ucast w) :: u32) n"
  proof (cases "n < 16")
    case True
    then have "8 * (n div 8) < 16" by linarith
    then show ?thesis using True n
      by (simp add: bit_load store_def Let_def unat_of_small [OF k] h) (simp add: bit_simps)
  next
    case False
    then have "\<not> 8 * (n div 8) < 16" by presburger
    then show ?thesis using False n
      by (simp add: bit_load store_def Let_def unat_of_small [OF k] h)
        (auto simp: bit_simps bit_load dest: bit_imp_le_length)
  qed
qed

lemma below_half:
  assumes "(x :: u32) < 0x10000"
  shows "and x 0xffff0000 = 0" "ucast (ucast x :: 16 word) = x"
proof -
  have x: "x = take_bit 16 x"
  proof -
    have "unat x < 65536" using assms by (simp add: word_less_nat_alt)
    then show ?thesis by (simp add: word_unat_eq_iff take_bit_eq_mod unat_mod_distrib)
  qed
  have h: "(0xffff0000 :: u32) = push_bit 16 (mask 16)" by (simp add: mask_numeral)
  show "and x 0xffff0000 = 0"
    unfolding h by (subst x) (rule bit_word_eqI, simp add: bit_simps)
  show "ucast (ucast x :: 16 word) = x"
    by (subst (2) x) (rule bit_word_eqI, simp add: bit_simps)
qed

text \<open>What \<open>liteco_cas\<close> does in every state: it compares and replaces the low 16 bits of the
  32-bit status only, and it leaves eight bytes of memory in \<open>rbx\<close>, a register that belongs to the
  caller.\<close>

theorem cas_exact:
  "\<exists>s'. x86_run liteco_cas 0 s = Some s' \<and>
     regs s' RAX = (if (ucast (load (mem s) (regs s RDI) :: u32) :: 16 word) = ucast (regs s RSI) then 1 else 0) \<and>
     (load (mem s') (regs s RDI) :: u32)
       = (if regs s' RAX = 1 then or (and (load (mem s) (regs s RDI)) 0xffff0000) (ucast (ucast (regs s RDX) :: 16 word))
          else load (mem s) (regs s RDI)) \<and>
     regs s' RBX = load (mem s) (regs s RDI)"
proof -
  obtain s' where s': "x86_run liteco_cas 0 s = Some s'"
      "regs s' RAX = (if (load (mem s) (regs s RDI) :: 16 word) = ucast (regs s RSI) then 1 else 0)"
      "mem s' = (if (load (mem s) (regs s RDI) :: 16 word) = ucast (regs s RSI)
         then store (regs s RDI) (ucast (regs s RDX) :: 16 word) (mem s) else mem s)"
      "regs s' RBX = load (mem s) (regs s RDI)"
    using cas_run [of s] by blast
  show ?thesis
    by (rule exI [of _ s']) (simp add: s' load_low_half load_store_low_half)
qed

section \<open>Pausing\<close>

lemma yield_loop:
  assumes "regs s RAX \<noteq> 0"
  shows "\<exists>s'. x86_run liteco_cas_yield 1 s = Some s' \<and> pauses s' = unat (regs s RAX) + pauses s"
  using assms
proof (induction "unat (regs s RAX)" arbitrary: s)
  case 0 then show ?case by (simp add: unat_eq_0)
next
  case (Suc n)
  let ?s = "x86_exec (SubI 1 RAX) (x86_exec Pause s)"
  have n: "unat (regs ?s RAX) = n"
    using Suc.hyps(2) by (simp add: alu_def set_reg_def unat_minus_one Suc.prems)
  have z: "regs s RAX - 1 = 0 \<longleftrightarrow> n = 0"
    using n by (auto simp: alu_def set_reg_def unat_eq_zero)
  have step: "x86_run liteco_cas_yield 1 s = x86_run liteco_cas_yield (if n = 0 then 4 else 1) ?s"
    by (subst x86_run.simps, subst x86_run.simps, subst x86_run.simps)
      (simp add: liteco_cas_yield_def alu_def set_reg_def z eval_nat_numeral del: right_minus_eq)
  show ?case
  proof (cases "n = 0")
    case True
    then show ?thesis using step Suc.hyps(2)
      by (simp add: x86_run.simps [of _ 4] liteco_cas_yield_def) (simp add: alu_def set_reg_def)
  next
    case False
    with n have "regs ?s RAX \<noteq> 0" by auto
    from Suc.hyps(1) [OF n [symmetric] this] False Suc.hyps(2) n show ?thesis
      unfolding step by (auto simp: alu_def set_reg_def)
  qed
qed

text \<open>\<open>liteco_cas_yield (n)\<close> ends after \<open>n\<close> pauses; 0 counts as \<open>2^64\<close>.\<close>

lemma yield_terminates:
  "\<exists>s'. x86_run liteco_cas_yield 0 s = Some s' \<and>
     pauses s' = (if regs s RDI = 0 then 2 ^ 64 else unat (regs s RDI)) + pauses s"
proof -
  let ?s = "x86_exec (MovR RDI RAX) s"
  have start: "x86_run liteco_cas_yield 0 s = x86_run liteco_cas_yield 1 ?s"
    by (subst x86_run.simps) (simp add: liteco_cas_yield_def)
  show ?thesis
  proof (cases "regs s RDI = 0")
    case False
    then show ?thesis unfolding start using yield_loop [of ?s] by (simp add: set_reg_def)
  next
    case True
    let ?u = "x86_exec (SubI 1 RAX) (x86_exec Pause ?s)"
    have "x86_run liteco_cas_yield 1 ?s = x86_run liteco_cas_yield 1 ?u"
      using True by (subst x86_run.simps, subst x86_run.simps, subst x86_run.simps)
        (simp add: liteco_cas_yield_def alu_def set_reg_def eval_nat_numeral)
    moreover have "regs ?u RAX = - 1" "pauses ?u = pauses s + 1"
      using True by (simp_all add: set_reg_def alu_def)
    moreover have "unat (- 1 :: u64) = 2 ^ 64 - 1"
      by (simp add: unsigned_minus_1_eq_mask mask_eq_exp_minus_1)
    ultimately show ?thesis unfolding start using yield_loop [of ?u] True by simp
  qed
qed

text \<open>C40: For statuses below \<open>2^16\<close> (all values the library uses) \<open>liteco_cas\<close> is the compare-and-swap
  of its prototype: it returns 1 and writes the new value exactly when the old one is the expected
  one, and writes no other byte.\<close>

theorem cas_is_cas:
  fixes m e n :: u32
  assumes "m = load (mem s) (regs s RDI)" "e = ucast (regs s RSI)" "n = ucast (regs s RDX)"
    and "m < 0x10000" "e < 0x10000" "n < 0x10000"
  shows "\<exists>s'. x86_run liteco_cas 0 s = Some s' \<and>
     regs s' RAX = (if m = e then 1 else 0) \<and>
     load (mem s') (regs s RDI) = (if m = e then n else m) \<and>
     (\<forall>a. 2 \<le> a - regs s RDI \<longrightarrow> mem s' a = mem s a)"
proof -
  obtain s' where s': "x86_run liteco_cas 0 s = Some s'"
      "regs s' RAX = (if (ucast m :: 16 word) = ucast (regs s RSI) then 1 else 0)"
      "mem s' = (if (ucast m :: 16 word) = ucast (regs s RSI)
         then store (regs s RDI) (ucast (regs s RDX) :: 16 word) (mem s) else mem s)"
    using cas_run [of s] unfolding load_low_half assms(1) by blast
  have "(ucast (w :: u64) :: 16 word) = ucast (ucast w :: u32)" for w
    by (rule bit_word_eqI) (simp add: bit_simps)
  then have u: "(ucast (regs s RSI) :: 16 word) = ucast e" "(ucast (regs s RDX) :: 16 word) = ucast n"
    using assms(2,3) by simp_all
  have "(ucast m :: 16 word) = ucast e \<longleftrightarrow> m = e"
    using below_half(2) [OF assms(4)] below_half(2) [OF assms(5)] by metis
  moreover have "store (regs s RDI) (w :: 16 word) (mem s) a = mem s a" if "2 \<le> a - regs s RDI" for a w
    using that by (simp add: store_def Let_def word_le_nat_alt)
  ultimately show ?thesis
    by (intro exI [of _ s'])
      (simp add: s' u load_store_low_half below_half assms(4-6) assms(1) [symmetric])
qed

definition demo_cas :: x86 where
  "demo_cas = \<lparr>regs = (\<lambda>_. 0)(RDI := 0x1000, RSI := 1, RDX := 2), zf = False,
     mem = store (0x1000 :: u64) (1 :: u32) (\<lambda>_. 0), rip = 0, pauses = 0\<rparr>"

theorem cas_is_cas_witness:
  "\<exists>s'. x86_run liteco_cas 0 demo_cas = Some s' \<and> regs s' RAX = 1 \<and>
     load (mem s') 0x1000 = (2 :: u32)"
proof -
  have r: "load (mem demo_cas) (regs demo_cas RDI) = (1 :: u32)" "regs demo_cas RDI = 0x1000"
      "ucast (regs demo_cas RSI) = (1 :: u32)" "ucast (regs demo_cas RDX) = (2 :: u32)"
    by (simp_all add: demo_cas_def)
  from cas_is_cas [OF r(1,3,4) [symmetric]] show ?thesis
    unfolding r(2) by auto
qed

end
