(* ===== verification/Select_Locks.thy ===== *)
theory Select_Locks
  imports Select
begin

text \<open>
  The locks of \<open>liteco_select_choose\<close> when several threads select at the same time. The
  function locks the channels of its cases one after the other, in the order of the array, and
  unlocks them in the same order (at the beginning, and again after the coroutine was woken).
  Every lock and unlock is a step of the relation, and the threads take their steps in any order.
\<close>

section \<open>Threads\<close>

text \<open>\<open>Locking i\<close>: the next channel to lock is the one of case \<open>i\<close>; \<open>Unlocking i\<close>: the next one to
  unlock; \<open>Outside\<close>: not in the function, or switched away from.\<close>

datatype lock_pc = Outside | Locking nat | Unlocking nat

type_synonym thread = nat

record lock_state =
  mtx :: "addr \<Rightarrow> thread option"
  pcs :: "thread \<Rightarrow> lock_pc"

definition liteco_chan_lock :: "thread \<Rightarrow> addr \<Rightarrow> lock_state \<Rightarrow> lock_state option" where
  "liteco_chan_lock t c s = (if mtx s c = None then Some (s\<lparr>mtx := (mtx s)(c \<mapsto> t)\<rparr>) else None)"

definition liteco_chan_unlock :: "addr \<Rightarrow> lock_state \<Rightarrow> lock_state" where
  "liteco_chan_unlock c s = s\<lparr>mtx := (mtx s)(c := None)\<rparr>"

definition set_pc :: "thread \<Rightarrow> lock_pc \<Rightarrow> lock_state \<Rightarrow> lock_state" where
  "set_pc t p s = s\<lparr>pcs := (pcs s)(t := p)\<rparr>"

text \<open>\<open>prog t\<close> are the cases that thread \<open>t\<close> selects on.\<close>

inductive lock_step :: "(thread \<Rightarrow> liteco_case list) \<Rightarrow> thread \<Rightarrow> lock_state \<Rightarrow> lock_state \<Rightarrow> bool" for prog where
  call: "pcs s t = Outside \<Longrightarrow> lock_step prog t s (set_pc t (Locking 0) s)"
| lock: "pcs s t = Locking i \<Longrightarrow> i < length (prog t) \<Longrightarrow>
    liteco_chan_lock t (cs_chan (prog t ! i)) s = Some s1 \<Longrightarrow>
    lock_step prog t s (set_pc t (Locking (i + 1)) s1)"
| choose: "pcs s t = Locking (length (prog t)) \<Longrightarrow> lock_step prog t s (set_pc t (Unlocking 0) s)"
| unlock: "pcs s t = Unlocking i \<Longrightarrow> i < length (prog t) \<Longrightarrow>
    lock_step prog t s (set_pc t (Unlocking (i + 1)) (liteco_chan_unlock (cs_chan (prog t ! i)) s))"
| leave: "pcs s t = Unlocking (length (prog t)) \<Longrightarrow> lock_step prog t s (set_pc t Outside s)"

definition lock_init :: lock_state where
  "lock_init = \<lparr>mtx = (\<lambda>_. None), pcs = (\<lambda>_. Outside)\<rparr>"

inductive lock_steps :: "(thread \<Rightarrow> liteco_case list) \<Rightarrow> lock_state \<Rightarrow> lock_state \<Rightarrow> bool" for prog where
  refl: "lock_steps prog s s"
| step: "lock_steps prog s u \<Longrightarrow> lock_step prog t u v \<Longrightarrow> lock_steps prog s v"

inductive_cases lock_stepE: "lock_step prog t s s'"

lemma liteco_chan_lock_free:
  "mtx s c = None \<Longrightarrow> liteco_chan_lock t c s = Some (s\<lparr>mtx := (mtx s)(c \<mapsto> t)\<rparr>)"
  by (simp add: liteco_chan_lock_def)

section \<open>The owners\<close>

text \<open>The channels a thread has locked, by where it is.\<close>

fun held :: "liteco_case list \<Rightarrow> lock_pc \<Rightarrow> addr set" where
  "held ks Outside = {}"
| "held ks (Locking i) = cs_chan ` set (take i ks)"
| "held ks (Unlocking i) = cs_chan ` set (drop i ks)"

definition lock_inv :: "(thread \<Rightarrow> liteco_case list) \<Rightarrow> lock_state \<Rightarrow> bool" where
  "lock_inv prog s \<longleftrightarrow> (\<forall>c t. mtx s c = Some t \<longleftrightarrow> c \<in> held (prog t) (pcs s t)) \<and>
     (\<forall>t i. pcs s t = Locking i \<or> pcs s t = Unlocking i \<longrightarrow> i \<le> length (prog t))"

definition distinct_cases :: "(thread \<Rightarrow> liteco_case list) \<Rightarrow> bool" where
  "distinct_cases prog \<longleftrightarrow> (\<forall>t. distinct (map cs_chan (prog t)))"

lemma held_unlock:
  assumes "distinct (map cs_chan ks)" "i < length ks"
  shows "held ks (Unlocking (Suc i)) = held ks (Unlocking i) - {cs_chan (ks ! i)}"
proof -
  have "drop i ks = ks ! i # drop (Suc i) ks" using assms(2) by (simp add: Cons_nth_drop_Suc)
  moreover have "distinct (map cs_chan (drop i ks))"
    using assms(1) by (simp add: drop_map [symmetric])
  ultimately show ?thesis by auto
qed

lemma held_lock:
  "i < length ks \<Longrightarrow> held ks (Locking (Suc i)) = insert (cs_chan (ks ! i)) (held ks (Locking i))"
  by (simp add: take_Suc_conv_app_nth)

lemma lock_inv_init: "lock_inv prog lock_init"
  by (simp add: lock_inv_def lock_init_def)

lemma lock_inv_step:
  assumes "lock_step prog t s s'" "lock_inv prog s" "distinct_cases prog"
  shows "lock_inv prog s'"
  using assms(1)
proof (cases rule: lock_step.cases)
  case call
  then show ?thesis using assms(2) by (auto simp: lock_inv_def set_pc_def)
next
  case (lock i s1)
  then have s1: "s1 = s\<lparr>mtx := (mtx s)(cs_chan (prog t ! i) \<mapsto> t)\<rparr>" "mtx s (cs_chan (prog t ! i)) = None"
    by (auto simp: liteco_chan_lock_def split: if_splits)
  moreover have "cs_chan (prog t ! i) \<notin> held (prog u) (pcs s u)" for u
    using s1(2) assms(2) by (metis lock_inv_def option.distinct(1))
  ultimately show ?thesis using assms(2) lock held_lock [OF lock(3)]
    by (auto simp: lock_inv_def set_pc_def simp del: held.simps)
next
  case choose
  then show ?thesis using assms(2) by (auto simp: lock_inv_def set_pc_def)
next
  case (unlock i)
  have d: "distinct (map cs_chan (prog t))" using assms(3) by (simp add: distinct_cases_def)
  have "mtx s (cs_chan (prog t ! i)) = Some t"
    using assms(2) unlock(2,3) by (simp add: lock_inv_def Cons_nth_drop_Suc [symmetric])
  then have "u \<noteq> t \<Longrightarrow> cs_chan (prog t ! i) \<notin> held (prog u) (pcs s u)" for u
    using assms(2) by (metis lock_inv_def option.inject)
  then show ?thesis using assms(2) unlock held_unlock [OF d unlock(3)]
    by (auto simp: lock_inv_def set_pc_def liteco_chan_unlock_def simp del: held.simps)
next
  case leave
  then show ?thesis using assms(2) by (auto simp: lock_inv_def set_pc_def)
qed

lemma lock_inv_steps:
  "lock_steps prog s s' \<Longrightarrow> lock_inv prog s \<Longrightarrow> distinct_cases prog \<Longrightarrow> lock_inv prog s'"
  by (induction rule: lock_steps.induct) (auto intro: lock_inv_step)

section \<open>Two selects in opposite order\<close>

text \<open>Thread \<open>x\<close> selects on \<open>a\<close> and \<open>b\<close>, thread \<open>y\<close> on \<open>b\<close> and \<open>a\<close>.\<close>

lemma abba_step:
  assumes "lock_step prog t s s'" "pcs s x = Locking 1 \<and> pcs s y = Locking 1" "lock_inv prog s"
    and p: "map cs_chan (prog x) = [a, b]" "map cs_chan (prog y) = [b, a]"
  shows "pcs s' x = Locking 1 \<and> pcs s' y = Locking 1"
proof -
  obtain k0 k1 where k: "prog x = [k0, k1]" "cs_chan k0 = a" "cs_chan k1 = b" using p(1) by auto
  obtain l0 l1 where l: "prog y = [l0, l1]" "cs_chan l0 = b" "cs_chan l1 = a" using p(2) by auto
  have m: "mtx s a = Some x" "mtx s b = Some y"
    using assms(2,3) k l by (auto simp: lock_inv_def)
  have "t \<noteq> x" "t \<noteq> y"
    using assms(1,2) k l m by (auto elim!: lock_stepE simp: liteco_chan_lock_def)
  then show ?thesis
    using assms(1,2) by (elim lock_stepE)
      (auto simp: set_pc_def liteco_chan_lock_def liteco_chan_unlock_def split: if_splits)
qed

lemma abba_steps:
  assumes "lock_steps prog s s'" "pcs s x = Locking 1 \<and> pcs s y = Locking 1" "lock_inv prog s"
    and d: "distinct_cases prog"
    and p: "map cs_chan (prog x) = [a, b]" "map cs_chan (prog y) = [b, a]"
  shows "pcs s' x = Locking 1 \<and> pcs s' y = Locking 1"
  using assms(1,2,3)
proof (induction rule: lock_steps.induct)
  case (step s u t v)
  then show ?case
    using abba_step [OF step.hyps(2) _ lock_inv_steps [OF step.hyps(1) _ d] p] by blast
qed

text \<open>C28: Two threads that select on the same two channels in opposite order can lock each other
  out: a state is reachable from the start in which each holds one channel and waits for the
  other's, and whatever steps the threads take from there, both stay where they are.\<close>

theorem select_lock_deadlock:
  assumes "map cs_chan (prog x) = [a, b]" "map cs_chan (prog y) = [b, a]" "distinct_cases prog" "x \<noteq> y"
  shows "\<exists>s. lock_steps prog lock_init s \<and>
     (\<forall>s'. lock_steps prog s s' \<longrightarrow> pcs s' x = Locking 1 \<and> pcs s' y = Locking 1)"
proof -
  obtain k0 k1 where k: "prog x = [k0, k1]" "cs_chan k0 = a" "cs_chan k1 = b" using assms(1) by auto
  obtain l0 l1 where l: "prog y = [l0, l1]" "cs_chan l0 = b" "cs_chan l1 = a" using assms(2) by auto
  have ab: "a \<noteq> b" using assms(1) assms(3) k by (auto simp: distinct_cases_def dest!: spec [of _ x])
  let ?s1 = "set_pc x (Locking 0) lock_init"
  let ?s2 = "set_pc x (Locking (0 + 1)) (?s1\<lparr>mtx := (mtx ?s1)(cs_chan (prog x ! 0) \<mapsto> x)\<rparr>)"
  let ?s3 = "set_pc y (Locking 0) ?s2"
  let ?s4 = "set_pc y (Locking (0 + 1)) (?s3\<lparr>mtx := (mtx ?s3)(cs_chan (prog y ! 0) \<mapsto> y)\<rparr>)"
  have t1: "lock_step prog x lock_init ?s1" by (rule lock_step.call) (simp add: lock_init_def)
  have t2: "lock_step prog x ?s1 ?s2"
    by (rule lock_step.lock) (simp_all add: set_pc_def k liteco_chan_lock_def lock_init_def)
  have t3: "lock_step prog y ?s2 ?s3"
    using assms(4) by (intro lock_step.call) (simp add: lock_init_def set_pc_def)
  have t4: "lock_step prog y ?s3 ?s4"
    using ab assms(4) by (intro lock_step.lock) (simp_all add: set_pc_def k l liteco_chan_lock_def lock_init_def)
  define s4 where "s4 = ?s4"
  have r: "lock_steps prog lock_init s4"
    unfolding s4_def by (rule lock_steps.step [OF lock_steps.step [OF lock_steps.step [OF lock_steps.step
      [OF lock_steps.refl t1] t2] t3] t4])
  have i: "lock_inv prog s4" by (rule lock_inv_steps [OF r lock_inv_init assms(3)])
  have p: "pcs s4 x = Locking 1 \<and> pcs s4 y = Locking 1"
    unfolding s4_def using assms(4) by (simp add: set_pc_def)
  show ?thesis using r abba_steps [OF _ p i assms(3) assms(1,2)] by blast
qed

definition demo_cases :: "addr list \<Rightarrow> liteco_case list" where
  "demo_cases cs = map (\<lambda>c. \<lparr>cs_chan = c, cs_type = casetype_pop, cs_ele = NIL\<rparr>) cs"

definition demo_prog :: "addr list \<Rightarrow> addr list \<Rightarrow> thread \<Rightarrow> liteco_case list" where
  "demo_prog cs ds t = (if t = 0 then demo_cases cs else if t = 1 then demo_cases ds else [])"

lemma demo_prog_chans:
  "map cs_chan (demo_prog cs ds t) = (if t = 0 then cs else if t = 1 then ds else [])"
  by (simp add: demo_prog_def demo_cases_def comp_def)

theorem select_lock_deadlock_witness:
  "\<exists>s. lock_steps (demo_prog [1, 2] [2, 1]) lock_init s \<and> pcs s 0 = Locking 1 \<and> pcs s 1 = Locking 1"
proof -
  have "distinct_cases (demo_prog [1, 2] [2, 1])" by (simp add: distinct_cases_def demo_prog_chans)
  from select_lock_deadlock [of _ 0 1 2 1, OF _ _ this] show ?thesis
    by (simp add: demo_prog_chans) (blast intro: lock_steps.refl)
qed

section \<open>Selects in a common order\<close>

text \<open>The number of the channel that a thread waits for.\<close>

definition wants :: "(addr \<Rightarrow> nat) \<Rightarrow> (thread \<Rightarrow> liteco_case list) \<Rightarrow> lock_state \<Rightarrow> thread \<Rightarrow> nat" where
  "wants rank prog s t = (case pcs s t of Locking i \<Rightarrow> rank (cs_chan (prog t ! i)) | _ \<Rightarrow> 0)"

lemma finite_inside: "lock_steps prog s s' \<Longrightarrow> finite {t. pcs s t \<noteq> Outside} \<Longrightarrow> finite {t. pcs s' t \<noteq> Outside}"
proof (induction rule: lock_steps.induct)
  case (step s u t v)
  have "{x. pcs v x \<noteq> Outside} \<subseteq> insert t {x. pcs u x \<noteq> Outside}"
    using step.hyps(2) by (elim lock_stepE) (auto simp: set_pc_def liteco_chan_lock_def
      liteco_chan_unlock_def split: if_splits)
  then show ?case using step by (meson finite_insert finite_subset)
qed

lemma blocked_wants:
  assumes inv: "lock_inv prog s" and t: "pcs s t \<noteq> Outside"
    and ord: "\<And>t. sorted_wrt (<) (map (rank \<circ> cs_chan) (prog t))"
    and stuck: "\<And>t s'. pcs s t \<noteq> Outside \<Longrightarrow> \<not> lock_step prog t s s'"
  shows "\<exists>u. pcs s u \<noteq> Outside \<and> wants rank prog s t < wants rank prog s u"
proof -
  have waits: "\<exists>i v. pcs s t = Locking i \<and> i < length (prog t) \<and> mtx s (cs_chan (prog t ! i)) = Some v"
    if t: "pcs s t \<noteq> Outside" for t
  proof (cases "pcs s t")
    case Outside with t show ?thesis by simp
  next
    case (Locking i)
    then have le: "i \<le> length (prog t)" using inv by (auto simp: lock_inv_def)
    have "i \<noteq> length (prog t)" using Locking stuck [OF t] lock_step.choose by metis
    with le have i: "i < length (prog t)" by simp
    have "mtx s (cs_chan (prog t ! i)) \<noteq> None"
      using lock_step.lock [of s t i prog, OF Locking i liteco_chan_lock_free] stuck [OF t] by blast
    with Locking i show ?thesis by auto
  next
    case (Unlocking i)
    then have "i \<le> length (prog t)" using inv by (auto simp: lock_inv_def)
    then have "\<exists>s'. lock_step prog t s s'"
      using lock_step.leave lock_step.unlock Unlocking by (metis le_neq_implies_less)
    with stuck [OF t] show ?thesis by blast
  qed
  obtain i u where i: "pcs s t = Locking i" "i < length (prog t)" "mtx s (cs_chan (prog t ! i)) = Some u"
    using waits [OF t] by blast
  then have h: "cs_chan (prog t ! i) \<in> held (prog u) (pcs s u)" using inv by (auto simp: lock_inv_def)
  then have u: "pcs s u \<noteq> Outside" by auto
  obtain j where j: "pcs s u = Locking j" "j < length (prog u)" using waits [OF u] by blast
  obtain k where k: "k < j" "cs_chan (prog t ! i) = cs_chan (prog u ! k)"
    using h j by (auto simp: in_set_conv_nth)
  have "rank (cs_chan (prog u ! k)) < rank (cs_chan (prog u ! j))"
    using sorted_wrt_nth_less [OF ord k(1)] j(2) k(1) by simp
  then have "wants rank prog s t < wants rank prog s u" using i(1) j(1) k(2) by (simp add: wants_def)
  with u show ?thesis by blast
qed

text \<open>C29: When every thread lists the channels of its cases in one common order, the locks never
  block for good: in every reachable state in which some thread is inside the function, some thread
  inside of it can take its next step.\<close>

theorem select_ordered_progress:
  fixes rank :: "addr \<Rightarrow> nat"
  assumes ord: "\<And>t. sorted_wrt (<) (map (rank \<circ> cs_chan) (prog t))"
    and r: "lock_steps prog lock_init s" and t: "pcs s t \<noteq> Outside"
  shows "\<exists>u s'. pcs s u \<noteq> Outside \<and> lock_step prog u s s'"
proof (rule ccontr)
  assume n: "\<not> ?thesis"
  have d: "distinct_cases prog"
    unfolding distinct_cases_def
  proof
    fix t
    have "distinct (map rank (map cs_chan (prog t)))"
      using ord [of t] by (simp add: strict_sorted_iff)
    then show "distinct (map cs_chan (prog t))" by (simp only: distinct_map)
  qed
  have inv: "lock_inv prog s" by (rule lock_inv_steps [OF r lock_inv_init d])
  let ?W = "{t. pcs s t \<noteq> Outside}"
  have f: "finite ?W" by (rule finite_inside [OF r]) (simp add: lock_init_def)
  let ?m = "Max (wants rank prog s ` ?W)"
  have "?m \<in> wants rank prog s ` ?W" using f t by (intro Max_in) auto
  then obtain v where v: "pcs s v \<noteq> Outside" "wants rank prog s v = ?m" by auto
  obtain u where u: "pcs s u \<noteq> Outside" "wants rank prog s v < wants rank prog s u"
    using blocked_wants [OF inv v(1) ord] n by blast
  have "wants rank prog s u \<le> ?m" using f u(1) by (intro Max_ge) auto
  with u v show False by simp
qed

theorem select_ordered_progress_witness:
  "\<exists>u s'. lock_step (demo_prog [1, 2] [1, 2]) u (set_pc 0 (Locking 0) lock_init) s'"
proof -
  have "sorted_wrt (<) (map (id \<circ> cs_chan) (demo_prog [1, 2] [1, 2] t))" for t
    using demo_prog_chans [of "[1, 2]" "[1, 2]" t] by simp
  moreover have "lock_steps (demo_prog [1, 2] [1, 2]) lock_init (set_pc 0 (Locking 0) lock_init)"
    by (rule lock_steps.step [OF lock_steps.refl lock_step.call]) (simp add: lock_init_def)
  ultimately show ?thesis
    using select_ordered_progress [of id "demo_prog [1, 2] [1, 2]" "set_pc 0 (Locking 0) lock_init" 0]
    by (auto simp: set_pc_def)
qed

end
