(* ===== verification/Channel_Runs.thy ===== *)
theory Channel_Runs
  imports Channel_Props
begin

text \<open>
  Coroutines that use a channel. Every time a coroutine is resumed it makes one call on the
  channel and yields, in the call (when it blocks) or after it; any coroutine that is ready may be
  resumed next. The invariant \<open>chan_wf\<close> is kept by every call, so no sequence of calls runs into a
  spin that never ends, a second lock or an access outside of the ring.
\<close>

section \<open>Calls\<close>

datatype chan_call =
    Push addr bool | Pop addr bool | UPush addr | UPop addr | Close | Destory

fun chan_do :: "addr \<Rightarrow> chan_call \<Rightarrow> 'a ch_world_scheme \<Rightarrow> 'a ch_world_scheme option" where
  "chan_do c (Push ele b) w = map_option fst (liteco_chan_push c ele b w)"
| "chan_do c (Pop ret b) w = map_option fst (liteco_chan_pop ret c b w)"
| "chan_do c (UPush ele) w = map_option fst (liteco_chan_unenforceable_push c ele w)"
| "chan_do c (UPop ret) w = map_option fst (liteco_chan_unenforceable_pop ret c w)"
| "chan_do c Close w = map_option fst (liteco_chan_close c w)"
| "chan_do c Destory w = Some (fst (liteco_chan_destory c w))"

text \<open>One turn of the coroutine \<open>d\<close>; a coroutine that is not ready is not resumed.\<close>

definition chan_turn ::
    "'a ch_world_scheme callback \<Rightarrow> addr \<Rightarrow> addr \<times> chan_call \<Rightarrow> 'a ch_world_scheme \<Rightarrow> 'a ch_world_scheme option" where
  "chan_turn fin c t w =
     (if status_of w (fst t) \<in> {STATUS_STARTING, STATUS_READY}
      then map_option fst (liteco_resume (\<lambda>d w. map_option (\<lambda>w1. (w1, None)) (chan_do c (snd t) w)) fin (fst t) w)
      else Some w)"

fun chan_session ::
    "'a ch_world_scheme callback \<Rightarrow> addr \<Rightarrow> (addr \<times> chan_call) list \<Rightarrow> 'a ch_world_scheme \<Rightarrow> 'a ch_world_scheme option" where
  "chan_session fin c [] w = Some w"
| "chan_session fin c (t # ts) w = Option.bind (chan_turn fin c t w) (chan_session fin c ts)"

section \<open>What a call leaves alone\<close>

text \<open>The caller is still the current coroutine, no running coroutine changes its status, and the
  finish callbacks and what the world holds beside the channels are left alone.\<close>

definition keeps_running :: "'a ch_world_scheme \<Rightarrow> 'a ch_world_scheme \<Rightarrow> bool" where
  "keeps_running w w' \<longleftrightarrow> this_co w' = this_co w \<and> ch_world.more w' = ch_world.more w \<and>
     (\<forall>d. co_fin_st (cos w' d) = co_fin_st (cos w d)) \<and>
     (\<forall>d. status_of w d = STATUS_RUNNING \<longrightarrow> status_of w' d = STATUS_RUNNING)"

lemma keeps_refl [simp]: "keeps_running w w" by (simp add: keeps_running_def)

lemma keeps_trans: "keeps_running u v \<Longrightarrow> keeps_running v w \<Longrightarrow> keeps_running u w"
  by (simp add: keeps_running_def)

lemma keeps_fields [simp]:
  "keeps_running w (upd_ch c f v) = keeps_running w v" "keeps_running w (put_store l x v) = keeps_running w v"
  "keeps_running (upd_ch c f v) w = keeps_running v w" "keeps_running (put_store l x v) w = keeps_running v w"
  by (simp_all add: keeps_running_def)

lemma keeps_join:
  fixes w :: "'a ch_world_scheme"
  assumes "liteco_runtime_join rt co w = Some (w', r)"
  shows "keeps_running w w'"
  using assms
  by (auto simp: liteco_runtime_join_def liteco_async_send_def liteco_eloop_async_send_def keeps_running_def
      Let_def set_rq_def set_async_def malloc_def split: if_splits option.splits list.splits prod.splits)

lemma keeps_join_runtime:
  fixes w :: "'a ch_world_scheme"
  assumes "liteco_chan_join_runtime rt co w = Some w'"
  shows "keeps_running w w'"
proof (cases "co = liteco_ignore_awake_co")
  case False
  then obtain w1 z where "liteco_set_status co STATUS_WAITING STATUS_READY w = Some w1"
      "liteco_runtime_join rt co w1 = Some z" "w' = fst z"
    using assms by (auto simp: liteco_chan_join_runtime_def split: option.splits)
  moreover from this have "keeps_running w w1"
    by (auto simp: liteco_set_status_def keeps_running_def split: if_splits)
  ultimately show ?thesis using keeps_join [of rt co w1 "fst z" "snd z"] keeps_trans by auto
qed (use assms in \<open>simp add: liteco_chan_join_runtime_def\<close>)

lemma keeps_w:
  fixes w :: "'a ch_world_scheme"
  assumes "liteco_chan_w c ele w = Some (w', b)"
  shows "keeps_running w w'"
  using assms
  by (auto simp: liteco_chan_w_def Let_def dest!: keeps_join_runtime split: if_splits list.splits option.splits)

lemma keeps_r:
  fixes w :: "'a ch_world_scheme"
  assumes "liteco_chan_r l c w = Some (w', b)"
  shows "keeps_running w w'"
  using assms
  by (auto simp: liteco_chan_r_def Let_def dest!: keeps_join_runtime split: if_splits list.splits option.splits)

lemma keeps_close_loop:
  fixes w :: "'a ch_world_scheme"
  shows "close_loop put vs c w = Some w' \<Longrightarrow> keeps_running w w'"
proof (induction vs arbitrary: w)
  case (Cons v vs)
  then show ?case
    by (auto simp: Let_def split: option.splits dest!: keeps_join_runtime Cons.IH intro: keeps_trans)
qed simp

lemma keeps_close:
  fixes w :: "'a ch_world_scheme"
  assumes "liteco_chan_close c w = Some (w', r)"
  shows "keeps_running w w'"
  using assms
  by (auto simp: liteco_chan_close_def Let_def split: if_splits option.splits
      dest!: keeps_close_loop intro: keeps_trans)

section \<open>The invariant\<close>

text \<open>An open channel is as every operation expects it (\<open>chan_ready\<close>); on a closed channel nobody
  waits.\<close>

definition chan_wf :: "addr \<Rightarrow> 'a ch_world_scheme \<Rightarrow> bool" where
  "chan_wf c w \<longleftrightarrow> (\<exists>xs. chan_ready c xs w) \<or>
     (closed (chans w c) \<and> ch_w (chans w c) = [] \<and> ch_r (chans w c) = [])"

lemma w_ready:
  fixes w :: "'a ch_world_scheme"
  assumes "chan_ready c xs w"
  shows "\<exists>w' b xs'. liteco_chan_w c ele w = Some (w', b) \<and> chan_ready c xs' w' \<and>
    (\<not> b \<longrightarrow> w' = w \<and> xs' = xs \<and> ch_r (chans w c) = [] \<and> length xs = chan_cap (chans w c))"
proof -
  have R: "ring_abs (chans w c) xs" "\<not> closed (chans w c)"
    using assms by (auto simp: chan_ready_def chan_ok_def)
  show ?thesis
  proof (cases "ch_r (chans w c) = [] \<and> length xs = chan_cap (chans w c)")
    case True
    then show ?thesis using w_blocked [OF R] assms by auto
  next
    case False
    from push_run [OF assms, of ele] obtain w' r xs' where
      p: "liteco_chan_push c ele False w = Some (w', Return r)" "chan_ready c xs' w'" "r = 0"
      using False by (cases "ch_r (chans w c)") auto
    then show ?thesis using R(2)
      by (auto simp: liteco_chan_push_def split: option.splits bool.splits)
  qed
qed

lemma r_ready:
  fixes w :: "'a ch_world_scheme"
  assumes "chan_ready c xs w"
  shows "\<exists>w' b xs'. liteco_chan_r l c (put_store l NIL w) = Some (w', b) \<and> chan_ready c xs' w' \<and>
    (\<not> b \<longrightarrow> w' = put_store l NIL w \<and> ch_w (chans w c) = [] \<and> xs = [] \<and> xs' = [])"
proof -
  let ?w0 = "put_store l NIL w"
  have R: "ring_abs (chans ?w0 c) xs" "\<not> closed (chans ?w0 c)"
    and r0: "chan_ready c xs ?w0"
    using assms by (auto simp: chan_ready_def chan_ok_def plain_waiters_def)
  show ?thesis
  proof (cases "ch_w (chans w c) = [] \<and> xs = []")
    case True
    then show ?thesis using r_blocked [of ?w0 c l] R r0 by auto
  next
    case False
    have "\<exists>w'. liteco_chan_r l c ?w0 = Some (w', True)"
    proof (cases "ch_w (chans w c)")
      case (Cons v vs)
      then show ?thesis using r_writer [OF r0, of v vs l] by auto
    next
      case Nil
      with False obtain x ys where "xs = x # ys" by (cases xs) auto
      then show ?thesis using r_buffer [of ?w0 c x ys l] R Nil by auto
    qed
    then obtain w' where w': "liteco_chan_r l c ?w0 = Some (w', True)" by blast
    from pop_run [OF assms, of l] obtain w2 r xs' where
      "liteco_chan_pop l c False w = Some (w2, Return r)" "chan_ready c xs' w2" by blast
    then show ?thesis using w' R(2) by (auto simp: liteco_chan_pop_def)
  qed
qed

lemma malloc_ok: "mallocs w = [] \<Longrightarrow> malloc w = (w, True)"
  by (simp add: malloc_def)

text \<open>The waiter that \<open>liteco_chan_unenforceable_push\<close> adds belongs to no coroutine.\<close>

lemma ready_nobody:
  fixes w :: "'a ch_world_scheme"
  assumes "chan_ready c xs w" "ch_r (chans w c) = []" "length xs = chan_cap (chans w c)"
    and "x = (chans w c)\<lparr>ch_w := \<lparr>wt_co = liteco_ignore_awake_co, wt_select = False, wt_ele = e\<rparr> # ch_w (chans w c)\<rparr>"
  shows "chan_ready c xs (upd_ch c (\<lambda>_. x) w)"
  using assms by (auto simp: chan_ready_def chan_ok_def ring_abs_waiters plain_waiters_def waiting_cos_def)

text \<open>A pop on an empty channel, and an unenforceable push on a full one, add a waiter.\<close>

definition pop_blocked :: "addr \<Rightarrow> addr \<Rightarrow> 'a ch_world_scheme \<Rightarrow> 'a ch_world_scheme" where
  "pop_blocked c l w = put_status (this_co w) STATUS_WAITING (upd_ch c
     (\<lambda>x. x\<lparr>ch_r := \<lparr>wt_co = this_co w, wt_select = False, wt_ele = l\<rparr> # ch_r x\<rparr>) (put_store l NIL w))"

lemma pop_block_world:
  fixes w :: "'a ch_world_scheme"
  assumes r: "chan_ready c [] w" and e: "ch_w (chans w c) = []" and d: "status_of w (this_co w) = STATUS_RUNNING"
  shows "liteco_chan_pop l c True w = Some (pop_blocked c l w, Yield)"
proof -
  let ?w0 = "put_store l NIL w"
  have o: "\<not> closed (chans ?w0 c)" "mallocs w = []" "ring_abs (chans ?w0 c) []"
    using r by (simp_all add: chan_ready_def chan_ok_def)
  show ?thesis
    using r_blocked [OF o(3,1), of l] e o d
    by (simp add: liteco_chan_pop_def liteco_chan_rblock_def malloc_ok liteco_set_status_def liteco_yield_def
        pop_blocked_def Let_def)
qed

lemma pop_block_run:
  fixes w :: "'a ch_world_scheme"
  assumes r: "chan_ready c xs w" and e: "ch_w (chans w c) = []" "xs = []"
    and d: "this_co w = d" "status_of w d = STATUS_RUNNING" "d \<noteq> liteco_ignore_awake_co"
  shows "\<exists>w'. liteco_chan_pop l c True w = Some (w', Yield) \<and> chan_ready c xs w' \<and> this_co w' = d \<and>
    status_of w' d = STATUS_WAITING \<and> ch_w (chans w' c) = [] \<and>
    ch_r (chans w' c) = \<lparr>wt_co = d, wt_select = False, wt_ele = l\<rparr> # ch_r (chans w c)"
proof -
  let ?w0 = "put_store l NIL w"
  let ?x = "(chans w c)\<lparr>ch_r := \<lparr>wt_co = this_co w, wt_select = False, wt_ele = l\<rparr> # ch_r (chans w c)\<rparr>"
  let ?w2 = "put_status (this_co ?w0) STATUS_WAITING (upd_ch c (\<lambda>_. ?x) ?w0)"
  have "chan_ready c xs ?w2" using d e r by (intro ready_block [where e = l]) auto
  moreover have "pop_blocked c l w = ?w2"
    using upd_ch_const [of c "\<lambda>x. x\<lparr>ch_r := _ # ch_r x\<rparr>" ?w0] by (simp add: pop_blocked_def)
  ultimately show ?thesis using pop_block_world [of c w l] r e d by auto
qed

lemma upush_block_run:
  fixes w :: "'a ch_world_scheme"
  assumes r: "chan_ready c xs w" and e: "ch_r (chans w c) = []" "length xs = chan_cap (chans w c)"
  shows "\<exists>x. liteco_chan_unenforceable_push c ele w = Some (upd_ch c (\<lambda>_. x) w, 0) \<and>
    chan_ready c xs (upd_ch c (\<lambda>_. x) w) \<and> ch_r x = [] \<and>
    chan_cap x = chan_cap (chans w c) \<and> ch_rt x = ch_rt (chans w c) \<and>
    ch_w x = \<lparr>wt_co = liteco_ignore_awake_co, wt_select = False, wt_ele = ele\<rparr> # ch_w (chans w c)"
proof -
  let ?x = "(chans w c)\<lparr>ch_w := \<lparr>wt_co = liteco_ignore_awake_co, wt_select = False, wt_ele = ele\<rparr> # ch_w (chans w c)\<rparr>"
  have o: "\<not> closed (chans w c)" "mallocs w = []" "ring_abs (chans w c) xs"
    using r by (simp_all add: chan_ready_def chan_ok_def)
  have "liteco_chan_unenforceable_push c ele w = Some (upd_ch c (\<lambda>_. ?x) w, 0)"
    using w_blocked [OF o(3,1) e, of ele] o upd_ch_const [of c "\<lambda>x. x\<lparr>ch_w := _ # ch_w x\<rparr>" w]
    by (simp add: liteco_chan_unenforceable_push_def malloc_ok Let_def)
  moreover have "chan_ready c xs (upd_ch c (\<lambda>_. ?x) w)" using e by (intro ready_nobody [OF r]) auto
  ultimately show ?thesis using e by (intro exI [of _ ?x]) (simp add: ring_abs_waiters)
qed

text \<open>Every call of a running coroutine returns or switches, keeps the invariant and leaves the
  coroutine running or waiting.\<close>

definition good_call :: "addr \<Rightarrow> addr \<Rightarrow> 'a ch_world_scheme \<Rightarrow> 'a ch_world_scheme option \<Rightarrow> bool" where
  "good_call c d w res \<longleftrightarrow> (\<exists>w'. res = Some w' \<and> chan_wf c w' \<and> this_co w' = d \<and>
     status_of w' d \<in> {STATUS_RUNNING, STATUS_WAITING})"

lemma good_keeps:
  assumes "this_co w = d" "status_of w d = STATUS_RUNNING" "keeps_running w w'" "chan_ready c xs w'"
  shows "good_call c d w (Some w')"
  using assms by (auto simp: good_call_def keeps_running_def chan_wf_def)

lemma call_closed:
  fixes w :: "'a ch_world_scheme"
  assumes "closed (chans w c)" "chan_wf c w" "this_co w = d" "status_of w d = STATUS_RUNNING"
  shows "good_call c d w (chan_do c k w)"
  using assms
  by (cases k) (auto simp: good_call_def chan_wf_def chan_ready_def liteco_chan_push_def liteco_chan_pop_def
      liteco_chan_unenforceable_push_def liteco_chan_unenforceable_pop_def liteco_chan_close_def liteco_chan_destory_def)

lemma call_push:
  fixes w :: "'a ch_world_scheme"
  assumes r: "chan_ready c xs w" and d: "this_co w = d" "status_of w d = STATUS_RUNNING" "d \<noteq> liteco_ignore_awake_co"
  shows "good_call c d w (chan_do c (Push ele b) w)"
proof -
  have o: "\<not> closed (chans w c)" using r by (simp add: chan_ready_def)
  obtain w' ok xs' where w: "liteco_chan_w c ele w = Some (w', ok)" "chan_ready c xs' w'"
      "\<not> ok \<longrightarrow> w' = w \<and> xs' = xs \<and> ch_r (chans w c) = [] \<and> length xs = chan_cap (chans w c)"
    using w_ready [OF r] by blast
  note k = good_keeps [OF d(1,2) keeps_w [OF w(1)] w(2)]
  show ?thesis
  proof (cases "ok \<or> \<not> b")
    case True
    then show ?thesis using k o w(1) by (cases ok; cases b) (simp_all add: liteco_chan_push_def)
  next
    case False
    then have "ch_r (chans w c) = []" "length xs = chan_cap (chans w c)" and b: "b" using w(3) by auto
    from push_block_run [OF r this(1,2), of ele] d obtain w2 where
      w2: "liteco_chan_push c ele True w = Some (w2, Yield)" "chan_ready c xs w2" "status_of w2 d = STATUS_WAITING"
      by auto
    have "this_co w2 = this_co w"
      using w2(1) w(1,3) False o r d
      by (auto simp: liteco_chan_push_def liteco_chan_wblock_def malloc_ok chan_ready_def liteco_set_status_def
          liteco_yield_def Let_def)
    then show ?thesis using w2 b d(1) by (auto simp: good_call_def chan_wf_def)
  qed
qed

lemma call_pop:
  fixes w :: "'a ch_world_scheme"
  assumes r: "chan_ready c xs w" and d: "this_co w = d" "status_of w d = STATUS_RUNNING" "d \<noteq> liteco_ignore_awake_co"
  shows "good_call c d w (chan_do c (Pop l b) w)"
proof -
  have o: "\<not> closed (chans w c)" "mallocs w = []" using r by (simp_all add: chan_ready_def)
  let ?w0 = "put_store l NIL w"
  obtain w' ok xs' where w: "liteco_chan_r l c ?w0 = Some (w', ok)" "chan_ready c xs' w'"
      "\<not> ok \<longrightarrow> w' = ?w0 \<and> ch_w (chans w c) = [] \<and> xs = [] \<and> xs' = []"
    using r_ready [OF r] by blast
  have "keeps_running w w'" using keeps_r [OF w(1)] by simp
  note k = good_keeps [OF d(1,2) this w(2)]
  show ?thesis
  proof (cases "ok \<or> \<not> b")
    case True
    then show ?thesis using k o w(1) by (cases ok; cases b) (simp_all add: liteco_chan_pop_def)
  next
    case False
    then have e: "ch_w (chans w c) = []" "xs = []" "b" using w(3) by auto
    from pop_block_run [OF r e(1,2) d, of l] e(3) show ?thesis by (auto simp: good_call_def chan_wf_def)
  qed
qed

lemma call_upush:
  fixes w :: "'a ch_world_scheme"
  assumes r: "chan_ready c xs w" and d: "this_co w = d" "status_of w d = STATUS_RUNNING"
  shows "good_call c d w (chan_do c (UPush ele) w)"
proof -
  have o: "\<not> closed (chans w c)" "mallocs w = []" using r by (simp_all add: chan_ready_def)
  obtain w' ok xs' where w: "liteco_chan_w c ele w = Some (w', ok)" "chan_ready c xs' w'"
      "\<not> ok \<longrightarrow> w' = w \<and> xs' = xs \<and> ch_r (chans w c) = [] \<and> length xs = chan_cap (chans w c)"
    using w_ready [OF r] by blast
  show ?thesis
  proof (cases ok)
    case True
    then show ?thesis using good_keeps [OF d keeps_w [OF w(1)] w(2)] o w(1)
      by (simp add: liteco_chan_unenforceable_push_def)
  next
    case False
    then have "ch_r (chans w c) = []" "length xs = chan_cap (chans w c)" using w(3) by auto
    from upush_block_run [OF r this, of ele] d show ?thesis by (auto simp: good_call_def chan_wf_def)
  qed
qed

lemma call_upop:
  fixes w :: "'a ch_world_scheme"
  assumes r: "chan_ready c xs w" and d: "this_co w = d" "status_of w d = STATUS_RUNNING"
  shows "good_call c d w (chan_do c (UPop l) w)"
proof -
  obtain w' ok xs' where w: "liteco_chan_r l c (put_store l NIL w) = Some (w', ok)" "chan_ready c xs' w'"
    using r_ready [OF r] by blast
  have "keeps_running w w'" using keeps_r [OF w(1)] by simp
  from good_keeps [OF d this w(2)] show ?thesis
    using r w(1) by (simp add: liteco_chan_unenforceable_pop_def chan_ready_def)
qed

lemma call_close:
  fixes w :: "'a ch_world_scheme"
  assumes r: "chan_ready c xs w" and d: "this_co w = d" "status_of w d = STATUS_RUNNING"
  shows "good_call c d w (chan_do c Close w)"
proof -
  have "distinct (woken (ch_w (chans w c)) @ woken (ch_r (chans w c)))"
    using r by (simp add: chan_ready_def waiting_cos_def woken_def)
  moreover have "\<forall>d\<in>set (woken (ch_w (chans w c)) @ woken (ch_r (chans w c))). status_of w d = STATUS_WAITING"
    using r by (auto simp: chan_ready_def plain_waiters_def woken_def)
  ultimately obtain w' where w: "liteco_chan_close c w = Some (w', 0)"
      "chans w' = (chans w)(c := (chans w c)\<lparr>closed := True, ch_w := [], ch_r := []\<rparr>)"
    using close_run [of w c] r by (auto simp: chan_ready_def)
  then show ?thesis using keeps_close [OF w(1)] d by (auto simp: good_call_def chan_wf_def keeps_running_def)
qed

lemma call_good:
  fixes w :: "'a ch_world_scheme"
  assumes "chan_wf c w" "this_co w = d" "status_of w d = STATUS_RUNNING" "d \<noteq> liteco_ignore_awake_co"
  shows "good_call c d w (chan_do c k w)"
proof (cases "closed (chans w c)")
  case True
  then show ?thesis using call_closed assms by blast
next
  case False
  then obtain xs where r: "chan_ready c xs w" using assms(1) by (auto simp: chan_wf_def)
  show ?thesis
  proof (cases k)
    case Destory
    then show ?thesis using assms r False by (auto simp: good_call_def chan_wf_def liteco_chan_destory_def)
  qed (use call_push [OF r] call_pop [OF r] call_upush [OF r] call_upop [OF r] call_close [OF r] assms in auto)
qed

section \<open>Turns\<close>

lemma ready_status:
  fixes w :: "'a ch_world_scheme"
  assumes "chan_ready c xs w" "status_of w d \<noteq> STATUS_WAITING"
    and "\<And>e. e \<noteq> d \<Longrightarrow> status_of w' e = status_of w e" "chans w' = chans w" "mallocs w' = mallocs w"
    and "can_signal (ch_rt (chans w c)) w' = can_signal (ch_rt (chans w c)) w"
  shows "chan_ready c xs w'"
proof -
  have "plain_waiters w' vs" if "plain_waiters w vs" for vs
    using that assms(2,3) by (auto simp: plain_waiters_def) metis
  then show ?thesis using assms(1,4-6) by (auto simp: chan_ready_def)
qed

lemma wf_status:
  fixes w :: "'a ch_world_scheme"
  assumes "chan_wf c w" "status_of w d \<noteq> STATUS_WAITING"
    and "\<And>e. e \<noteq> d \<Longrightarrow> status_of w' e = status_of w e" "chans w' = chans w" "mallocs w' = mallocs w"
    and "can_signal (ch_rt (chans w c)) w' = can_signal (ch_rt (chans w c)) w"
  shows "chan_wf c w'"
  using assms(1,4) ready_status [OF _ assms(2-6)] by (auto simp: chan_wf_def)

lemma ready_this [simp]:
  fixes w :: "'a ch_world_scheme"
  shows "chan_ready c xs (w\<lparr>this_co := d\<rparr>) = chan_ready c xs w"
  by (simp add: chan_ready_def plain_waiters_def can_signal_def rt_pending_def)

lemma wf_this [simp]:
  fixes w :: "'a ch_world_scheme"
  shows "chan_wf c (w\<lparr>this_co := d\<rparr>) = chan_wf c w"
  by (simp add: chan_wf_def)

lemma wf_entered:
  fixes w :: "'a ch_world_scheme"
  assumes "status_of w d \<noteq> STATUS_WAITING"
  shows "chan_wf c w \<Longrightarrow> chan_wf c (entered d w)" "chan_ready c xs w \<Longrightarrow> chan_ready c xs (entered d w)"
  using assms
  by (auto simp: entered_def upd_co_def can_signal_def rt_pending_def intro!: wf_status [of c w d] ready_status [of c xs w d])

text \<open>A turn is the call, and then the switch back to the resumer, which leaves the channel alone.\<close>

lemma chan_turn_run:
  fixes w :: "'a ch_world_scheme"
  assumes st: "status_of w d \<in> {STATUS_STARTING, STATUS_READY}"
    and w1: "chan_do c k (entered d w) = Some w1" "this_co w1 = d" "status_of w1 d \<in> {STATUS_RUNNING, STATUS_WAITING}"
  shows "\<exists>w2. chan_turn fin c (d, k) w = Some w2 \<and> chans w2 = chans w1 \<and> stores w2 = stores w1 \<and>
    (chan_wf c w1 \<longrightarrow> chan_wf c w2) \<and> (\<forall>xs. chan_ready c xs w1 \<longrightarrow> chan_ready c xs w2)"
proof -
  let ?w2 = "(liteco_yield w1)\<lparr>this_co := this_co w\<rparr>"
  have "status_of ?w2 d \<noteq> STATUS_TERMINATE" using w1(2,3) by (auto simp: liteco_yield_def Let_def)
  then have "chan_turn fin c (d, k) w = Some ?w2"
    using st w1(1) by (auto simp: chan_turn_def resume_alt liteco_run_def Let_def)
  moreover have "liteco_yield w1 = (if status_of w1 d = STATUS_RUNNING then put_status d STATUS_READY w1 else w1)"
    using w1(2,3) by (auto simp: liteco_yield_def Let_def)
  moreover have "chan_wf c w1 \<longrightarrow> chan_wf c (put_status d STATUS_READY w1)"
    "chan_ready c xs w1 \<longrightarrow> chan_ready c xs (put_status d STATUS_READY w1)" if "status_of w1 d = STATUS_RUNNING" for xs
    using that by (auto simp: put_status_more intro!: wf_status [of c w1 d] ready_status [of c xs w1 d])
  ultimately show ?thesis by simp
qed

lemma turn_good:
  fixes w :: "'a ch_world_scheme"
  assumes "chan_wf c w" "fst t \<noteq> liteco_ignore_awake_co"
  shows "\<exists>w'. chan_turn fin c t w = Some w' \<and> chan_wf c w'"
proof (cases "status_of w (fst t) \<in> {STATUS_STARTING, STATUS_READY}")
  case True
  then have "chan_wf c (entered (fst t) w)" by (intro wf_entered(1) assms(1)) auto
  from call_good [OF this, of "fst t" "snd t"] obtain w1 where
    "chan_do c (snd t) (entered (fst t) w) = Some w1" "chan_wf c w1" "this_co w1 = fst t"
    "status_of w1 (fst t) \<in> {STATUS_RUNNING, STATUS_WAITING}"
    using assms(2) by (auto simp: good_call_def)
  with chan_turn_run [OF True this(1,3,4), of fin] show ?thesis by auto
qed (use assms in \<open>auto simp: chan_turn_def\<close>)

text \<open>C21: well-formed channels do not go wrong. Whatever calls any number of coroutines make on a
  channel, in any order, blocking or not, and also when one of them closes or destroys it: every
  call comes back to the resumer, and the channel is well formed afterwards.\<close>

theorem chan_session_wf:
  fixes w :: "'a ch_world_scheme"
  assumes "chan_wf c w" "\<forall>t\<in>set ts. fst t \<noteq> liteco_ignore_awake_co"
  shows "\<exists>w'. chan_session fin c ts w = Some w' \<and> chan_wf c w'"
  using assms
proof (induction ts arbitrary: w)
  case (Cons t ts)
  have "fst t \<noteq> liteco_ignore_awake_co" using Cons.prems(2) by simp
  from turn_good [OF Cons.prems(1) this, of fin] obtain w1 where
    w1: "chan_turn fin c t w = Some w1" "chan_wf c w1" by blast
  from Cons.IH [OF w1(2)] Cons.prems(2) w1(1) show ?case by simp
qed simp

theorem chan_session_wf_witness:
  "\<exists>w'. chan_session (\<lambda>_ _ w. w) 20
     [(30, Pop 200 True), (31, Push 104 True), (31, Push 105 True), (31, Push 106 True), (32, UPush 107), (30, Close), (31, Destory)]
     ((demo_chan [101] [] [])\<lparr>cos := (\<lambda>c. (cos (demo_chan [] [] []) c)\<lparr>co_status := STATUS_READY\<rparr>)\<rparr>) = Some w' \<and> chan_wf 20 w'"
proof -
  have "chan_wf 20 ((demo_chan [101] [] [])\<lparr>cos := (\<lambda>c. (cos (demo_chan [] [] []) c)\<lparr>co_status := STATUS_READY\<rparr>)\<rparr>)"
    using demo_ready(1) by (auto simp: chan_wf_def chan_ready_def plain_waiters_def can_signal_def rt_pending_def)
  then show ?thesis by (rule chan_session_wf) (simp add: liteco_ignore_awake_co_def)
qed

section \<open>A push and a close at the same time\<close>

text \<open>\<open>liteco_chan_push\<close> reads \<open>closed\<close> before it takes the lock. This is its part under the lock;
  another thread may close the channel in between.\<close>

definition chan_push_locked ::
    "addr \<Rightarrow> addr \<Rightarrow> bool \<Rightarrow> 'a ch_world_scheme \<Rightarrow> ('a ch_world_scheme \<times> int outcome) option" where
  "chan_push_locked c ele blocked w =
     (case liteco_chan_w c ele w of
        None \<Rightarrow> None
      | Some (w1, True) \<Rightarrow> Some (w1, Return 0)
      | Some (w1, False) \<Rightarrow>
          (if blocked
           then (let w2 = fst (liteco_chan_wblock c ele False w1)
                 in map_option (\<lambda>w3. (liteco_yield w3, Yield))
                      (liteco_set_status (this_co w2) STATUS_RUNNING STATUS_WAITING w2))
           else Some (w1, Return (-2))))"

lemma push_split:
  "liteco_chan_push c ele b w = (if closed (chans w c) then Some (w, Return (-1)) else chan_push_locked c ele b w)"
  by (simp add: liteco_chan_push_def chan_push_locked_def)

text \<open>C25: a push and a close that race lose the element without an error. From an open channel, a
  thread that read \<open>closed\<close> as false and takes the lock after another thread has closed the channel
  gets 0, as if it had pushed, and nothing changes; without the close in between the same push
  succeeds or is refused with -2, and after it the push is refused with -1.\<close>

theorem push_close_race:
  fixes w :: "'a ch_world_scheme"
  assumes "chan_ready c xs w"
  shows "\<exists>w1. liteco_chan_close c w = Some (w1, 0) \<and> chan_push_locked c ele b w1 = Some (w1, Return 0) \<and>
    liteco_chan_push c ele b w1 = Some (w1, Return (-1)) \<and>
    (\<exists>w2 r. chan_push_locked c ele False w = Some (w2, Return r) \<and> liteco_chan_push c ele False w = Some (w2, Return r) \<and> r \<in> {0, -2})"
proof -
  have "distinct (woken (ch_w (chans w c)) @ woken (ch_r (chans w c)))"
    using assms by (simp add: chan_ready_def waiting_cos_def woken_def)
  moreover have "\<forall>d\<in>set (woken (ch_w (chans w c)) @ woken (ch_r (chans w c))). status_of w d = STATUS_WAITING"
    using assms by (auto simp: chan_ready_def plain_waiters_def woken_def)
  ultimately obtain w1 where w1: "liteco_chan_close c w = Some (w1, 0)" "closed (chans w1 c)"
    using close_run [of w c] assms by (auto simp: chan_ready_def)
  obtain w2 ok xs' where w2: "liteco_chan_w c ele w = Some (w2, ok)" using w_ready [OF assms] by blast
  have "\<not> closed (chans w c)" using assms by (simp add: chan_ready_def)
  then have "\<exists>w2 r. chan_push_locked c ele False w = Some (w2, Return r) \<and>
      liteco_chan_push c ele False w = Some (w2, Return r) \<and> r \<in> {0, -2}"
    using w2 by (cases ok) (simp_all add: push_split chan_push_locked_def)
  moreover have "liteco_chan_w c ele w1 = Some (w1, True)" using w1(2) by (simp add: liteco_chan_w_def)
  ultimately show ?thesis using w1 by (simp add: push_split chan_push_locked_def)
qed

theorem push_close_race_witness:
  "\<exists>w1. liteco_chan_close 20 (demo_chan [101] [] []) = Some (w1, 0) \<and>
     chan_push_locked 20 102 True w1 = Some (w1, Return 0)"
  using push_close_race [OF demo_ready(1), of 102 True] by blast

end
