(* ===== verification/Timer_Channel.thy ===== *)
theory Timer_Channel
  imports Timer_Props Channel_Runs
begin

text \<open>
  Timer channels: how the expiry of a timer reaches the coroutines. The event loop runs the due
  timers (\<open>liteco_eloop_timer_active\<close>), the callback \<open>liteco_timer_chan_cb\<close> of a timer channel pushes
  into its channel, and the push makes the first waiting coroutine ready and puts it into the queue
  of its runtime.
\<close>

section \<open>The callback\<close>

text \<open>The callbacks of the event loop: that of the timer channels, and others that do nothing here.\<close>

definition tick_call :: "(addr \<Rightarrow> addr) \<Rightarrow> addr \<Rightarrow> addr \<Rightarrow> 'a tm_world_scheme \<Rightarrow> 'a tm_world_scheme option" where
  "tick_call chan_at cb a w = (if cb = timer_chan_cb_id then liteco_timer_chan_cb chan_at a w else Some w)"

text \<open>What of the world changes: the channels, the statuses and the queue of the runtime.\<close>

type_synonym tick_state = "(addr \<Rightarrow> liteco_chan) \<times> (addr \<Rightarrow> liteco_status) \<times> addr set"

definition tick_view :: "addr \<Rightarrow> 'a tm_world_scheme \<Rightarrow> tick_state" where
  "tick_view rt w = (chans w, \<lambda>d. status_of w d, set (rq (rts w rt)))"

definition tick_waiter :: liteco_waiter where
  "tick_waiter = \<lparr>wt_co = liteco_ignore_awake_co, wt_select = False, wt_ele = NIL\<rparr>"

definition tick_eff :: "(addr \<Rightarrow> addr) \<Rightarrow> addr \<Rightarrow> addr \<Rightarrow> tick_state \<Rightarrow> tick_state" where
  "tick_eff chan_at cb a s =
     (if cb \<noteq> timer_chan_cb_id then s
      else (case s of (C, S, Q) \<Rightarrow>
        (let c = chan_at a
         in case ch_r (C c) of
              [] \<Rightarrow> (C(c := (C c)\<lparr>ch_w := tick_waiter # ch_w (C c)\<rparr>), S, Q)
            | r # rs \<Rightarrow> (C(c := (C c)\<lparr>ch_r := rs\<rparr>), S(wt_co r := STATUS_READY), insert (wt_co r) Q))))"

text \<open>Open channels without a buffer, all of the runtime \<open>rt\<close>, on which coroutines wait to read;
  no coroutine waits on two of them.\<close>

definition tick_ok :: "addr \<Rightarrow> addr set \<Rightarrow> 'a tm_world_scheme \<Rightarrow> bool" where
  "tick_ok rt cs w \<longleftrightarrow> (\<forall>c\<in>cs. chan_ready c [] w \<and> chan_cap (chans w c) = 0 \<and> ch_rt (chans w c) = rt \<and>
       (\<forall>v\<in>set (ch_r (chans w c)). wt_co v \<noteq> liteco_ignore_awake_co)) \<and>
     (\<forall>c\<in>cs. \<forall>c'\<in>cs. c \<noteq> c' \<longrightarrow> set (waiting_cos (chans w c)) \<inter> set (waiting_cos (chans w c')) = {})"

lemma tick_ok_tm:
  "tick_ok rt cs (w\<lparr>tms := T\<rparr>) = tick_ok rt cs w" "tick_ok rt cs (w\<lparr>timer_heap := h\<rparr>) = tick_ok rt cs w"
  "tick_ok rt cs (w\<lparr>ticks := k\<rparr>) = tick_ok rt cs w"
  by (simp_all add: tick_ok_def chan_ready_def plain_waiters_def can_signal_def rt_pending_def)

lemma tick_view_tm:
  "tick_view rt (w\<lparr>tms := T\<rparr>) = tick_view rt w" "tick_view rt (w\<lparr>timer_heap := h\<rparr>) = tick_view rt w"
  "tick_view rt (w\<lparr>ticks := k\<rparr>) = tick_view rt w"
  by (simp_all add: tick_view_def)

text \<open>A push leaves the timers alone.\<close>

definition same_timers :: "'a tm_world_scheme \<Rightarrow> 'a tm_world_scheme \<Rightarrow> bool" where
  "same_timers w w' \<longleftrightarrow> tms w' = tms w \<and> timer_heap w' = timer_heap w \<and> clock w' = clock w \<and> ticks w' = ticks w"

lemma same_timers_join:
  fixes w :: "'a tm_world_scheme"
  assumes "liteco_chan_join_runtime rt co w = Some w'"
  shows "same_timers w w'"
  using assms
  by (auto simp: liteco_chan_join_runtime_def liteco_set_status_def liteco_runtime_join_def liteco_async_send_def
      liteco_eloop_async_send_def same_timers_def Let_def set_rq_def set_async_def malloc_def put_status_def upd_co_def
      split: if_splits option.splits list.splits prod.splits)

lemma same_timers_upush:
  fixes w :: "'a tm_world_scheme"
  assumes "liteco_chan_unenforceable_push c ele w = Some (w', r)"
  shows "same_timers w w'"
  using assms
  by (auto simp: liteco_chan_unenforceable_push_def liteco_chan_w_def Let_def malloc_def same_timers_def upd_ch_def
      put_store_def dest!: same_timers_join split: if_splits list.splits option.splits prod.splits)

text \<open>An operation on the channel \<open>c\<close> that changes no status of the coroutines that wait on \<open>c'\<close>.\<close>

lemma ready_other:
  fixes w :: "'a ch_world_scheme"
  assumes "chan_ready c' xs w" "chans w' c' = chans w c'" "can_signal (ch_rt (chans w c')) w'" "mallocs w' = []"
    and "\<forall>d\<in>set (waiting_cos (chans w c')). status_of w' d = status_of w d"
  shows "chan_ready c' xs w'"
proof -
  have "plain_waiters w' (ch_w (chans w c'))" "plain_waiters w' (ch_r (chans w c'))"
    using assms(1,5) by (auto simp: chan_ready_def plain_waiters_def waiting_cos_def)
  then show ?thesis using assms(1-4) by (simp add: chan_ready_def)
qed

lemma tick_ok_after:
  assumes ok: "tick_ok rt cs w" and c: "c \<in> cs"
    and w': "chan_ready c [] w'" "chans w' = (chans w)(c := x)" "can_signal rt w'" "mallocs w' = []"
    and x: "set (waiting_cos x) \<subseteq> set (waiting_cos (chans w c))" "chan_cap x = 0" "ch_rt x = rt"
      "set (ch_r x) \<subseteq> set (ch_r (chans w c))"
    and st: "\<forall>d. d \<notin> set (waiting_cos (chans w c)) \<longrightarrow> status_of w' d = status_of w d"
  shows "tick_ok rt cs w'"
proof -
  have dis: "\<forall>c'\<in>cs. c' \<noteq> c \<longrightarrow> set (waiting_cos (chans w c)) \<inter> set (waiting_cos (chans w c')) = {}"
    using ok c by (auto simp: tick_ok_def)
  have rd: "chan_ready c' [] w'" if "c' \<in> cs" for c'
  proof (cases "c' = c")
    case False
    have "\<forall>d\<in>set (waiting_cos (chans w c')). status_of w' d = status_of w d"
      using dis st that False by blast
    then show ?thesis using ok that False w' by (intro ready_other [of c' "[]" w w']) (auto simp: tick_ok_def)
  qed (use w' in simp)
  have ch: "chan_cap (chans w' c') = 0 \<and> ch_rt (chans w' c') = rt \<and>
      (\<forall>v\<in>set (ch_r (chans w' c')). wt_co v \<noteq> liteco_ignore_awake_co)" if "c' \<in> cs" for c'
    using that ok c x w'(2) by (auto simp: tick_ok_def)
  have sub: "set (waiting_cos (chans w' c')) \<subseteq> set (waiting_cos (chans w c'))" for c'
    using x(1) w'(2) by simp
  have "set (waiting_cos (chans w' c1)) \<inter> set (waiting_cos (chans w' c2)) = {}"
    if "c1 \<in> cs" "c2 \<in> cs" "c1 \<noteq> c2" for c1 c2
  proof -
    have "set (waiting_cos (chans w c1)) \<inter> set (waiting_cos (chans w c2)) = {}"
      using ok that by (simp add: tick_ok_def)
    then show ?thesis using sub [of c1] sub [of c2] by blast
  qed
  then show ?thesis using rd ch by (simp add: tick_ok_def)
qed

lemma tick_call_ok:
  assumes ok: "tick_ok rt cs w" and c: "chan_at a \<in> cs"
  shows "\<exists>w'. tick_call chan_at cb a w = Some w' \<and> tick_ok rt cs w' \<and>
    tick_view rt w' = tick_eff chan_at cb a (tick_view rt w) \<and> same_timers w w'"
proof (cases "cb = timer_chan_cb_id")
  case False
  then show ?thesis using ok by (simp add: tick_call_def tick_eff_def same_timers_def)
next
  case True
  define c where "c = chan_at a"
  have cs: "c \<in> cs" using c by (simp add: c_def)
  have r: "chan_ready c [] w" and cap: "chan_cap (chans w c) = 0" and rt: "ch_rt (chans w c) = rt"
    using ok cs by (auto simp: tick_ok_def)
  have o: "\<not> closed (chans w c)" "ring_abs (chans w c) []" "mallocs w = []" "can_signal rt w"
    using r rt by (auto simp: chan_ready_def chan_ok_def)
  have call: "tick_call chan_at cb a w = map_option fst (liteco_chan_unenforceable_push c NIL w)"
    using True by (simp add: tick_call_def liteco_timer_chan_cb_def c_def)
  show ?thesis
  proof (cases "ch_r (chans w c)")
    case (Cons v vs)
    have v: "wt_co v \<noteq> liteco_ignore_awake_co" using ok cs Cons by (auto simp: tick_ok_def)
    let ?x = "(chans w c)\<lparr>ch_r := vs\<rparr>"
    from w_reader [OF r Cons, of NIL] obtain w' where w': "liteco_chan_w c NIL w = Some (w', True)"
      "chans w' = (chans w)(c := ?x)" "mallocs w' = []" "can_signal (ch_rt (chans w c)) w'"
      "\<forall>d. status_of w' d = (if d = wt_co v \<and> wt_co v \<noteq> liteco_ignore_awake_co then STATUS_READY else status_of w d)"
      "rq (rts w' (ch_rt (chans w c))) = (if wt_co v \<noteq> liteco_ignore_awake_co
         then joined (wt_co v) (rq (rts w (ch_rt (chans w c)))) else rq (rts w (ch_rt (chans w c))))"
      by blast
    have p: "liteco_chan_unenforceable_push c NIL w = Some (w', 0)"
      using o w'(1) by (simp add: liteco_chan_unenforceable_push_def)
    have wc: "wt_co v \<in> set (waiting_cos (chans w c))" "set (waiting_cos ?x) \<subseteq> set (waiting_cos (chans w c))"
      using Cons v by (auto simp: waiting_cos_def)
    have "tick_ok rt cs w'"
      using ready_after_reader [OF r Cons w'(2-5)] w'(2-5) rt cap Cons wc
      by (intro tick_ok_after [OF ok cs, where x = ?x]) (auto simp: ring_abs_waiters)
    moreover have "tick_view rt w' = tick_eff chan_at cb a (tick_view rt w)"
      using True Cons v w'(2,5,6) rt
      by (auto simp: tick_view_def tick_eff_def c_def [symmetric] joined_def fun_eq_iff Let_def)
    ultimately show ?thesis using p call same_timers_upush [OF p] by auto
  next
    case Nil
    let ?x = "(chans w c)\<lparr>ch_w := tick_waiter # ch_w (chans w c)\<rparr>"
    have p: "liteco_chan_unenforceable_push c NIL w = Some (upd_ch c (\<lambda>_. ?x) w, 0)"
      using o w_blocked [OF o(2,1) Nil, of NIL] cap upd_ch_const [of c "\<lambda>x. x\<lparr>ch_w := _ # ch_w x\<rparr>" w]
      by (simp add: liteco_chan_unenforceable_push_def malloc_ok Let_def tick_waiter_def)
    have "chan_ready c [] (upd_ch c (\<lambda>_. ?x) w)"
      using Nil cap by (intro ready_nobody [OF r]) (auto simp: tick_waiter_def)
    then have "tick_ok rt cs (upd_ch c (\<lambda>_. ?x) w)"
      using o rt cap by (intro tick_ok_after [OF ok cs, where x = ?x])
        (auto simp: ring_abs_waiters waiting_cos_def tick_waiter_def fun_eq_iff)
    moreover have "tick_view rt (upd_ch c (\<lambda>_. ?x) w) = tick_eff chan_at cb a (tick_view rt w)"
      using True Nil by (auto simp: tick_view_def tick_eff_def c_def [symmetric] fun_eq_iff Let_def)
    ultimately show ?thesis using p call same_timers_upush [OF p] by auto
  qed
qed

interpretation tick: timer_callbacks "tick_call chan_at" "tick_ok rt (chan_at ` A)" "tick_view rt" "tick_eff chan_at" A
  for chan_at rt A
proof
  fix w :: "'a tm_world_scheme" and cb a
  assume "tick_ok rt (chan_at ` A) w" "a \<in> A"
  then show "\<exists>w'. tick_call chan_at cb a w = Some w' \<and> tick_ok rt (chan_at ` A) w' \<and>
      tick_view rt w' = tick_eff chan_at cb a (tick_view rt w) \<and> tms w' = tms w \<and>
      timer_heap w' = timer_heap w \<and> clock w' = clock w \<and> ticks w' = ticks w"
    using tick_call_ok [of rt "chan_at ` A" w chan_at a cb] by (auto simp: same_timers_def)
qed (rule tick_ok_tm tick_view_tm)+

section \<open>The effect of a pass\<close>

text \<open>A tick of a channel: the first reader is made ready and queued, or the tick is kept as a
  waiting writer.\<close>

definition ticked :: "liteco_chan \<Rightarrow> liteco_chan \<Rightarrow> (addr \<Rightarrow> liteco_status) \<Rightarrow> addr set \<Rightarrow> bool" where
  "ticked c c' S Q \<longleftrightarrow>
     (case ch_r c of
        [] \<Rightarrow> c' = c\<lparr>ch_w := tick_waiter # ch_w c\<rparr>
      | r # rs \<Rightarrow> c' = c\<lparr>ch_r := rs\<rparr> \<and> S (wt_co r) = STATUS_READY \<and> wt_co r \<in> Q)"

lemma ticked_mono:
  "ticked c c' S Q \<Longrightarrow> (\<And>d. S d = STATUS_READY \<Longrightarrow> S' d = STATUS_READY) \<Longrightarrow> Q \<subseteq> Q' \<Longrightarrow> ticked c c' S' Q'"
  by (auto simp: ticked_def split: list.splits)

lemma tick_eff_one:
  assumes "tick_eff chan_at timer_chan_cb_id a (C, S, Q) = (C', S', Q')"
  shows "(\<forall>c. c \<noteq> chan_at a \<longrightarrow> C' c = C c) \<and> Q \<subseteq> Q' \<and> (\<forall>d. S d = STATUS_READY \<longrightarrow> S' d = STATUS_READY) \<and>
    ticked (C (chan_at a)) (C' (chan_at a)) S' Q'"
  using assms by (auto simp: tick_eff_def ticked_def Let_def split: list.splits)

lemma fold_tick:
  assumes "distinct fs" "inj_on chan_at (set fs)" "\<forall>a\<in>set fs. cbs a = timer_chan_cb_id"
    and "fold (\<lambda>a. tick_eff chan_at (cbs a) a) fs (C, S, Q) = (C', S', Q')"
  shows "(\<forall>c. c \<notin> chan_at ` set fs \<longrightarrow> C' c = C c) \<and> Q \<subseteq> Q' \<and> (\<forall>d. S d = STATUS_READY \<longrightarrow> S' d = STATUS_READY) \<and>
    (\<forall>a\<in>set fs. ticked (C (chan_at a)) (C' (chan_at a)) S' Q')"
  using assms
proof (induction fs arbitrary: C S Q)
  case (Cons a fs)
  obtain C1 S1 Q1 where one: "tick_eff chan_at timer_chan_cb_id a (C, S, Q) = (C1, S1, Q1)"
    by (metis prod_cases3)
  note o = tick_eff_one [OF one]
  have "fold (\<lambda>a. tick_eff chan_at (cbs a) a) fs (C1, S1, Q1) = (C', S', Q')"
    using Cons.prems(3,4) one by simp
  then have I: "\<forall>c. c \<notin> chan_at ` set fs \<longrightarrow> C' c = C1 c" "Q1 \<subseteq> Q'" "\<forall>d. S1 d = STATUS_READY \<longrightarrow> S' d = STATUS_READY"
    "\<forall>a\<in>set fs. ticked (C1 (chan_at a)) (C' (chan_at a)) S' Q'"
    using Cons.IH [of C1 S1 Q1] Cons.prems(1-3) by auto
  have na: "chan_at a \<notin> chan_at ` set fs" using Cons.prems(1,2) by auto
  then have "C' (chan_at a) = C1 (chan_at a)" using I(1) by blast
  then have "ticked (C (chan_at a)) (C' (chan_at a)) S' Q'" using o I(2,3) by (auto intro: ticked_mono)
  moreover have "C1 (chan_at b) = C (chan_at b)" if "b \<in> set fs" for b
    using o na that by (metis image_eqI)
  ultimately show ?case using o I by auto
qed simp

text \<open>C35: Expired timer channels wake their readers. One pass of the expiry loop over timers that are
  all timer channels ends, with no due timer left. On the channel of every due timer the first
  waiting coroutine was taken off the list of readers, is ready and is in the queue of the runtime;
  when nobody waited, the tick is kept. The channels of the other timers are untouched.\<close>

theorem timer_channels_tick:
  fixes w :: "'a tm_world_scheme"
  assumes "tm_inv w t" "clock_ok now w" "tick_ok rt (chan_at ` set (addrs t)) w" "inj_on chan_at (set (addrs t))"
    and "\<forall>a\<in>set (addrs t). tm_cb (tms w a) = timer_chan_cb_id"
  shows "\<exists>w' t'. liteco_eloop_timer_active (tick_call chan_at) now w = Some w' \<and> tm_inv w' t' \<and> due_set now w' t' = {} \<and>
    tick_ok rt (chan_at ` set (addrs t)) w' \<and>
    (\<forall>a\<in>due_set now w t. ticked (chans w (chan_at a)) (chans w' (chan_at a)) (\<lambda>d. status_of w' d) (set (rq (rts w' rt)))) \<and>
    (\<forall>a\<in>set (addrs t) - due_set now w t. chans w' (chan_at a) = chans w (chan_at a))"
proof -
  obtain w' t' fs where R: "liteco_eloop_timer_active (tick_call chan_at) now w = Some w'" "tm_inv w' t'"
      "tick_ok rt (chan_at ` set (addrs t)) w'"
      "tick_view rt w' = fold (\<lambda>a. tick_eff chan_at (tm_cb (tms w a)) a) fs (tick_view rt w)"
      "distinct fs" "set fs = due_set now w t" "due_set now w' t' = {}"
    using tick.active_loop [OF assms(1-3) subset_refl] by (elim exE conjE) (rule that; assumption)
  have sub: "due_set now w t \<subseteq> set (addrs t)" by (auto simp: due_set_def)
  have "inj_on chan_at (set fs)" "\<forall>a\<in>set fs. tm_cb (tms w a) = timer_chan_cb_id"
    using assms(4,5) R(6) sub by (auto intro: inj_on_subset)
  note F = fold_tick [OF R(5) this R(4) [unfolded tick_view_def, symmetric]]
  have "chan_at a \<notin> chan_at ` set fs" if "a \<in> set (addrs t) - due_set now w t" for a
    using that assms(4) R(6) sub by (auto dest: inj_onD)
  with F R(1-3,6,7) show ?thesis by (intro exI [of _ w'] exI [of _ t']) auto
qed

definition tick_demo :: "addr list tm_world_scheme" where
  "tick_demo = tm_demo\<lparr>tms := (\<lambda>a. (tms tm_demo a)\<lparr>tm_cb := timer_chan_cb_id\<rparr>),
     cos := (\<lambda>d. (cos tm_demo d)\<lparr>co_status := (if d = 50 then STATUS_WAITING else STATUS_READY)\<rparr>),
     chans := (\<lambda>c. (chans tm_demo c)\<lparr>ch_r := (if c = 110 then [\<lparr>wt_co = 50, wt_select = False, wt_ele = 200\<rparr>] else [])\<rparr>)\<rparr>"

lemma tick_demo_facts:
  "tm_inv tick_demo tm_demo_tree" "clock_ok five tick_demo" "due_set five tick_demo tm_demo_tree = {10, 20}"
  "tick_ok 9 ((\<lambda>a. a + 100) ` set (addrs tm_demo_tree)) tick_demo"
  "\<forall>a\<in>set (addrs tm_demo_tree). tm_cb (tms tick_demo a) = timer_chan_cb_id"
proof -
  have k: "tm_key (tms tick_demo) = tm_key (tms tm_demo)"
    by (simp add: tm_key_def fun_eq_iff tick_demo_def)
  have g: "tm_good (tms tm_demo a) \<Longrightarrow> tm_good (tms tick_demo a)" for a
    by (simp add: tm_good_def tick_demo_def timer_chan_cb_id_def)
  show "tm_inv tick_demo tm_demo_tree"
    using tm_demo_inv k g unfolding tm_inv_def by (simp add: tick_demo_def)
  show "clock_ok five tick_demo" using tm_demo_clock by (simp add: clock_ok_def tick_demo_def)
  show "due_set five tick_demo tm_demo_tree = {10, 20}"
    unfolding tm_demo_due [symmetric] by (simp add: due_set_def tick_demo_def liteco_timer_active_def)
  show "tick_ok 9 ((\<lambda>a. a + 100) ` set (addrs tm_demo_tree)) tick_demo"
    by (auto simp: tick_ok_def tm_demo_tree_def tick_demo_def tm_demo_def chan_ready_def chan_ok_def ring_abs_def
        chan_cap_def plain_waiters_def waiting_cos_def can_signal_def eventfd_max_def liteco_ignore_awake_co_def)
  show "\<forall>a\<in>set (addrs tm_demo_tree). tm_cb (tms tick_demo a) = timer_chan_cb_id"
    by (simp add: tick_demo_def)
qed

theorem timer_channels_tick_witness:
  "\<exists>w'. liteco_eloop_timer_active (tick_call (\<lambda>a. a + 100)) five tick_demo = Some w' \<and>
     status_of w' 50 = STATUS_READY \<and> 50 \<in> set (rq (rts w' 9)) \<and> ch_w (chans w' 120) = [tick_waiter]"
proof -
  have "inj_on (\<lambda>a. a + 100 :: nat) (set (addrs tm_demo_tree))" by (simp add: inj_on_def)
  from timer_channels_tick [OF tick_demo_facts(1,2,4) this tick_demo_facts(5)] obtain w' where
    w': "liteco_eloop_timer_active (tick_call (\<lambda>a. a + 100)) five tick_demo = Some w'"
      "\<forall>a\<in>{10, 20}. ticked (chans tick_demo (a + 100)) (chans w' (a + 100)) (\<lambda>d. status_of w' d) (set (rq (rts w' 9)))"
    unfolding tick_demo_facts(3) by blast
  then show ?thesis by (auto simp: ticked_def tick_demo_def tm_demo_def)
qed

end
