(* ===== verification/Darwin_Io.thy ===== *)
theory Darwin_Io
  imports Platform Io_Props
begin

text \<open>
  The Darwin copies of the functions that Linux has as well: \<open>src/platform/darwin/lc_io.c\<close>, and
  \<open>liteco_eloop_reg_io\<close>, \<open>liteco_async_spin\<close>, \<open>liteco_eloop_timer_init\<close> and \<open>liteco_eloop_udp_add\<close> of
  \<open>src/platform/darwin/lc_eloop.c\<close>. A function whose text is that of the Linux one is defined by it;
  the registration differs: \<open>kevent\<close> takes the number of one filter, not a set of events.
\<close>

section \<open>State\<close>

text \<open>\<open>active_events\<close> is the member that only Darwin has; \<open>kq\<close> holds the pairs of a descriptor and a
  filter that the kernel watches, with their \<open>udata\<close>.\<close>

record dw_world = io_world +
  active_events :: "addr \<Rightarrow> u32"
  kq :: "u32 \<times> u32 \<Rightarrow> addr option"

definition EVFILT_WRITE :: u32 where "EVFILT_WRITE = - 2"

text \<open>\<open>EV_ADD\<close> as documented: a filter of a descriptor is added, or modified when it is there
  already; an unknown filter and a closed descriptor are refused. Of the filters only those for
  reading and writing concern a descriptor of \<open>liteco_io_t\<close>.\<close>

definition kevent_add :: "u32 \<Rightarrow> u32 \<Rightarrow> addr \<Rightarrow> 'a dw_world_scheme \<Rightarrow> 'a dw_world_scheme" where
  "kevent_add fd flt udata w =
     (if fd_open w fd \<and> flt \<in> {EVFILT_READ, EVFILT_WRITE} then w\<lparr>kq := (kq w)((fd, flt) \<mapsto> udata)\<rparr> else w)"

section \<open>Operations\<close>

definition darwin_io_init :: "addr \<Rightarrow> addr \<Rightarrow> u32 \<Rightarrow> 'a dw_world_scheme \<Rightarrow> ('a dw_world_scheme \<times> int) option" where
  "darwin_io_init io cb fd w =
     map_option (\<lambda>(w1, r). (w1\<lparr>active_events := (active_events w1)(io := 0)\<rparr>, r)) (liteco_io_init io cb fd w)"

definition darwin_io_start :: "addr \<Rightarrow> u32 \<Rightarrow> 'a io_world_scheme \<Rightarrow> ('a io_world_scheme \<times> int) option" where
  "darwin_io_start io events w = liteco_io_start io events w"

definition darwin_io_stop :: "addr \<Rightarrow> addr \<Rightarrow> u32 \<Rightarrow> 'a io_world_scheme \<Rightarrow> ('a io_world_scheme \<times> int) option" where
  "darwin_io_stop mid io events w = liteco_io_stop mid io events w"

definition darwin_async_spin :: "addr \<Rightarrow> 'a async_world_scheme \<Rightarrow> ('a async_world_scheme \<times> bool) option" where
  "darwin_async_spin h w = liteco_async_spin h w"

definition darwin_timer_init :: "'a tm_world_scheme \<Rightarrow> 'a tm_world_scheme \<times> int" where
  "darwin_timer_init w = (w, 0)"

definition darwin_udp_add :: "addr \<Rightarrow> 'a udp_world_scheme \<Rightarrow> ('a udp_world_scheme \<times> int) option" where
  "darwin_udp_add udp w = map_option (\<lambda>(w1, _). (w1, 0)) (darwin_io_start (udp_io udp) EVFILT_READ w)"

definition darwin_reg_io :: "addr \<Rightarrow> 'a dw_world_scheme \<Rightarrow> 'a dw_world_scheme option" where
  "darwin_reg_io io w =
     (let fd = io_key (ios w io); k = io_key64 fd
      in case liteco_rbt_find_impl (reg_cmp w) k (reg w) of
           None \<Rightarrow> None
         | Some a \<Rightarrow>
             (if a \<noteq> NIL then Some w
              else (let (w1, ok) = malloc w
                    in if \<not> ok then Some w1
                       else (let n = next_mark w1;
                                 w2 = w1\<lparr>next_mark := n + 1, fd_marks := (fd_marks w1)(n := fd),
                                         reg := (reg w1)\<lparr>mem := (mem (reg w1))(n := liteco_rbt_node_init)\<rparr>\<rparr>
                             in map_option (\<lambda>(t, _). kevent_add fd (listening_events (ios w2 io)) io (w2\<lparr>reg := t\<rparr>))
                                  (liteco_rbt_insert_impl (reg_cmp w2) k n (reg w2))))))"

definition darwin_register :: "'a dw_world_scheme \<Rightarrow> 'a dw_world_scheme option" where
  "darwin_register w =
     (case liteco_rbt_foreach (\<lambda>io w. darwin_reg_io io w) (mon w) w of
        None \<Rightarrow> None
      | Some (t, w1) \<Rightarrow> Some (w1\<lparr>mon := t\<rparr>))"

section \<open>Registration\<close>

text \<open>Both platforms mark the same descriptors; they differ in what they tell the kernel.\<close>

lemma keep_watched:
  fixes w :: "'a io_world_scheme"
  shows "watched w = W \<Longrightarrow> w\<lparr>watched := W\<rparr> = w"
  by auto

lemma darwin_linux:
  fixes w :: "'a dw_world_scheme"
  assumes "reg_ok w r"
  shows "darwin_reg_io io w =
     map_option (\<lambda>w1. if io_key (ios w io) \<in> marks w r \<or> \<not> snd (malloc w) then w1
         else kevent_add (io_key (ios w io)) (listening_events (ios w io)) io (w1\<lparr>watched := watched w\<rparr>))
       (liteco_eloop_reg_io io w)"
proof -
  let ?fd = "io_key (ios w io)"
  have "rbt_wf (\<lambda>a. sint (fd_marks w a)) (reg w) r" using assms by (simp add: reg_ok_def)
  then obtain a where a: "liteco_rbt_find_impl (reg_cmp w) (io_key64 ?fd) (reg w) = Some a" "a = NIL \<longleftrightarrow> ?fd \<notin> marks w r"
    using io_find [of "reg w" r "fd_marks w" ?fd] by (auto simp: rbt_wf_def marks_def reg_cmp_def [abs_def])
  obtain w0 ok where m: "malloc w = (w0, ok)" by fastforce
  then have w0: "watched w0 = watched w" "ios w0 = ios w"
    by (auto simp: malloc_def split: list.splits)
  show ?thesis
    using a m w0
    by (auto simp: darwin_reg_io_def liteco_eloop_reg_io_def Let_def option.map_comp comp_def split_def
        watch_add_def keep_watched intro!: option.map_cong)
qed

lemma io_start_frame:
  fixes w :: "'a dw_world_scheme"
  assumes "liteco_io_start io events w = Some (w', x)"
  shows "next_mark w' = next_mark w \<and> fd_open w' = fd_open w \<and> mallocs w' = mallocs w \<and> kq w' = kq w \<and>
    io_key (ios w' io) = io_key (ios w io) \<and> reg w' = reg w \<and> fd_marks w' = fd_marks w"
  using assms by (auto simp: liteco_io_start_def upd_io_def Let_def split: option.splits if_splits)

lemma reg_io_kq:
  fixes w :: "'a dw_world_scheme"
  assumes "liteco_eloop_reg_io io w = Some w'"
  shows "kq w' = kq w"
  using assms by (auto simp: liteco_eloop_reg_io_def Let_def malloc_def watch_add_def
      split: option.splits if_splits prod.splits list.splits)

text \<open>On Darwin the events of a descriptor are no set. A descriptor that is started for writing
  and then for reading, before the event loop gets to it, is watched for reading only: the two
  filters are combined with \<open>|\<close>, and \<open>EVFILT_WRITE | EVFILT_READ\<close> is \<open>EVFILT_READ\<close>.\<close>

theorem darwin_write_lost:
  fixes w :: "'a dw_world_scheme"
  assumes "mon_ok w t" "reg_ok w r" "io \<noteq> NIL" "mem (mon w) io = liteco_rbt_node_init"
    and "listening_events (ios w io) = 0" "io_key (ios w io) = fd" "fd \<notin> fds w t" "fd \<notin> marks w r"
    and "fd_open w fd" "mallocs w = []" "kq w (fd, EVFILT_WRITE) = None"
  shows "\<exists>w1 w2 w3. darwin_io_start io EVFILT_WRITE w = Some (w1, 0) \<and> darwin_io_start io EVFILT_READ w1 = Some (w2, 0) \<and>
    darwin_reg_io io w2 = Some w3 \<and> kq w3 (fd, EVFILT_READ) = Some io \<and> kq w3 (fd, EVFILT_WRITE) = None"
proof -
  from io_start_adds [OF assms(1,3), of EVFILT_WRITE] assms(4-7) obtain w1 t1 where
    s1: "liteco_io_start io EVFILT_WRITE w = Some (w1, 0)" "mon_ok w1 t1" "set (addrs t1) = insert io (set (addrs t))"
      "listening_events (ios w1 io) = EVFILT_WRITE"
    by auto
  note f1 = io_start_frame [OF s1(1)]
  have "io \<in> set (addrs t1) \<or> mem (mon w1) io = liteco_rbt_node_init" using s1(3) by simp
  from io_start_adds [OF s1(2) assms(3) this, of EVFILT_READ] obtain w2 t2 where
    s2: "liteco_io_start io EVFILT_READ w1 = Some (w2, 0)" "mon_ok w2 t2"
      "listening_events (ios w2 io) = (listening_events (ios w1 io) OR EVFILT_READ)"
    by blast
  note f2 = io_start_frame [OF s2(1)]
  have ev: "listening_events (ios w2 io) = EVFILT_READ"
    unfolding s2(3) s1(4) by (simp add: EVFILT_READ_def EVFILT_WRITE_def)
  have fd: "io_key (ios w2 io) = fd" "fd_open w2 fd" "mallocs w2 = []" "kq w2 (fd, EVFILT_WRITE) = None"
    using f1 f2 assms by simp_all
  have r: "reg_ok w2 r" "marks w2 r = marks w r" using assms(2) f1 f2 by (simp_all add: reg_ok_def marks_def)
  from reg_io_step [OF r(1), of io] obtain w4 r4 where
    g: "liteco_eloop_reg_io io w2 = Some w4" "fd_open w4 = fd_open w2" by blast
  let ?w3 = "kevent_add fd EVFILT_READ io (w4\<lparr>watched := watched w2\<rparr>)"
  have "darwin_reg_io io w2 = Some ?w3"
    using darwin_linux [OF r(1), of io] g(1) fd r(2) assms(8) ev by (simp add: malloc_def)
  moreover have "EVFILT_WRITE \<noteq> EVFILT_READ" by (simp add: EVFILT_READ_def EVFILT_WRITE_def)
  then have "kq ?w3 (fd, EVFILT_READ) = Some io" "kq ?w3 (fd, EVFILT_WRITE) = None"
    using reg_io_kq [OF g(1)] g(2) fd by (simp_all add: kevent_add_def)
  ultimately show ?thesis using s1(1) s2(1)
    by (intro exI [of _ w1] exI [of _ w2] exI [of _ ?w3]) (simp add: darwin_io_start_def)
qed

definition dw_demo :: dw_world where
  "dw_demo = io_world.extend (io_demo\<lparr>ios := (\<lambda>a. \<lparr>io_key = of_nat a, io_cb = 7, listening_events = (if a = 7 then 0 else 1)\<rparr>)\<rparr>)
     (dw_world.fields (\<lambda>_. 0) (\<lambda>_. None))"

theorem darwin_write_lost_witness:
  "\<exists>w1 w2 w3. darwin_io_start 7 EVFILT_WRITE dw_demo = Some (w1, 0) \<and> darwin_io_start 7 EVFILT_READ w1 = Some (w2, 0) \<and>
    darwin_reg_io 7 w2 = Some w3 \<and> kq w3 (7, EVFILT_READ) = Some 7 \<and> kq w3 (7, EVFILT_WRITE) = None"
proof -
  have e: "mon dw_demo = mon io_demo" "reg dw_demo = reg io_demo" "fd_marks dw_demo = fd_marks io_demo"
    "next_mark dw_demo = next_mark io_demo" "fd_open dw_demo = fd_open io_demo" "mallocs dw_demo = mallocs io_demo"
    "ios dw_demo = (\<lambda>a. \<lparr>io_key = of_nat a, io_cb = 7, listening_events = (if a = 7 then 0 else 1)\<rparr>)"
    "kq dw_demo = (\<lambda>_. None)"
    by (simp_all add: dw_demo_def io_world.extend_def dw_world.fields_def)
  have k: "(\<lambda>a. io_key (ios dw_demo a)) = (\<lambda>a. io_key (ios io_demo a))" by (simp add: e io_demo_fields)
  have "mon_ok dw_demo demo_tree" "reg_ok dw_demo io_demo_reg"
    using io_demo_ok by (simp_all add: mon_ok_def reg_ok_def e io_demo_fields)
  moreover have "mem (mon dw_demo) 7 = liteco_rbt_node_init" by (simp add: e io_demo_fields demo_state_def)
  moreover have "fds dw_demo demo_tree = {1, 2, 3, 4}" "marks dw_demo io_demo_reg = {1}"
    using io_demo_sets by (simp_all add: fds_def marks_def e io_demo_fields)
  ultimately show ?thesis
    using darwin_write_lost [of dw_demo demo_tree io_demo_reg 7 7] by (simp add: e io_demo_fields)
qed

end
