(* ===== verification/Runtime_Threads.thy ===== *)
theory Runtime_Threads
  imports Runtime
begin

text \<open>
  The runtime with several threads. One thread runs the event loop and so \<open>liteco_runtime_cb\<close>; any
  thread, that one included, starts coroutines and wakes waiting ones: it sets the status of the
  coroutine to \<open>READY\<close> and calls \<open>liteco_runtime_join\<close>, which puts it into the queue and sends the
  runtime's async handler. A section under the mutex of the runtime is one step up to the call of
  \<open>liteco_async_send\<close>; the accesses of \<open>liteco_async_send\<close> and \<open>liteco_async_spin\<close> are one step each.
\<close>

section \<open>Threads\<close>

text \<open>The next access of \<open>liteco_async_send\<close>: the test, the first compare-and-swap, the write to
  the eventfd, the second compare-and-swap.\<close>

datatype send_pc = Send_Test | Send_Cas | Send_Write | Send_Done

text \<open>What the thread goes on with after \<open>liteco_runtime_join\<close> or \<open>liteco_runtime_cb\<close>: nothing of the
  runtime, or the coroutine it runs.\<close>

datatype home = To_Out | To_Run addr

text \<open>\<open>T_Join k d\<close>: about to call \<open>liteco_runtime_join\<close> for \<open>d\<close>. The constructors with \<open>L\<close> are the places of
  the event loop: in \<open>liteco_async_spin\<close> before the test and before the compare-and-swap; in
  \<open>liteco_runtime_cb\<close> before the pop, in \<open>liteco_resume\<close> before the coroutine runs, in the coroutine, in
  the coroutine's call of \<open>liteco_yield\<close>, after \<open>liteco_resume\<close>, and after the first loop.\<close>

datatype thread_pc =
    T_Out | T_Join home addr | T_Sending home send_pc | T_Unlock home
  | L_Spin | L_Cas | L_Pop | L_Resume addr | L_Run addr | L_Switch addr | L_Back addr | L_Requeue

text \<open>\<open>again\<close> is the local list \<open>rq\<close> of \<open>liteco_runtime_cb\<close>; \<open>handed\<close> are the coroutines that a
  thread has started.\<close>

record rt_sys = rt_world +
  mutex :: "nat option"
  tpc :: "nat \<Rightarrow> thread_pc"
  again :: "addr list"
  handed :: "addr set"

definition go :: "nat \<Rightarrow> thread_pc \<Rightarrow> rt_sys \<Rightarrow> rt_sys" where
  "go t p s = s\<lparr>tpc := (tpc s)(t := p)\<rparr>"

fun back_home :: "home \<Rightarrow> thread_pc" where
  "back_home To_Out = T_Out"
| "back_home (To_Run c) = L_Run c"

abbreviation rt_handler :: "addr \<Rightarrow> 'a rt_world_scheme \<Rightarrow> addr" where
  "rt_handler rt w \<equiv> rt_async (rts w rt)"

abbreviation rt_status :: "addr \<Rightarrow> 'a rt_world_scheme \<Rightarrow> liteco_async_padding_status" where
  "rt_status rt w \<equiv> as_status (asyncs w (rt_handler rt w))"

section \<open>Steps\<close>

text \<open>One access of \<open>liteco_async_send\<close>, with the place of the next one.\<close>

fun send_step :: "addr \<Rightarrow> send_pc \<Rightarrow> 'a async_world_scheme \<Rightarrow> ('a async_world_scheme \<times> send_pc option) option" where
  "send_step h Send_Test w =
     Some (w, if as_status (asyncs w h) \<noteq> ASYNC_NO_PADDING then None else Some Send_Cas)"
| "send_step h Send_Cas w =
     Some (if as_status (asyncs w h) = ASYNC_NO_PADDING then (set_async h ASYNC_WORKING w, Some Send_Write)
           else (w, None))"
| "send_step h Send_Write w = map_option (\<lambda>w1. (w1, Some Send_Done)) (liteco_eloop_async_send w)"
| "send_step h Send_Done w =
     Some (if as_status (asyncs w h) = ASYNC_WORKING then (set_async h ASYNC_DONE w, None) else (w, None))"

text \<open>The section of \<open>liteco_runtime_join\<close> under the mutex, up to the call of \<open>liteco_async_send\<close>,
  which follows when the result is true.\<close>

definition join_locked :: "addr \<Rightarrow> addr \<Rightarrow> 'a rt_world_scheme \<Rightarrow> 'a rt_world_scheme \<times> bool" where
  "join_locked rt co w =
     (if liteco_runtime_exist rt co w then (w, False)
      else (let (w1, ok) = malloc w
            in if \<not> ok then (w1, False) else (set_rq rt (rq (rts w1 rt) @ [co]) w1, True)))"

text \<open>The beginning of \<open>liteco_resume\<close>, for a coroutine that is not terminated: no result while the
  status is not \<open>READY\<close>, since \<open>liteco_set_status\<close> spins.\<close>

definition resume_enter :: "addr \<Rightarrow> 'a co_world_scheme \<Rightarrow> 'a co_world_scheme option" where
  "resume_enter c w =
     liteco_set_status c STATUS_READY STATUS_RUNNING
       (if status_of w c = STATUS_STARTING then put_status c STATUS_READY w else w)"

text \<open>Where a thread may be when it starts or wakes a coroutine: outside of the runtime, or in a
  coroutine.\<close>

fun may_join :: "home \<Rightarrow> thread_pc \<Rightarrow> bool" where
  "may_join To_Out p \<longleftrightarrow> p = T_Out"
| "may_join (To_Run c) p \<longleftrightarrow> p = L_Run c"

text \<open>\<open>lp\<close> is the thread of the event loop. A coroutine can be woken from the moment it is \<open>WAITING\<close>,
  which is before it has switched away, and, by an operation on another channel of its select, even when
  it is \<open>RUNNING\<close> again: \<open>liteco_set_status\<close> then returns at once, and it is joined all the same. Without
  \<open>early\<close> it is woken only when it is \<open>WAITING\<close> and after \<open>liteco_runtime_cb\<close> has looked at its
  status. A thread starts a coroutine once.\<close>

inductive rt_step :: "bool \<Rightarrow> nat \<Rightarrow> addr \<Rightarrow> rt_sys \<Rightarrow> rt_sys \<Rightarrow> bool" for early lp rt where
  hand: "may_join k (tpc s t) \<Longrightarrow> d \<noteq> NIL \<Longrightarrow> status_of s d = STATUS_STARTING \<Longrightarrow> d \<notin> handed s \<Longrightarrow>
    rt_step early lp rt s (go t (T_Join k d) (s\<lparr>handed := insert d (handed s)\<rparr>))"
| wake: "may_join k (tpc s t) \<Longrightarrow> status_of s d = STATUS_WAITING \<or> early \<and> status_of s d = STATUS_RUNNING \<Longrightarrow>
    early \<or> tpc s lp \<noteq> L_Switch d \<and> tpc s lp \<noteq> L_Back d \<Longrightarrow>
    liteco_set_status d STATUS_WAITING STATUS_READY s = Some s1 \<Longrightarrow>
    rt_step early lp rt s (go t (T_Join k d) s1)"
| join: "tpc s t = T_Join k d \<Longrightarrow> mutex s = None \<Longrightarrow> join_locked rt d s = (s1, b) \<Longrightarrow>
    rt_step early lp rt s (go t (if b then T_Sending k Send_Test else T_Unlock k) (s1\<lparr>mutex := Some t\<rparr>))"
| send: "tpc s t = T_Sending k p \<Longrightarrow> send_step (rt_handler rt s) p s = Some (s1, q) \<Longrightarrow>
    rt_step early lp rt s (go t (case q of None \<Rightarrow> T_Unlock k | Some p1 \<Rightarrow> T_Sending k p1) s1)"
| unlock: "tpc s t = T_Unlock k \<Longrightarrow> rt_step early lp rt s (go t (back_home k) (s\<lparr>mutex := None\<rparr>))"
| other_write: "ev s < eventfd_max \<Longrightarrow> rt_step early lp rt s (s\<lparr>ev := ev s + 1\<rparr>)"
| read_ev: "tpc s lp = T_Out \<Longrightarrow> 0 < ev s \<Longrightarrow> rt_step early lp rt s (go lp L_Spin (s\<lparr>ev := 0\<rparr>))"
| spin: "tpc s lp = L_Spin \<Longrightarrow> rt_status rt s \<noteq> ASYNC_WORKING \<Longrightarrow> rt_step early lp rt s (go lp L_Cas s)"
| call: "tpc s lp = L_Cas \<Longrightarrow> rt_status rt s = ASYNC_DONE \<Longrightarrow>
    rt_step early lp rt s (go lp L_Pop (set_async (rt_handler rt s) ASYNC_NO_PADDING s))"
| skip: "tpc s lp = L_Cas \<Longrightarrow> rt_status rt s \<noteq> ASYNC_DONE \<Longrightarrow> rt_step early lp rt s (go lp T_Out s)"
| pop: "tpc s lp = L_Pop \<Longrightarrow> mutex s = None \<Longrightarrow> liteco_runtime_pop rt s = (s1, c) \<Longrightarrow>
    rt_step early lp rt s (go lp (if c = NIL then L_Requeue else L_Resume c) s1)"
| resume: "tpc s lp = L_Resume c \<Longrightarrow> status_of s c \<noteq> STATUS_TERMINATE \<Longrightarrow> resume_enter c s = Some s1 \<Longrightarrow>
    rt_step early lp rt s (go lp (L_Run c) s1)"
| resume_dead: "tpc s lp = L_Resume c \<Longrightarrow> status_of s c = STATUS_TERMINATE \<Longrightarrow>
    rt_step early lp rt s (go lp (L_Back c) s)"
| yield: "tpc s lp = L_Run c \<Longrightarrow> rt_step early lp rt s (go lp (L_Switch c) s)"
| block: "tpc s lp = L_Run c \<Longrightarrow> liteco_set_status c STATUS_RUNNING STATUS_WAITING s = Some s1 \<Longrightarrow>
    rt_step early lp rt s (go lp (L_Switch c) s1)"
| ret: "tpc s lp = L_Run c \<Longrightarrow> liteco_set_status c STATUS_RUNNING STATUS_TERMINATE s = Some s1 \<Longrightarrow>
    rt_step early lp rt s (go lp (L_Switch c) s1)"
| switch: "tpc s lp = L_Switch c \<Longrightarrow>
    rt_step early lp rt s (go lp (L_Back c) (if status_of s c = STATUS_RUNNING then put_status c STATUS_READY s else s))"
| look: "tpc s lp = L_Back c \<Longrightarrow>
    rt_step early lp rt s (go lp L_Pop (if status_of s c = STATUS_READY then s\<lparr>again := again s @ [c]\<rparr> else s))"
| requeue: "tpc s lp = L_Requeue \<Longrightarrow> mutex s = None \<Longrightarrow>
    rt_step early lp rt s (go lp (T_Sending To_Out Send_Test)
      ((runtime_requeue rt (again s) s)\<lparr>again := [], mutex := Some lp\<rparr>))"

definition rt_start :: "addr \<Rightarrow> rt_sys \<Rightarrow> bool" where
  "rt_start rt s \<longleftrightarrow> (\<forall>c. status_of s c = STATUS_STARTING) \<and> rq (rts s rt) = [] \<and> mallocs s = [] \<and>
     rt_status rt s = ASYNC_NO_PADDING \<and> ev s = 0 \<and> mutex s = None \<and> (\<forall>t. tpc s t = T_Out) \<and>
     again s = [] \<and> handed s = {}"

inductive rt_reach :: "bool \<Rightarrow> nat \<Rightarrow> addr \<Rightarrow> rt_sys \<Rightarrow> bool" for early lp rt where
  start: "rt_start rt s \<Longrightarrow> rt_reach early lp rt s"
| step: "rt_reach early lp rt s \<Longrightarrow> rt_step early lp rt s s' \<Longrightarrow> rt_reach early lp rt s'"

inductive_cases rt_stepE: "rt_step early lp rt s s'"

inductive rt_steps :: "bool \<Rightarrow> nat \<Rightarrow> addr \<Rightarrow> rt_sys \<Rightarrow> rt_sys \<Rightarrow> bool" for early lp rt where
  refl: "rt_steps early lp rt s s"
| step: "rt_step early lp rt s u \<Longrightarrow> rt_steps early lp rt u v \<Longrightarrow> rt_steps early lp rt s v"

section \<open>The steps and the sequential operations\<close>

text \<open>On one thread the pieces make up \<open>liteco_async_send\<close>, \<open>liteco_runtime_join\<close> and \<open>liteco_resume\<close>.\<close>

definition send_next :: "addr \<Rightarrow> 'a async_world_scheme \<times> send_pc option \<Rightarrow> ('a async_world_scheme \<times> send_pc option) option" where
  "send_next h x = (case x of (w, None) \<Rightarrow> Some (w, None) | (w, Some p) \<Rightarrow> send_step h p w)"

lemma send_steps_send:
  "liteco_async_send h w =
     map_option (\<lambda>(w1, _). (w1, 0))
       (Option.bind (send_step h Send_Test w)
          (\<lambda>x. Option.bind (send_next h x) (\<lambda>y. Option.bind (send_next h y) (send_next h))))"
  by (auto simp: liteco_async_send_def send_next_def liteco_eloop_async_send_def set_async_def)

lemma join_locked_join:
  "liteco_runtime_join rt co w =
     (case join_locked rt co w of
        (w1, True) \<Rightarrow> map_option (\<lambda>(w2, _). (w2, 0)) (liteco_async_send (rt_handler rt w1) w1)
      | (w1, False) \<Rightarrow> Some (w1, if liteco_runtime_exist rt co w then 0 else - 1))"
  by (auto simp: liteco_runtime_join_def join_locked_def malloc_def split: list.splits)

lemma resume_enter_spins:
  "status_of w c \<noteq> STATUS_TERMINATE \<Longrightarrow> resume_enter c w = None \<Longrightarrow> liteco_resume seg fin c w = None"
  by (auto simp: resume_enter_def liteco_resume_def liteco_set_status_def Let_def split: if_splits)

lemma resume_enter_iff:
  "resume_enter c w = Some w1 \<longleftrightarrow> status_of w c \<in> {STATUS_STARTING, STATUS_READY} \<and>
     w1 = put_status c STATUS_RUNNING (if status_of w c = STATUS_STARTING then put_status c STATUS_READY w else w)"
  by (auto simp: resume_enter_def liteco_set_status_def)

section \<open>Reading the state\<close>

lemma go_fields [simp]:
  "tpc (go t p s) = (tpc s)(t := p)" "mutex (go t p s) = mutex s" "again (go t p s) = again s"
  "handed (go t p s) = handed s" "cos (go t p s) = cos s" "rts (go t p s) = rts s"
  "mallocs (go t p s) = mallocs s" "asyncs (go t p s) = asyncs s" "ev (go t p s) = ev s"
  by (simp_all add: go_def)

lemma status_fields [simp]:
  fixes s :: rt_sys
  shows "tpc (put_status c st s) = tpc s" "mutex (put_status c st s) = mutex s" "again (put_status c st s) = again s"
    "handed (put_status c st s) = handed s" "rts (put_status c st s) = rts s"
    "mallocs (put_status c st s) = mallocs s" "asyncs (put_status c st s) = asyncs s" "ev (put_status c st s) = ev s"
  by (simp_all add: put_status_def upd_co_def)

lemma sys_async_fields [simp]:
  fixes s :: rt_sys
  shows "tpc (set_async h st s) = tpc s" "mutex (set_async h st s) = mutex s" "again (set_async h st s) = again s"
    "handed (set_async h st s) = handed s" "rts (set_async h st s) = rts s" "mallocs (set_async h st s) = mallocs s"
  by (simp_all add: set_async_def)

lemma sys_rq_fields [simp]:
  fixes s :: rt_sys
  shows "tpc (set_rq rt q s) = tpc s" "mutex (set_rq rt q s) = mutex s" "again (set_rq rt q s) = again s"
    "handed (set_rq rt q s) = handed s"
  by (simp_all add: set_rq_def)

lemma sys_requeue_fields [simp]:
  fixes s :: rt_sys
  shows "tpc (runtime_requeue rt xs s) = tpc s" "mutex (runtime_requeue rt xs s) = mutex s"
    "again (runtime_requeue rt xs s) = again s" "handed (runtime_requeue rt xs s) = handed s"
    "mallocs (runtime_requeue rt xs s) = mallocs s"
  by (induction rt xs s rule: runtime_requeue.induct) auto

lemma requeue_set: "set (rq (rts (runtime_requeue rt xs w) rt)) = set (rq (rts w rt)) \<union> set xs"
  by (induction rt xs w rule: runtime_requeue.induct) auto

text \<open>The next access of the thread that holds the mutex, when it is sending.\<close>

definition sender :: "rt_sys \<Rightarrow> send_pc option" where
  "sender s = (case mutex s of None \<Rightarrow> None
     | Some t \<Rightarrow> (case tpc s t of T_Sending k p \<Rightarrow> Some p | _ \<Rightarrow> None))"

fun holding :: "thread_pc \<Rightarrow> bool" where
  "holding (T_Sending k p) = True"
| "holding (T_Unlock k) = True"
| "holding _ = False"

text \<open>The event loop is in \<open>liteco_runtime_cb\<close> before the last part of it.\<close>

fun home_in :: "home \<Rightarrow> bool" where
  "home_in To_Out = False"
| "home_in (To_Run c) = True"

fun in_pass :: "thread_pc \<Rightarrow> bool" where
  "in_pass T_Out = False"
| "in_pass (T_Join k d) = home_in k"
| "in_pass (T_Sending k p) = home_in k"
| "in_pass (T_Unlock k) = home_in k"
| "in_pass L_Spin = False"
| "in_pass L_Cas = False"
| "in_pass _ = True"

lemma in_pass_home [simp]: "in_pass (back_home k) = home_in k" by (cases k) auto

lemma holding_home [simp]: "\<not> holding (back_home k)" by (cases k) auto

lemma home_not [simp]: "back_home k \<noteq> T_Sending k' p" "back_home k \<noteq> T_Join k' d" "back_home k \<noteq> T_Unlock k'"
  "back_home k \<noteq> L_Spin" "back_home k \<noteq> L_Cas" "back_home k \<noteq> L_Pop" "back_home k \<noteq> L_Resume c"
  "back_home k \<noteq> L_Back c" "back_home k \<noteq> L_Switch c" "back_home k \<noteq> L_Requeue"
  by (cases k; simp)+

lemma may_join_pc: "may_join k p \<Longrightarrow> p = back_home k" by (cases k) auto

end
