(* ===== verification/Runtime_Invariants.thy ===== *)
theory Runtime_Invariants
  imports Runtime_Threads
begin

text \<open>
  Invariants of the runtime with several threads: the mutex and its holder, the null pointer, the
  coroutines that are ready, and the async handler with its sender and the eventfd. All of them
  hold in every interleaving.
\<close>

section \<open>Invariants\<close>

definition lock_ok :: "rt_sys \<Rightarrow> bool" where
  "lock_ok s \<longleftrightarrow> (\<forall>t. mutex s = Some t \<longleftrightarrow> holding (tpc s t))"

definition nil_ok :: "nat \<Rightarrow> addr \<Rightarrow> rt_sys \<Rightarrow> bool" where
  "nil_ok lp rt s \<longleftrightarrow> status_of s NIL = STATUS_STARTING \<and> NIL \<notin> set (rq (rts s rt)) \<and> NIL \<notin> set (again s) \<and>
     (\<forall>t k. tpc s t \<noteq> T_Join k NIL) \<and> tpc s lp \<noteq> L_Resume NIL \<and> mallocs s = []"

text \<open>A coroutine that is ready is queued, or on its way into the queue or out of it.\<close>

definition on_its_way :: "nat \<Rightarrow> addr \<Rightarrow> rt_sys \<Rightarrow> addr \<Rightarrow> bool" where
  "on_its_way lp rt s d \<longleftrightarrow> d \<in> set (rq (rts s rt)) \<or> d \<in> set (again s) \<or> (\<exists>t k. tpc s t = T_Join k d) \<or>
     tpc s lp = L_Resume d \<or> tpc s lp = L_Back d"

definition ready_ok :: "nat \<Rightarrow> addr \<Rightarrow> rt_sys \<Rightarrow> bool" where
  "ready_ok lp rt s \<longleftrightarrow> (\<forall>d. status_of s d = STATUS_READY \<longrightarrow> on_its_way lp rt s d)"

text \<open>The handler, its sender and the eventfd; while coroutines are queued the event loop is in a
  pass or it will be told.\<close>

definition send_ok :: "nat \<Rightarrow> addr \<Rightarrow> rt_sys \<Rightarrow> bool" where
  "send_ok lp rt s \<longleftrightarrow>
     (rt_status rt s = ASYNC_WORKING \<longleftrightarrow> sender s \<in> {Some Send_Write, Some Send_Done}) \<and>
     (rt_status rt s = ASYNC_WORKING \<longrightarrow> sender s = Some Send_Write \<or> 0 < ev s \<or> tpc s lp = L_Spin) \<and>
     (rt_status rt s = ASYNC_DONE \<longrightarrow> 0 < ev s \<or> tpc s lp \<in> {L_Spin, L_Cas}) \<and>
     (sender s = Some Send_Cas \<longrightarrow> rt_status rt s = ASYNC_NO_PADDING) \<and>
     (rq (rts s rt) \<noteq> [] \<longrightarrow> in_pass (tpc s lp) \<or> rt_status rt s \<noteq> ASYNC_NO_PADDING \<or>
        sender s \<in> {Some Send_Test, Some Send_Cas})"

lemma rt_start_inv:
  assumes "rt_start rt s"
  shows "lock_ok s" "nil_ok lp rt s" "ready_ok lp rt s" "send_ok lp rt s"
  using assms by (auto simp: rt_start_def lock_ok_def nil_ok_def ready_ok_def send_ok_def sender_def)

lemma set_status_some: "liteco_set_status c fr to w = Some w1 \<Longrightarrow>
    w1 = (if fr = STATUS_WAITING \<and> status_of w c = STATUS_RUNNING then w else put_status c to w) \<and>
    (fr = STATUS_WAITING \<and> status_of w c = STATUS_RUNNING \<or> status_of w c = fr)"
  by (auto simp: liteco_set_status_def split: if_splits)

lemma join_locked_cases:
  assumes "join_locked rt d s = (s1, b)" "mallocs s = []"
  shows "b \<and> d \<notin> set (rq (rts s rt)) \<and> s1 = set_rq rt (rq (rts s rt) @ [d]) s \<or>
    \<not> b \<and> d \<in> set (rq (rts s rt)) \<and> s1 = s"
  using assms by (auto simp: join_locked_def split: if_splits)

text \<open>What the pieces of a step leave alone.\<close>

lemma status_step:
  fixes s :: rt_sys
  assumes "liteco_set_status c fr to s = Some s1"
  shows "tpc s1 = tpc s \<and> mutex s1 = mutex s \<and> again s1 = again s \<and> handed s1 = handed s \<and> rts s1 = rts s \<and>
    mallocs s1 = mallocs s \<and> asyncs s1 = asyncs s \<and> ev s1 = ev s"
  using assms by (auto simp: liteco_set_status_def split: if_splits)

lemma resume_step:
  fixes s :: rt_sys
  assumes "resume_enter c s = Some s1"
  shows "tpc s1 = tpc s \<and> mutex s1 = mutex s \<and> again s1 = again s \<and> handed s1 = handed s \<and> rts s1 = rts s \<and>
    mallocs s1 = mallocs s \<and> asyncs s1 = asyncs s \<and> ev s1 = ev s \<and> status_of s c \<in> {STATUS_STARTING, STATUS_READY} \<and>
    (\<forall>d. status_of s1 d = (if d = c then STATUS_RUNNING else status_of s d))"
  using assms by (auto simp: resume_enter_iff)

lemma pop_step:
  fixes s :: rt_sys
  assumes "liteco_runtime_pop rt s = (s1, c)" "NIL \<notin> set (rq (rts s rt))"
  shows "c = NIL \<and> s1 = s \<and> rq (rts s rt) = [] \<or>
    c \<noteq> NIL \<and> s1 = set_rq rt (tl (rq (rts s rt))) s \<and> rq (rts s rt) = c # tl (rq (rts s rt))"
  using assms by (auto simp: liteco_runtime_pop_def split: list.splits)

lemma send_step_fields:
  fixes s :: rt_sys
  assumes "send_step h p s = Some (s1, q)"
  shows "tpc s1 = tpc s \<and> mutex s1 = mutex s \<and> again s1 = again s \<and> handed s1 = handed s \<and> rts s1 = rts s \<and>
    mallocs s1 = mallocs s \<and> cos s1 = cos s"
  using assms by (cases p) (auto simp: liteco_eloop_async_send_def split: if_splits)

lemma lock_ok_step:
  assumes "rt_step early lp rt s s'" "lock_ok s" "nil_ok lp rt s"
  shows "lock_ok s'"
  using assms(1)
proof (cases rule: rt_step.cases)
  case (hand k t d)
  then show ?thesis using assms(2) by (auto simp: lock_ok_def dest!: may_join_pc)
next
  case (wake k t d s1)
  have "\<not> holding (tpc s t)" using may_join_pc [OF wake(2)] by simp
  then show ?thesis using wake(1) assms(2) status_step [OF wake(5)] by (auto simp: lock_ok_def)
next
  case (join t k d s1 b)
  then show ?thesis using assms join_locked_cases [OF join(4)] by (auto simp: lock_ok_def nil_ok_def)
next
  case (send t k p s1 q)
  then show ?thesis using assms(2) send_step_fields [OF send(3)]
    by (auto simp: lock_ok_def split: option.splits)
next
  case (unlock t k)
  then have "holding (tpc s t)" by simp
  then have "mutex s = Some t" using assms(2) by (simp add: lock_ok_def)
  then have "\<not> holding (tpc s u)" if "u \<noteq> t" for u using that assms(2) by (auto simp: lock_ok_def)
  then show ?thesis using unlock(1) by (auto simp: lock_ok_def)
next
  case (pop s1 c)
  then show ?thesis using assms pop_step [OF pop(4)] by (auto simp: lock_ok_def nil_ok_def)
next
  case (resume c s1)
  then show ?thesis using assms(2) resume_step [OF resume(4)] by (auto simp: lock_ok_def)
next
  case (block c s1)
  then show ?thesis using assms(2) status_step [OF block(3)] by (auto simp: lock_ok_def)
next
  case (ret c s1)
  then show ?thesis using assms(2) status_step [OF ret(3)] by (auto simp: lock_ok_def)
qed (use assms(2) in \<open>auto simp: lock_ok_def\<close>)

lemma nil_ok_step:
  assumes "rt_step early lp rt s s'" "nil_ok lp rt s"
  shows "nil_ok lp rt s'"
  using assms(1)
proof (cases rule: rt_step.cases)
  case (hand k t d)
  then show ?thesis using assms(2) by (auto simp: nil_ok_def dest!: may_join_pc)
next
  case (wake k t d s1)
  have "status_of s NIL = STATUS_STARTING" using assms(2) by (simp add: nil_ok_def)
  then have "d \<noteq> NIL" using wake(3) by (cases "d = NIL") simp_all
  then show ?thesis using wake(1) assms(2) status_step [OF wake(5)] set_status_some [OF wake(5)]
    by (auto simp: nil_ok_def)
next
  case (join t k d s1 b)
  then show ?thesis using assms(2) join_locked_cases [OF join(4)] by (auto simp: nil_ok_def)
next
  case (send t k p s1 q)
  then show ?thesis using assms(2) send_step_fields [OF send(3)]
    by (auto simp: nil_ok_def split: option.splits)
next
  case (unlock t k)
  then show ?thesis using assms(2) by (auto simp: nil_ok_def)
next
  case (pop s1 c)
  then show ?thesis using assms(2) pop_step [OF pop(4)]
    by (cases "rq (rts s rt)") (auto simp: nil_ok_def)
next
  case (resume c s1)
  then show ?thesis using assms(2) resume_step [OF resume(4)] by (auto simp: nil_ok_def)
next
  case (block c s1)
  have "status_of s NIL = STATUS_STARTING" using assms(2) by (simp add: nil_ok_def)
  then have "c \<noteq> NIL" using set_status_some [OF block(3)] by (cases "c = NIL") simp_all
  then show ?thesis using block(1) assms(2) status_step [OF block(3)] set_status_some [OF block(3)]
    by (auto simp: nil_ok_def)
next
  case (ret c s1)
  have "status_of s NIL = STATUS_STARTING" using assms(2) by (simp add: nil_ok_def)
  then have "c \<noteq> NIL" using set_status_some [OF ret(3)] by (cases "c = NIL") simp_all
  then show ?thesis using ret(1) assms(2) status_step [OF ret(3)] set_status_some [OF ret(3)]
    by (auto simp: nil_ok_def)
next
  case (look c)
  have "status_of s NIL = STATUS_STARTING" using assms(2) by (simp add: nil_ok_def)
  then have "status_of s c = STATUS_READY \<Longrightarrow> c \<noteq> NIL" by (cases "c = NIL") simp_all
  then show ?thesis using look assms(2) by (auto simp: nil_ok_def)
next
  case requeue
  then show ?thesis using assms(2) requeue_set [of rt "again s" s] by (auto simp: nil_ok_def)
qed (use assms(2) in \<open>auto simp: nil_ok_def\<close>)

lemma way_simps:
  "on_its_way lp rt s d \<Longrightarrow> tpc s' = (tpc s)(t := p) \<Longrightarrow> set (rq (rts s rt)) \<subseteq> set (rq (rts s' rt)) \<Longrightarrow>
     set (again s) \<subseteq> set (again s') \<Longrightarrow>
     (\<And>k. tpc s t = T_Join k d \<Longrightarrow> d \<in> set (rq (rts s' rt))) \<Longrightarrow>
     (t = lp \<Longrightarrow> tpc s t = L_Resume d \<or> tpc s t = L_Back d \<Longrightarrow> p = L_Back d \<or> d \<in> set (again s')) \<Longrightarrow>
     on_its_way lp rt s' d"
  unfolding on_its_way_def by (metis fun_upd_other fun_upd_same subsetD)

text \<open>A step that leaves the queues alone and moves a thread that is at none of the places in question.\<close>

lemma way_moved:
  assumes "on_its_way lp rt s d" "tpc s' = (tpc s)(t := p)" "rts s' = rts s" "again s' = again s"
    and "\<And>k. tpc s t \<noteq> T_Join k d" "tpc s t \<noteq> L_Resume d" "tpc s t \<noteq> L_Back d"
  shows "on_its_way lp rt s' d"
  by (rule way_simps [OF assms(1,2)]) (use assms(3-) in auto)

lemma ready_ok_step:
  assumes "rt_step early lp rt s s'" "ready_ok lp rt s" "nil_ok lp rt s"
  shows "ready_ok lp rt s'"
  unfolding ready_ok_def
proof (intro allI impI)
  fix d
  assume d: "status_of s' d = STATUS_READY"
  have way: "status_of s d = STATUS_READY \<Longrightarrow> on_its_way lp rt s d" using assms(2) by (simp add: ready_ok_def)
  from assms(1) show "on_its_way lp rt s' d"
  proof (cases rule: rt_step.cases)
    case (hand k t e)
    show ?thesis
      by (rule way_moved [of lp rt s d _ t]) (use hand(1) d way may_join_pc [OF hand(2)] in auto)
  next
    case (wake k t e s1)
    show ?thesis
    proof (cases "d = e")
      case True
      then show ?thesis using wake(1) by (auto simp: on_its_way_def)
    next
      case False
      then have "status_of s d = STATUS_READY" using d wake(1) set_status_some [OF wake(5)] by (auto split: if_splits)
      from way [OF this] show ?thesis
        by (rule way_moved [of lp rt s d _ t]) (use wake(1) may_join_pc [OF wake(2)] status_step [OF wake(5)] in auto)
    qed
  next
    case (join t k e s1 b)
    have j: "b \<and> e \<notin> set (rq (rts s rt)) \<and> s1 = set_rq rt (rq (rts s rt) @ [e]) s \<or> \<not> b \<and> e \<in> set (rq (rts s rt)) \<and> s1 = s"
      using join_locked_cases [OF join(4)] assms(3) by (simp add: nil_ok_def)
    then have "status_of s d = STATUS_READY" using d join(1) by auto
    from way [OF this] show ?thesis
      by (rule way_simps [where t = t and p = "if b then T_Sending k Send_Test else T_Unlock k"])
        (use j join(1,2) in auto)
  next
    case (send t k p s1 q)
    then show ?thesis using d way send_step_fields [OF send(3)] by (auto intro: way_moved)
  next
    case (unlock t k)
    then show ?thesis using d way by (auto intro: way_moved)
  next
    case other_write
    then show ?thesis using d way by (simp add: on_its_way_def)
  next
    case (pop s1 c)
    then have p: "c = NIL \<and> s1 = s \<and> rq (rts s rt) = [] \<or>
        c \<noteq> NIL \<and> s1 = set_rq rt (tl (rq (rts s rt))) s \<and> rq (rts s rt) = c # tl (rq (rts s rt))"
      using pop_step assms(3) by (auto simp: nil_ok_def)
    show ?thesis
    proof (cases "c = NIL")
      case True
      then show ?thesis using d way p pop(1,2) by (auto intro: way_moved)
    next
      case False
      then have "status_of s d = STATUS_READY" using d p pop(1) by simp
      note w = way [OF this, unfolded on_its_way_def]
      have j: "tpc s' t = T_Join k d" if "tpc s t = T_Join k d" for t k
        using that False pop(1,2) p by auto
      have f: "set (rq (rts s rt)) = insert c (set (rq (rts s' rt)))" "again s' = again s" "tpc s' lp = L_Resume c"
        using False p pop(1) by (cases "rq (rts s rt)"; simp)+
      show ?thesis unfolding on_its_way_def using w j f pop(2) by auto
    qed
  next
    case (resume c s1)
    then show ?thesis using d way resume_step [OF resume(4)] by (auto intro: way_moved split: if_splits)
  next
    case (resume_dead c)
    then show ?thesis using d way by (auto intro: way_moved)
  next
    case (yield c)
    then show ?thesis using d way by (auto intro: way_moved)
  next
    case (block c s1)
    then show ?thesis using d way set_status_some [OF block(3)] by (auto intro: way_moved split: if_splits)
  next
    case (ret c s1)
    then show ?thesis using d way set_status_some [OF ret(3)] by (auto intro: way_moved split: if_splits)
  next
    case (switch c)
    show ?thesis
    proof (cases "d = c")
      case True
      then show ?thesis using switch(1) by (simp add: on_its_way_def)
    next
      case False
      then show ?thesis using d way switch by (auto intro: way_moved split: if_splits)
    qed
  next
    case (look c)
    then have "status_of s d = STATUS_READY" using d by (auto split: if_splits)
    note w = way [OF this, unfolded on_its_way_def]
    have "tpc s' t = T_Join k d" if "tpc s t = T_Join k d" for t k using that look(1,2) by auto
    then have f: "(\<exists>t k. tpc s' t = T_Join k d)" if "\<exists>t k. tpc s t = T_Join k d" using that by blast
    have "set (again s') = (if status_of s c = STATUS_READY then insert c (set (again s)) else set (again s))"
      "rts s' = rts s" using look(1) by auto
    then show ?thesis unfolding on_its_way_def using w f look(2) \<open>status_of s d = STATUS_READY\<close> by auto
  next
    case requeue
    then have "status_of s d = STATUS_READY" using d by simp
    note w = way [OF this, unfolded on_its_way_def]
    have "tpc s' t = T_Join k d" if "tpc s t = T_Join k d" for t k using that requeue(1,2) by auto
    then have f: "(\<exists>t k. tpc s' t = T_Join k d)" if "\<exists>t k. tpc s t = T_Join k d" using that by blast
    have "set (rq (rts s' rt)) = set (rq (rts s rt)) \<union> set (again s)"
      using requeue(1) requeue_set [of rt "again s" s] by simp
    then show ?thesis unfolding on_its_way_def using w f requeue(2) by auto
  qed (use d way in \<open>auto intro: way_moved\<close>)
qed

lemma lock_holder: "lock_ok s \<Longrightarrow> holding (tpc s t) \<Longrightarrow> mutex s = Some t"
  by (simp add: lock_ok_def)

lemma sender_of: "lock_ok s \<Longrightarrow> tpc s t = T_Sending k p \<Longrightarrow> mutex s = Some t \<and> sender s = Some p"
  using lock_holder [of s t] by (simp add: sender_def)

lemma sender_none: "mutex s = None \<Longrightarrow> sender s = None" by (simp add: sender_def)

lemma sender_unlock: "lock_ok s \<Longrightarrow> tpc s t = T_Unlock k \<Longrightarrow> mutex s = Some t \<and> sender s = None"
  using lock_holder [of s t] by (simp add: sender_def)

text \<open>A thread that does not hold the mutex moves.\<close>

lemma sender_same:
  assumes "lock_ok s" "\<not> holding (tpc s t)" "tpc s' = (tpc s)(t := p)" "mutex s' = mutex s"
  shows "sender s' = sender s"
proof -
  have "mutex s \<noteq> Some t" using assms(1,2) by (auto simp: lock_ok_def)
  then show ?thesis using assms(3,4) by (auto simp: sender_def split: option.splits)
qed

lemma send_ok_moved:
  assumes "send_ok lp rt s" "sender s' = sender s" "rts s' = rts s" "asyncs s' = asyncs s" "ev s' = ev s"
    and "tpc s' lp = tpc s lp \<or> tpc s lp \<notin> {L_Spin, L_Cas} \<and> (in_pass (tpc s lp) \<longrightarrow> in_pass (tpc s' lp))"
  shows "send_ok lp rt s'"
  using assms by (auto simp: send_ok_def)

text \<open>The threads other than that of the event loop.\<close>

fun beside :: "thread_pc \<Rightarrow> bool" where
  "beside T_Out = True"
| "beside (T_Join k d) \<longleftrightarrow> k = To_Out"
| "beside (T_Sending k p) \<longleftrightarrow> k = To_Out"
| "beside (T_Unlock k) \<longleftrightarrow> k = To_Out"
| "beside _ = False"

definition thr_ok :: "nat \<Rightarrow> rt_sys \<Rightarrow> bool" where
  "thr_ok lp s \<longleftrightarrow> (\<forall>t. t \<noteq> lp \<longrightarrow> beside (tpc s t))"

lemma beside_home [simp]: "beside (back_home k) \<longleftrightarrow> k = To_Out" by (cases k) auto

lemma thr_ok_step:
  assumes "rt_step early lp rt s s'" "thr_ok lp s" "nil_ok lp rt s"
  shows "thr_ok lp s'"
  using assms(1)
proof (cases rule: rt_step.cases)
  case (hand k t d)
  then show ?thesis using assms(2) may_join_pc [OF hand(2)] by (auto simp: thr_ok_def)
next
  case (wake k t d s1)
  then show ?thesis using assms(2) may_join_pc [OF wake(2)] status_step [OF wake(5)] by (auto simp: thr_ok_def)
next
  case (join t k d s1 b)
  have "t = lp \<or> k = To_Out" using assms(2) join(2) by (auto simp: thr_ok_def)
  then show ?thesis using assms join join_locked_cases [OF join(4)] by (auto simp: thr_ok_def nil_ok_def)
next
  case (send t k p s1 q)
  have "t = lp \<or> k = To_Out" using assms(2) send(2) by (auto simp: thr_ok_def)
  then show ?thesis using assms(2) send(1) send_step_fields [OF send(3)]
    by (auto simp: thr_ok_def split: option.splits)
next
  case (unlock t k)
  have "t = lp \<or> k = To_Out" using assms(2) unlock(2) by (auto simp: thr_ok_def)
  then show ?thesis using assms(2) unlock(1) by (auto simp: thr_ok_def)
next
  case (pop s1 c)
  then show ?thesis using assms pop_step [OF pop(4)] by (auto simp: thr_ok_def nil_ok_def)
next
  case (resume c s1)
  then show ?thesis using assms(2) resume_step [OF resume(4)] by (auto simp: thr_ok_def)
next
  case (block c s1)
  then show ?thesis using assms(2) status_step [OF block(3)] by (auto simp: thr_ok_def)
next
  case (ret c s1)
  then show ?thesis using assms(2) status_step [OF ret(3)] by (auto simp: thr_ok_def)
qed (use assms(2) in \<open>auto simp: thr_ok_def\<close>)

lemma send_ok_step:
  assumes "rt_step early lp rt s s'" "lock_ok s" "nil_ok lp rt s" "send_ok lp rt s"
  shows "send_ok lp rt s'"
  using assms(1)
proof (cases rule: rt_step.cases)
  case (hand k t e)
  show ?thesis
  proof (rule send_ok_moved [OF assms(4)])
    show "sender s' = sender s"
      by (rule sender_same [OF assms(2), of t]) (use hand(1) may_join_pc [OF hand(2)] in auto)
  qed (use hand(1) may_join_pc [OF hand(2)] in auto)
next
  case (wake k t e s1)
  note f = status_step [OF wake(5)]
  show ?thesis
  proof (rule send_ok_moved [OF assms(4)])
    show "sender s' = sender s"
      by (rule sender_same [OF assms(2), of t]) (use wake(1) f may_join_pc [OF wake(2)] in auto)
  qed (use wake(1) f may_join_pc [OF wake(2)] in auto)
next
  case (join t k e s1 b)
  have m: "mallocs s = []" using assms(3) by (simp add: nil_ok_def)
  have "sender s' = (if b then Some Send_Test else None)" using join(1) by (simp add: sender_def)
  then show ?thesis using assms(4) join join_locked_cases [OF join(4) m] sender_none [of s]
    by (auto simp: send_ok_def)
next
  case (send t k p s1 q)
  note f = send_step_fields [OF send(3)] and h = sender_of [OF assms(2) send(2)]
  have "sender s' = q" using send(1) f h by (auto simp: sender_def split: option.splits)
  then show ?thesis using assms(4) send f h 
    by (cases p) (auto simp: send_ok_def liteco_eloop_async_send_def split: if_splits)
next
  case (unlock t k)
  note h = sender_unlock [OF assms(2) unlock(2)]
  have "sender s' = None" using unlock(1) by (simp add: sender_def)
  then show ?thesis using assms(4) unlock h by (auto simp: send_ok_def)
next
  case other_write
  then have "sender s' = sender s" by (auto simp: sender_def split: option.splits)
  then show ?thesis using assms(4) other_write by (auto simp: send_ok_def)
next
  case read_ev
  have "sender s' = sender s" by (rule sender_same [OF assms(2), of lp]) (use read_ev in auto)
  then show ?thesis using assms(4) read_ev by (auto simp: send_ok_def)
next
  case spin
  have "sender s' = sender s" by (rule sender_same [OF assms(2), of lp]) (use spin in auto)
  then show ?thesis using assms(4) spin by (auto simp: send_ok_def)
next
  case call
  have "sender s' = sender s" by (rule sender_same [OF assms(2), of lp]) (use call in auto)
  then show ?thesis using assms(4) call by (auto simp: send_ok_def)
next
  case skip
  have "sender s' = sender s" by (rule sender_same [OF assms(2), of lp]) (use skip in auto)
  then show ?thesis using assms(4) skip by (auto simp: send_ok_def)
next
  case (pop s1 c)
  have p: "c = NIL \<and> s1 = s \<and> rq (rts s rt) = [] \<or>
      c \<noteq> NIL \<and> s1 = set_rq rt (tl (rq (rts s rt))) s \<and> rq (rts s rt) = c # tl (rq (rts s rt))"
    using pop_step [OF pop(4)] assms(3) by (auto simp: nil_ok_def)
  have "sender s' = sender s"
    by (rule sender_same [OF assms(2), where t = lp and p = "if c = NIL then L_Requeue else L_Resume c"]) (use pop p in auto)
  then show ?thesis using assms(4) pop p by (auto simp: send_ok_def)
next
  case requeue
  have "sender s' = Some Send_Test" using requeue(1) by (simp add: sender_def)
  then show ?thesis using assms(4) requeue sender_none [of s] by (auto simp: send_ok_def)
next
  case (resume c s1)
  note f = resume_step [OF resume(4)]
  show ?thesis
    by (rule send_ok_moved [OF assms(4) sender_same [OF assms(2), of lp]]) (use resume f in auto)
next
  case (block c s1)
  note f = status_step [OF block(3)]
  show ?thesis
    by (rule send_ok_moved [OF assms(4) sender_same [OF assms(2), of lp]]) (use block f in auto)
next
  case (ret c s1)
  note f = status_step [OF ret(3)]
  show ?thesis
    by (rule send_ok_moved [OF assms(4) sender_same [OF assms(2), of lp]]) (use ret f in auto)
next
  case (resume_dead c)
  show ?thesis
    by (rule send_ok_moved [OF assms(4) sender_same [OF assms(2), of lp]]) (use resume_dead in auto)
next
  case (yield c)
  show ?thesis
    by (rule send_ok_moved [OF assms(4) sender_same [OF assms(2), of lp]]) (use yield in auto)
next
  case (switch c)
  show ?thesis
    by (rule send_ok_moved [OF assms(4) sender_same [OF assms(2), of lp]]) (use switch in auto)
next
  case (look c)
  show ?thesis
    by (rule send_ok_moved [OF assms(4) sender_same [OF assms(2), of lp]]) (use look in auto)
qed

definition rt_inv :: "nat \<Rightarrow> addr \<Rightarrow> rt_sys \<Rightarrow> bool" where
  "rt_inv lp rt s \<longleftrightarrow> lock_ok s \<and> thr_ok lp s \<and> nil_ok lp rt s \<and> ready_ok lp rt s \<and> send_ok lp rt s"

lemma rt_reach_inv: "rt_reach early lp rt s \<Longrightarrow> rt_inv lp rt s"
proof (induction rule: rt_reach.induct)
  case (start s)
  then show ?case using rt_start_inv [OF start] by (simp add: rt_inv_def thr_ok_def rt_start_def)
next
  case (step s s')
  note R = step(2)
  show ?case using step.IH unfolding rt_inv_def
    by (auto intro: lock_ok_step [OF R] thr_ok_step [OF R] nil_ok_step [OF R] ready_ok_step [OF R] send_ok_step [OF R])
qed

end
