(* ===== verification/Runtime_Progress.thy ===== *)
theory Runtime_Progress
  imports Runtime_Invariants
begin

text \<open>
  What can happen next to a coroutine that is ready: sequences of steps, the invariant that each
  coroutine is at one place, which holds as long as no wake-up comes early, and the properties.
\<close>

section \<open>Sequences of steps\<close>

lemma rt_steps_trans: "rt_steps early lp rt s u \<Longrightarrow> rt_steps early lp rt u v \<Longrightarrow> rt_steps early lp rt s v"
  by (induction rule: rt_steps.induct) (auto intro: rt_steps.step)

lemma rt_steps_one: "rt_step early lp rt s u \<Longrightarrow> rt_steps early lp rt s u"
  by (auto intro: rt_steps.intros)

lemma rt_steps_reach: "rt_steps early lp rt s u \<Longrightarrow> rt_reach early lp rt s \<Longrightarrow> rt_reach early lp rt u"
  by (induction rule: rt_steps.induct) (auto intro: rt_reach.step)

lemma rt_inv_step: "rt_step early lp rt s s' \<Longrightarrow> rt_inv lp rt s \<Longrightarrow> rt_inv lp rt s'"
  unfolding rt_inv_def
  by (auto intro: lock_ok_step thr_ok_step nil_ok_step ready_ok_step send_ok_step)

lemma rt_inv_steps: "rt_steps early lp rt s s' \<Longrightarrow> rt_inv lp rt s \<Longrightarrow> rt_inv lp rt s'"
  by (induction rule: rt_steps.induct) (auto intro: rt_inv_step)

definition same_co :: "rt_sys \<Rightarrow> rt_sys \<Rightarrow> bool" where
  "same_co s s' \<longleftrightarrow> cos s' = cos s \<and> rts s' = rts s \<and> again s' = again s \<and> handed s' = handed s"

text \<open>The holder of the mutex sends and unlocks.\<close>

lemma unlock_run:
  assumes "tpc s t = T_Unlock k"
  shows "\<exists>s'. rt_steps early lp rt s s' \<and> same_co s s' \<and> tpc s' = (tpc s)(t := back_home k) \<and> mutex s' = None \<and> ev s' = ev s"
  by (intro exI conjI, rule rt_steps_one [OF rt_step.unlock [OF assms]]) (simp_all add: same_co_def)

lemma send_more:
  assumes "tpc s t = T_Sending k p" "send_step (rt_handler rt s) p s = Some (s1, q)"
    and "\<And>s2. same_co s s2 \<Longrightarrow> asyncs s2 = asyncs s1 \<Longrightarrow> ev s2 = ev s1 \<Longrightarrow> mutex s2 = mutex s \<Longrightarrow>
      tpc s2 = (tpc s)(t := (case q of None \<Rightarrow> T_Unlock k | Some p1 \<Rightarrow> T_Sending k p1)) \<Longrightarrow>
      \<exists>s'. rt_steps early lp rt s2 s' \<and> same_co s2 s' \<and> tpc s' = (tpc s2)(t := back_home k) \<and> mutex s' = None \<and> ev s' \<le> m"
  shows "\<exists>s'. rt_steps early lp rt s s' \<and> same_co s s' \<and> tpc s' = (tpc s)(t := back_home k) \<and> mutex s' = None \<and> ev s' \<le> m"
proof -
  let ?s2 = "go t (case q of None \<Rightarrow> T_Unlock k | Some p1 \<Rightarrow> T_Sending k p1) s1"
  note f = send_step_fields [OF assms(2)]
  obtain s' where "rt_steps early lp rt ?s2 s'" "same_co ?s2 s'" "tpc s' = (tpc ?s2)(t := back_home k)" "mutex s' = None" "ev s' \<le> m"
    using assms(3) [of ?s2] f by (auto simp: same_co_def)
  then show ?thesis
    using rt_step.send [OF assms(1,2), of early lp] f by (intro exI [of _ s']) (auto simp: same_co_def intro: rt_steps.step)
qed

lemma send_run:
  assumes "tpc s t = T_Sending k p" "ev s < eventfd_max"
  shows "\<exists>s'. rt_steps early lp rt s s' \<and> same_co s s' \<and> tpc s' = (tpc s)(t := back_home k) \<and> mutex s' = None \<and> ev s' \<le> ev s + 1"
proof -
  have un: "\<exists>s'. rt_steps early lp rt s s' \<and> same_co s s' \<and> tpc s' = (tpc s)(t := back_home k) \<and> mutex s' = None \<and> ev s' \<le> m"
    if "tpc s t = T_Unlock k" "ev s \<le> m" for s m
    using unlock_run [OF that(1)] that(2) by metis
  have fin: "\<exists>s'. rt_steps early lp rt s s' \<and> same_co s s' \<and> tpc s' = (tpc s)(t := back_home k) \<and> mutex s' = None \<and> ev s' \<le> m"
    if "tpc s t = T_Sending k Send_Done" "ev s \<le> m" for s m
  proof -
    have "send_step (rt_handler rt s) Send_Done s =
        Some (if rt_status rt s = ASYNC_WORKING then set_async (rt_handler rt s) ASYNC_DONE s else s, None)" by simp
    then show ?thesis by (rule send_more [OF that(1)]) (rule un; use that(2) in \<open>auto split: if_splits\<close>)
  qed
  have wr: "\<exists>s'. rt_steps early lp rt s s' \<and> same_co s s' \<and> tpc s' = (tpc s)(t := back_home k) \<and> mutex s' = None \<and> ev s' \<le> m"
    if "tpc s t = T_Sending k Send_Write" "ev s + 1 \<le> m" "ev s < eventfd_max" for s m
    by (rule send_more [OF that(1)], simp add: liteco_eloop_async_send_def that(3)) (rule fin; use that(2) in auto)
  have cas: "\<exists>s'. rt_steps early lp rt s s' \<and> same_co s s' \<and> tpc s' = (tpc s)(t := back_home k) \<and> mutex s' = None \<and> ev s' \<le> m"
    if "tpc s t = T_Sending k Send_Cas" "ev s + 1 \<le> m" "ev s < eventfd_max" for s m
    by (cases "rt_status rt s = ASYNC_NO_PADDING"; rule send_more [OF that(1)], simp)
      (rule wr un; use that(2,3) in auto)+
  have test: "\<exists>s'. rt_steps early lp rt s s' \<and> same_co s s' \<and> tpc s' = (tpc s)(t := back_home k) \<and> mutex s' = None \<and> ev s' \<le> m"
    if "tpc s t = T_Sending k Send_Test" "ev s + 1 \<le> m" "ev s < eventfd_max" for s m
    by (cases "rt_status rt s = ASYNC_NO_PADDING"; rule send_more [OF that(1)], simp)
      (rule cas un; use that(2,3) in auto)+
  show ?thesis using assms test [of s] cas [of s] wr [of s] fin [of s] by (cases p) auto
qed

text \<open>A thread joins a coroutine.\<close>

lemma join_run:
  assumes inv: "rt_inv lp rt s" and t: "tpc s t = T_Join k d" and m: "mutex s = None" and e: "ev s < eventfd_max"
  shows "\<exists>s'. rt_steps early lp rt s s' \<and> cos s' = cos s \<and> again s' = again s \<and> handed s' = handed s \<and>
    rq (rts s' rt) = (if d \<in> set (rq (rts s rt)) then rq (rts s rt) else rq (rts s rt) @ [d]) \<and>
    tpc s' = (tpc s)(t := back_home k) \<and> mutex s' = None \<and> ev s' \<le> ev s + 1"
proof (cases "d \<in> set (rq (rts s rt))")
  case True
  have j: "join_locked rt d s = (s, False)" using True by (simp add: join_locked_def)
  let ?s1 = "go t (T_Unlock k) (s\<lparr>mutex := Some t\<rparr>)"
  obtain s' where "rt_steps early lp rt ?s1 s'" "same_co ?s1 s'" "tpc s' = (tpc ?s1)(t := back_home k)"
      "mutex s' = None" "ev s' = ev ?s1"
    using unlock_run [of ?s1 t k early lp rt] by auto
  then show ?thesis using True rt_step.join [OF t m j, of early lp]
    by (intro exI [of _ s']) (auto simp: same_co_def intro: rt_steps.step)
next
  case False
  let ?q = "set_rq rt (rq (rts s rt) @ [d]) s"
  have j: "join_locked rt d s = (?q, True)" using False inv by (simp add: join_locked_def rt_inv_def nil_ok_def)
  let ?s1 = "go t (T_Sending k Send_Test) (?q\<lparr>mutex := Some t\<rparr>)"
  obtain s' where "rt_steps early lp rt ?s1 s'" "same_co ?s1 s'" "tpc s' = (tpc ?s1)(t := back_home k)"
      "mutex s' = None" "ev s' \<le> ev ?s1 + 1"
    using send_run [of ?s1 t k Send_Test early lp rt] e by auto
  then show ?thesis using False rt_step.join [OF t m j, of early lp]
    by (intro exI [of _ s']) (auto simp: same_co_def intro: rt_steps.step)
qed

text \<open>With coroutines queued the event loop reaches its callback.\<close>

lemma spin_run:
  assumes "rt_inv lp rt s" "tpc s lp = L_Spin" "mutex s = None" "rt_status rt s = ASYNC_DONE"
  shows "\<exists>s'. rt_steps early lp rt s s' \<and> same_co s s' \<and> tpc s' = (tpc s)(lp := L_Pop) \<and> mutex s' = None \<and> ev s' = ev s"
proof -
  have 1: "rt_step early lp rt s (go lp L_Cas s)" using assms by (intro rt_step.spin) simp_all
  let ?s2 = "go lp L_Pop (set_async (rt_handler rt (go lp L_Cas s)) ASYNC_NO_PADDING (go lp L_Cas s))"
  have "rt_step early lp rt (go lp L_Cas s) ?s2" using assms by (intro rt_step.call) simp_all
  then have "rt_steps early lp rt s ?s2" by (rule rt_steps.step [OF 1 rt_steps_one])
  then show ?thesis by (intro exI [of _ ?s2]) (use assms(3) in \<open>simp add: same_co_def\<close>)
qed

lemma enter_run:
  assumes inv: "rt_inv lp rt s" and lp: "tpc s lp = T_Out" and m: "mutex s = None" and q: "rq (rts s rt) \<noteq> []"
  shows "\<exists>s'. rt_steps early lp rt s s' \<and> same_co s s' \<and> tpc s' = (tpc s)(lp := L_Pop) \<and> mutex s' = None \<and> ev s' = 0"
proof -
  have so: "send_ok lp rt s" "sender s = None" using inv m by (simp_all add: rt_inv_def sender_none)
  then have d: "rt_status rt s = ASYNC_DONE" using q lp by (cases "rt_status rt s") (auto simp: send_ok_def)
  then have "0 < ev s" using so lp by (auto simp: send_ok_def)
  then have r: "rt_step early lp rt s (go lp L_Spin (s\<lparr>ev := 0\<rparr>))" using lp by (intro rt_step.read_ev)
  obtain s' where "rt_steps early lp rt (go lp L_Spin (s\<lparr>ev := 0\<rparr>)) s'" "same_co (go lp L_Spin (s\<lparr>ev := 0\<rparr>)) s'"
      "tpc s' = (tpc (go lp L_Spin (s\<lparr>ev := 0\<rparr>)))(lp := L_Pop)" "mutex s' = None" "ev s' = 0"
    using spin_run [OF rt_inv_step [OF r inv]] m d by auto
  then show ?thesis using rt_steps.step [OF r] by (intro exI [of _ s']) (auto simp: same_co_def)
qed

text \<open>The event loop takes the first coroutine, and lets it go into a waiter list.\<close>

lemma take_run:
  assumes "tpc s lp = L_Pop" "mutex s = None" "rq (rts s rt) = c # q" "c \<noteq> NIL" "status_of s c \<in> {STATUS_STARTING, STATUS_READY}"
  shows "\<exists>s'. rt_steps early lp rt s s' \<and> rq (rts s' rt) = q \<and> again s' = again s \<and> handed s' = handed s \<and>
    tpc s' = (tpc s)(lp := L_Run c) \<and> mutex s' = None \<and> ev s' = ev s \<and>
    (\<forall>d. status_of s' d = (if d = c then STATUS_RUNNING else status_of s d))"
proof -
  let ?s1 = "go lp (L_Resume c) (set_rq rt q s)"
  have 1: "rt_step early lp rt s ?s1"
    using rt_step.pop [OF assms(1,2), of rt "set_rq rt q s" c early] assms(3,4) by (simp add: liteco_runtime_pop_def)
  have st: "status_of ?s1 c = status_of s c" by simp
  then obtain s2 where s2: "resume_enter c ?s1 = Some s2"
    using assms(5) by (cases "status_of s c = STATUS_STARTING") (auto simp: resume_enter_def liteco_set_status_def)
  note f = resume_step [OF s2]
  have "rt_step early lp rt ?s1 (go lp (L_Run c) s2)"
    by (rule rt_step.resume [OF _ _ s2]) (use assms(5) st in auto)
  then have "rt_steps early lp rt s (go lp (L_Run c) s2)" by (rule rt_steps.step [OF 1 rt_steps_one])
  then show ?thesis by (intro exI [of _ "go lp (L_Run c) s2"]) (use f assms(2) in \<open>auto simp: fun_eq_iff\<close>)
qed

lemma look_run:
  assumes "tpc s lp = L_Switch c" "status_of s c \<noteq> STATUS_RUNNING"
  shows "\<exists>s'. rt_steps early lp rt s s' \<and> cos s' = cos s \<and> rts s' = rts s \<and> handed s' = handed s \<and>
    again s' = (if status_of s c = STATUS_READY then again s @ [c] else again s) \<and>
    tpc s' = (tpc s)(lp := L_Pop) \<and> mutex s' = mutex s \<and> ev s' = ev s"
proof -
  have 1: "rt_step early lp rt s (go lp (L_Back c) s)" using rt_step.switch [OF assms(1), of early rt] assms(2) by simp
  have "tpc (go lp (L_Back c) s) lp = L_Back c" by simp
  from rt_steps.step [OF 1 rt_steps_one [OF rt_step.look [OF this]]] show ?thesis by (intro exI conjI) (assumption, auto)
qed

lemma park_run:
  assumes "tpc s lp = L_Run c" "status_of s c = STATUS_RUNNING"
  shows "\<exists>s'. rt_steps early lp rt s s' \<and> rts s' = rts s \<and> again s' = again s \<and> handed s' = handed s \<and>
    tpc s' = (tpc s)(lp := L_Pop) \<and> mutex s' = mutex s \<and> ev s' = ev s \<and>
    (\<forall>d. status_of s' d = (if d = c then STATUS_WAITING else status_of s d))"
proof -
  let ?s1 = "go lp (L_Switch c) (put_status c STATUS_WAITING s)"
  have 1: "rt_step early lp rt s ?s1" by (rule rt_step.block [OF assms(1)]) (simp add: liteco_set_status_def assms(2))
  obtain s' where "rt_steps early lp rt ?s1 s'" "cos s' = cos ?s1" "rts s' = rts ?s1" "handed s' = handed ?s1"
    "again s' = again ?s1" "tpc s' = (tpc ?s1)(lp := L_Pop)" "mutex s' = mutex ?s1" "ev s' = ev ?s1"
    using look_run [of ?s1 lp c early rt] by auto
  then show ?thesis by (intro exI [of _ s']) (auto intro: rt_steps.step [OF 1])
qed

text \<open>The pass ends.\<close>

lemma end_run:
  assumes "rt_inv lp rt s" "tpc s lp = L_Requeue" "mutex s = None" "ev s < eventfd_max"
  shows "\<exists>s'. rt_steps early lp rt s s' \<and> cos s' = cos s \<and> again s' = [] \<and> handed s' = handed s \<and>
    set (rq (rts s' rt)) = set (rq (rts s rt)) \<union> set (again s) \<and> tpc s' = (tpc s)(lp := T_Out) \<and>
    mutex s' = None \<and> ev s' \<le> ev s + 1"
proof -
  let ?s1 = "go lp (T_Sending To_Out Send_Test) ((runtime_requeue rt (again s) s)\<lparr>again := [], mutex := Some lp\<rparr>)"
  have 1: "rt_step early lp rt s ?s1" using assms by (intro rt_step.requeue)
  obtain s' where "rt_steps early lp rt ?s1 s'" "same_co ?s1 s'" "tpc s' = (tpc ?s1)(lp := back_home To_Out)"
      "mutex s' = None" "ev s' \<le> ev ?s1 + 1"
    using send_run [of ?s1 lp To_Out Send_Test early lp rt] assms(4) by auto
  then show ?thesis using requeue_set [of rt "again s" s]
    by (intro exI [of _ s']) (auto simp: same_co_def intro: rt_steps.step [OF 1])
qed

lemma drained_run:
  assumes "tpc s lp = L_Pop" "mutex s = None" "rq (rts s rt) = []"
  shows "rt_step early lp rt s (go lp L_Requeue s)"
  using rt_step.pop [OF assms(1,2), of rt s NIL early] assms(3) by (simp add: liteco_runtime_pop_def)

section \<open>Without early wake-ups\<close>

text \<open>The coroutine that the thread of the event loop is at, and the coroutine a thread is about to
  join.\<close>

fun home_co :: "home \<Rightarrow> addr option" where
  "home_co To_Out = None"
| "home_co (To_Run c) = Some c"

fun runs :: "thread_pc \<Rightarrow> addr option" where
  "runs (L_Resume c) = Some c"
| "runs (L_Run c) = Some c"
| "runs (L_Switch c) = Some c"
| "runs (L_Back c) = Some c"
| "runs (T_Join k d) = home_co k"
| "runs (T_Sending k p) = home_co k"
| "runs (T_Unlock k) = home_co k"
| "runs _ = None"

fun joins :: "thread_pc \<Rightarrow> addr option" where
  "joins (T_Join k d) = Some d"
| "joins _ = None"

text \<open>The statuses that it can have there.\<close>

fun fits :: "thread_pc \<Rightarrow> liteco_status set" where
  "fits (L_Resume c) = {STATUS_STARTING, STATUS_READY}"
| "fits (L_Switch c) = {STATUS_RUNNING, STATUS_WAITING, STATUS_TERMINATE}"
| "fits (L_Back c) = {STATUS_READY, STATUS_WAITING, STATUS_TERMINATE}"
| "fits _ = {STATUS_RUNNING}"

lemma home_places [simp]: "runs (back_home k) = home_co k" "joins (back_home k) = None" "fits (back_home k) = {STATUS_RUNNING}"
  by (cases k; simp)+

text \<open>Every coroutine is at one place at most, and its status fits the place. \<open>q\<close> are the queued
  coroutines, \<open>J t\<close> is the one that thread \<open>t\<close> is about to join, \<open>r\<close> the one the event loop is at,
  \<open>F\<close> the statuses it can have there, \<open>H\<close> those that were started and \<open>st\<close> the statuses.\<close>

definition places :: "addr list \<Rightarrow> (nat \<Rightarrow> addr option) \<Rightarrow> addr option \<Rightarrow> liteco_status set \<Rightarrow> addr set \<Rightarrow>
    (addr \<Rightarrow> liteco_status) \<Rightarrow> bool" where
  "places q J r F H st \<longleftrightarrow> distinct q \<and>
     (\<forall>d\<in>set q. d \<in> H \<and> st d \<in> {STATUS_STARTING, STATUS_READY} \<and> r \<noteq> Some d \<and> (\<forall>t. J t \<noteq> Some d)) \<and>
     (\<forall>t d. J t = Some d \<longrightarrow> d \<in> H \<and> st d \<in> {STATUS_STARTING, STATUS_READY} \<and> r \<noteq> Some d \<and>
        (\<forall>u. J u = Some d \<longrightarrow> u = t)) \<and>
     (\<forall>c. r = Some c \<longrightarrow> c \<in> H \<and> st c \<in> F) \<and> (\<forall>d. st d \<noteq> STATUS_STARTING \<longrightarrow> d \<in> H)"

lemma places_hand:
  "places q J r F H st \<Longrightarrow> J t = None \<Longrightarrow> d \<notin> H \<Longrightarrow> st d = STATUS_STARTING \<Longrightarrow>
   places q (J(t := Some d)) r F (insert d H) st"
  unfolding places_def by auto

lemma placesD:
  "places q J r F H st \<Longrightarrow> d \<in> set q \<Longrightarrow>
     d \<in> H \<and> st d \<in> {STATUS_STARTING, STATUS_READY} \<and> r \<noteq> Some d \<and> (\<forall>t. J t \<noteq> Some d)"
  "places q J r F H st \<Longrightarrow> J t = Some d \<Longrightarrow>
     d \<in> H \<and> st d \<in> {STATUS_STARTING, STATUS_READY} \<and> r \<noteq> Some d \<and> (\<forall>u. J u = Some d \<longrightarrow> u = t)"
  "places q J r F H st \<Longrightarrow> st d \<noteq> STATUS_STARTING \<Longrightarrow> d \<in> H"
  unfolding places_def by blast+

lemma placesI:
  assumes "distinct q"
    and "\<And>d. d \<in> set q \<Longrightarrow> d \<in> H \<and> st d \<in> {STATUS_STARTING, STATUS_READY} \<and> r \<noteq> Some d \<and> (\<forall>t. J t \<noteq> Some d)"
    and "\<And>t d. J t = Some d \<Longrightarrow> d \<in> H \<and> st d \<in> {STATUS_STARTING, STATUS_READY} \<and> r \<noteq> Some d \<and>
        (\<forall>u. J u = Some d \<longrightarrow> u = t)"
    and "\<And>c. r = Some c \<Longrightarrow> c \<in> H \<and> st c \<in> F" and "\<And>d. st d \<noteq> STATUS_STARTING \<Longrightarrow> d \<in> H"
  shows "places q J r F H st"
  using assms unfolding places_def by blast

lemma places_wake:
  assumes p: "places q J r F H st" and J: "J t = None" and d: "st d = STATUS_WAITING" "r \<noteq> Some d"
  shows "places q (J(t := Some d)) r F H (st(d := STATUS_READY))"
proof -
  have n: "d \<notin> set q" "\<forall>u. J u \<noteq> Some d" "d \<in> H"
    using placesD(1) [OF p, of d] placesD(2) [OF p, of _ d] placesD(3) [OF p, of d] d(1) by auto
  show ?thesis
  proof (rule placesI)
    show "e \<in> H \<and> (st(d := STATUS_READY)) e \<in> {STATUS_STARTING, STATUS_READY} \<and> r \<noteq> Some e \<and>
        (\<forall>u. (J(t := Some d)) u = Some e \<longrightarrow> u = v)" if "(J(t := Some d)) v = Some e" for v e
    proof (cases "e = d")
      case True
      then show ?thesis using that n d(2) by (auto split: if_splits)
    next
      case False
      then have "J v = Some e" using that by (auto split: if_splits)
      then show ?thesis using p False unfolding places_def by auto
    qed
  qed (use p n d(2) in \<open>auto simp: places_def split: if_splits\<close>)
qed

lemma places_join:
  assumes "places (x @ y) J r F H st" "J t = Some d"
  shows "places ((x @ [d]) @ y) (J(t := None)) r F H st"
proof -
  have d: "d \<notin> set (x @ y)" using assms by (auto simp: places_def)
  have 1: "d \<in> H \<and> st d \<in> {STATUS_STARTING, STATUS_READY} \<and> r \<noteq> Some d \<and> (\<forall>u. J u = Some d \<longrightarrow> u = t)"
    using assms by (simp add: places_def)
  then show ?thesis using assms(1) d unfolding places_def by auto
qed

lemma places_pop: "places (c # q) J None F H st \<Longrightarrow> places q J (Some c) {STATUS_STARTING, STATUS_READY} H st"
  unfolding places_def by auto

lemma places_set:
  assumes "places q J (Some c) F H st" "v \<in> G" "v \<noteq> STATUS_STARTING"
  shows "places q J (Some c) G H (st(c := v))"
proof -
  have "c \<notin> set q" "\<And>u. J u \<noteq> Some c" "c \<in> H" using assms(1) by (auto simp: places_def)
  then show ?thesis using assms unfolding places_def by auto
qed

lemma places_fits: "places q J (Some c) F H st \<Longrightarrow> (st c \<in> F \<longrightarrow> st c \<in> G) \<Longrightarrow> places q J (Some c) G H st"
  unfolding places_def by auto

lemma places_drop: "places q J r F H st \<Longrightarrow> places q J None G H st"
  unfolding places_def by auto

lemma places_again: "places q J (Some c) F H st \<Longrightarrow> st c = STATUS_READY \<Longrightarrow> places (q @ [c]) J None G H st"
  unfolding places_def by auto

definition place_ok :: "nat \<Rightarrow> addr \<Rightarrow> rt_sys \<Rightarrow> bool" where
  "place_ok lp rt s \<longleftrightarrow> places (rq (rts s rt) @ again s) (\<lambda>t. joins (tpc s t)) (runs (tpc s lp)) (fits (tpc s lp))
     (handed s) (\<lambda>d. status_of s d)"

lemma joins_upd: "(\<lambda>u. joins ((f(t := p)) u)) = (\<lambda>u. joins (f u))(t := joins p)"
  by (simp add: fun_eq_iff)

lemma joins_id: "joins (f t) = joins p \<Longrightarrow> (\<lambda>u. joins ((f(t := p)) u)) = (\<lambda>u. joins (f u))"
  by (auto simp: fun_eq_iff)

lemma status_upd: "(\<lambda>d. if d = c then v else f d) = f(c := v)"
  by (simp add: fun_eq_iff)

text \<open>A step that changes none of them.\<close>

lemma place_moved:
  assumes "place_ok lp rt s" "cos s' = cos s" "rts s' = rts s" "again s' = again s" "handed s' = handed s"
    and "tpc s' = (tpc s)(t := p)" "joins p = joins (tpc s t)"
    and "t = lp \<Longrightarrow> runs p = runs (tpc s t) \<and> fits p = fits (tpc s t)"
  shows "place_ok lp rt s'"
  using assms(1) joins_id [of "tpc s" t p] assms(2-) by (cases "t = lp") (simp_all add: place_ok_def)

lemmas place_simps = place_ok_def joins_upd status_upd

lemma place_ok_step:
  assumes "rt_step False lp rt s s'" "place_ok lp rt s" "rt_inv lp rt s"
  shows "place_ok lp rt s'"
  using assms(1)
proof (cases rule: rt_step.cases)
  case (hand k t d)
  have h: "tpc s t = back_home k" by (rule may_join_pc [OF hand(2)])
  have r: "runs (tpc s' lp) = runs (tpc s lp)" "fits (tpc s' lp) = fits (tpc s lp)" using hand(1) h by auto
  show ?thesis
    using places_hand [of _ "\<lambda>t. joins (tpc s t)" _ _ _ _ t d] assms(2) hand h r
    by (simp add: place_simps del: fun_upd_apply)
next
  case (wake k t d s1)
  have h: "tpc s t = back_home k" by (rule may_join_pc [OF wake(2)])
  have w: "s1 = put_status d STATUS_READY s" using set_status_some [OF wake(5)] wake(3) by simp
  have l: "runs (tpc s lp) \<noteq> Some d"
  proof
    assume r: "runs (tpc s lp) = Some d"
    then have "status_of s d \<in> fits (tpc s lp)" using assms(2) by (simp add: place_ok_def places_def)
    then show False using r wake(3,4) by (cases "tpc s lp") auto
  qed
  have r: "runs (tpc s' lp) = runs (tpc s lp)" "fits (tpc s' lp) = fits (tpc s lp)" using wake(1) h w by auto
  show ?thesis
    using places_wake [of _ "\<lambda>t. joins (tpc s t)" _ _ _ _ t d] assms(2) wake(1,3) h w l r
    by (simp add: place_simps del: fun_upd_apply)
next
  case (join t k d s1 b)
  have j: "b \<and> d \<notin> set (rq (rts s rt)) \<and> s1 = set_rq rt (rq (rts s rt) @ [d]) s \<or> \<not> b \<and> d \<in> set (rq (rts s rt)) \<and> s1 = s"
    using join_locked_cases [OF join(4)] assms(3) by (simp add: rt_inv_def nil_ok_def)
  have d: "joins (tpc s t) = Some d" using join(2) by simp
  then have "d \<notin> set (rq (rts s rt))" using assms(2) by (auto simp: place_ok_def places_def)
  then have s1: "b" "s1 = set_rq rt (rq (rts s rt) @ [d]) s" using j by auto
  have "runs (tpc s' lp) = runs (tpc s lp)" "fits (tpc s' lp) = fits (tpc s lp)" using join(1,2) s1 by auto
  then show ?thesis
    using places_join [of _ _ "\<lambda>t. joins (tpc s t)" _ _ _ _ t d] assms(2) join(1) s1 d
    by (simp add: place_simps del: fun_upd_apply)
next
  case (send t k p s1 q)
  note f = send_step_fields [OF send(3)]
  show ?thesis
    by (rule place_moved [OF assms(2), where t = t and p = "case q of None \<Rightarrow> T_Unlock k | Some p1 \<Rightarrow> T_Sending k p1"])
      (use send(1,2) f in \<open>auto split: option.splits\<close>)
next
  case (unlock t k)
  show ?thesis by (rule place_moved [OF assms(2), where t = t and p = "back_home k"]) (use unlock in auto)
next
  case other_write
  then show ?thesis using assms(2) by (simp add: place_ok_def)
next
  case (pop s1 c)
  then have p: "c = NIL \<and> s1 = s \<and> rq (rts s rt) = [] \<or>
      c \<noteq> NIL \<and> s1 = set_rq rt (tl (rq (rts s rt))) s \<and> rq (rts s rt) = c # tl (rq (rts s rt))"
    using pop_step assms(3) by (auto simp: rt_inv_def nil_ok_def)
  show ?thesis
  proof (cases "c = NIL")
    case True
    then show ?thesis
      by (intro place_moved [OF assms(2), where t = lp and p = L_Requeue]) (use pop(1,2) p in auto)
  next
    case False
    then obtain q where q: "rq (rts s rt) = c # q" "s1 = set_rq rt q s" using p by (cases "rq (rts s rt)") auto
    have "joins (tpc s lp) = joins (L_Resume c)" using pop(2) by simp
    from joins_id [of "tpc s", OF this] show ?thesis
      using places_pop [of c "q @ again s"] assms(2) pop(1,2) q False by (simp add: place_ok_def)
  qed
next
  case (resume c s1)
  note f = resume_step [OF resume(4)]
  have st: "(\<lambda>d. status_of s1 d) = (\<lambda>d. status_of s d)(c := STATUS_RUNNING)" using f by (auto simp: fun_eq_iff)
  have "joins (tpc s lp) = joins (L_Run c)" using resume(2) by simp
  from joins_id [of "tpc s", OF this] show ?thesis
    using places_set [of _ _ c _ _ _ STATUS_RUNNING "{STATUS_RUNNING}"] assms(2) resume(1,2) f st by (simp add: place_ok_def)
next
  case (resume_dead c)
  then have False using assms(2) by (auto simp: place_ok_def places_def)
  then show ?thesis ..
next
  case (yield c)
  have "joins (tpc s lp) = joins (L_Switch c)" using yield(2) by simp
  from joins_id [of "tpc s", OF this] show ?thesis
    using places_fits [of _ _ c _ _ _ "fits (L_Switch c)"] assms(2) yield by (simp add: place_ok_def)
next
  case (block c s1)
  have f: "s1 = put_status c STATUS_WAITING s" using set_status_some [OF block(3)] by simp
  have "joins (tpc s lp) = joins (L_Switch c)" using block(2) by simp
  from joins_id [of "tpc s", OF this] show ?thesis
    using places_set [of _ _ c _ _ _ STATUS_WAITING "fits (L_Switch c)"] assms(2) block(1,2) f
    by (simp add: place_ok_def status_upd)
next
  case (ret c s1)
  have f: "s1 = put_status c STATUS_TERMINATE s" using set_status_some [OF ret(3)] by simp
  have "joins (tpc s lp) = joins (L_Switch c)" using ret(2) by simp
  from joins_id [of "tpc s", OF this] show ?thesis
    using places_set [of _ _ c _ _ _ STATUS_TERMINATE "fits (L_Switch c)"] assms(2) ret(1,2) f
    by (simp add: place_ok_def status_upd)
next
  case (switch c)
  have j: "joins (tpc s lp) = joins (L_Back c)" using switch(2) by simp
  show ?thesis
  proof (cases "status_of s c = STATUS_RUNNING")
    case True
    then show ?thesis
      using places_set [of _ _ c _ _ _ STATUS_READY "fits (L_Back c)"] joins_id [of "tpc s", OF j] assms(2) switch
      by (simp add: place_ok_def status_upd)
  next
    case False
    then show ?thesis
      using places_fits [of _ _ c "fits (L_Switch c)" _ _ "fits (L_Back c)"] joins_id [of "tpc s", OF j] assms(2) switch
      by (simp add: place_ok_def)
  qed
next
  case (look c)
  have j: "joins (tpc s lp) = joins L_Pop" using look(2) by simp
  show ?thesis
    using places_again [of "rq (rts s rt) @ again s" _ c _ _ _ "fits L_Pop"] places_drop [of _ _ "Some c" _ _ _ "fits L_Pop"]
      joins_id [of "tpc s", OF j] assms(2) look
    by (cases "status_of s c = STATUS_READY") (simp_all add: place_ok_def)
next
  case requeue
  have d: "distinct (rq (rts s rt) @ again s)" using assms(2) by (simp add: place_ok_def places_def)
  then have q: "rq (rts (runtime_requeue rt (again s) s) rt) = rq (rts s rt) @ again s"
    by (subst requeue_spec) (auto simp: filter_id_conv)
  have "joins (tpc s lp) = joins (T_Sending To_Out Send_Test)" using requeue(2) by simp
  from joins_id [of "tpc s", OF this] show ?thesis
    using assms(2) requeue(1,2) q by (simp add: place_ok_def)
next
  case read_ev
  show ?thesis by (rule place_moved [OF assms(2), where t = lp and p = L_Spin]) (use read_ev in auto)
next
  case spin
  show ?thesis by (rule place_moved [OF assms(2), where t = lp and p = L_Cas]) (use spin in auto)
next
  case call
  show ?thesis by (rule place_moved [OF assms(2), where t = lp and p = L_Pop]) (use call in auto)
next
  case skip
  show ?thesis by (rule place_moved [OF assms(2), where t = lp and p = T_Out]) (use skip in auto)
qed

lemma place_reach: "rt_reach False lp rt s \<Longrightarrow> place_ok lp rt s"
proof (induction rule: rt_reach.induct)
  case (start s)
  then show ?case by (simp add: rt_start_def place_ok_def places_def)
next
  case (step s s')
  then show ?case using place_ok_step rt_reach_inv by blast
qed

text \<open>The list of the pass is empty between two passes.\<close>

lemma again_pass: "rt_reach early lp rt s \<Longrightarrow> again s \<noteq> [] \<Longrightarrow> in_pass (tpc s lp)"
proof (induction rule: rt_reach.induct)
  case (start s)
  then show ?case by (simp add: rt_start_def)
next
  case (step s s')
  have inv: "nil_ok lp rt s" using rt_reach_inv [OF step(1)] by (simp add: rt_inv_def)
  from step(2) show ?case
  proof (cases rule: rt_step.cases)
    case (hand k t d)
    then show ?thesis using step may_join_pc [OF hand(2)] by (auto split: if_splits)
  next
    case (wake k t d s1)
    then show ?thesis using step may_join_pc [OF wake(2)] status_step [OF wake(5)] by (auto split: if_splits)
  next
    case (join t k d s1 b)
    have "again s1 = again s \<and> tpc s1 = tpc s" using join_locked_cases [OF join(4)] inv by (auto simp: nil_ok_def)
    then show ?thesis using step join by (auto split: if_splits)
  next
    case (send t k p s1 q)
    then show ?thesis using step send_step_fields [OF send(3)] by (auto split: if_splits option.splits)
  next
    case (pop s1 c)
    then show ?thesis using step by auto
  next
    case (resume c s1)
    then show ?thesis by simp
  next
    case (block c s1)
    then show ?thesis by simp
  next
    case (ret c s1)
    then show ?thesis by simp
  qed (use step in \<open>auto split: if_splits\<close>)
qed

lemma again_out: "rt_reach early lp rt s \<Longrightarrow> \<not> in_pass (tpc s lp) \<Longrightarrow> again s = []"
  using again_pass by blast

definition gets_run :: "nat \<Rightarrow> addr \<Rightarrow> addr \<Rightarrow> rt_sys \<Rightarrow> bool" where
  "gets_run lp rt d s \<longleftrightarrow> (\<exists>s'. rt_steps False lp rt s s' \<and> tpc s' lp = L_Run d)"

lemma gets_now: "tpc s lp = L_Run d \<Longrightarrow> gets_run lp rt d s"
  unfolding gets_run_def by (blast intro: rt_steps.refl)

lemma gets_later: "rt_steps False lp rt s u \<Longrightarrow> gets_run lp rt d u \<Longrightarrow> gets_run lp rt d s"
  unfolding gets_run_def by (blast intro: rt_steps_trans)

text \<open>One coroutine of the queue has its turn; we let it wait afterwards.\<close>

lemma turn_run:
  assumes r: "rt_reach False lp rt s" and l: "tpc s lp = L_Pop" "mutex s = None" and q: "rq (rts s rt) = c # q"
  shows "gets_run lp rt c s \<and> (\<exists>s'. rt_steps False lp rt s s' \<and> rt_reach False lp rt s' \<and> rq (rts s' rt) = q \<and>
    again s' = again s \<and> tpc s' lp = L_Pop \<and> mutex s' = None \<and> ev s' = ev s)"
proof -
  have c: "c \<noteq> NIL" "status_of s c \<in> {STATUS_STARTING, STATUS_READY}"
    using rt_reach_inv [OF r] place_reach [OF r] q by (auto simp: rt_inv_def nil_ok_def place_ok_def places_def)
  obtain u where u: "rt_steps False lp rt s u" "rq (rts u rt) = q" "again u = again s" "tpc u = (tpc s)(lp := L_Run c)"
      "mutex u = None" "ev u = ev s" "status_of u c = STATUS_RUNNING"
    using take_run [OF l q c, of False] by auto
  have ul: "tpc u lp = L_Run c" using u(4) by simp
  obtain v where v: "rt_steps False lp rt u v" "rts v = rts u" "again v = again u" "tpc v = (tpc u)(lp := L_Pop)"
      "mutex v = mutex u" "ev v = ev u"
    using park_run [OF ul u(7), of False rt] by auto
  have s: "rt_steps False lp rt s v" using u(1) v(1) by (rule rt_steps_trans)
  have "gets_run lp rt c s" using gets_later [OF u(1) gets_now [OF ul]] .
  then show ?thesis using s rt_steps_reach [OF s r] u v by (intro conjI exI [of _ v]) auto
qed

lemma queued_runs:
  assumes "rt_reach False lp rt s" "tpc s lp = L_Pop" "mutex s = None" "d \<in> set (rq (rts s rt))"
  shows "gets_run lp rt d s"
  using assms
proof (induction "rq (rts s rt)" arbitrary: s)
  case (Cons c q)
  have q: "rq (rts s rt) = c # q" using Cons(2) by simp
  note T = turn_run [OF Cons.prems(1-3) q]
  show ?case
  proof (cases "d = c")
    case False
    from T obtain s' where s': "rt_steps False lp rt s s'" "rt_reach False lp rt s'" "rq (rts s' rt) = q"
      "tpc s' lp = L_Pop" "mutex s' = None" by auto
    then show ?thesis using Cons.hyps(1) [of s'] Cons.prems(4) q False gets_later by auto
  qed (use T in simp)
qed simp

lemma out_runs:
  assumes r: "rt_reach False lp rt s" and l: "tpc s lp = T_Out" "mutex s = None" and d: "d \<in> set (rq (rts s rt))"
  shows "gets_run lp rt d s"
proof -
  have "rq (rts s rt) \<noteq> []" using d by auto
  from enter_run [OF rt_reach_inv [OF r] l this, of False] obtain u where
    u: "rt_steps False lp rt s u" "same_co s u" "tpc u = (tpc s)(lp := L_Pop)" "mutex u = None" by auto
  show ?thesis
    by (rule gets_later [OF u(1) queued_runs [OF rt_steps_reach [OF u(1) r]]]) (use u d in \<open>simp_all add: same_co_def\<close>)
qed

lemma requeue_runs:
  assumes r: "rt_reach False lp rt s" and l: "tpc s lp = L_Requeue" "mutex s = None" and e: "ev s < eventfd_max"
    and d: "d \<in> set (rq (rts s rt) @ again s)"
  shows "gets_run lp rt d s"
proof -
  obtain u where u: "rt_steps False lp rt s u" "set (rq (rts u rt)) = set (rq (rts s rt)) \<union> set (again s)"
      "tpc u = (tpc s)(lp := T_Out)" "mutex u = None"
    using end_run [OF rt_reach_inv [OF r] l e, of False] by auto
  show ?thesis
    by (rule gets_later [OF u(1) out_runs [OF rt_steps_reach [OF u(1) r]]]) (use u d in simp_all)
qed

lemma pop_runs:
  assumes "rt_reach False lp rt s" "tpc s lp = L_Pop" "mutex s = None" "ev s < eventfd_max"
    and "d \<in> set (rq (rts s rt) @ again s)"
  shows "gets_run lp rt d s"
  using assms
proof (induction "rq (rts s rt)" arbitrary: s)
  case Nil
  have n: "rt_step False lp rt s (go lp L_Requeue s)" by (rule drained_run) (use Nil in simp_all)
  show ?case
    by (rule gets_later [OF rt_steps_one [OF n] requeue_runs [OF rt_reach.step [OF Nil(2) n]]]) (use Nil in simp_all)
next
  case (Cons c q)
  have q: "rq (rts s rt) = c # q" using Cons(2) by simp
  note T = turn_run [OF Cons.prems(1-3) q]
  show ?case
  proof (cases "d = c")
    case False
    from T obtain s' where s': "rt_steps False lp rt s s'" "rt_reach False lp rt s'" "rq (rts s' rt) = q"
      "again s' = again s" "tpc s' lp = L_Pop" "mutex s' = None" "ev s' = ev s" by auto
    then show ?thesis using Cons.hyps(1) [of s'] Cons.prems(4,5) q False gets_later by auto
  qed (use T in simp)
qed

text \<open>From every place the event loop comes to the next pop.\<close>

definition near :: "nat \<Rightarrow> addr \<Rightarrow> addr \<Rightarrow> rt_sys \<Rightarrow> bool" where
  "near lp rt d s \<longleftrightarrow> d \<in> set (rq (rts s rt) @ again s) \<or> tpc s lp = L_Resume d \<or> tpc s lp = L_Back d \<and> status_of s d = STATUS_READY"

lemma run_runs:
  assumes r: "rt_reach False lp rt s" and l: "tpc s lp = L_Run c" "mutex s = None" and e: "ev s < eventfd_max"
    and d: "near lp rt d s"
  shows "gets_run lp rt d s"
proof -
  have "status_of s c = STATUS_RUNNING" using place_reach [OF r] l(1) by (simp add: place_ok_def places_def)
  from park_run [OF l(1) this, of False rt] obtain u where
    u: "rt_steps False lp rt s u" "rts u = rts s" "again u = again s" "tpc u = (tpc s)(lp := L_Pop)" "mutex u = mutex s" "ev u = ev s"
    by auto
  show ?thesis
    by (rule gets_later [OF u(1) pop_runs [OF rt_steps_reach [OF u(1) r]]]) (use u l e d in \<open>auto simp: near_def\<close>)
qed

lemma back_runs:
  assumes r: "rt_reach False lp rt s" and l: "tpc s lp = L_Back c" "mutex s = None" and e: "ev s < eventfd_max"
    and d: "near lp rt d s"
  shows "gets_run lp rt d s"
proof -
  let ?u = "go lp L_Pop (if status_of s c = STATUS_READY then s\<lparr>again := again s @ [c]\<rparr> else s)"
  have n: "rt_step False lp rt s ?u" by (rule rt_step.look [OF l(1)])
  show ?thesis
    by (rule gets_later [OF rt_steps_one [OF n] pop_runs [OF rt_reach.step [OF r n]]])
      (use l e d in \<open>auto simp: near_def\<close>)
qed

lemma home_runs:
  assumes r: "rt_reach False lp rt s" and l: "tpc s lp = back_home k" "mutex s = None" and e: "ev s < eventfd_max"
    and d: "d \<in> set (rq (rts s rt) @ again s)"
  shows "gets_run lp rt d s"
proof (cases k)
  case To_Out
  then have "again s = []" using again_pass [OF r] l(1) by auto
  then show ?thesis using out_runs [OF r _ l(2)] To_Out l(1) d by simp
next
  case (To_Run c)
  then show ?thesis using run_runs [OF r _ l(2) e] l(1) d by (simp add: near_def)
qed

lemma free_runs:
  assumes r: "rt_reach False lp rt s" and m: "mutex s = None" and e: "ev s + 1 < eventfd_max" and d: "near lp rt d s"
  shows "gets_run lp rt d s"
proof -
  note inv = rt_reach_inv [OF r] and pl = place_reach [OF r]
  have e': "ev s < eventfd_max" using e by simp
  have q: "d \<in> set (rq (rts s rt) @ again s)" if "\<And>c. tpc s lp \<noteq> L_Resume c" "\<And>c. tpc s lp \<noteq> L_Back c"
    using d that by (auto simp: near_def)
  have idle: "rt_status rt s = ASYNC_DONE" if "tpc s lp = L_Spin \<or> tpc s lp = L_Cas"
  proof -
    have "again s = []" using again_out [OF r] that by auto
    then have "rq (rts s rt) \<noteq> []" using q that by auto
    then show ?thesis using inv that sender_none [OF m]
      by (cases "rt_status rt s") (auto simp: rt_inv_def send_ok_def)
  qed
  show ?thesis
  proof (cases "tpc s lp")
    case T_Out
    then show ?thesis using home_runs [OF r, of To_Out] m e' q by simp
  next
    case (T_Join k c)
    obtain u where u: "rt_steps False lp rt s u" "again u = again s"
        "rq (rts u rt) = (if c \<in> set (rq (rts s rt)) then rq (rts s rt) else rq (rts s rt) @ [c])"
        "tpc u = (tpc s)(lp := back_home k)" "mutex u = None" "ev u \<le> ev s + 1"
      using join_run [OF inv T_Join m e', of False] by blast
    show ?thesis
      by (rule gets_later [OF u(1) home_runs [OF rt_steps_reach [OF u(1) r]]]) (use u e q T_Join in auto)
  next
    case (T_Sending k p)
    then show ?thesis using lock_holder [of s lp] inv m by (simp add: rt_inv_def)
  next
    case (T_Unlock k)
    then show ?thesis using lock_holder [of s lp] inv m by (simp add: rt_inv_def)
  next
    case L_Spin
    obtain u where u: "rt_steps False lp rt s u" "same_co s u" "tpc u = (tpc s)(lp := L_Pop)" "mutex u = None" "ev u = ev s"
      using spin_run [OF inv L_Spin m idle, of False] L_Spin by auto
    show ?thesis
      by (rule gets_later [OF u(1) pop_runs [OF rt_steps_reach [OF u(1) r]]]) (use u e q L_Spin in \<open>auto simp: same_co_def\<close>)
  next
    case L_Cas
    have n: "rt_step False lp rt s (go lp L_Pop (set_async (rt_handler rt s) ASYNC_NO_PADDING s))"
      by (rule rt_step.call [OF L_Cas]) (use idle L_Cas in simp)
    show ?thesis
      by (rule gets_later [OF rt_steps_one [OF n] pop_runs [OF rt_reach.step [OF r n]]]) (use m e q L_Cas in auto)
  next
    case L_Pop
    then show ?thesis using pop_runs [OF r _ m e'] q by simp
  next
    case (L_Resume c)
    have c: "status_of s c \<in> {STATUS_STARTING, STATUS_READY}" using pl L_Resume by (simp add: place_ok_def places_def)
    then obtain s1 where s1: "resume_enter c s = Some s1" by (auto simp: resume_enter_iff)
    have n: "rt_step False lp rt s (go lp (L_Run c) s1)" by (rule rt_step.resume [OF L_Resume _ s1]) (use c in auto)
    note f = resume_step [OF s1]
    show ?thesis
    proof (cases "d = c")
      case True
      then show ?thesis by (intro gets_later [OF rt_steps_one [OF n] gets_now]) simp
    next
      case False
      then show ?thesis
        by (intro gets_later [OF rt_steps_one [OF n] run_runs [OF rt_reach.step [OF r n], where c = c]])
          (use d f m e' L_Resume in \<open>auto simp: near_def\<close>)
    qed
  next
    case (L_Run c)
    then show ?thesis using run_runs [OF r _ m e' d] by simp
  next
    case (L_Switch c)
    let ?s1 = "if status_of s c = STATUS_RUNNING then put_status c STATUS_READY s else s"
    have n: "rt_step False lp rt s (go lp (L_Back c) ?s1)" by (rule rt_step.switch [OF L_Switch])
    show ?thesis
      by (rule gets_later [OF rt_steps_one [OF n] back_runs [OF rt_reach.step [OF r n], where c = c]])
        (use d m e' L_Switch in \<open>auto simp: near_def\<close>)
  next
    case (L_Back c)
    then show ?thesis using back_runs [OF r _ m e' d] by simp
  next
    case L_Requeue
    then show ?thesis using requeue_runs [OF r _ m e'] q by simp
  qed
qed

text \<open>The mutex is given back.\<close>

lemma release_run:
  assumes inv: "rt_inv lp rt s" and m: "mutex s = Some t" and e: "ev s < eventfd_max"
  shows "\<exists>k u. (tpc s t = T_Unlock k \<or> (\<exists>p. tpc s t = T_Sending k p)) \<and> rt_steps early lp rt s u \<and> same_co s u \<and>
    tpc u = (tpc s)(t := back_home k) \<and> mutex u = None \<and> ev u \<le> ev s + 1"
proof -
  have "lock_ok s" using inv by (simp add: rt_inv_def)
  then have "holding (tpc s t)" using m unfolding lock_ok_def by blast
  then consider k where "tpc s t = T_Unlock k" | k p where "tpc s t = T_Sending k p" by (cases "tpc s t") auto
  then show ?thesis
  proof cases
    case (1 k)
    then show ?thesis using unlock_run [OF 1, of early lp rt] by (intro exI [of _ k]) auto
  next
    case (2 k p)
    then show ?thesis using send_run [OF 2 e, of early lp rt] by (intro exI [of _ k]) auto
  qed
qed

lemma way_free_runs:
  assumes r: "rt_reach False lp rt s" and m: "mutex s = None" and e: "ev s + 2 < eventfd_max"
    and d: "on_its_way lp rt s d" "status_of s d = STATUS_READY"
  shows "gets_run lp rt d s"
proof (cases "\<exists>t k. tpc s t = T_Join k d")
  case True
  then obtain t k where t: "tpc s t = T_Join k d" by blast
  have "ev s < eventfd_max" using e by simp
  from join_run [OF rt_reach_inv [OF r] t m this, of False] obtain u where
    u: "rt_steps False lp rt s u" "d \<in> set (rq (rts u rt))" "mutex u = None" "ev u \<le> ev s + 1"
    by (auto split: if_splits)
  show ?thesis
    by (rule gets_later [OF u(1) free_runs [OF rt_steps_reach [OF u(1) r]]]) (use u e in \<open>auto simp: near_def\<close>)
next
  case False
  then show ?thesis using d e by (intro free_runs [OF r m]) (auto simp: near_def on_its_way_def)
qed

lemma way_runs:
  assumes r: "rt_reach False lp rt s" and e: "ev s + 3 < eventfd_max"
    and d: "on_its_way lp rt s d" "status_of s d = STATUS_READY"
  shows "gets_run lp rt d s"
proof (cases "mutex s")
  case None
  then show ?thesis using way_free_runs [OF r None] e d by simp
next
  case (Some t)
  have "ev s < eventfd_max" using e by simp
  from release_run [OF rt_reach_inv [OF r] Some this, of False] obtain k u where
    h: "tpc s t = T_Unlock k \<or> (\<exists>p. tpc s t = T_Sending k p)"
    and u: "rt_steps False lp rt s u" "same_co s u" "tpc u = (tpc s)(t := back_home k)" "mutex u = None" "ev u \<le> ev s + 1"
    by blast
  have "on_its_way lp rt u d"
    by (rule way_moved [OF d(1) u(3)]) (use u(2) h in \<open>auto simp: same_co_def\<close>)
  then show ?thesis
    by (intro gets_later [OF u(1) way_free_runs [OF rt_steps_reach [OF u(1) r] u(4)]])
      (use u(2,5) e d(2) in \<open>auto simp: same_co_def\<close>)
qed

section \<open>An early wake-up\<close>

text \<open>While \<open>liteco_resume\<close> spins on a waiting coroutine the event loop does not move; only another
  thread that wakes the coroutine can end that.\<close>

lemma spin_stuck:
  assumes "rt_step early lp rt s s'" "tpc s lp = L_Resume c" "status_of s c = STATUS_WAITING" "nil_ok lp rt s"
  shows "tpc s' lp = L_Resume c \<and> (status_of s' c = STATUS_WAITING \<or> (\<exists>t k. t \<noteq> lp \<and> tpc s' t = T_Join k c))"
  using assms(1)
proof (cases rule: rt_step.cases)
  case (hand k t d)
  then show ?thesis using assms(2,3) may_join_pc [OF hand(2)] by (auto split: if_splits)
next
  case (wake k t d s1)
  have t: "t \<noteq> lp" using may_join_pc [OF wake(2)] assms(2) by (cases k) auto
  have "tpc s' t = T_Join k d" using wake(1) by simp
  then show ?thesis using wake(1,3) t assms(2,3) set_status_some [OF wake(5)] by (cases "d = c") auto
next
  case (join t k d s1 b)
  then show ?thesis using assms join_locked_cases [OF join(4)] by (auto simp: nil_ok_def)
next
  case (send t k p s1 q)
  then show ?thesis using assms send_step_fields [OF send(3)] by auto
next
  case (resume d s1)
  then show ?thesis using assms(2,3) resume_step [OF resume(4)] by simp
qed (use assms(2,3) in auto)

text \<open>The first coroutine is started and has its turn.\<close>

lemma first_run:
  assumes s0: "rt_start rt s0" and c: "c \<noteq> NIL"
  shows "\<exists>s. rt_steps early lp rt s0 s \<and> rq (rts s rt) = [] \<and> again s = [] \<and> tpc s = (\<lambda>_. T_Out)(lp := L_Run c) \<and>
    mutex s = None \<and> ev s = 0 \<and> status_of s c = STATUS_RUNNING"
proof -
  let ?s1 = "go lp (T_Join To_Out c) (s0\<lparr>handed := insert c (handed s0)\<rparr>)"
  have 1: "rt_step early lp rt s0 ?s1" using s0 c by (intro rt_step.hand) (simp_all add: rt_start_def)
  have i0: "rt_inv lp rt s0" using rt_reach_inv [OF rt_reach.start [OF s0]] .
  have j: "tpc ?s1 lp = T_Join To_Out c" "mutex ?s1 = None" "ev ?s1 < eventfd_max"
    using s0 by (simp_all add: rt_start_def eventfd_max_def)
  obtain s2 where s2: "rt_steps early lp rt ?s1 s2" "cos s2 = cos s0" "again s2 = []" "rq (rts s2 rt) = [c]"
      "tpc s2 = (\<lambda>_. T_Out)" "mutex s2 = None"
    using join_run [OF rt_inv_step [OF 1 i0] j, of early] s0 by (auto simp: rt_start_def fun_eq_iff)
  have i2: "rt_inv lp rt s2" by (rule rt_inv_steps [OF s2(1) rt_inv_step [OF 1 i0]])
  obtain s3 where s3: "rt_steps early lp rt s2 s3" "same_co s2 s3" "tpc s3 = (\<lambda>_. T_Out)(lp := L_Pop)" "mutex s3 = None" "ev s3 = 0"
    using enter_run [OF i2, of early] s2 by auto
  have q3: "tpc s3 lp = L_Pop" "rq (rts s3 rt) = [c]" "status_of s3 c = STATUS_STARTING"
    using s2(2,4) s3(2,3) s0 by (simp_all add: same_co_def rt_start_def)
  obtain s4 where s4: "rt_steps early lp rt s3 s4" "rq (rts s4 rt) = []" "again s4 = []" "tpc s4 = (\<lambda>_. T_Out)(lp := L_Run c)"
      "mutex s4 = None" "ev s4 = 0" "status_of s4 c = STATUS_RUNNING"
    using take_run [OF q3(1) s3(4) q3(2) c, of early] q3(3) s3 s2(3) by (auto simp: same_co_def)
  have "rt_steps early lp rt s0 s4"
    by (rule rt_steps.step [OF 1 rt_steps_trans [OF s2(1) rt_steps_trans [OF s3(1) s4(1)]]])
  then show ?thesis using s4 by blast
qed

text \<open>It is in a waiter list but has not switched away.\<close>

lemma blocked_run:
  assumes s0: "rt_start rt s0" and c: "c \<noteq> NIL"
  shows "\<exists>s. rt_steps True lp rt s0 s \<and> rq (rts s rt) = [] \<and> again s = [] \<and> tpc s = (\<lambda>_. T_Out)(lp := L_Switch c) \<and>
    mutex s = None \<and> ev s = 0 \<and> status_of s c = STATUS_WAITING"
proof -
  obtain s4 where s4: "rt_steps True lp rt s0 s4" "rq (rts s4 rt) = []" "again s4 = []" "tpc s4 = (\<lambda>_. T_Out)(lp := L_Run c)"
      "mutex s4 = None" "ev s4 = 0" "status_of s4 c = STATUS_RUNNING"
    using first_run [OF s0 c] by blast
  let ?s5 = "go lp (L_Switch c) (put_status c STATUS_WAITING s4)"
  have "rt_step True lp rt s4 ?s5"
    by (rule rt_step.block) (use s4 in \<open>simp_all add: liteco_set_status_def\<close>)
  then have "rt_steps True lp rt s0 ?s5" using rt_steps_trans [OF s4(1) rt_steps_one] by blast
  then show ?thesis using s4 by (intro exI [of _ ?s5]) simp
qed

text \<open>If the other thread wakes it there, the coroutine is queued again when it goes to sleep for the
  second time.\<close>

lemma stale_run:
  assumes i: "rt_inv lp rt s" and s: "rq (rts s rt) = []" "again s = []" "tpc s = (\<lambda>_. T_Out)(lp := L_Switch c)"
      "mutex s = None" "ev s = 0" "status_of s c = STATUS_WAITING" and c: "c \<noteq> NIL" and x: "x \<noteq> lp"
  shows "\<exists>u. rt_steps True lp rt s u \<and> rq (rts u rt) \<noteq> [] \<and> set (rq (rts u rt)) = {c} \<and> tpc u = (\<lambda>_. T_Out) \<and> mutex u = None \<and>
    status_of u c = STATUS_WAITING"
proof -
  let ?s1 = "go x (T_Join To_Out c) (put_status c STATUS_READY s)"
  have 1: "rt_step True lp rt s ?s1" using s x by (intro rt_step.wake) (simp_all add: liteco_set_status_def)
  have j: "tpc ?s1 x = T_Join To_Out c" "mutex ?s1 = None" "ev ?s1 < eventfd_max"
    using s by (simp_all add: eventfd_max_def)
  obtain s2 where s2: "rt_steps True lp rt ?s1 s2" "cos s2 = cos ?s1" "again s2 = []" "rq (rts s2 rt) = [c]"
      "tpc s2 = (\<lambda>_. T_Out)(lp := L_Switch c)" "mutex s2 = None" "ev s2 \<le> 1"
    using join_run [OF rt_inv_step [OF 1 i] j, of True] s x by (auto simp: fun_eq_iff)
  obtain s3 where s3: "rt_steps True lp rt s2 s3" "cos s3 = cos s2" "rts s3 = rts s2" "again s3 = [c]"
      "tpc s3 = (\<lambda>_. T_Out)(lp := L_Pop)" "mutex s3 = None" "ev s3 = ev s2"
    using look_run [of s2 lp c True rt] s2 by auto
  have q3: "tpc s3 lp = L_Pop" "rq (rts s3 rt) = [c]" "status_of s3 c \<in> {STATUS_STARTING, STATUS_READY}"
    using s2 s3 by simp_all
  obtain s4 where s4: "rt_steps True lp rt s3 s4" "rq (rts s4 rt) = []" "again s4 = [c]" "tpc s4 = (\<lambda>_. T_Out)(lp := L_Run c)"
      "mutex s4 = None" "ev s4 = ev s3" "status_of s4 c = STATUS_RUNNING"
    using take_run [OF q3(1) s3(6) q3(2) c q3(3), of True] s3 by auto
  have l4: "tpc s4 lp = L_Run c" using s4(4) by simp
  obtain s5 where s5: "rt_steps True lp rt s4 s5" "rts s5 = rts s4" "again s5 = [c]" "tpc s5 = (\<lambda>_. T_Out)(lp := L_Pop)"
      "mutex s5 = None" "ev s5 = ev s4" "status_of s5 c = STATUS_WAITING"
    using park_run [OF l4 s4(7), of True rt] s4 by auto
  have 6: "rt_step True lp rt s5 (go lp L_Requeue s5)" by (rule drained_run) (use s4(2) s5 in simp_all)
  have s15: "rt_steps True lp rt s (go lp L_Requeue s5)"
    by (rule rt_steps.step [OF 1 rt_steps_trans [OF s2(1) rt_steps_trans [OF s3(1) rt_steps_trans [OF s4(1)
      rt_steps_trans [OF s5(1) rt_steps_one [OF 6]]]]]])
  have e: "ev (go lp L_Requeue s5) < eventfd_max" using s2(7) s3(7) s4(6) s5(6) by (simp add: eventfd_max_def)
  have r6: "tpc (go lp L_Requeue s5) lp = L_Requeue" "mutex (go lp L_Requeue s5) = None" using s5(5) by simp_all
  obtain u where u: "rt_steps True lp rt (go lp L_Requeue s5) u" "cos u = cos s5" "set (rq (rts u rt)) = {c}"
      "tpc u = (\<lambda>_. T_Out)" "mutex u = None"
    using end_run [OF rt_inv_steps [OF s15 i] r6 e, of True] s4(2) s5 by (auto simp: fun_eq_iff)
  then show ?thesis using rt_steps_trans [OF s15 u(1)] s5(7) by (intro exI [of _ u]) auto
qed

section \<open>Properties\<close>

text \<open>C14: no coroutine is lost. In every interleaving of the event loop with any number of threads that
  start and wake coroutines, also early, while they still run, and as long as \<open>malloc\<close> does not fail, a coroutine that is \<open>READY\<close> is in the queue of the runtime, in the
  list of the pass, about to be put into the queue or in the hands of the event loop; and while the
  queue is not empty the event loop is in a pass of \<open>liteco_runtime_cb\<close> or a wake-up for it is
  pending: a thread is about to send it, or the eventfd is readable, or the event loop has drained
  it and is on its way to the handler.\<close>

theorem runtime_keeps_ready:
  assumes "rt_reach early lp rt s"
  shows "(\<forall>d. status_of s d = STATUS_READY \<longrightarrow> on_its_way lp rt s d) \<and>
    (rq (rts s rt) = [] \<or> in_pass (tpc s lp) \<or>
     sender s \<in> {Some Send_Test, Some Send_Cas, Some Send_Write} \<or>
     rt_status rt s \<noteq> ASYNC_NO_PADDING \<and> (0 < ev s \<or> tpc s lp \<in> {L_Spin, L_Cas}))"
proof -
  have i: "ready_ok lp rt s" "send_ok lp rt s" using rt_reach_inv [OF assms] by (simp_all add: rt_inv_def)
  show ?thesis using i unfolding ready_ok_def send_ok_def by (cases "rt_status rt s") auto
qed

definition rt_demo :: rt_sys where
  "rt_demo = \<lparr>this_co = NIL, cos = (\<lambda>_. \<lparr>co_p_ctx = NoCtx, co_st = 0, co_st_size = 0,
     co_status = STATUS_STARTING, co_cb = 0, co_arg = 0, co_fin_st = [], co_ret = 0\<rparr>),
     asyncs = (\<lambda>_. \<lparr>as_cb = runtime_cb_id, as_status = ASYNC_NO_PADDING\<rparr>), async_list = [3],
     async_inited = True, ev = 0, rts = (\<lambda>_. \<lparr>rt_async = 3, rq = []\<rparr>), mallocs = [],
     mutex = None, tpc = (\<lambda>_. T_Out), again = [], handed = {}\<rparr>"

lemma rt_demo_start: "rt_start 9 rt_demo"
  by (simp add: rt_start_def rt_demo_def)

lemma runtime_keeps_ready_witness:
  "\<exists>s. rt_reach True 7 9 s \<and> rq (rts s 9) \<noteq> [] \<and> tpc s 7 = T_Out \<and> rt_status 9 s \<noteq> ASYNC_NO_PADDING \<and> 0 < ev s"
proof -
  note i0 = rt_reach_inv [OF rt_reach.start [OF rt_demo_start]]
  obtain s where s: "rt_steps True 7 9 rt_demo s" "rq (rts s 9) = []" "again s = []" "tpc s = (\<lambda>_. T_Out)(7 := L_Switch 5)"
      "mutex s = None" "ev s = 0" "status_of s 5 = STATUS_WAITING"
    using blocked_run [OF rt_demo_start, of 5 7] by auto
  obtain u where u: "rt_steps True 7 9 s u" "rq (rts u 9) \<noteq> []" "tpc u = (\<lambda>_. T_Out)" "mutex u = None"
    using stale_run [OF rt_inv_steps [OF s(1) i0] s(2-7), of 8] by auto
  have r: "rt_reach True 7 9 u"
    by (rule rt_steps_reach [OF rt_steps_trans [OF s(1) u(1)] rt_reach.start [OF rt_demo_start]])
  show ?thesis using runtime_keeps_ready [OF r] u r sender_none [OF u(4)] by (intro exI [of _ u]) simp
qed

text \<open>C16: a wake-up that comes early hangs the event loop. A coroutine that blocks sets its status to
  \<open>WAITING\<close> before it switches away. If another thread wakes it in between, \<open>liteco_runtime_cb\<close> sees
  it as \<open>READY\<close> and keeps it for the next pass, although it is in the queue already and runs in this
  pass; once it waits again, the entry is stale: the next pass takes it out of the queue, and
  \<open>liteco_resume\<close> spins on its status. The event loop stands still, with all threads idle, until
  another thread wakes the coroutine.\<close>

theorem runtime_early_wake_hangs:
  assumes "rt_start rt s0" and "c \<noteq> NIL" and "x \<noteq> lp"
  shows "\<exists>s. rt_steps True lp rt s0 s \<and> tpc s = (\<lambda>_. T_Out)(lp := L_Resume c) \<and> status_of s c = STATUS_WAITING \<and>
    mutex s = None \<and> (\<forall>seg fin. liteco_resume seg fin c s = None) \<and>
    (\<forall>s'. rt_step True lp rt s s' \<longrightarrow> tpc s' lp = L_Resume c \<and>
       (status_of s' c = STATUS_WAITING \<or> (\<exists>t k. t \<noteq> lp \<and> tpc s' t = T_Join k c)))"
proof -
  have i0: "rt_inv lp rt s0" using rt_reach_inv [OF rt_reach.start [OF assms(1)]] .
  obtain s where s: "rt_steps True lp rt s0 s" "rq (rts s rt) = []" "again s = []" "tpc s = (\<lambda>_. T_Out)(lp := L_Switch c)"
      "mutex s = None" "ev s = 0" "status_of s c = STATUS_WAITING"
    using blocked_run [OF assms(1,2)] by blast
  obtain u where u: "rt_steps True lp rt s u" "rq (rts u rt) \<noteq> []" "set (rq (rts u rt)) = {c}" "tpc u = (\<lambda>_. T_Out)"
      "mutex u = None" "status_of u c = STATUS_WAITING"
    using stale_run [OF rt_inv_steps [OF s(1) i0] s(2-7) assms(2,3)] by blast
  have iu: "rt_inv lp rt u" using rt_inv_steps [OF rt_steps_trans [OF s(1) u(1)] i0] .
  obtain v where v: "rt_steps True lp rt u v" "same_co u v" "tpc v = (\<lambda>_. T_Out)(lp := L_Pop)" "mutex v = None"
    using enter_run [OF iu, of True] u by auto
  obtain q where q: "rq (rts v rt) = c # q" using u(2,3) v(2) by (cases "rq (rts v rt)") (auto simp: same_co_def)
  let ?w = "go lp (L_Resume c) (set_rq rt q v)"
  have l: "tpc v lp = L_Pop" "liteco_runtime_pop rt v = (set_rq rt q v, c)" using v(3) q by (simp_all add: liteco_runtime_pop_def)
  have w: "rt_step True lp rt v ?w" using rt_step.pop [OF l(1) v(4) l(2)] assms(2) by simp
  have st: "rt_steps True lp rt s0 ?w"
    by (rule rt_steps_trans [OF s(1) rt_steps_trans [OF u(1) rt_steps_trans [OF v(1) rt_steps_one [OF w]]]])
  have W: "status_of ?w c = STATUS_WAITING" using u(6) v(2) by (simp add: same_co_def)
  have "nil_ok lp rt ?w" using rt_inv_steps [OF st i0] by (simp add: rt_inv_def)
  then have "\<forall>s'. rt_step True lp rt ?w s' \<longrightarrow> tpc s' lp = L_Resume c \<and>
      (status_of s' c = STATUS_WAITING \<or> (\<exists>t k. t \<noteq> lp \<and> tpc s' t = T_Join k c))"
    using spin_stuck [OF _ _ W] by simp
  moreover have "liteco_resume seg fin c ?w = None" for seg fin
    by (rule resume_enter_spins) (use W in \<open>simp_all add: resume_enter_def liteco_set_status_def\<close>)
  ultimately show ?thesis using st v(3,4) W by (intro exI [of _ ?w]) simp
qed

lemma runtime_early_wake_hangs_witness:
  "\<exists>s. rt_steps True 7 9 rt_demo s \<and> tpc s 7 = L_Resume 5 \<and> status_of s 5 = STATUS_WAITING \<and>
     liteco_resume (\<lambda>c w. Some (w, None)) (\<lambda>_ _ w. w) 5 s = None"
proof -
  have "(5::addr) \<noteq> NIL" "(8::nat) \<noteq> 7" by simp_all
  from runtime_early_wake_hangs [OF rt_demo_start this] obtain s where
    "rt_steps True 7 9 rt_demo s" "tpc s = (\<lambda>_. T_Out)(7 := L_Resume 5)" "status_of s 5 = STATUS_WAITING"
    "\<forall>seg fin. liteco_resume seg fin 5 s = None" by blast
  then show ?thesis by (intro exI [of _ s]) simp
qed

text \<open>C15: every ready coroutine can run. As long as \<open>malloc\<close> does not fail, and when coroutines are woken only after the event loop has looked at
  their status, which is so when all wake-ups come from the thread of the event loop, every coroutine
  is at one place at most, no resume spins, and from every reachable state in which a coroutine is
  ready there is a sequence of steps after which it runs, as long as the eventfd is not full.\<close>

theorem runtime_ready_runs:
  assumes "rt_reach False lp rt s" and "status_of s d = STATUS_READY" and "ev s + 3 < eventfd_max"
  shows "distinct (rq (rts s rt) @ again s) \<and>
    (\<forall>c. tpc s lp = L_Resume c \<longrightarrow> resume_enter c s \<noteq> None) \<and>
    (\<exists>s'. rt_steps False lp rt s s' \<and> tpc s' lp = L_Run d)"
proof -
  have p: "place_ok lp rt s" by (rule place_reach [OF assms(1)])
  then have "resume_enter c s \<noteq> None" if "tpc s lp = L_Resume c" for c
    using that by (auto simp: place_ok_def places_def resume_enter_iff not_None_eq)
  moreover have "on_its_way lp rt s d"
    using rt_reach_inv [OF assms(1)] assms(2) by (simp add: rt_inv_def ready_ok_def)
  ultimately show ?thesis
    using p way_runs [OF assms(1,3) _ assms(2)] by (simp add: place_ok_def places_def gets_run_def)
qed

lemma runtime_ready_runs_witness:
  "\<exists>s s'. rt_reach False 7 9 s \<and> tpc s 7 = L_Back 5 \<and> status_of s 5 = STATUS_READY \<and>
     rt_steps False 7 9 s s' \<and> tpc s' 7 = L_Run 5"
proof -
  obtain s where s: "rt_steps False 7 9 rt_demo s" "tpc s = (\<lambda>_. T_Out)(7 := L_Run 5)" "ev s = 0" "status_of s 5 = STATUS_RUNNING"
    using first_run [OF rt_demo_start, of 5 False 7] by auto
  let ?u = "go 7 (L_Switch 5) s"
  let ?v = "go 7 (L_Back 5) (if status_of ?u 5 = STATUS_RUNNING then put_status 5 STATUS_READY ?u else ?u)"
  have "rt_step False 7 9 s ?u" by (rule rt_step.yield) (simp add: s(2))
  moreover have "rt_step False 7 9 ?u ?v" by (rule rt_step.switch) simp
  ultimately have r: "rt_reach False 7 9 ?v"
    using rt_steps_reach [OF s(1) rt_reach.start [OF rt_demo_start]] by (blast intro: rt_reach.step)
  have v: "status_of ?v 5 = STATUS_READY" "ev ?v + 3 < eventfd_max" "tpc ?v 7 = L_Back 5"
    using s(3,4) by (simp_all add: eventfd_max_def)
  then show ?thesis using runtime_ready_runs [OF r v(1,2)] r by blast
qed

end
