(* ===== verification/Channel_Flow.thy ===== *)
theory Channel_Flow
  imports Channel_Runs
begin

text \<open>
  The elements that go through a channel. For a sequence of turns (\<open>chan_session\<close>) this theory
  counts the elements that calls have put into the channel and those that have come out of it, as
  multisets, and shows that the channel neither loses nor invents nor copies one.
\<close>

section \<open>What goes in and what comes out\<close>

text \<open>An element is sent when the push returns 0, or waits with it.\<close>

fun call_sent :: "addr \<Rightarrow> chan_call \<Rightarrow> 'a ch_world_scheme \<Rightarrow> addr multiset" where
  "call_sent c (Push ele b) w =
     (case liteco_chan_push c ele b w of
        None \<Rightarrow> {#} | Some (_, Yield) \<Rightarrow> {#ele#} | Some (_, Return r) \<Rightarrow> (if r = 0 then {#ele#} else {#}))"
| "call_sent c (UPush ele) w =
     (case liteco_chan_unenforceable_push c ele w of
        None \<Rightarrow> {#} | Some (_, r) \<Rightarrow> (if r = 0 then {#ele#} else {#}))"
| "call_sent c _ w = {#}"

text \<open>What the call returns to its caller.\<close>

fun call_returned :: "addr \<Rightarrow> chan_call \<Rightarrow> 'a ch_world_scheme \<Rightarrow> addr multiset" where
  "call_returned c (Pop ret b) w =
     (case liteco_chan_pop ret c b w of
        Some (_, Return v) \<Rightarrow> (if v = liteco_chan_pop_failed then {#} else {#v#}) | _ \<Rightarrow> {#})"
| "call_returned c (UPop ret) w =
     (case liteco_chan_unenforceable_pop ret c w of
        None \<Rightarrow> {#} | Some (_, v) \<Rightarrow> (if v = liteco_chan_pop_failed then {#} else {#v#}))"
| "call_returned c _ w = {#}"

text \<open>What the readers find that were in the list before the call and are not any more: a blocked
  pop returns what is in its cell when it goes on (\<open>liteco_chan_pop_resumed\<close>).\<close>

definition handed :: "addr \<Rightarrow> 'a ch_world_scheme \<Rightarrow> 'a ch_world_scheme \<Rightarrow> addr multiset" where
  "handed c w w' =
     mset (map (\<lambda>r. snd (liteco_chan_pop_resumed (wt_ele r) w'))
       (take (length (ch_r (chans w c)) - length (ch_r (chans w' c))) (ch_r (chans w c))))"

definition call_got :: "addr \<Rightarrow> chan_call \<Rightarrow> 'a ch_world_scheme \<Rightarrow> addr multiset" where
  "call_got c k w =
     call_returned c k w + (case chan_do c k w of None \<Rightarrow> {#} | Some w' \<Rightarrow> handed c w w')"

text \<open>The same over a sequence of turns; the calls are those of the turns in which the coroutine is
  resumed.\<close>

definition turn_count ::
    "(chan_call \<Rightarrow> 'a ch_world_scheme \<Rightarrow> addr multiset) \<Rightarrow> addr \<times> chan_call \<Rightarrow> 'a ch_world_scheme \<Rightarrow> addr multiset" where
  "turn_count f t w =
     (if status_of w (fst t) \<in> {STATUS_STARTING, STATUS_READY} then f (snd t) (entered (fst t) w) else {#})"

fun session_count ::
    "(chan_call \<Rightarrow> 'a ch_world_scheme \<Rightarrow> addr multiset) \<Rightarrow> 'a ch_world_scheme callback \<Rightarrow> addr \<Rightarrow>
     (addr \<times> chan_call) list \<Rightarrow> 'a ch_world_scheme \<Rightarrow> addr multiset" where
  "session_count f fin c [] w = {#}"
| "session_count f fin c (t # ts) w =
     turn_count f t w + (case chan_turn fin c t w of None \<Rightarrow> {#} | Some w' \<Rightarrow> session_count f fin c ts w')"

section \<open>One call\<close>

definition conserves :: "addr \<Rightarrow> addr list \<Rightarrow> chan_call \<Rightarrow> 'a ch_world_scheme \<Rightarrow> bool" where
  "conserves c xs k w \<longleftrightarrow> (\<exists>w' ys. chan_do c k w = Some w' \<and> chan_ready c ys w' \<and>
     contents (chans w' c) ys + call_got c k w = contents (chans w c) xs + call_sent c k w)"

lemma conservesI:
  assumes "chan_do c k w = Some w'" "chan_ready c ys w'"
    and "contents (chans w' c) ys + (call_returned c k w + handed c w w') = contents (chans w c) xs + call_sent c k w"
  shows "conserves c xs k w"
  using assms by (auto simp: conserves_def call_got_def)

lemma handed_same [simp]: "length (ch_r (chans w c)) \<le> length (ch_r (chans w' c)) \<Longrightarrow> handed c w w' = {#}"
  by (simp add: handed_def)

lemma handed_reader:
  "ch_r (chans w c) = r # rs \<Longrightarrow> ch_r (chans w' c) = rs \<Longrightarrow> handed c w w' = {#stores w' (wt_ele r)#}"
  by (simp add: handed_def liteco_chan_pop_resumed_def)

text \<open>The cases of a write: it hands the element to a reader, buffers it, or finds the channel full.\<close>

lemma w_flow:
  fixes w :: "'a ch_world_scheme"
  assumes r: "chan_ready c xs w"
  shows "(\<exists>w' ys. liteco_chan_w c ele w = Some (w', True) \<and> chan_ready c ys w' \<and>
      contents (chans w' c) ys + handed c w w' = add_mset ele (contents (chans w c) xs)) \<or>
    (liteco_chan_w c ele w = Some (w, False) \<and> ch_r (chans w c) = [] \<and> length xs = chan_cap (chans w c))"
proof -
  have R: "ring_abs (chans w c) xs" "\<not> closed (chans w c)"
    using r by (auto simp: chan_ready_def chan_ok_def)
  show ?thesis
  proof (cases "ch_r (chans w c)")
    case (Cons v vs)
    have xs: "xs = []" using r Cons by (simp add: chan_ready_def chan_ok_def)
    from w_reader [OF r Cons, of ele] obtain w' where
      w': "liteco_chan_w c ele w = Some (w', True)" "stores w' = (stores w)(wt_ele v := ele)"
        "chans w' = (chans w)(c := (chans w c)\<lparr>ch_r := vs\<rparr>)" "mallocs w' = []" "can_signal (ch_rt (chans w c)) w'"
        "\<forall>d. status_of w' d = (if d = wt_co v \<and> wt_co v \<noteq> liteco_ignore_awake_co then STATUS_READY else status_of w d)"
      by blast
    have "handed c w w' = {#ele#}" using handed_reader [OF Cons, of w'] w'(2,3) by simp
    then have "contents (chans w' c) xs + handed c w w' = add_mset ele (contents (chans w c) xs)"
      using w'(3) by (simp add: contents_def)
    then show ?thesis using ready_after_reader [OF r Cons w'(3-6)] w'(1) by blast
  next
    case Nil
    show ?thesis
    proof (cases "length xs = chan_cap (chans w c)")
      case True
      then show ?thesis using w_blocked [OF R Nil] Nil by blast
    next
      case False
      from push_run [OF r, of ele] obtain w' ys where
        w': "liteco_chan_push c ele False w = Some (w', Return 0)" "chan_ready c ys w'" "ys = xs @ [ele]"
          "ch_w (chans w' c) = ch_w (chans w c)"
        using Nil False by auto
      then have "liteco_chan_w c ele w = Some (w', True)"
        using R(2) by (auto simp: liteco_chan_push_def split: option.splits bool.splits)
      then show ?thesis using w'(2-4) Nil by (auto simp: contents_def)
    qed
  qed
qed

text \<open>The cases of a read: it takes an element, or the channel is empty.\<close>

lemma r_flow:
  fixes w :: "'a ch_world_scheme"
  assumes r: "chan_ready c xs w"
  shows "(\<exists>w' ys. liteco_chan_r l c (put_store l NIL w) = Some (w', True) \<and> chan_ready c ys w' \<and> ch_r (chans w c) = [] \<and>
      contents (chans w c) xs = add_mset (stores w' l) (contents (chans w' c) ys)) \<or>
    (liteco_chan_r l c (put_store l NIL w) = Some (put_store l NIL w, False) \<and> ch_w (chans w c) = [] \<and> xs = [])"
proof -
  let ?w0 = "put_store l NIL w"
  have R: "ring_abs (chans ?w0 c) xs" "\<not> closed (chans ?w0 c)" and r0: "chan_ready c xs ?w0"
    using r by (auto simp: chan_ready_def chan_ok_def plain_waiters_def)
  show ?thesis
  proof (cases "ch_w (chans w c) = [] \<and> xs = []")
    case True
    then show ?thesis using r_blocked [of ?w0 c l] R by auto
  next
    case False
    then have nr: "ch_r (chans w c) = []" using r by (auto simp: chan_ready_def chan_ok_def)
    have "\<exists>w'. liteco_chan_r l c ?w0 = Some (w', True)"
    proof (cases "ch_w (chans w c)")
      case (Cons v vs)
      then show ?thesis using r_writer [OF r0, of v vs l] by auto
    next
      case Nil
      with False obtain x ys where "xs = x # ys" by (cases xs) auto
      then show ?thesis using r_buffer [of ?w0 c x ys l] R Nil by auto
    qed
    then obtain w' where w': "liteco_chan_r l c ?w0 = Some (w', True)" by blast
    from pop_run [OF r, of l] False obtain w2 v ys where
      "liteco_chan_pop l c False w = Some (w2, Return v)" "chan_ready c ys w2"
      "contents (chans w c) xs = add_mset v (contents (chans w2 c) ys)" by blast
    then show ?thesis using w' R(2) nr by (auto simp: liteco_chan_pop_def)
  qed
qed

lemma conserves_push:
  fixes w :: "'a ch_world_scheme"
  assumes r: "chan_ready c xs w" and d: "this_co w = d" "status_of w d = STATUS_RUNNING" "d \<noteq> liteco_ignore_awake_co"
  shows "conserves c xs (Push ele b) w"
  using w_flow [OF r, of ele]
proof (elim disjE exE conjE)
  fix w' ys
  assume w': "liteco_chan_w c ele w = Some (w', True)" "chan_ready c ys w'"
    "contents (chans w' c) ys + handed c w w' = add_mset ele (contents (chans w c) xs)"
  then have "liteco_chan_push c ele b w = Some (w', Return 0)" using r by (simp add: liteco_chan_push_def chan_ready_def)
  then show ?thesis using w' by (intro conservesI [of c _ w w' ys]) simp_all
next
  assume w': "liteco_chan_w c ele w = Some (w, False)" "ch_r (chans w c) = []" "length xs = chan_cap (chans w c)"
  show ?thesis
  proof (cases b)
    case True
    with push_block_run [OF r w'(2,3), of ele] d obtain w2 where
      w2: "liteco_chan_push c ele b w = Some (w2, Yield)" "chan_ready c xs w2"
        "ch_w (chans w2 c) = \<lparr>wt_co = d, wt_select = False, wt_ele = ele\<rparr> # ch_w (chans w c)" by auto
    then show ?thesis using w'(2) by (intro conservesI [of c _ w w2 xs]) (simp_all add: contents_def)
  next
    case False
    then have "liteco_chan_push c ele b w = Some (w, Return (-2))"
      using w'(1) r by (simp add: liteco_chan_push_def chan_ready_def)
    then show ?thesis using r by (intro conservesI [of c _ w w xs]) simp_all
  qed
qed

lemma conserves_pop:
  fixes w :: "'a ch_world_scheme"
  assumes r: "chan_ready c xs w" and d: "this_co w = d" "status_of w d = STATUS_RUNNING" "d \<noteq> liteco_ignore_awake_co"
    and v: "liteco_chan_pop_failed \<notin># contents (chans w c) xs"
  shows "conserves c xs (Pop l b) w"
proof -
  let ?w0 = "put_store l NIL w"
  have o: "\<not> closed (chans w c)" using r by (simp add: chan_ready_def)
  have r0: "chan_ready c xs ?w0" using r by (simp add: chan_ready_def plain_waiters_def)
  show ?thesis using r_flow [OF r, of l]
  proof (elim disjE exE conjE)
    fix w' ys
    assume w': "liteco_chan_r l c ?w0 = Some (w', True)" "chan_ready c ys w'" "ch_r (chans w c) = []"
      "contents (chans w c) xs = add_mset (stores w' l) (contents (chans w' c) ys)"
    have "liteco_chan_pop l c b w = Some (w', Return (stores w' l))" using o w'(1) by (simp add: liteco_chan_pop_def)
    moreover have "stores w' l \<noteq> liteco_chan_pop_failed" using v w'(4) by auto
    ultimately show ?thesis using w' by (intro conservesI [of c _ w w' ys]) simp_all
  next
    assume w': "liteco_chan_r l c ?w0 = Some (?w0, False)" "ch_w (chans w c) = []" "xs = []"
    show ?thesis
    proof (cases b)
      case True
      with pop_block_run [OF r w'(2,3) d, of l] obtain w2 where
        "liteco_chan_pop l c b w = Some (w2, Yield)" "chan_ready c xs w2" "ch_w (chans w2 c) = []"
        "ch_r (chans w2 c) = \<lparr>wt_co = d, wt_select = False, wt_ele = l\<rparr> # ch_r (chans w c)" by auto
      then show ?thesis using w'(2) by (intro conservesI [of c _ w w2 xs]) (simp_all add: contents_def)
    next
      case False
      then have "liteco_chan_pop l c b w = Some (?w0, Return liteco_chan_pop_failed)"
        using w'(1) o by (simp add: liteco_chan_pop_def)
      then show ?thesis using r0 by (intro conservesI [of c _ w ?w0 xs]) simp_all
    qed
  qed
qed

lemma conserves_upush:
  fixes w :: "'a ch_world_scheme"
  assumes r: "chan_ready c xs w"
  shows "conserves c xs (UPush ele) w"
  using w_flow [OF r, of ele]
proof (elim disjE exE conjE)
  fix w' ys
  assume w': "liteco_chan_w c ele w = Some (w', True)" "chan_ready c ys w'"
    "contents (chans w' c) ys + handed c w w' = add_mset ele (contents (chans w c) xs)"
  then have "liteco_chan_unenforceable_push c ele w = Some (w', 0)"
    using r by (simp add: liteco_chan_unenforceable_push_def chan_ready_def)
  then show ?thesis using w' by (intro conservesI [of c _ w w' ys]) simp_all
next
  assume w': "liteco_chan_w c ele w = Some (w, False)" "ch_r (chans w c) = []" "length xs = chan_cap (chans w c)"
  from upush_block_run [OF r w'(2,3), of ele] obtain x where
    "liteco_chan_unenforceable_push c ele w = Some (upd_ch c (\<lambda>_. x) w, 0)" "chan_ready c xs (upd_ch c (\<lambda>_. x) w)"
    "ch_r x = []" "ch_w x = \<lparr>wt_co = liteco_ignore_awake_co, wt_select = False, wt_ele = ele\<rparr> # ch_w (chans w c)" by blast
  then show ?thesis using w'(2) by (intro conservesI [of c _ w "upd_ch c (\<lambda>_. x) w" xs]) (simp_all add: contents_def)
qed

lemma conserves_upop:
  fixes w :: "'a ch_world_scheme"
  assumes r: "chan_ready c xs w" and v: "liteco_chan_pop_failed \<notin># contents (chans w c) xs"
  shows "conserves c xs (UPop l) w"
  using r_flow [OF r, of l]
proof (elim disjE exE conjE)
  fix w' ys
  assume w': "liteco_chan_r l c (put_store l NIL w) = Some (w', True)" "chan_ready c ys w'" "ch_r (chans w c) = []"
    "contents (chans w c) xs = add_mset (stores w' l) (contents (chans w' c) ys)"
  have "liteco_chan_unenforceable_pop l c w = Some (w', stores w' l)"
    using r w'(1) by (simp add: liteco_chan_unenforceable_pop_def chan_ready_def)
  moreover have "stores w' l \<noteq> liteco_chan_pop_failed" using v w'(4) by auto
  ultimately show ?thesis using w' by (intro conservesI [of c _ w w' ys]) simp_all
next
  let ?w0 = "put_store l NIL w"
  assume w': "liteco_chan_r l c ?w0 = Some (?w0, False)"
  have "chan_ready c xs ?w0" using r by (simp add: chan_ready_def plain_waiters_def)
  moreover have "liteco_chan_unenforceable_pop l c w = Some (?w0, liteco_chan_pop_failed)"
    using r w' by (simp add: liteco_chan_unenforceable_pop_def chan_ready_def)
  ultimately show ?thesis by (intro conservesI [of c _ w ?w0 xs]) simp_all
qed

section \<open>Sequences of turns\<close>

text \<open>The channel stays open, and \<open>liteco_chan_pop_failed\<close> is not used as an element.\<close>

fun open_call :: "chan_call \<Rightarrow> bool" where
  "open_call (Push ele b) = (ele \<noteq> liteco_chan_pop_failed)"
| "open_call (UPush ele) = (ele \<noteq> liteco_chan_pop_failed)"
| "open_call (Pop ret b) = True"
| "open_call (UPop ret) = True"
| "open_call Close = False"
| "open_call Destory = False"

lemma conserves_call:
  fixes w :: "'a ch_world_scheme"
  assumes r: "chan_ready c xs w" and v: "liteco_chan_pop_failed \<notin># contents (chans w c) xs" and k: "open_call k"
    and d: "this_co w = d" "status_of w d = STATUS_RUNNING" "d \<noteq> liteco_ignore_awake_co"
  shows "conserves c xs k w"
  using k conserves_push [OF r d] conserves_pop [OF r d v] conserves_upush [OF r] conserves_upop [OF r v]
  by (cases k) simp_all

lemma sent_open: "open_call k \<Longrightarrow> liteco_chan_pop_failed \<notin># call_sent c k w"
  by (cases k) (auto split: option.split outcome.split)

text \<open>An equation between multisets carries what is not in the one over to the other.\<close>

lemma not_in_union: "A + B = C + D \<Longrightarrow> x \<notin># C \<Longrightarrow> x \<notin># D \<Longrightarrow> x \<notin># A"
  by (metis union_iff)

lemma conserves_turn:
  fixes w :: "'a ch_world_scheme"
  assumes r: "chan_ready c xs w" and v: "liteco_chan_pop_failed \<notin># contents (chans w c) xs"
    and k: "open_call (snd t)" and d: "fst t \<noteq> liteco_ignore_awake_co"
  shows "\<exists>w' ys. chan_turn fin c t w = Some w' \<and> chan_ready c ys w' \<and>
    liteco_chan_pop_failed \<notin># contents (chans w' c) ys \<and>
    contents (chans w' c) ys + turn_count (call_got c) t w = contents (chans w c) xs + turn_count (call_sent c) t w"
proof (cases "status_of w (fst t) \<in> {STATUS_STARTING, STATUS_READY}")
  case True
  let ?w = "entered (fst t) w"
  have "status_of w (fst t) \<noteq> STATUS_WAITING" using True by auto
  then have r': "chan_ready c xs ?w" using r by (rule wf_entered(2))
  have e: "chans ?w = chans w" by (simp add: entered_def upd_co_def)
  have run: "this_co ?w = fst t" "status_of ?w (fst t) = STATUS_RUNNING" by simp_all
  have "conserves c xs (snd t) ?w" using conserves_call [OF r' _ k run d] v e by simp
  then obtain w1 ys where w1: "chan_do c (snd t) ?w = Some w1" "chan_ready c ys w1"
    "contents (chans w1 c) ys + call_got c (snd t) ?w = contents (chans w c) xs + call_sent c (snd t) ?w"
    using e by (auto simp: conserves_def)
  have "good_call c (fst t) ?w (chan_do c (snd t) ?w)"
    using call_good [OF _ run d] r' by (auto simp: chan_wf_def)
  then have g: "this_co w1 = fst t" "status_of w1 (fst t) \<in> {STATUS_RUNNING, STATUS_WAITING}"
    using w1(1) by (auto simp: good_call_def)
  from chan_turn_run [OF True w1(1) g, of fin] w1(2) obtain w2 where
    "chan_turn fin c t w = Some w2" "chans w2 = chans w1" "chan_ready c ys w2" by auto
  then show ?thesis
    using w1(3) not_in_union [OF w1(3) v sent_open [OF k]] True by (auto simp: turn_count_def)
qed (use r v in \<open>auto simp: chan_turn_def turn_count_def\<close>)

text \<open>C22: a channel conserves its elements. Whatever pushes and pops any number of coroutines make on
  an open channel, in any order, blocking or not: every call comes back to the resumer, and the
  elements that are in the channel at the end (in the buffer or with a waiting writer), together
  with those that pops returned or that waiting readers were handed, are exactly those that were in
  it at the start together with those whose push was accepted. And no reader is left waiting while
  the channel holds an element, no writer while the buffer has room.\<close>

theorem chan_session_conserves:
  fixes w :: "'a ch_world_scheme"
  assumes "chan_ready c xs w" "liteco_chan_pop_failed \<notin># contents (chans w c) xs"
    and "\<forall>t\<in>set ts. open_call (snd t) \<and> fst t \<noteq> liteco_ignore_awake_co"
  shows "\<exists>w' ys. chan_session fin c ts w = Some w' \<and> chan_ready c ys w' \<and>
    contents (chans w' c) ys + session_count (call_got c) fin c ts w =
      contents (chans w c) xs + session_count (call_sent c) fin c ts w \<and>
    (ch_r (chans w' c) \<noteq> [] \<longrightarrow> contents (chans w' c) ys = {#}) \<and>
    (ch_w (chans w' c) \<noteq> [] \<longrightarrow> length ys = chan_cap (chans w' c))"
  using assms
proof (induction ts arbitrary: w xs)
  case Nil
  then show ?case by (auto simp: chan_ready_def chan_ok_def contents_def)
next
  case (Cons t ts)
  from conserves_turn [OF Cons.prems(1,2), of t fin] Cons.prems(3) obtain w1 ys where
    w1: "chan_turn fin c t w = Some w1" "chan_ready c ys w1" "liteco_chan_pop_failed \<notin># contents (chans w1 c) ys"
    "contents (chans w1 c) ys + turn_count (call_got c) t w = contents (chans w c) xs + turn_count (call_sent c) t w"
    by auto
  from Cons.IH [OF w1(2,3)] Cons.prems(3) obtain w2 zs where
    w2: "chan_session fin c ts w1 = Some w2" "chan_ready c zs w2"
    "contents (chans w2 c) zs + session_count (call_got c) fin c ts w1 =
       contents (chans w1 c) ys + session_count (call_sent c) fin c ts w1"
    "ch_r (chans w2 c) \<noteq> [] \<longrightarrow> contents (chans w2 c) zs = {#}"
    "ch_w (chans w2 c) \<noteq> [] \<longrightarrow> length zs = chan_cap (chans w2 c)" by auto
  have "contents (chans w2 c) zs + session_count (call_got c) fin c (t # ts) w =
      contents (chans w c) xs + session_count (call_sent c) fin c (t # ts) w"
    using w1(1,4) w2(3) by (simp add: ac_simps)
  then show ?case using w1(1) w2(1,2,4,5) by auto
qed

text \<open>On a channel for two elements: a reader waits, an element comes, two fill the buffer, two writers
  wait, and a pop takes the element of the last of them. The runtime has been signalled already.\<close>

definition all_ready :: "unit ch_world_scheme" where
  "all_ready = (demo_chan [] [] [])\<lparr>cos := (\<lambda>c. (cos (demo_chan [] [] []) c)\<lparr>co_status := STATUS_READY\<rparr>),
     asyncs := (\<lambda>h. \<lparr>as_cb = runtime_cb_id, as_status = ASYNC_DONE\<rparr>)\<rparr>"

lemma all_ready_ok: "chan_ready 20 [] all_ready"
  using demo_ring(1) [of "[]" "[]" 20]
  by (simp add: all_ready_def chan_ready_def chan_ok_def plain_waiters_def waiting_cos_def can_signal_def rt_pending_def)

definition demo_turns :: "(addr \<times> chan_call) list" where
  "demo_turns = [(30, Pop 200 True), (31, Push 104 True), (31, Push 105 False), (31, Push 106 True),
     (31, Push 107 True), (32, UPush 108), (33, Pop 201 True)]"

theorem chan_session_conserves_witness:
  "\<exists>w' ys. chan_session (\<lambda>_ _ w. w) 20 demo_turns all_ready = Some w' \<and> chan_ready 20 ys w' \<and>
     session_count (call_sent 20) (\<lambda>_ _ w. w) 20 demo_turns all_ready = {#104, 105, 106, 107, 108#} \<and>
     session_count (call_got 20) (\<lambda>_ _ w. w) 20 demo_turns all_ready = {#104, 108#} \<and>
     contents (chans w' 20) ys = {#105, 106, 107#}"
proof -
  have f: "\<forall>t\<in>set demo_turns. open_call (snd t) \<and> fst t \<noteq> liteco_ignore_awake_co"
    by (simp add: demo_turns_def liteco_chan_pop_failed_def liteco_ignore_awake_co_def)
  have c: "contents (chans all_ready 20) [] = {#}" by (simp add: contents_def all_ready_def)
  have s: "session_count (call_sent 20) (\<lambda>_ _ w. w) 20 demo_turns all_ready = {#104, 105, 106, 107, 108#}"
    "session_count (call_got 20) (\<lambda>_ _ w. w) 20 demo_turns all_ready = {#104, 108#}"
    by code_simp+
  have k: "{#104, 105, 106, 107, 108#} = {#105, 106, 107#} + {#104, 108 :: addr#}" by (simp add: add_mset_commute)
  have e: "(A + {#104, 108#} = {#104, 105, 106, 107, 108#}) = (A = {#105, 106, 107#})" for A :: "addr multiset"
    unfolding k by (rule add_right_cancel)
  obtain w' ys where "chan_session (\<lambda>_ _ w. w) 20 demo_turns all_ready = Some w'" "chan_ready 20 ys w'"
    "contents (chans w' 20) ys + {#104, 108#} = {#} + {#104, 105, 106, 107, 108#}"
    using chan_session_conserves [OF all_ready_ok _ f, of "\<lambda>_ _ w. w"] unfolding s c by auto
  then show ?thesis using s e by auto
qed

section \<open>A wake-up without memory\<close>

text \<open>\<open>liteco_chan_join_runtime\<close> does not look at the result of \<open>liteco_runtime_join\<close>. When \<open>malloc\<close>
  fails there, the push that hands an element to a waiting reader still returns 0, but the reader is
  ready without being queued anywhere: it has left the list of the channel, too, so nothing resumes
  it again.\<close>

lemma wake_up_lost:
  fixes w :: "'a ch_world_scheme"
  assumes "\<not> closed (chans w c)" "ch_r (chans w c) = r # rs" "\<not> wt_select r" "mallocs w = False # ms"
    and "wt_co r \<noteq> liteco_ignore_awake_co" "status_of w (wt_co r) = STATUS_WAITING"
    and "wt_co r \<notin> set (rq (rts w (ch_rt (chans w c))))"
  shows "\<exists>w'. liteco_chan_push c ele b w = Some (w', Return 0) \<and> status_of w' (wt_co r) = STATUS_READY \<and>
    ch_r (chans w' c) = rs \<and> rts w' = rts w"
proof -
  have "\<not> liteco_chan_wblocked (chans w c)" using assms(1,2) by (simp add: liteco_chan_wblocked_def)
  then show ?thesis
    using assms
    by (simp add: liteco_chan_push_def liteco_chan_w_def liteco_chan_join_runtime_def liteco_set_status_def
        liteco_runtime_join_def liteco_runtime_exist_def malloc_def put_status_more Let_def)
qed

end
