(* ===== verification/Channel_Moves.thy ===== *)
theory Channel_Moves
  imports Channel_Runs
begin

text \<open>
  Where the calls on a channel move coroutines, when the channel belongs to the runtime that runs
  them: a call puts its coroutine into a list of waiters, or takes another one out of a list and puts
  it into the queue of the runtime.
\<close>

section \<open>Where a call moves coroutines\<close>

text \<open>A call of the coroutine \<open>d\<close> either leaves it with the status \<open>st\<close>, and then at most moves a
  waiting coroutine to the queue; or it adds \<open>d\<close> to those that wait.\<close>

abbreviation chan_rq :: "addr \<Rightarrow> 'a ch_world_scheme \<Rightarrow> addr list" where
  "chan_rq c w \<equiv> rq (rts w (ch_rt (chans w c)))"

abbreviation chan_waiting :: "addr \<Rightarrow> 'a ch_world_scheme \<Rightarrow> addr list" where
  "chan_waiting c w \<equiv> waiting_cos (chans w c)"

definition moves :: "liteco_status \<Rightarrow> addr \<Rightarrow> addr \<Rightarrow> 'a ch_world_scheme \<Rightarrow> 'a ch_world_scheme \<Rightarrow> bool" where
  "moves st c d w w' \<longleftrightarrow> ch_rt (chans w' c) = ch_rt (chans w c) \<and> closed (chans w' c) = closed (chans w c) \<and>
     this_co w' = this_co w \<and>
     (\<forall>e. e \<noteq> d \<and> e \<notin> set (chan_waiting c w) \<longrightarrow> status_of w' e = status_of w e) \<and>
     (\<forall>e\<in>set (chan_rq c w') - set (chan_rq c w). status_of w' e = STATUS_READY) \<and>
     (status_of w' d = st \<and> set (chan_waiting c w') \<subseteq> set (chan_waiting c w) \<and>
        mset (chan_rq c w') + mset (chan_waiting c w') = mset (chan_rq c w) + mset (chan_waiting c w) \<or>
      status_of w' d = STATUS_WAITING \<and> set (chan_waiting c w') \<subseteq> insert d (set (chan_waiting c w)) \<and>
        mset (chan_rq c w') + mset (chan_waiting c w') = add_mset d (mset (chan_rq c w) + mset (chan_waiting c w)))"

lemma moves_idle:
  fixes w :: "'a ch_world_scheme"
  assumes "status_of w d = STATUS_RUNNING" "cos w' = cos w" "this_co w' = this_co w" "rts w' = rts w"
    and "ch_w (chans w' c) = ch_w (chans w c)" "ch_r (chans w' c) = ch_r (chans w c)"
    and "ch_rt (chans w' c) = ch_rt (chans w c)" "closed (chans w' c) = closed (chans w c)"
  shows "moves STATUS_RUNNING c d w w'"
  using assms by (simp add: moves_def waiting_cos_def)

lemma moves_block:
  fixes w :: "'a ch_world_scheme"
  assumes "\<forall>e. e \<noteq> d \<longrightarrow> status_of w' e = status_of w e" "status_of w' d = STATUS_WAITING"
    and "this_co w' = this_co w" "rts w' = rts w"
    and "ch_rt (chans w' c) = ch_rt (chans w c)" "closed (chans w' c) = closed (chans w c)"
    and "mset (chan_waiting c w') = add_mset d (mset (chan_waiting c w))"
  shows "moves STATUS_RUNNING c d w w'"
proof -
  have "set (chan_waiting c w') = insert d (set (chan_waiting c w))"
    using arg_cong [OF assms(7), of set_mset] by simp
  then show ?thesis using assms by (simp add: moves_def)
qed

lemma moves_wake:
  fixes w :: "'a ch_world_scheme"
  assumes d: "status_of w d = STATUS_RUNNING" and q: "set (chan_rq c w) \<inter> set (chan_waiting c w) = {}"
    and "chans w' = (chans w)(c := x)" "ch_rt x = ch_rt (chans w c)" "closed x = closed (chans w c)" "this_co w' = this_co w"
    and wt: "mset (chan_waiting c w) = mset (waiting_cos x) + (if e \<noteq> liteco_ignore_awake_co then {#e#} else {#})"
    and st: "\<forall>f. status_of w' f = (if f = e \<and> e \<noteq> liteco_ignore_awake_co then STATUS_READY else status_of w f)"
    and rq: "rq (rts w' (ch_rt (chans w c))) = (if e \<noteq> liteco_ignore_awake_co then joined e (chan_rq c w) else chan_rq c w)"
    and s: "\<forall>f\<in>set (chan_waiting c w). status_of w f = STATUS_WAITING"
  shows "moves STATUS_RUNNING c d w w'"
proof (cases "e = liteco_ignore_awake_co")
  case True
  moreover have "set (chan_waiting c w) = set (waiting_cos x)" using wt True mset_eq_setD [of "chan_waiting c w"] by simp
  ultimately show ?thesis using assms by (simp add: moves_def)
next
  case False
  then have "e \<in># mset (chan_waiting c w)" using wt by simp
  then have e: "e \<in> set (chan_waiting c w)" by simp
  then have "e \<notin> set (chan_rq c w)" "e \<noteq> d" using q s d by auto
  moreover have "set (waiting_cos x) \<subseteq> set (chan_waiting c w)"
    using arg_cong [OF wt, of set_mset] by auto
  ultimately show ?thesis using assms False e by (auto simp: moves_def joined_def)
qed

text \<open>Two calls after each other, the first of which did not block.\<close>

lemma moves_trans:
  fixes w :: "'a ch_world_scheme"
  assumes "moves STATUS_RUNNING c d w w1" "status_of w1 d = STATUS_RUNNING" "moves st c d w1 w2"
    and "set (chan_rq c w1) \<inter> set (chan_waiting c w1) = {}"
  shows "moves st c d w w2"
proof -
  have m1: "set (chan_waiting c w1) \<subseteq> set (chan_waiting c w)"
    "mset (chan_rq c w1) + mset (chan_waiting c w1) = mset (chan_rq c w) + mset (chan_waiting c w)"
    using assms(1,2) by (auto simp: moves_def)
  have "status_of w2 e = STATUS_READY" if e: "e \<in> set (chan_rq c w2) - set (chan_rq c w)" for e
  proof (cases "e \<in> set (chan_rq c w1)")
    case True
    then have "status_of w1 e = STATUS_READY" "e \<notin> set (chan_waiting c w1)"
      using e assms(1,4) by (auto simp: moves_def)
    moreover from this have "e \<noteq> d" using assms(2) by auto
    ultimately show ?thesis using assms(3) by (simp add: moves_def)
  next
    case False
    then show ?thesis using e assms(3) by (simp add: moves_def)
  qed
  moreover have "status_of w2 e = status_of w e" if "e \<noteq> d" "e \<notin> set (chan_waiting c w)" for e
  proof -
    have "e \<notin> set (chan_waiting c w1)" using that m1(1) by blast
    then show ?thesis using that assms(1,3) by (simp add: moves_def)
  qed
  moreover have "status_of w2 d = st \<and> set (chan_waiting c w2) \<subseteq> set (chan_waiting c w1) \<and>
        mset (chan_rq c w2) + mset (chan_waiting c w2) = mset (chan_rq c w1) + mset (chan_waiting c w1) \<or>
      status_of w2 d = STATUS_WAITING \<and> set (chan_waiting c w2) \<subseteq> insert d (set (chan_waiting c w1)) \<and>
        mset (chan_rq c w2) + mset (chan_waiting c w2) = add_mset d (mset (chan_rq c w1) + mset (chan_waiting c w1))"
    using assms(3) unfolding moves_def by (elim conjE)
  then have "status_of w2 d = st \<and> set (chan_waiting c w2) \<subseteq> set (chan_waiting c w) \<and>
        mset (chan_rq c w2) + mset (chan_waiting c w2) = mset (chan_rq c w) + mset (chan_waiting c w) \<or>
      status_of w2 d = STATUS_WAITING \<and> set (chan_waiting c w2) \<subseteq> insert d (set (chan_waiting c w)) \<and>
        mset (chan_rq c w2) + mset (chan_waiting c w2) = add_mset d (mset (chan_rq c w) + mset (chan_waiting c w))"
    unfolding m1(2) using m1(1) by blast
  moreover have "ch_rt (chans w2 c) = ch_rt (chans w c)" "closed (chans w2 c) = closed (chans w c)" "this_co w2 = this_co w"
    using assms(1,3) by (simp_all add: moves_def)
  ultimately show ?thesis unfolding moves_def by blast
qed

section \<open>Writing and reading\<close>

lemma waiting_status: "chan_ready c xs w \<Longrightarrow> e \<in> set (chan_waiting c w) \<Longrightarrow> status_of w e = STATUS_WAITING"
  by (auto simp: chan_ready_def plain_waiters_def waiting_cos_def)

lemma moves_w:
  fixes w :: "'a ch_world_scheme"
  assumes r: "chan_ready c xs w" and d: "status_of w d = STATUS_RUNNING"
    and q: "set (chan_rq c w) \<inter> set (chan_waiting c w) = {}" and w': "liteco_chan_w c ele w = Some (w', ok)"
  shows "if ok then moves STATUS_RUNNING c d w w' else w' = w \<and> ch_r (chans w c) = [] \<and> length xs = chan_cap (chans w c)"
proof -
  have R: "ring_abs (chans w c) xs" "\<not> closed (chans w c)" using r by (auto simp: chan_ready_def chan_ok_def)
  note s = waiting_status [OF r]
  show ?thesis
  proof (cases "ch_r (chans w c)")
    case (Cons v vs)
    let ?x = "(chans w c)\<lparr>ch_r := vs\<rparr>"
    have "mset (chan_waiting c w) = mset (waiting_cos ?x) + (if wt_co v \<noteq> liteco_ignore_awake_co then {#wt_co v#} else {#})"
      using Cons by (simp add: waiting_cos_def)
    then show ?thesis
      using w_reader [OF r Cons, of ele] w' s by (auto intro!: moves_wake [OF d q, where x = ?x and e = "wt_co v"])
  next
    case Nil
    show ?thesis
    proof (cases "length xs = chan_cap (chans w c)")
      case True
      then show ?thesis using w_blocked [OF R Nil] w' Nil by auto
    next
      case False
      then have "length xs < chan_cap (chans w c)" using rb.abs_len [OF R(1)] by simp
      from w_buffer [OF R Nil this, of ele] w' R(2) Nil show ?thesis by (auto intro!: moves_idle d)
    qed
  qed
qed

lemma moves_r:
  fixes w :: "'a ch_world_scheme"
  assumes r: "chan_ready c xs w" and d: "status_of w d = STATUS_RUNNING"
    and q: "set (chan_rq c w) \<inter> set (chan_waiting c w) = {}" and w': "liteco_chan_r l c w = Some (w', ok)"
  shows "if ok then moves STATUS_RUNNING c d w w' else w' = w \<and> ch_w (chans w c) = [] \<and> xs = []"
proof -
  have R: "ring_abs (chans w c) xs" "\<not> closed (chans w c)" using r by (auto simp: chan_ready_def chan_ok_def)
  note s = waiting_status [OF r]
  show ?thesis
  proof (cases "ch_w (chans w c)")
    case (Cons v vs)
    let ?x = "(chans w c)\<lparr>ch_w := vs\<rparr>"
    have "mset (chan_waiting c w) = mset (waiting_cos ?x) + (if wt_co v \<noteq> liteco_ignore_awake_co then {#wt_co v#} else {#})"
      using Cons by (simp add: waiting_cos_def)
    then show ?thesis
      using r_writer [OF r Cons, of l] w' s by (auto intro!: moves_wake [OF d q, where x = ?x and e = "wt_co v"])
  next
    case Nil
    show ?thesis
    proof (cases xs)
      case empty: Nil
      then show ?thesis using r_blocked [of w c l] R Nil w' by auto
    next
      case (Cons x ys)
      from r_buffer [of w c x ys l] R Nil Cons w' show ?thesis by (auto intro!: moves_idle d)
    qed
  qed
qed

section \<open>A call\<close>

fun use_call :: "chan_call \<Rightarrow> bool" where
  "use_call (Push ele b) = True"
| "use_call (Pop ret b) = True"
| "use_call (UPush ele) = True"
| "use_call (UPop ret) = True"
| "use_call Close = False"
| "use_call Destory = False"

lemma moves_store [simp]: "moves STATUS_RUNNING c d (put_store l v w) w' = moves STATUS_RUNNING c d w w'"
  by (simp add: moves_def)

lemma call_moves:
  fixes w :: "'a ch_world_scheme"
  assumes r: "chan_ready c xs w" and d: "status_of w d = STATUS_RUNNING" "this_co w = d" "d \<noteq> liteco_ignore_awake_co"
    and q: "set (chan_rq c w) \<inter> set (chan_waiting c w) = {}" and k: "use_call k" and w': "chan_do c k w = Some w'"
  shows "moves STATUS_RUNNING c d w w'"
proof -
  have o: "\<not> closed (chans w c)" "mallocs w = []" using r by (simp_all add: chan_ready_def)
  have i: "moves STATUS_RUNNING c d w w" using moves_idle [OF d(1), of w c] by simp
  have r0: "chan_ready c xs (put_store l NIL w)" for l using r by (simp add: chan_ready_def plain_waiters_def)
  have rd: "if ok then moves STATUS_RUNNING c d w w2 else w2 = put_store l NIL w \<and> ch_w (chans w c) = [] \<and> xs = []"
    if "liteco_chan_r l c (put_store l NIL w) = Some (w2, ok)" for l w2 ok
    using moves_r [OF r0 _ _ that, of d] d(1) q by (cases ok) simp_all
  have i0: "moves STATUS_RUNNING c d w (put_store l NIL w)" for l using moves_idle [OF d(1), of "put_store l NIL w" c] by simp
  show ?thesis
  proof (cases k)
    case (Push ele b)
    then obtain w2 ok where w2: "liteco_chan_w c ele w = Some (w2, ok)"
      using w' o by (auto simp: liteco_chan_push_def split: option.splits)
    note m = moves_w [OF r d(1) q w2]
    show ?thesis
    proof (cases "ok \<or> \<not> b")
      case True
      then show ?thesis using w' Push w2 o m i by (auto simp: liteco_chan_push_def split: if_splits)
    next
      case False
      then show ?thesis using w' Push w2 o m d
        by (auto simp: liteco_chan_push_def liteco_chan_wblock_def liteco_set_status_def liteco_yield_def Let_def
            put_status_more waiting_cos_def intro!: moves_block)
    qed
  next
    case (Pop l b)
    then obtain w2 ok where w2: "liteco_chan_r l c (put_store l NIL w) = Some (w2, ok)"
      using w' o by (auto simp: liteco_chan_pop_def Let_def split: option.splits)
    note m = rd [OF w2]
    show ?thesis
    proof (cases "ok \<or> \<not> b")
      case True
      then show ?thesis using w' Pop w2 o m i0 by (auto simp: liteco_chan_pop_def split: if_splits)
    next
      case False
      then show ?thesis using w' Pop w2 o m d
        by (auto simp: liteco_chan_pop_def liteco_chan_rblock_def liteco_set_status_def liteco_yield_def Let_def
            put_status_more waiting_cos_def intro!: moves_block)
    qed
  next
    case (UPush ele)
    then obtain w2 ok where w2: "liteco_chan_w c ele w = Some (w2, ok)"
      using w' o by (auto simp: liteco_chan_unenforceable_push_def split: option.splits)
    note m = moves_w [OF r d(1) q w2]
    show ?thesis
    proof (cases ok)
      case True
      then show ?thesis using w' UPush w2 o m by (simp add: liteco_chan_unenforceable_push_def)
    next
      case False
      let ?w = "upd_ch c (\<lambda>x. x\<lparr>ch_w := \<lparr>wt_co = liteco_ignore_awake_co, wt_select = False, wt_ele = ele\<rparr> # ch_w x\<rparr>) w"
      have "w' = ?w" using False w' UPush w2 o m by (simp add: liteco_chan_unenforceable_push_def Let_def)
      moreover have "chan_waiting c ?w = chan_waiting c w" by (simp add: waiting_cos_def)
      ultimately show ?thesis using d(1) by (simp add: moves_def)
    qed
  next
    case (UPop l)
    then obtain w2 ok where w2: "liteco_chan_r l c (put_store l NIL w) = Some (w2, ok)"
      using w' o by (auto simp: liteco_chan_unenforceable_pop_def split: option.splits)
    then show ?thesis using rd [OF w2] w' UPop o i0
      by (auto simp: liteco_chan_unenforceable_pop_def split: if_splits)
  qed (use k in simp_all)
qed

section \<open>The result of a call\<close>

text \<open>What a call gives to its caller: a code or a pointer; no result yet when it blocked.\<close>

datatype chan_result = Code int | Ptr addr

fun chan_run :: "addr \<Rightarrow> chan_call \<Rightarrow> 'a ch_world_scheme \<Rightarrow> ('a ch_world_scheme \<times> chan_result outcome) option" where
  "chan_run c (Push ele b) w = map_option (map_prod id (map_outcome Code)) (liteco_chan_push c ele b w)"
| "chan_run c (Pop ret b) w = map_option (map_prod id (map_outcome Ptr)) (liteco_chan_pop ret c b w)"
| "chan_run c (UPush ele) w = map_option (map_prod id (\<lambda>r. Return (Code r))) (liteco_chan_unenforceable_push c ele w)"
| "chan_run c (UPop ret) w = map_option (map_prod id (\<lambda>r. Return (Ptr r))) (liteco_chan_unenforceable_pop ret c w)"
| "chan_run c Close w = map_option (map_prod id (\<lambda>r. Return (Code r))) (liteco_chan_close c w)"
| "chan_run c Destory w = Some (map_prod id (\<lambda>r. Return (Code r)) (liteco_chan_destory c w))"

text \<open>The result of a blocked call, when its coroutine runs again.\<close>

fun chan_resumed :: "chan_call \<Rightarrow> 'a ch_world_scheme \<Rightarrow> chan_result" where
  "chan_resumed (Pop ret b) w = Ptr (snd (liteco_chan_pop_resumed ret w))"
| "chan_resumed k w = Code (snd (liteco_chan_push_resumed w))"

lemma chan_do_run: "chan_do c k w = map_option fst (chan_run c k w)"
  by (cases k) (simp_all add: option.map_comp comp_def)

lemma keeps_malloc: "malloc w = (w', ok) \<Longrightarrow> keeps_running w w'"
  by (auto simp: malloc_def keeps_running_def split: list.splits)

lemma keeps_wblock: "liteco_chan_wblock c ele s w = (w', r) \<Longrightarrow> keeps_running w w'"
  using keeps_malloc [of w] by (auto simp: liteco_chan_wblock_def split: prod.splits if_splits)

lemma keeps_rblock: "liteco_chan_rblock c l s w = (w', r) \<Longrightarrow> keeps_running w w'"
  using keeps_malloc [of w] by (auto simp: liteco_chan_rblock_def split: prod.splits if_splits)

definition same_rest :: "'a ch_world_scheme \<Rightarrow> 'a ch_world_scheme \<Rightarrow> bool" where
  "same_rest w w' \<longleftrightarrow> this_co w' = this_co w \<and> ch_world.more w' = ch_world.more w \<and>
     (\<forall>d. co_fin_st (cos w' d) = co_fin_st (cos w d))"

lemma same_trans: "same_rest u v \<Longrightarrow> same_rest v w \<Longrightarrow> same_rest u w"
  by (simp add: same_rest_def)

definition left_with :: "'a ch_world_scheme \<Rightarrow> 'a ch_world_scheme \<Rightarrow> chan_result outcome \<Rightarrow> bool" where
  "left_with w w' res \<longleftrightarrow> same_rest w w' \<and>
     status_of w' (this_co w) = (case res of Return _ \<Rightarrow> STATUS_RUNNING | Yield \<Rightarrow> STATUS_WAITING)"

lemma left_keeps:
  "keeps_running w w' \<Longrightarrow> status_of w (this_co w) = STATUS_RUNNING \<Longrightarrow> left_with w w' (Return r)"
  by (simp add: left_with_def same_rest_def keeps_running_def)

lemma left_blocks:
  assumes "keeps_running w w1" "status_of w (this_co w) = STATUS_RUNNING"
    and "liteco_set_status (this_co w1) STATUS_RUNNING STATUS_WAITING w1 = Some w2"
  shows "left_with w (liteco_yield w2) Yield"
  using assms
  by (auto simp: left_with_def same_rest_def keeps_running_def liteco_set_status_def liteco_yield_def Let_def split: if_splits)

lemma call_left:
  fixes w :: "'a ch_world_scheme"
  assumes run: "status_of w (this_co w) = STATUS_RUNNING" and k: "use_call k" and w': "chan_run c k w = Some (w', res)"
  shows "left_with w w' res"
proof (cases k)
  case (Push ele b)
  show ?thesis
  proof (cases "closed (chans w c)")
    case False
    then obtain w1 ok where w1: "liteco_chan_w c ele w = Some (w1, ok)"
      using w' Push by (auto simp: liteco_chan_push_def split: option.splits)
    obtain w2 r where w2: "liteco_chan_wblock c ele False w1 = (w2, r)" by force
    note ks = keeps_w [OF w1] keeps_trans [OF keeps_w [OF w1] keeps_wblock [OF w2]]
    show ?thesis using w' Push False w1 w2 left_keeps [OF ks(1) run] left_blocks [OF ks(2) run]
      by (auto simp: liteco_chan_push_def split: bool.splits if_splits)
  qed (use w' Push run left_keeps [of w w] in \<open>auto simp: liteco_chan_push_def\<close>)
next
  case (Pop l b)
  show ?thesis
  proof (cases "closed (chans w c)")
    case False
    then obtain w1 ok where w1: "liteco_chan_r l c (put_store l NIL w) = Some (w1, ok)"
      using w' Pop by (auto simp: liteco_chan_pop_def Let_def split: option.splits)
    obtain w2 r where w2: "liteco_chan_rblock c l False w1 = (w2, r)" by force
    have k1: "keeps_running w w1" using keeps_r [OF w1] by simp
    note ks = k1 keeps_trans [OF k1 keeps_rblock [OF w2]]
    show ?thesis using w' Pop False w1 w2 left_keeps [OF ks(1) run] left_blocks [OF ks(2) run]
      by (auto simp: liteco_chan_pop_def split: bool.splits if_splits)
  qed (use w' Pop run left_keeps [of w w] in \<open>auto simp: liteco_chan_pop_def\<close>)
next
  case (UPush ele)
  show ?thesis
  proof (cases "closed (chans w c)")
    case False
    then obtain w1 ok where w1: "liteco_chan_w c ele w = Some (w1, ok)"
      using w' UPush by (auto simp: liteco_chan_unenforceable_push_def split: option.splits)
    obtain w2 m where w2: "malloc w1 = (w2, m)" by force
    note ks = keeps_w [OF w1] keeps_trans [OF keeps_w [OF w1] keeps_malloc [OF w2]]
    show ?thesis using w' UPush False w1 w2 left_keeps [OF ks(1) run]
        left_keeps [of w "upd_ch c _ w2", OF _ run] left_keeps [OF ks(2) run] ks(2)
      by (auto simp: liteco_chan_unenforceable_push_def split: bool.splits if_splits)
  qed (use w' UPush run left_keeps [of w w] in \<open>auto simp: liteco_chan_unenforceable_push_def\<close>)
next
  case (UPop l)
  show ?thesis
  proof (cases "closed (chans w c)")
    case False
    then obtain w1 ok where w1: "liteco_chan_r l c (put_store l NIL w) = Some (w1, ok)"
      using w' UPop by (auto simp: liteco_chan_unenforceable_pop_def split: option.splits)
    have "keeps_running w w1" using keeps_r [OF w1] by simp
    from left_keeps [OF this run] show ?thesis
      using w' UPop False w1 by (auto simp: liteco_chan_unenforceable_pop_def)
  qed (use w' UPop run left_keeps [of w w] in \<open>auto simp: liteco_chan_unenforceable_pop_def\<close>)
qed (use k in simp_all)

text \<open>All about a call of a running coroutine on an open channel.\<close>

lemma call_run:
  fixes w :: "'a ch_world_scheme"
  assumes r: "chan_ready c xs w" and d: "this_co w = d" "status_of w d = STATUS_RUNNING" "d \<noteq> liteco_ignore_awake_co"
    and q: "set (chan_rq c w) \<inter> set (chan_waiting c w) = {}" and k: "use_call k"
  shows "\<exists>w' res ys. chan_run c k w = Some (w', res) \<and> chan_ready c ys w' \<and> moves STATUS_RUNNING c d w w' \<and> left_with w w' res"
proof -
  have "chan_wf c w" using r by (auto simp: chan_wf_def)
  from call_good [OF this d, of k] obtain w' res where
    w': "chan_run c k w = Some (w', res)" "chan_wf c w'" by (auto simp: good_call_def chan_do_run)
  have m: "moves STATUS_RUNNING c d w w'"
    using call_moves [OF r d(2,1,3) q k] w'(1) by (simp add: chan_do_run)
  have "\<not> closed (chans w' c)" using m r by (simp add: moves_def chan_ready_def)
  then obtain ys where "chan_ready c ys w'" using w'(2) by (auto simp: chan_wf_def)
  then show ?thesis using w'(1) m call_left [OF _ k w'(1)] d by auto
qed

end
