(* ===== verification/Channel_Pass.thy ===== *)
theory Channel_Pass
  imports Channel_Moves
begin

text \<open>
  Channels on a runtime. The coroutines of a runtime run programs that push to and pop from a channel
  of that runtime, yield, and return; a call that does not block returns into the program, one that
  blocks is resumed with its result. \<open>liteco_runtime_cb\<close> takes the coroutines out of the queue while
  their calls put others into it. The theory shows that finite programs are run to their end, with no
  coroutine lost or in two places, and that two programs without an end keep a pass busy for ever.
\<close>

section \<open>Programs\<close>

text \<open>What a coroutine still does: it returns, yields, or makes a call and goes on with the result.
  A program may be infinite.\<close>

codatatype prog = Done int | Give prog | Do chan_call "chan_result \<Rightarrow> prog"

text \<open>What a coroutine that does not run is about to do: a program, or the rest of a call that blocked.\<close>

datatype saved = Fresh prog | Blocked chan_call "chan_result \<Rightarrow> prog"

record prog_world = ch_world +
  progs :: "addr \<Rightarrow> saved"

definition put_prog :: "addr \<Rightarrow> saved \<Rightarrow> 'a prog_world_scheme \<Rightarrow> 'a prog_world_scheme" where
  "put_prog d s w = w\<lparr>progs := (progs w)(d := s)\<rparr>"

text \<open>A program runs until it returns, yields or blocks.\<close>

partial_function (option) prog_run ::
    "addr \<Rightarrow> addr \<Rightarrow> prog \<Rightarrow> 'a prog_world_scheme \<Rightarrow> ('a prog_world_scheme \<times> int option) option" where
  "prog_run c d p w =
     (case p of
        Done r \<Rightarrow> Some (w, Some r)
      | Give q \<Rightarrow> Some (put_prog d (Fresh q) w, None)
      | Do k f \<Rightarrow>
          (case chan_run c k w of
             None \<Rightarrow> None
           | Some (w1, Return x) \<Rightarrow> prog_run c d (f x) w1
           | Some (w1, Yield) \<Rightarrow> Some (put_prog d (Blocked k f) w1, None)))"

definition prog_seg :: "addr \<Rightarrow> 'a prog_world_scheme segment" where
  "prog_seg c d w =
     (case progs w d of
        Fresh p \<Rightarrow> prog_run c d p w
      | Blocked k f \<Rightarrow> prog_run c d (f (chan_resumed k w)) w)"

section \<open>Finite programs\<close>

text \<open>Programs whose every run ends, and which only push and pop.\<close>

inductive ends :: "prog \<Rightarrow> bool" where
  ends_done: "ends (Done r)"
| ends_give: "ends p \<Longrightarrow> ends (Give p)"
| ends_do: "use_call k \<Longrightarrow> (\<And>x. ends (f x)) \<Longrightarrow> ends (Do k f)"

inductive_cases ends_doE: "ends (Do k f)"

inductive_simps ends_simps [simp]: "ends (Done r)" "ends (Give p)"

definition after :: "(prog \<times> prog) set" where
  "after = {(q, p). ends p \<and> (p = Give q \<or> (\<exists>k f x. p = Do k f \<and> q = f x))}"

lemma wf_after: "wf after"
proof (rule wfUNIVI)
  fix P :: "prog \<Rightarrow> bool" and p
  assume step: "\<forall>p. (\<forall>q. (q, p) \<in> after \<longrightarrow> P q) \<longrightarrow> P p"
  show "P p"
  proof (cases "ends p")
    case True
    then show ?thesis by induction (rule step [rule_format], auto simp: after_def)+
  next
    case False
    then show ?thesis using step by (auto simp: after_def)
  qed
qed

text \<open>The rank of a coroutine: the work that is left, with a step more before a program is started.\<close>

definition rank :: "saved \<Rightarrow> prog" where
  "rank s = (case s of Fresh p \<Rightarrow> Give p | Blocked k f \<Rightarrow> Do k f)"

definition below :: "(prog multiset \<times> prog multiset) set" where
  "below = mult (after\<^sup>+)"

lemma wf_below: "wf below"
  by (simp add: below_def wf_mult wf_after wf_trancl)

lemma below_trans: "(a, b) \<in> below \<Longrightarrow> (b, d) \<in> below \<Longrightarrow> (a, d) \<in> below"
  unfolding below_def mult_def by (rule trancl_trans)

section \<open>Reading the world\<close>

lemma put_prog_fields [simp]:
  "progs (put_prog d s w) e = (if e = d then s else progs w e)"
  "chans (put_prog d s w) = chans w" "stores (put_prog d s w) = stores w" "rts (put_prog d s w) = rts w"
  "cos (put_prog d s w) = cos w" "this_co (put_prog d s w) = this_co w" "mallocs (put_prog d s w) = mallocs w"
  by (simp_all add: put_prog_def)

lemma put_prog_signal [simp]: "can_signal rt (put_prog d s w) = can_signal rt w"
  by (simp add: put_prog_def can_signal_def rt_pending_def)

lemma put_prog_ready [simp]: "chan_ready c xs (put_prog d s w) = chan_ready c xs w"
  by (simp add: chan_ready_def plain_waiters_def)

lemma put_prog_moves [simp]: "moves st c e w (put_prog d s w') = moves st c e w w'"
  by (simp add: moves_def)

lemma more_progs: "ch_world.more w' = ch_world.more w \<Longrightarrow> progs w' = progs w"
  by (cases w; cases w') auto

text \<open>What a turn of the coroutine \<open>d\<close> leaves of the other coroutines.\<close>

definition others_kept :: "addr \<Rightarrow> 'a prog_world_scheme \<Rightarrow> 'a prog_world_scheme \<Rightarrow> bool" where
  "others_kept d w w' \<longleftrightarrow> (\<forall>e. e \<noteq> d \<longrightarrow> progs w' e = progs w e) \<and> (\<forall>e. co_fin_st (cos w' e) = co_fin_st (cos w e))"

section \<open>A run of a program\<close>

text \<open>The coroutine returns, or it yields or blocks with a smaller rank.\<close>

definition run_left :: "addr \<Rightarrow> prog \<Rightarrow> 'a prog_world_scheme \<Rightarrow> int option \<Rightarrow> bool" where
  "run_left d p w r \<longleftrightarrow> (case r of
       Some x \<Rightarrow> status_of w d = STATUS_RUNNING
     | None \<Rightarrow> ends (rank (progs w d)) \<and> (rank (progs w d), p) \<in> after\<^sup>*)"

lemma apart_after:
  assumes "distinct (chan_rq c w @ chan_waiting c w)" "moves STATUS_RUNNING c d w w'" "status_of w' d = STATUS_RUNNING"
  shows "distinct (chan_rq c w' @ chan_waiting c w')"
proof -
  have "mset (chan_rq c w' @ chan_waiting c w') = mset (chan_rq c w @ chan_waiting c w)"
    using assms(2,3) by (auto simp: moves_def)
  then show ?thesis using assms(1) mset_eq_imp_distinct_iff by blast
qed

lemma prog_run_spec:
  fixes w :: "'a prog_world_scheme"
  assumes "ends p" "chan_ready c xs w" "this_co w = d" "status_of w d = STATUS_RUNNING" "d \<noteq> liteco_ignore_awake_co"
    and "distinct (chan_rq c w @ chan_waiting c w)"
  shows "\<exists>w' r ys. prog_run c d p w = Some (w', r) \<and> chan_ready c ys w' \<and> this_co w' = d \<and>
    moves STATUS_RUNNING c d w w' \<and> others_kept d w w' \<and> run_left d p w' r"
  using assms
proof (induction arbitrary: w xs)
  case (ends_done r)
  then show ?case
    using moves_idle [OF ends_done.prems(3), of w c]
    by (simp add: prog_run.simps others_kept_def run_left_def) blast
next
  case (ends_give p)
  then show ?case
    using moves_idle [OF ends_give.prems(3), of w c]
    by (simp add: prog_run.simps [of _ _ "Give p"] others_kept_def run_left_def rank_def) blast
next
  case (ends_do k f)
  have "set (chan_rq c w) \<inter> set (chan_waiting c w) = {}" using ends_do.prems(5) by simp
  from call_run [OF ends_do.prems(1,2,3,4) this ends_do.hyps(1)] obtain w1 res ys where
    w1: "chan_run c k w = Some (w1, res)" "chan_ready c ys w1" "moves STATUS_RUNNING c d w w1" "left_with w w1 res" by blast
  have s: "this_co w1 = d" "progs w1 = progs w" "\<forall>e. co_fin_st (cos w1 e) = co_fin_st (cos w e)"
    using w1(4) ends_do.prems(2) by (auto simp: left_with_def same_rest_def intro: more_progs)
  have e: "ends (Do k f)" using ends_do.hyps by (auto intro: ends.intros)
  show ?case
  proof (cases res)
    case (Return x)
    have run: "status_of w1 d = STATUS_RUNNING"
      using w1(4) Return ends_do.prems(2) by (simp add: left_with_def)
    note D = apart_after [OF ends_do.prems(5) w1(3) run]
    from ends_do.IH [OF w1(2) s(1) run ends_do.prems(4) D, of x] obtain w' r zs where
      w': "prog_run c d (f x) w1 = Some (w', r)" "chan_ready c zs w'" "this_co w' = d"
        "moves STATUS_RUNNING c d w1 w'" "others_kept d w1 w'" "run_left d (f x) w' r" by blast
    have "prog_run c d (Do k f) w = Some (w', r)" using w1(1) Return w'(1) by (subst prog_run.simps) simp
    moreover have "moves STATUS_RUNNING c d w w'" using moves_trans [OF w1(3) run w'(4)] D by simp
    moreover have "others_kept d w w'" using w'(5) s(2,3) by (simp add: others_kept_def)
    moreover have "(f x, Do k f) \<in> after" using e by (auto simp: after_def)
    then have "run_left d (Do k f) w' r"
      using w'(6) by (auto simp: run_left_def split: option.splits intro: rtrancl_into_rtrancl)
    ultimately show ?thesis using w'(2,3) by blast
  next
    case Yield
    have "prog_run c d (Do k f) w = Some (put_prog d (Blocked k f) w1, None)"
      using w1(1) Yield by (subst prog_run.simps) simp
    moreover have "others_kept d w (put_prog d (Blocked k f) w1)" using s by (simp add: others_kept_def)
    moreover have "run_left d (Do k f) (put_prog d (Blocked k f) w1) None" using e by (simp add: run_left_def rank_def)
    ultimately show ?thesis using w1(2,3) s(1) by (intro exI [of _ "put_prog d (Blocked k f) w1"] exI) simp
  qed
qed

section \<open>A turn\<close>

definition fit :: "'a prog_world_scheme \<Rightarrow> addr \<Rightarrow> bool" where
  "fit w d \<longleftrightarrow> d \<noteq> NIL \<and> d \<noteq> liteco_ignore_awake_co \<and> status_of w d \<in> {STATUS_STARTING, STATUS_READY}"

text \<open>The program of a coroutine is finite, and no finish callback is registered.\<close>

definition finite_co :: "'a prog_world_scheme \<Rightarrow> addr \<Rightarrow> bool" where
  "finite_co w d \<longleftrightarrow> ends (rank (progs w d)) \<and> co_fin_st (cos w d) = []"

lemma entered_ch [simp]:
  "chans (entered d w) = chans w" "rts (entered d w) = rts w" "stores (entered d w) = stores w"
  "progs (entered d w) = progs w"
  by (simp_all add: entered_def upd_co_def)

lemma ready_set_rq [simp]: "chan_ready c xs (set_rq rt q w) = chan_ready c xs w"
  by (simp add: chan_ready_def plain_waiters_def can_signal_def rt_pending_def)

text \<open>The segment of a coroutine, from where it was.\<close>

lemma seg_spec:
  fixes w :: "'a prog_world_scheme"
  assumes "finite_co w d" "chan_ready c xs w" "this_co w = d" "status_of w d = STATUS_RUNNING" "d \<noteq> liteco_ignore_awake_co"
    and "distinct (chan_rq c w @ chan_waiting c w)"
  shows "\<exists>w' r ys. prog_seg c d w = Some (w', r) \<and> chan_ready c ys w' \<and> this_co w' = d \<and>
    moves STATUS_RUNNING c d w w' \<and> others_kept d w w' \<and>
    (case r of Some x \<Rightarrow> status_of w' d = STATUS_RUNNING
     | None \<Rightarrow> ends (rank (progs w' d)) \<and> (rank (progs w' d), rank (progs w d)) \<in> after\<^sup>+)"
proof -
  obtain p where p: "prog_seg c d w = prog_run c d p w" "(p, rank (progs w d)) \<in> after" "ends p"
  proof (cases "progs w d")
    case (Fresh q)
    then have "ends (Give q)" using assms(1) by (simp add: finite_co_def rank_def)
    then show ?thesis using that [of q] Fresh by (auto simp: prog_seg_def rank_def after_def)
  next
    case (Blocked k f)
    then have e: "ends (Do k f)" using assms(1) by (simp add: finite_co_def rank_def)
    then have "ends (f x)" for x by (auto elim: ends_doE)
    then show ?thesis using that [of "f (chan_resumed k w)"] Blocked e by (auto simp: prog_seg_def rank_def after_def)
  qed
  from prog_run_spec [OF p(3) assms(2-)] obtain w' r ys where
    w': "prog_run c d p w = Some (w', r)" "chan_ready c ys w'" "this_co w' = d" "moves STATUS_RUNNING c d w w'"
      "others_kept d w w'" "run_left d p w' r" by blast
  have "case r of Some x \<Rightarrow> status_of w' d = STATUS_RUNNING
     | None \<Rightarrow> ends (rank (progs w' d)) \<and> (rank (progs w' d), rank (progs w d)) \<in> after\<^sup>+"
    using w'(6) p(2) by (auto simp: run_left_def split: option.splits intro: rtrancl_into_trancl1)
  then show ?thesis using p(1) w' by auto
qed

text \<open>Afterwards the coroutine is ready and everything else is where it was, but for coroutines
  that were woken; or the coroutine waits; or it has returned.\<close>

definition turn_left :: "addr \<Rightarrow> 'a prog_world_scheme \<Rightarrow> 'a prog_world_scheme \<Rightarrow> bool" where
  "turn_left d w w' \<longleftrightarrow> status_of w' d \<noteq> STATUS_TERMINATE \<longrightarrow>
     ends (rank (progs w' d)) \<and> (rank (progs w' d), rank (progs w d)) \<in> after\<^sup>+"

lemma resume_moves:
  fixes w :: "'a prog_world_scheme"
  assumes r: "chan_ready c xs w" and f: "fit w d" and k: "finite_co w d"
    and q: "distinct (chan_rq c w @ chan_waiting c w)"
  shows "\<exists>w2 st ys. liteco_resume (prog_seg c) fin d w = Some (w2, st) \<and> chan_ready c ys w2 \<and>
    (moves STATUS_READY c d w w2 \<or> moves STATUS_TERMINATE c d w w2) \<and> others_kept d w w2 \<and> turn_left d w w2"
proof -
  let ?e = "entered d w"
  have st: "status_of w d \<noteq> STATUS_WAITING" "d \<noteq> liteco_ignore_awake_co" "status_of w d \<in> {STATUS_STARTING, STATUS_READY}"
    using f by (auto simp: fit_def)
  have e: "finite_co ?e d" "this_co ?e = d" "status_of ?e d = STATUS_RUNNING" "progs ?e = progs w"
    "distinct (chan_rq c ?e @ chan_waiting c ?e)"
    using k q by (simp_all add: finite_co_def)
  from seg_spec [OF e(1) wf_entered(2) [OF st(1) r] e(2,3) st(2) e(5)] obtain w1 res ys where
    w1: "prog_seg c d ?e = Some (w1, res)" "chan_ready c ys w1" "this_co w1 = d" "moves STATUS_RUNNING c d ?e w1"
      "others_kept d ?e w1" "case res of Some x \<Rightarrow> status_of w1 d = STATUS_RUNNING
     | None \<Rightarrow> ends (rank (progs w1 d)) \<and> (rank (progs w1 d), rank (progs w d)) \<in> after\<^sup>+"
    unfolding e(4) by blast
  have s1: "status_of w1 d \<in> {STATUS_RUNNING, STATUS_WAITING}" using w1(4) by (auto simp: moves_def)
  show ?thesis
  proof (cases res)
    case None
    let ?w2 = "(liteco_yield w1)\<lparr>this_co := this_co w\<rparr>"
    have y: "liteco_yield w1 = (if status_of w1 d = STATUS_RUNNING then put_status d STATUS_READY w1 else w1)"
      using w1(3) s1 by (auto simp: liteco_yield_def Let_def)
    have "status_of ?w2 d \<noteq> STATUS_TERMINATE" using s1 by (auto simp: y)
    then have "liteco_resume (prog_seg c) fin d w = Some (?w2, status_of ?w2 d)"
      using st(3) w1(1) None by (auto simp: resume_alt liteco_run_def Let_def)
    moreover have "chan_ready c ys ?w2"
      using w1(2) s1 by (auto simp: y put_status_more intro!: ready_status [of c ys w1 d])
    moreover have "moves STATUS_READY c d w ?w2"
      using w1(4) s1 by (auto simp: moves_def y put_status_more)
    moreover have p: "progs ?w2 = progs w1" by (simp add: y put_status_def upd_co_def)
    have "others_kept d w ?w2" using w1(5) p by (simp add: others_kept_def y)
    moreover have "turn_left d w ?w2" using w1(6) None p by (simp add: turn_left_def)
    ultimately show ?thesis by blast
  next
    case (Some x)
    then have run: "status_of w1 d = STATUS_RUNNING" using w1(6) by simp
    let ?w2 = "(put_status d STATUS_TERMINATE (upd_co d (\<lambda>y. y\<lparr>co_ret := x\<rparr>) w1))\<lparr>this_co := this_co w\<rparr>"
    have fin: "co_fin_st (cos ?w2 d) = []" using k w1(5) by (simp add: others_kept_def finite_co_def)
    have "liteco_resume (prog_seg c) fin d w = Some (?w2, STATUS_TERMINATE)"
      using st(3) w1(1,3) Some run fin
      by (auto simp: resume_alt liteco_run_def liteco_set_status_def liteco_yield_def run_finished.simps Let_def)
    moreover have "chan_ready c ys ?w2"
      using w1(2) run
      by (auto intro!: ready_status [of c ys w1 d] simp: can_signal_def rt_pending_def put_status_more upd_co_def)
    moreover have "moves STATUS_TERMINATE c d w ?w2"
      using w1(4) run by (auto simp: moves_def put_status_def upd_co_def)
    moreover have "others_kept d w ?w2" using w1(5) by (simp add: others_kept_def put_status_def upd_co_def)
    ultimately show ?thesis by (auto simp: turn_left_def)
  qed
qed

section \<open>The loop of a pass\<close>

text \<open>The state of the first loop: the coroutines in the queue, in the list \<open>again\<close> and waiting are
  different from each other, and those that are not waiting can be resumed.\<close>

definition pass_ok :: "addr \<Rightarrow> addr list \<Rightarrow> 'a prog_world_scheme \<Rightarrow> bool" where
  "pass_ok c again w \<longleftrightarrow> (\<exists>xs. chan_ready c xs w) \<and> distinct (chan_rq c w @ again @ chan_waiting c w) \<and>
     (\<forall>d\<in>set (chan_rq c w). fit w d) \<and> (\<forall>d\<in>set again. fit w d \<and> status_of w d = STATUS_READY) \<and>
     NIL \<notin> set (chan_waiting c w) \<and> (\<forall>d\<in>set (chan_rq c w @ again @ chan_waiting c w). finite_co w d)"

definition pass_places :: "addr \<Rightarrow> addr list \<Rightarrow> 'a prog_world_scheme \<Rightarrow> addr multiset" where
  "pass_places c again w = mset (chan_rq c w) + mset again + mset (chan_waiting c w)"

definition pass_load :: "addr \<Rightarrow> addr list \<Rightarrow> 'a prog_world_scheme \<Rightarrow> prog multiset" where
  "pass_load c again w = image_mset (\<lambda>d. rank (progs w d)) (pass_places c again w)"

text \<open>Where a coroutine goes after its turn.\<close>

definition again_after :: "'a prog_world_scheme \<Rightarrow> addr \<Rightarrow> addr list \<Rightarrow> addr list" where
  "again_after w d again = (if status_of w d = STATUS_READY then again @ [d] else again)"

definition gone :: "'a prog_world_scheme \<Rightarrow> addr \<Rightarrow> addr multiset" where
  "gone w d = (if status_of w d = STATUS_TERMINATE then {#d#} else {#})"

lemma not_ignored: "e \<in> set (waiting_cos x) \<Longrightarrow> e \<noteq> liteco_ignore_awake_co"
  by (auto simp: waiting_cos_def)

lemma pass_places_set: "set_mset (pass_places c again w) = set (chan_rq c w @ again @ chan_waiting c w)"
  by (simp add: pass_places_def Un_assoc)

lemma moves_places:
  fixes w :: "'a prog_world_scheme"
  assumes m: "moves STATUS_READY c d (set_rq (ch_rt (chans w c)) q w) w2 \<or> moves STATUS_TERMINATE c d (set_rq (ch_rt (chans w c)) q w) w2"
    and "chan_rq c w = d # q"
  shows "pass_places c (again_after w2 d again) w2 + gone w2 d = pass_places c again w \<and>
    set (chan_rq c w2) \<union> set (chan_waiting c w2) \<subseteq> insert d (set q \<union> set (chan_waiting c w))"
proof -
  let ?s = "mset (chan_rq c w2) + mset (chan_waiting c w2)" and ?t = "mset q + mset (chan_waiting c w)"
  have "(status_of w2 d = STATUS_READY \<or> status_of w2 d = STATUS_TERMINATE) \<and> ?s = ?t \<or>
      status_of w2 d = STATUS_WAITING \<and> ?s = add_mset d ?t"
    using m by (auto simp: moves_def)
  moreover from this have "set_mset ?s \<subseteq> insert d (set_mset ?t)"
    by (elim disjE conjE) (simp_all only: set_mset_add_mset_insert, blast+)
  ultimately show ?thesis using assms(2)
    by (auto simp: pass_places_def again_after_def gone_def ac_simps)
qed

lemma pass_ok_places:
  "pass_ok c again w \<longleftrightarrow> (\<exists>xs. chan_ready c xs w) \<and> (\<forall>d. count (pass_places c again w) d \<le> 1) \<and>
     (\<forall>d\<in>set (chan_rq c w). fit w d) \<and> (\<forall>d\<in>set again. fit w d \<and> status_of w d = STATUS_READY) \<and>
     NIL \<notin> set (chan_waiting c w) \<and> (\<forall>d\<in>#pass_places c again w. finite_co w d)"
proof -
  have "distinct xs \<longleftrightarrow> (\<forall>d. count (mset xs) d \<le> 1)" for xs :: "addr list"
    by (auto simp: distinct_count_atmost_1 count_mset_0_iff le_Suc_eq not_in_iff)
  from this [of "chan_rq c w @ again @ chan_waiting c w"]
  show ?thesis unfolding pass_ok_def pass_places_set by (simp add: pass_places_def add.assoc)
qed

text \<open>The load gets smaller: the coroutine left, or it has less to do.\<close>

lemma load_less:
  assumes "P2 + gone w2 d = P" "d \<in># P" "count P d \<le> 1" "others_kept d w w2" "turn_left d w w2"
  shows "(image_mset (\<lambda>e. rank (progs w2 e)) P2, image_mset (\<lambda>e. rank (progs w e)) P) \<in> below"
proof -
  obtain M where M: "P = add_mset d M" using assms(2) by (metis insert_DiffM)
  then have "d \<notin># M" using assms(3) by (simp add: not_in_iff)
  then have i: "image_mset (\<lambda>e. rank (progs w2 e)) M = image_mset (\<lambda>e. rank (progs w e)) M"
    using assms(4) by (intro image_mset_cong) (auto simp: others_kept_def)
  have "(image_mset (\<lambda>e. rank (progs w2 e)) P2, image_mset (\<lambda>e. rank (progs w e)) P) \<in> mult1 (after\<^sup>+)"
  proof (cases "status_of w2 d = STATUS_TERMINATE")
    case True
    then have "P2 = M" using assms(1) M by (simp add: gone_def)
    then show ?thesis using i M
      by (intro mult1I [of _ "rank (progs w d)" "image_mset (\<lambda>e. rank (progs w e)) M" _ "{#}"]) simp_all
  next
    case False
    then have "P2 = add_mset d M" "(rank (progs w2 d), rank (progs w d)) \<in> after\<^sup>+"
      using assms(1,5) M by (simp_all add: gone_def turn_left_def)
    then show ?thesis using i M
      by (intro mult1I [of _ "rank (progs w d)" "image_mset (\<lambda>e. rank (progs w e)) M" _ "{#rank (progs w2 d)#}"]) simp_all
  qed
  then show ?thesis by (auto simp: below_def mult_def)
qed

lemma pass_step:
  fixes w :: "'a prog_world_scheme"
  assumes ok: "pass_ok c again w" and hd: "chan_rq c w = d # q"
  shows "\<exists>w2 st. liteco_resume (prog_seg c) fin d (set_rq (ch_rt (chans w c)) q w) = Some (w2, st) \<and>
    pass_ok c (again_after w2 d again) w2 \<and>
    pass_places c (again_after w2 d again) w2 + gone w2 d = pass_places c again w \<and>
    (pass_load c (again_after w2 d again) w2, pass_load c again w) \<in> below \<and> ch_rt (chans w2 c) = ch_rt (chans w c) \<and>
    (\<forall>e. e \<notin># pass_places c again w \<longrightarrow> status_of w2 e = status_of w e)"
proof -
  let ?w = "set_rq (ch_rt (chans w c)) q w" and ?a = "\<lambda>w2. again_after w2 d again"
  obtain xs where r: "chan_ready c xs ?w" using ok by (auto simp: pass_ok_def)
  have D: "distinct (d # q @ again @ chan_waiting c w)" "NIL \<notin> set (chan_waiting c w)"
    and F: "\<forall>e\<in>set (d # q). fit w e" "\<forall>e\<in>set again. fit w e \<and> status_of w e = STATUS_READY"
    and K: "\<forall>e\<in>#pass_places c again w. finite_co w e" "\<forall>e. count (pass_places c again w) e \<le> 1"
    using ok hd pass_ok_places [of c again w] by (auto simp: pass_ok_def)
  have dp: "d \<in># pass_places c again w" using hd by (simp add: pass_places_def)
  have pg: "progs ?w = progs w" by (simp add: set_rq_def)
  have "fit ?w d" "finite_co ?w d" using F(1) K(1) dp pg by (simp_all add: fit_def finite_co_def)
  moreover have "distinct (chan_rq c ?w @ chan_waiting c ?w)" using D(1) by auto
  ultimately obtain w2 st ys where
    w2: "liteco_resume (prog_seg c) fin d ?w = Some (w2, st)" "chan_ready c ys w2"
      "moves STATUS_READY c d ?w w2 \<or> moves STATUS_TERMINATE c d ?w w2" "others_kept d ?w w2" "turn_left d ?w w2"
    using resume_moves [OF r, of d fin] by blast
  have ok2: "others_kept d w w2" "turn_left d w w2" using w2(4,5) pg by (simp_all add: others_kept_def turn_left_def)
  note P = moves_places [OF w2(3) hd, of again]
  have same: "status_of w2 e = status_of w e" if "e \<noteq> d" "e \<notin> set (chan_waiting c w)" for e
    using that w2(3) by (auto simp: moves_def)
  have "fit w2 e" if e: "e \<in> set (chan_rq c w2)" for e
  proof (cases "e \<in> set q")
    case True
    then have "e \<noteq> d" "e \<notin> set (chan_waiting c w)" "fit w e" using F(1) D(1) by auto
    then show ?thesis using same [of e] by (simp add: fit_def)
  next
    case False
    then have "status_of w2 e = STATUS_READY" using e w2(3) by (auto simp: moves_def)
    moreover have "e = d \<or> e \<in> set (chan_waiting c w)" using P e False by blast
    then have "e \<noteq> NIL" "e \<noteq> liteco_ignore_awake_co"
      using F(1) D(2) not_ignored [of e] by (metis fit_def list.set_intros(1))+
    ultimately show ?thesis by (simp add: fit_def)
  qed
  moreover have "fit w2 e \<and> status_of w2 e = STATUS_READY" if e: "e \<in> set (?a w2)" for e
  proof (cases "e = d")
    case True
    then have "status_of w2 d = STATUS_READY" using e D(1) by (auto simp: again_after_def split: if_splits)
    then show ?thesis using True F(1) by (simp add: fit_def)
  next
    case False
    then have "e \<in> set again" using e by (auto simp: again_after_def split: if_splits)
    moreover from this have "e \<notin> set (chan_waiting c w)" "fit w e" "status_of w e = STATUS_READY" using F(2) D(1) by auto
    ultimately show ?thesis using same [of e] False by (simp add: fit_def)
  qed
  moreover have "NIL \<notin> set (chan_waiting c w2)" using P D(2) F(1) by (auto simp: fit_def)
  moreover have "finite_co w2 e" if e: "e \<in># pass_places c (?a w2) w2" for e
  proof -
    have e1: "e \<in># pass_places c again w" using e P by (metis union_iff)
    show ?thesis
    proof (cases "e = d")
      case True
      have "status_of w2 d \<noteq> STATUS_TERMINATE"
      proof
        assume "status_of w2 d = STATUS_TERMINATE"
        then have "pass_places c again w = add_mset d (pass_places c (?a w2) w2)" using P by (simp add: gone_def)
        then have "count (pass_places c again w) d \<ge> 2" using e True by (simp add: Suc_le_eq)
        then show False using K(2) [rule_format, of d] by simp
      qed
      then show ?thesis using ok2 K(1) dp True by (simp add: finite_co_def others_kept_def turn_left_def)
    next
      case False
      then show ?thesis using ok2(1) K(1) e1 by (simp add: finite_co_def others_kept_def)
    qed
  qed
  moreover have "count (pass_places c (?a w2) w2) e \<le> 1" for e
    using P K(2) [rule_format, of e] by (metis count_union le_add1 le_trans)
  ultimately have "pass_ok c (?a w2) w2" using w2(2) by (auto simp: pass_ok_places)
  moreover have "(pass_load c (?a w2) w2, pass_load c again w) \<in> below"
    unfolding pass_load_def using P dp K(2) ok2 by (intro load_less) auto
  moreover have "ch_rt (chans w2 c) = ch_rt (chans w c)" using w2(3) by (auto simp: moves_def)
  moreover have "\<forall>e. e \<notin># pass_places c again w \<longrightarrow> status_of w2 e = status_of w e"
    using same dp unfolding pass_places_set by (metis Un_iff set_append)
  ultimately show ?thesis using w2(1) P by blast
qed

lemma pass_loop:
  fixes w :: "'a prog_world_scheme"
  assumes "pass_ok c again w" "ch_rt (chans w c) = rt"
  shows "\<exists>w' again' zs. runtime_run_loop (prog_seg c) fin rt again w = Some (w', again') \<and>
    pass_ok c again' w' \<and> rq (rts w' rt) = [] \<and> pass_places c again' w' + zs = pass_places c again w \<and>
    (\<forall>z\<in>#zs. status_of w' z = STATUS_TERMINATE) \<and> ch_rt (chans w' c) = rt \<and>
    (\<forall>e. e \<notin># pass_places c again w \<longrightarrow> status_of w' e = status_of w e) \<and>
    (rq (rts w rt) = [] \<or> (pass_load c again' w', pass_load c again w) \<in> below)"
  using assms
proof (induction "pass_load c again w" arbitrary: again w rule: wf_induct_rule [OF wf_below])
  case less: 1
  show ?case
  proof (cases "chan_rq c w")
    case Nil
    then show ?thesis using less.prems
      by (intro exI [of _ w] exI [of _ again] exI [of _ "{#}"]) (simp add: runtime_run_loop.simps liteco_runtime_pop_def)
  next
    case (Cons d q)
    from pass_step [OF less.prems(1) Cons, of fin] obtain w2 st where
      w2: "liteco_resume (prog_seg c) fin d (set_rq rt q w) = Some (w2, st)"
        "pass_ok c (again_after w2 d again) w2"
        "pass_places c (again_after w2 d again) w2 + gone w2 d = pass_places c again w"
        "(pass_load c (again_after w2 d again) w2, pass_load c again w) \<in> below" "ch_rt (chans w2 c) = rt"
        "\<forall>e. e \<notin># pass_places c again w \<longrightarrow> status_of w2 e = status_of w e"
      unfolding less.prems(2) by blast
    have "mallocs w2 = []" using w2(2) by (auto simp: pass_ok_def chan_ready_def)
    moreover have "d \<noteq> NIL" using less.prems(1) Cons by (simp add: pass_ok_def fit_def)
    ultimately have run: "runtime_run_loop (prog_seg c) fin rt again w =
        runtime_run_loop (prog_seg c) fin rt (again_after w2 d again) w2"
      using Cons less.prems(2) w2(1)
      by (subst runtime_run_loop.simps) (simp add: liteco_runtime_pop_def again_after_def)
    from less.hyps [OF w2(4,2,5)] obtain w' again' zs where
      w': "runtime_run_loop (prog_seg c) fin rt (again_after w2 d again) w2 = Some (w', again')"
        "pass_ok c again' w'" "rq (rts w' rt) = []"
        "pass_places c again' w' + zs = pass_places c (again_after w2 d again) w2"
        "\<forall>z\<in>#zs. status_of w' z = STATUS_TERMINATE" "ch_rt (chans w' c) = rt"
        "\<forall>e. e \<notin># pass_places c (again_after w2 d again) w2 \<longrightarrow> status_of w' e = status_of w2 e"
        "rq (rts w2 rt) = [] \<or> (pass_load c again' w', pass_load c (again_after w2 d again) w2) \<in> below" by blast
    have g: "status_of w' z = STATUS_TERMINATE" if z: "z \<in># gone w2 d" for z
    proof -
      have "z = d" "status_of w2 d = STATUS_TERMINATE" "gone w2 d = {#d#}"
        using z by (auto simp: gone_def split: if_splits)
      moreover have "d \<notin># pass_places c (again_after w2 d again) w2"
        using less.prems(1) pass_ok_places [of c again w] w2(3) calculation(3)
        by (metis add_mset_add_single count_add_mset Suc_le_mono le_zero_eq not_in_iff One_nat_def)
      ultimately show ?thesis using w'(7) by simp
    qed
    have "(pass_load c again' w', pass_load c again w) \<in> below"
    proof (cases "rq (rts w2 rt) = []")
      case True
      then have "Some (w2, again_after w2 d again) = Some (w', again')"
        unfolding w'(1) [symmetric] by (subst runtime_run_loop.simps) (simp add: liteco_runtime_pop_def)
      then show ?thesis using w2(4) by (metis old.prod.inject option.inject)
    next
      case False
      then show ?thesis using w'(8) w2(4) below_trans by blast
    qed
    moreover have "pass_places c again' w' + (zs + gone w2 d) = pass_places c again w"
      using w'(4) w2(3) by (metis add.assoc)
    moreover have "\<forall>z\<in>#zs + gone w2 d. status_of w' z = STATUS_TERMINATE" using w'(5) g by auto
    moreover have "status_of w' e = status_of w e" if e: "e \<notin># pass_places c again w" for e
    proof -
      have "e \<notin># pass_places c (again_after w2 d again) w2" using e w2(3) by (metis union_iff)
      then show ?thesis using w'(7) w2(6) e by simp
    qed
    ultimately show ?thesis using run w'(1,2,3,6) by (intro exI [of _ w'] exI [of _ again'] exI [of _ "zs + gone w2 d"]) simp
  qed
qed

section \<open>The end of a pass\<close>

lemma requeue_ch [simp]:
  fixes w :: "'a prog_world_scheme"
  shows "chans (runtime_requeue rt again w) = chans w" "mallocs (runtime_requeue rt again w) = mallocs w"
    "progs (runtime_requeue rt again w) = progs w"
  by (induction rt again w rule: runtime_requeue.induct) (auto simp: set_rq_def)

lemma send_ready:
  fixes w :: "'a prog_world_scheme"
  assumes "chan_ready c xs w" "ch_rt (chans w c) = rt"
  shows "\<exists>w'. liteco_async_send (rt_async (rts w rt)) w = Some (w', 0) \<and> chan_ready c xs w' \<and>
    rts w' = rts w \<and> chans w' = chans w \<and> cos w' = cos w \<and> progs w' = progs w \<and> rt_pending rt w'"
  using assms
  by (auto simp: liteco_async_send_def liteco_eloop_async_send_def can_signal_def rt_pending_def chan_ready_def
      plain_waiters_def Let_def set_async_def)

lemma pass_once:
  fixes w :: "'a prog_world_scheme"
  assumes ok: "pass_ok c [] w" and rt: "ch_rt (chans w c) = rt"
  shows "\<exists>w' zs. liteco_runtime_cb (prog_seg c) fin rt w = Some w' \<and> pass_ok c [] w' \<and> ch_rt (chans w' c) = rt \<and>
    rt_pending rt w' \<and> pass_places c [] w' + zs = pass_places c [] w \<and>
    (\<forall>z\<in>#zs. status_of w' z = STATUS_TERMINATE) \<and>
    (\<forall>e. e \<notin># pass_places c [] w \<longrightarrow> status_of w' e = status_of w e) \<and>
    (rq (rts w rt) = [] \<or> (pass_load c [] w', pass_load c [] w) \<in> below)"
proof -
  from pass_loop [OF ok rt, of fin] obtain w1 again zs where
    w1: "runtime_run_loop (prog_seg c) fin rt [] w = Some (w1, again)" "pass_ok c again w1" "rq (rts w1 rt) = []"
      "pass_places c again w1 + zs = pass_places c [] w" "\<forall>z\<in>#zs. status_of w1 z = STATUS_TERMINATE"
      "ch_rt (chans w1 c) = rt" "\<forall>e. e \<notin># pass_places c [] w \<longrightarrow> status_of w1 e = status_of w e"
      "rq (rts w rt) = [] \<or> (pass_load c again w1, pass_load c [] w) \<in> below" by blast
  let ?w = "runtime_requeue rt again w1"
  obtain xs where xs: "chan_ready c xs w1" "distinct again" using w1(2) by (auto simp: pass_ok_def)
  then have r: "chan_ready c xs ?w" "rq (rts ?w rt) = again"
    using w1(3) requeue_spec [of w1 rt again]
    by (simp_all add: chan_ready_def plain_waiters_def can_signal_def rt_pending_def)
  obtain w' where w': "liteco_async_send (rt_async (rts ?w rt)) ?w = Some (w', 0)" "chan_ready c xs w'"
      "rts w' = rts ?w" "chans w' = chans w1" "cos w' = cos w1" "progs w' = progs w1" "rt_pending rt w'"
    using send_ready [OF r(1), of rt] w1(6) by auto
  have q: "chan_rq c w' = again" "chan_rq c w1 = []" using w'(3,4) r(2) w1(3,6) by simp_all
  have p: "pass_places c [] w' = pass_places c again w1" using q w'(4) by (simp add: pass_places_def)
  have "pass_ok c [] w'"
    using w1(2) w'(2,4-6) q by (auto simp: pass_ok_def fit_def finite_co_def)
  moreover have "pass_load c [] w' = pass_load c again w1" using p w'(6) by (simp add: pass_load_def)
  moreover have "liteco_runtime_cb (prog_seg c) fin rt w = Some w'"
    using w1(1) w'(1) by (simp add: liteco_runtime_cb_def)
  ultimately show ?thesis using w1(4-8) w'(4,5,7) p by (intro exI [of _ w'] exI [of _ zs]) simp
qed

section \<open>Passes after each other\<close>

fun runtime_passes ::
    "'a rt_world_scheme segment \<Rightarrow> 'a rt_world_scheme callback \<Rightarrow> addr \<Rightarrow> nat \<Rightarrow> 'a rt_world_scheme \<Rightarrow>
     'a rt_world_scheme option" where
  "runtime_passes seg fin rt 0 w = Some w"
| "runtime_passes seg fin rt (Suc n) w = Option.bind (liteco_runtime_cb seg fin rt w) (runtime_passes seg fin rt n)"

lemma passes_spec:
  fixes w :: "'a prog_world_scheme"
  assumes "pass_ok c [] w" "ch_rt (chans w c) = rt"
  shows "\<exists>w' zs. runtime_passes (prog_seg c) fin rt n w = Some w' \<and> pass_ok c [] w' \<and> ch_rt (chans w' c) = rt \<and>
    pass_places c [] w' + zs = pass_places c [] w \<and> (\<forall>z\<in>#zs. status_of w' z = STATUS_TERMINATE) \<and>
    (\<forall>e. e \<notin># pass_places c [] w \<longrightarrow> status_of w' e = status_of w e)"
  using assms
proof (induction n arbitrary: w)
  case 0
  then show ?case by (intro exI [of _ w] exI [of _ "{#}"]) simp
next
  case (Suc n)
  from pass_once [OF Suc.prems, of fin] obtain w1 ys where
    w1: "liteco_runtime_cb (prog_seg c) fin rt w = Some w1" "pass_ok c [] w1" "ch_rt (chans w1 c) = rt"
      "pass_places c [] w1 + ys = pass_places c [] w" "\<forall>z\<in>#ys. status_of w1 z = STATUS_TERMINATE"
      "\<forall>e. e \<notin># pass_places c [] w \<longrightarrow> status_of w1 e = status_of w e" by blast
  from Suc.IH [OF w1(2,3)] obtain w' zs where
    w': "runtime_passes (prog_seg c) fin rt n w1 = Some w'" "pass_ok c [] w'" "ch_rt (chans w' c) = rt"
      "pass_places c [] w' + zs = pass_places c [] w1" "\<forall>z\<in>#zs. status_of w' z = STATUS_TERMINATE"
      "\<forall>e. e \<notin># pass_places c [] w1 \<longrightarrow> status_of w' e = status_of w1 e" by blast
  have out: "e \<notin># pass_places c [] w1" if "e \<notin># pass_places c [] w \<or> e \<in># ys" for e
  proof
    assume e: "e \<in># pass_places c [] w1"
    then have "e \<in># ys" using that w1(4) by (metis union_iff)
    moreover have "count (pass_places c [] w1) e + count ys e \<le> 1"
      using Suc.prems(1) pass_ok_places [of c "[]" w] unfolding w1(4) [symmetric] by simp
    moreover have "0 < count (pass_places c [] w1) e" using e by simp
    moreover have "0 < count ys e" if "e \<in># ys" using that by simp
    ultimately show False by linarith
  qed
  have "pass_places c [] w' + (zs + ys) = pass_places c [] w" using w'(4) w1(4) by (metis add.assoc)
  moreover have "\<forall>z\<in>#zs + ys. status_of w' z = STATUS_TERMINATE" using w'(5,6) w1(5) out by auto
  moreover have "\<forall>e. e \<notin># pass_places c [] w \<longrightarrow> status_of w' e = status_of w e" using w'(6) w1(6) out by auto
  ultimately show ?case using w1(1) w'(1-3) by (intro exI [of _ w'] exI [of _ "zs + ys"]) simp
qed

text \<open>Every pass that finds a coroutine in the queue makes the load smaller.\<close>

lemma passes_end:
  fixes w :: "'a prog_world_scheme"
  assumes "pass_ok c [] w" "ch_rt (chans w c) = rt"
  shows "\<exists>n w'. runtime_passes (prog_seg c) fin rt n w = Some w' \<and> rq (rts w' rt) = []"
  using assms
proof (induction "pass_load c [] w" arbitrary: w rule: wf_induct_rule [OF wf_below])
  case less: 1
  show ?case
  proof (cases "rq (rts w rt) = []")
    case True
    then show ?thesis by (intro exI [of _ 0] exI [of _ w]) simp
  next
    case False
    from pass_once [OF less.prems, of fin] False obtain w1 where
      w1: "liteco_runtime_cb (prog_seg c) fin rt w = Some w1" "pass_ok c [] w1" "ch_rt (chans w1 c) = rt"
        "(pass_load c [] w1, pass_load c [] w) \<in> below" by blast
    from less.hyps [OF w1(4,2,3)] obtain n w' where
      "runtime_passes (prog_seg c) fin rt n w1 = Some w'" "rq (rts w' rt) = []" by blast
    then show ?thesis using w1(1) by (intro exI [of _ "Suc n"] exI [of _ w']) simp
  qed
qed

section \<open>Finite programs are run to their end\<close>

text \<open>C23: channels and the runtime together lose no coroutine. The coroutines of a runtime run finite
  programs of pushes to and pops from a channel of that runtime, blocking or not, and yields. Then
  every pass of \<open>liteco_runtime_cb\<close> ends, although the coroutines it resumes put others into the queue
  it empties. After any number of passes every coroutine that was queued or waiting is queued, once,
  or waiting in the channel, once, or has returned; those queued can be resumed, and the channel is in
  order. And after finitely many passes nobody is queued: every coroutine has returned, but for those
  that wait for a partner that does not come.\<close>

theorem channel_pass:
  fixes w :: "'a prog_world_scheme"
  assumes "chan_ready c xs w" "ch_rt (chans w c) = rt" "distinct (rq (rts w rt))" "NIL \<notin> set (waiting_cos (chans w c))"
    and "\<forall>d\<in>set (rq (rts w rt)). d \<noteq> NIL \<and> d \<noteq> liteco_ignore_awake_co \<and> status_of w d \<in> {STATUS_STARTING, STATUS_READY}"
    and "\<forall>d\<in>set (rq (rts w rt) @ waiting_cos (chans w c)). ends (rank (progs w d)) \<and> co_fin_st (cos w d) = []"
  shows "(\<forall>n. \<exists>w' ys zs. runtime_passes (prog_seg c) fin rt n w = Some w' \<and> chan_ready c ys w' \<and>
      (\<forall>d\<in>set (rq (rts w' rt)). status_of w' d \<in> {STATUS_STARTING, STATUS_READY}) \<and>
      (\<forall>d\<in>#zs. status_of w' d = STATUS_TERMINATE) \<and>
      mset (rq (rts w' rt)) + mset (waiting_cos (chans w' c)) + zs = mset (rq (rts w rt)) + mset (waiting_cos (chans w c))) \<and>
    (\<exists>n w'. runtime_passes (prog_seg c) fin rt n w = Some w' \<and> rq (rts w' rt) = [])"
proof -
  have "distinct (waiting_cos (chans w c))" using assms(1) by (simp add: chan_ready_def)
  moreover have "set (rq (rts w rt)) \<inter> set (waiting_cos (chans w c)) = {}"
    using assms(5) waiting_status [OF assms(1)] by fastforce
  ultimately have ok: "pass_ok c [] w" using assms by (auto simp: pass_ok_def fit_def finite_co_def)
  have "\<exists>w' ys zs. runtime_passes (prog_seg c) fin rt n w = Some w' \<and> chan_ready c ys w' \<and>
      (\<forall>d\<in>set (rq (rts w' rt)). status_of w' d \<in> {STATUS_STARTING, STATUS_READY}) \<and>
      (\<forall>d\<in>#zs. status_of w' d = STATUS_TERMINATE) \<and>
      mset (rq (rts w' rt)) + mset (waiting_cos (chans w' c)) + zs = mset (rq (rts w rt)) + mset (waiting_cos (chans w c))" for n
  proof -
    from passes_spec [OF ok assms(2), of fin n] obtain w' zs where
      w': "runtime_passes (prog_seg c) fin rt n w = Some w'" "pass_ok c [] w'" "ch_rt (chans w' c) = rt"
        "pass_places c [] w' + zs = pass_places c [] w" "\<forall>z\<in>#zs. status_of w' z = STATUS_TERMINATE" by blast
    moreover obtain ys where "chan_ready c ys w'" using w'(2) by (auto simp: pass_ok_def)
    moreover have "\<forall>d\<in>set (rq (rts w' rt)). status_of w' d \<in> {STATUS_STARTING, STATUS_READY}"
      using w'(2,3) by (auto simp: pass_ok_def fit_def)
    ultimately show ?thesis using assms(2) by (auto simp: pass_places_def)
  qed
  then show ?thesis using passes_end [OF ok assms(2), of fin] by blast
qed

text \<open>A reader (coroutine 30) and two writers (31, 32), which push and yield, on a channel for two
  elements.\<close>

definition demo_progs :: "unit ch_world_scheme \<Rightarrow> (addr \<Rightarrow> saved) \<Rightarrow> addr list \<Rightarrow> prog_world" where
  "demo_progs w ps q = set_rq 9 q (ch_world.extend
     (w\<lparr>cos := (\<lambda>c. (cos w c)\<lparr>co_status := STATUS_READY\<rparr>)\<rparr>) (prog_world.fields ps))"

lemma demo_progs_fields [simp]:
  "chans (demo_progs w ps q) = chans w" "progs (demo_progs w ps q) = ps" "mallocs (demo_progs w ps q) = mallocs w"
  "rq (rts (demo_progs w ps q) 9) = q" "status_of (demo_progs w ps q) d = STATUS_READY"
  "co_fin_st (cos (demo_progs w ps q) d) = co_fin_st (cos w d)"
  "can_signal rt (demo_progs w ps q) = can_signal rt w"
  by (simp_all add: demo_progs_def set_rq_def ch_world.defs prog_world.defs can_signal_def rt_pending_def)

lemma demo_signal: "can_signal 9 (demo_chan xs ws rs)"
  by (simp add: demo_chan_def can_signal_def eventfd_max_def)

fun demo_prog :: "addr \<Rightarrow> saved" where
  "demo_prog d = Fresh (if d = 30 then Do (Pop 200 True) (\<lambda>_. Done 0)
     else Do (Push (d + 100) True) (\<lambda>_. Give (Done 0)))"

theorem channel_pass_witness:
  "(\<exists>w' ys zs. runtime_passes (prog_seg 20) (\<lambda>_ _ w. w) 9 2 (demo_progs (demo_chan [] [] []) demo_prog [30, 31, 32]) = Some w' \<and>
      chan_ready 20 ys w' \<and> (\<forall>d\<in>#zs. status_of w' d = STATUS_TERMINATE) \<and>
      mset (rq (rts w' 9)) + mset (waiting_cos (chans w' 20)) + zs = {#30, 31, 32#}) \<and>
   (\<exists>n w'. runtime_passes (prog_seg 20) (\<lambda>_ _ w. w) 9 n (demo_progs (demo_chan [] [] []) demo_prog [30, 31, 32]) = Some w' \<and>
      rq (rts w' 9) = [])"
proof -
  let ?w = "demo_progs (demo_chan [] [] []) demo_prog [30, 31, 32]"
  have "chan_ready 20 [] ?w"
    using demo_ring(1) [of "[]" "[]" 20] demo_signal
    by (simp add: chan_ready_def chan_ok_def plain_waiters_def waiting_cos_def)
  moreover have "waiting_cos (chans ?w 20) = []" by (simp add: waiting_cos_def)
  moreover have "ends (rank (demo_prog d))" for d by (auto simp: rank_def intro!: ends.intros)
  moreover have "co_fin_st (cos (demo_chan [] [] []) d) = []" for d by (simp add: demo_chan_def)
  ultimately show ?thesis
    using channel_pass [of 20 "[]" ?w 9 "\<lambda>_ _ w. w"] by (simp add: liteco_ignore_awake_co_def del: demo_prog.simps) blast
qed

end
