(* ===== verification/Channel_Starves.thy ===== *)
theory Channel_Starves
  imports Channel_Pass
begin

text \<open>
  Programs without an end. A pass of the runtime takes coroutines out of the queue until it is empty;
  when their calls put others into it for ever, the pass does not end.
\<close>

section \<open>A loop that never ends\<close>

text \<open>The turns of the loop of a pass, counted.\<close>

fun runtime_turns ::
    "'a rt_world_scheme segment \<Rightarrow> 'a rt_world_scheme callback \<Rightarrow> addr \<Rightarrow> nat \<Rightarrow> 'a rt_world_scheme \<Rightarrow>
     'a rt_world_scheme option" where
  "runtime_turns seg fin rt 0 w = Some w"
| "runtime_turns seg fin rt (Suc n) w =
     Option.bind (liteco_resume seg fin (snd (liteco_runtime_pop rt w)) (fst (liteco_runtime_pop rt w)))
       (\<lambda>(w1, st). runtime_turns seg fin rt n w1)"

text \<open>A set of states that the turns do not leave, with a coroutine in the queue.\<close>

definition keeps_busy ::
    "('a rt_world_scheme \<Rightarrow> bool) \<Rightarrow> 'a rt_world_scheme segment \<Rightarrow> 'a rt_world_scheme callback \<Rightarrow> addr \<Rightarrow> bool" where
  "keeps_busy I seg fin rt \<longleftrightarrow> (\<forall>w. I w \<longrightarrow> (\<exists>d q w1 st. rq (rts w rt) = d # q \<and> d \<noteq> NIL \<and>
     liteco_resume seg fin d (set_rq rt q w) = Some (w1, st) \<and> mallocs w1 = [] \<and> I w1))"

lemma busy_turns:
  assumes "keeps_busy I seg fin rt" "I w"
  shows "\<exists>w'. runtime_turns seg fin rt n w = Some w' \<and> I w'"
  using assms(2)
proof (induction n arbitrary: w)
  case (Suc n)
  then obtain d q w1 st where "rq (rts w rt) = d # q" "liteco_resume seg fin d (set_rq rt q w) = Some (w1, st)" "I w1"
    using assms(1) unfolding keeps_busy_def by blast
  then show ?case using Suc.IH [of w1] by (simp add: liteco_runtime_pop_def)
qed simp

lemma busy_loop:
  assumes "keeps_busy I seg fin rt" "I w"
  shows "runtime_run_loop seg fin rt again w = None"
proof -
  have "False" if "runtime_run_loop seg fin rt again w = Some y" for y
  proof -
    have "seg' = seg \<and> fin' = fin \<and> rt' = rt \<and> I w' \<longrightarrow> False"
      if "runtime_run_loop seg' fin' rt' again' w' = Some y" for seg' fin' rt' again' w' y
      using that
    proof (rule runtime_run_loop.raw_induct [rotated, of _ _ _ _ _ _ "\<lambda>seg' fin' rt' again' w' y.
        seg' = seg \<and> fin' = fin \<and> rt' = rt \<and> I w' \<longrightarrow> False"])
      fix f s' f' r' a' w' y
      assume IH: "\<And>s' f' r' a' w' y. f s' f' r' a' w' = Some y \<Longrightarrow> s' = seg \<and> f' = fin \<and> r' = rt \<and> I w' \<longrightarrow> False"
        and run: "(let (w1, co) = liteco_runtime_pop r' w'
          in if co = NIL then Some (w1, a')
             else (case liteco_resume s' f' co w1 of
                     None \<Rightarrow> None
                   | Some (w2, st) \<Rightarrow>
                       (if status_of w2 co = STATUS_READY
                        then (if snd (malloc w2) then f s' f' r' (a' @ [co]) (fst (malloc w2)) else None)
                        else f s' f' r' a' w2))) = Some y"
      show "s' = seg \<and> f' = fin \<and> r' = rt \<and> I w' \<longrightarrow> False"
      proof
        assume eq: "s' = seg \<and> f' = fin \<and> r' = rt \<and> I w'"
        then obtain d q w1 st where t: "rq (rts w' rt) = d # q" "d \<noteq> NIL"
          "liteco_resume seg fin d (set_rq rt q w') = Some (w1, st)" "mallocs w1 = []" "I w1"
          using assms(1) unfolding keeps_busy_def by blast
        then have "\<exists>a. f seg fin rt a w1 = Some y"
          using run eq by (auto simp: liteco_runtime_pop_def split: if_splits)
        then show False using IH t(5) by blast
      qed
    qed
    then show False using that assms(2) by blast
  qed
  then show ?thesis by (cases "runtime_run_loop seg fin rt again w") auto
qed

section \<open>Two endless programs\<close>

primcorec pushes :: "(nat \<Rightarrow> addr) \<Rightarrow> nat \<Rightarrow> prog" where
  "pushes es n = Do (Push (es n) True) (\<lambda>_. pushes es (Suc n))"

primcorec pops :: "addr \<Rightarrow> prog" where
  "pops l = Do (Pop l True) (\<lambda>_. pops l)"

text \<open>A coroutine that is about to go on with a program.\<close>

definition at_prog :: "(prog \<Rightarrow> bool) \<Rightarrow> saved \<Rightarrow> bool" where
  "at_prog P s \<longleftrightarrow> (\<exists>p. P p \<and> s = Fresh p) \<or> (\<exists>k f. s = Blocked k f \<and> (\<forall>x. P (f x)))"

lemma at_prog_seg: "at_prog P (progs w d) \<Longrightarrow> \<exists>p. P p \<and> prog_seg c d w = prog_run c d p w"
  by (auto simp: at_prog_def prog_seg_def)

section \<open>A pusher and a popper\<close>

definition unbuffered :: "addr \<Rightarrow> 'a prog_world_scheme \<Rightarrow> bool" where
  "unbuffered c w \<longleftrightarrow> chan_ready c [] w \<and> chan_cap (chans w c) = 0"

text \<open>The coroutine \<open>d\<close> runs on a channel without a buffer, and the queue is \<open>q\<close>.\<close>

definition running :: "addr \<Rightarrow> addr \<Rightarrow> addr list \<Rightarrow> 'a prog_world_scheme \<Rightarrow> bool" where
  "running c d q w \<longleftrightarrow> unbuffered c w \<and> this_co w = d \<and> status_of w d = STATUS_RUNNING \<and>
     d \<noteq> liteco_ignore_awake_co \<and> chan_rq c w = q"

text \<open>It has blocked, and the queue is \<open>q\<close>.\<close>

definition blocked_run :: "addr \<Rightarrow> addr \<Rightarrow> addr list \<Rightarrow> 'a prog_world_scheme \<Rightarrow> 'a prog_world_scheme \<Rightarrow> bool" where
  "blocked_run c d q w w' \<longleftrightarrow> unbuffered c w' \<and> this_co w' = d \<and> status_of w' d = STATUS_WAITING \<and>
     ch_rt (chans w' c) = ch_rt (chans w c) \<and> chan_rq c w' = q \<and> (\<forall>e. e \<noteq> d \<longrightarrow> progs w' e = progs w e)"

lemma push_blocks:
  fixes w :: "'a prog_world_scheme"
  assumes r: "running c d q w" and e: "ch_r (chans w c) = []" "ch_w (chans w c) = []"
  shows "\<exists>w'. prog_run c d (pushes es n) w = Some (w', None) \<and> blocked_run c d q w w' \<and>
    map wt_co (ch_w (chans w' c)) = [d] \<and> ch_r (chans w' c) = [] \<and>
    at_prog (\<lambda>p. \<exists>n. p = pushes es n) (progs w' d) \<and> (\<forall>f. f \<noteq> d \<longrightarrow> status_of w' f = status_of w f)"
proof -
  have u: "chan_ready c [] w" "chan_cap (chans w c) = 0" "this_co w = d" "status_of w d = STATUS_RUNNING"
    "d \<noteq> liteco_ignore_awake_co" "chan_rq c w = q" using r by (simp_all add: running_def unbuffered_def)
  let ?w1 = "push_blocked c (es n) w" and ?s = "Blocked (Push (es n) True) (\<lambda>_. pushes es (Suc n))"
  have b: "liteco_chan_push c (es n) True w = Some (?w1, Yield)" "chan_ready c [] ?w1"
    using push_block_world [OF u(1) e(1), of "es n"] push_block_run [OF u(1) e(1), of "es n"] u by auto
  have f: "chans ?w1 c = (chans w c)\<lparr>ch_w := [\<lparr>wt_co = d, wt_select = False, wt_ele = es n\<rparr>]\<rparr>" "rts ?w1 = rts w"
    "this_co ?w1 = d" "\<forall>g. status_of ?w1 g = (if g = d then STATUS_WAITING else status_of w g)"
    using u(3) e(2) by (simp_all add: push_blocked_def put_status_more upd_ch_def)
  have "progs ?w1 = progs w" by (rule more_progs) (simp add: push_blocked_def)
  moreover have "prog_run c d (pushes es n) w = Some (put_prog d ?s ?w1, None)"
    using b(1) by (subst prog_run.simps) (simp add: pushes.code [of es n])
  moreover have "at_prog (\<lambda>p. \<exists>n. p = pushes es n) ?s" by (auto simp: at_prog_def)
  moreover have "blocked_run c d q w (put_prog d ?s ?w1)"
    using b(2) u(2,6) f calculation(1) by (simp add: blocked_run_def unbuffered_def ring_abs_waiters)
  ultimately show ?thesis using f(1,4) e(1) by (intro exI [of _ "put_prog d ?s ?w1"]) simp
qed

lemma pop_blocks:
  fixes w :: "'a prog_world_scheme"
  assumes r: "running c d q w" and e: "ch_r (chans w c) = []" "ch_w (chans w c) = []"
  shows "\<exists>w'. prog_run c d (pops l) w = Some (w', None) \<and> blocked_run c d q w w' \<and>
    map wt_co (ch_r (chans w' c)) = [d] \<and> ch_w (chans w' c) = [] \<and>
    at_prog (\<lambda>p. p = pops l) (progs w' d) \<and> (\<forall>f. f \<noteq> d \<longrightarrow> status_of w' f = status_of w f)"
proof -
  have u: "chan_ready c [] w" "chan_cap (chans w c) = 0" "this_co w = d" "status_of w d = STATUS_RUNNING"
    "d \<noteq> liteco_ignore_awake_co" "chan_rq c w = q" using r by (simp_all add: running_def unbuffered_def)
  let ?w1 = "pop_blocked c l w" and ?s = "Blocked (Pop l True) (\<lambda>_. pops l)"
  have b: "liteco_chan_pop l c True w = Some (?w1, Yield)" "chan_ready c [] ?w1"
    using pop_block_world [OF u(1) e(2), of l] pop_block_run [OF u(1) e(2) _ u(3,4,5), of l] u by auto
  have f: "chans ?w1 c = (chans w c)\<lparr>ch_r := [\<lparr>wt_co = d, wt_select = False, wt_ele = l\<rparr>]\<rparr>" "rts ?w1 = rts w"
    "this_co ?w1 = d" "\<forall>g. status_of ?w1 g = (if g = d then STATUS_WAITING else status_of w g)"
    using u(3) e(1) by (simp_all add: pop_blocked_def put_status_more upd_ch_def put_store_def)
  have "progs ?w1 = progs w" by (rule more_progs) (simp add: pop_blocked_def)
  moreover have "prog_run c d (pops l) w = Some (put_prog d ?s ?w1, None)"
    by (subst prog_run.simps, subst pops.code) (simp add: b(1))
  moreover have "at_prog (\<lambda>p. p = pops l) ?s" by (auto simp: at_prog_def)
  moreover have "blocked_run c d q w (put_prog d ?s ?w1)"
    using b(2) u(2,6) f calculation(1) by (simp add: blocked_run_def unbuffered_def ring_abs_waiters)
  ultimately show ?thesis using f(1,4) e(2) by (intro exI [of _ "put_prog d ?s ?w1"]) simp
qed

text \<open>The call of the coroutine \<open>d\<close> serves the one that waits, which joins the queue.\<close>

definition served :: "addr \<Rightarrow> addr \<Rightarrow> addr \<Rightarrow> 'a prog_world_scheme \<Rightarrow> 'a prog_world_scheme \<Rightarrow> bool" where
  "served c d b w w' \<longleftrightarrow> running c d [b] w' \<and> ch_r (chans w' c) = [] \<and> ch_w (chans w' c) = [] \<and>
     ch_rt (chans w' c) = ch_rt (chans w c) \<and> progs w' = progs w \<and> status_of w' b = STATUS_READY"

lemma push_serves:
  fixes w :: "'a prog_world_scheme"
  assumes r: "running c d [] w" and e: "ch_r (chans w c) = [x]" "ch_w (chans w c) = []"
    and b: "wt_co x = b" "b \<noteq> liteco_ignore_awake_co" "b \<noteq> d"
  shows "\<exists>w1. liteco_chan_push c ele True w = Some (w1, Return 0) \<and> served c d b w w1"
proof -
  have u: "chan_ready c [] w" "chan_cap (chans w c) = 0" "this_co w = d" "status_of w d = STATUS_RUNNING"
    "d \<noteq> liteco_ignore_awake_co" "chan_rq c w = []" using r by (simp_all add: running_def unbuffered_def)
  obtain w1 where w1: "liteco_chan_w c ele w = Some (w1, True)"
    "chans w1 = (chans w)(c := (chans w c)\<lparr>ch_r := []\<rparr>)" "this_co w1 = this_co w" "mallocs w1 = []"
    "can_signal (ch_rt (chans w c)) w1"
    "\<forall>d. status_of w1 d = (if d = wt_co x \<and> wt_co x \<noteq> liteco_ignore_awake_co then STATUS_READY else status_of w d)"
    "rq (rts w1 (ch_rt (chans w c))) = [b]"
    using w_reader [OF u(1) e(1), of ele] b u(6) by (auto simp: joined_def)
  have "progs w1 = progs w" using keeps_w [OF w1(1)] by (intro more_progs) (simp add: keeps_running_def)
  moreover have "chan_ready c [] w1" by (rule ready_after_reader [OF u(1) e(1) w1(2,4,5,6)])
  ultimately have "served c d b w w1"
    using w1 u b e by (simp add: served_def running_def unbuffered_def ring_abs_waiters)
  moreover have "liteco_chan_push c ele True w = Some (w1, Return 0)"
    using w1(1) u(1) by (simp add: liteco_chan_push_def chan_ready_def)
  ultimately show ?thesis by blast
qed

lemma pop_serves:
  fixes w :: "'a prog_world_scheme"
  assumes r: "running c d [] w" and e: "ch_r (chans w c) = []" "ch_w (chans w c) = [x]"
    and b: "wt_co x = b" "b \<noteq> liteco_ignore_awake_co" "b \<noteq> d"
  shows "\<exists>w1. liteco_chan_pop l c True w = Some (w1, Return (wt_ele x)) \<and> served c d b w w1"
proof -
  let ?w0 = "put_store l NIL w"
  have u: "chan_ready c [] ?w0" "chan_cap (chans w c) = 0" "this_co w = d" "status_of w d = STATUS_RUNNING"
    "d \<noteq> liteco_ignore_awake_co" "chan_rq c w = []" "ch_w (chans ?w0 c) = [x]"
    using r e by (simp_all add: running_def unbuffered_def)
  obtain w1 where w1: "liteco_chan_r l c ?w0 = Some (w1, True)" "stores w1 = (stores ?w0)(l := wt_ele x)"
    "chans w1 = (chans ?w0)(c := (chans ?w0 c)\<lparr>ch_w := []\<rparr>)" "this_co w1 = this_co ?w0" "mallocs w1 = []"
    "can_signal (ch_rt (chans ?w0 c)) w1"
    "\<forall>d. status_of w1 d = (if d = wt_co x \<and> wt_co x \<noteq> liteco_ignore_awake_co then STATUS_READY else status_of ?w0 d)"
    "rq (rts w1 (ch_rt (chans ?w0 c))) = [b]"
    using r_writer [OF u(1,7), of l] b u(6) by (auto simp: joined_def)
  have "progs w1 = progs w" using keeps_r [OF w1(1)] by (intro more_progs) (simp add: keeps_running_def)
  moreover have "chan_ready c [] w1" by (rule ready_after_writer [OF u(1,7) w1(3,5,6,7)])
  ultimately have "served c d b w w1"
    using w1 u b e by (simp add: served_def running_def unbuffered_def ring_abs_waiters)
  moreover have "liteco_chan_pop l c True w = Some (w1, Return (wt_ele x))"
    using w1(1,2) u(1) by (simp add: liteco_chan_pop_def chan_ready_def)
  ultimately show ?thesis by blast
qed

section \<open>The two for ever\<close>

text \<open>A coroutine that blocks in its turn.\<close>

lemma resume_waits:
  fixes w :: "'a prog_world_scheme"
  assumes "fit w d" "prog_seg c d (entered d w) = Some (w1, None)" "blocked_run c d q (entered d w) w1"
  shows "\<exists>w2. liteco_resume (prog_seg c) fin d w = Some (w2, STATUS_WAITING) \<and> unbuffered c w2 \<and>
    chans w2 = chans w1 \<and> rts w2 = rts w1 \<and> cos w2 = cos w1 \<and> progs w2 = progs w1"
proof -
  have s: "status_of w1 d = STATUS_WAITING" "this_co w1 = d" "unbuffered c w1"
    using assms(3) by (simp_all add: blocked_run_def)
  let ?w2 = "w1\<lparr>this_co := this_co w\<rparr>"
  have "liteco_resume (prog_seg c) fin d w = Some (?w2, STATUS_WAITING)"
    using assms(1,2) s(1,2) by (auto simp: resume_alt liteco_run_def fit_def liteco_yield_def Let_def)
  moreover have "unbuffered c ?w2" using s(3) by (simp add: unbuffered_def)
  ultimately show ?thesis by (intro exI [of _ ?w2]) simp
qed

text \<open>The states between the turns: at first both are queued; then one waits and the other is queued.\<close>

definition busy :: "addr \<Rightarrow> (nat \<Rightarrow> addr) \<Rightarrow> addr \<Rightarrow> addr \<Rightarrow> addr \<Rightarrow> addr \<Rightarrow> 'a prog_world_scheme \<Rightarrow> bool" where
  "busy c es l rt a b w \<longleftrightarrow> unbuffered c w \<and> ch_rt (chans w c) = rt \<and>
     at_prog (\<lambda>p. \<exists>n. p = pushes es n) (progs w a) \<and> at_prog (\<lambda>p. p = pops l) (progs w b) \<and>
     (rq (rts w rt) = [a, b] \<and> ch_w (chans w c) = [] \<and> ch_r (chans w c) = [] \<and> fit w a \<and> fit w b \<or>
      rq (rts w rt) = [b] \<and> map wt_co (ch_w (chans w c)) = [a] \<and> ch_r (chans w c) = [] \<and> fit w b \<or>
      rq (rts w rt) = [a] \<and> map wt_co (ch_r (chans w c)) = [b] \<and> ch_w (chans w c) = [] \<and> fit w a)"

lemma entered_running:
  fixes w :: "'a prog_world_scheme"
  assumes "unbuffered c w" "fit w d"
  shows "running c d (rq (rts w (ch_rt (chans w c)))) (entered d w)"
  using assms wf_entered(2) [of w d c "[]"] by (auto simp: running_def unbuffered_def fit_def)

lemma push_turn:
  fixes w :: "'a prog_world_scheme"
  assumes w: "unbuffered c w" "ch_rt (chans w c) = rt" "at_prog (\<lambda>p. \<exists>n. p = pushes es n) (progs w a)" "fit w a"
    and b: "b \<noteq> NIL" "b \<noteq> liteco_ignore_awake_co" "b \<noteq> a" "ch_w (chans w c) = []"
    and q: "rq (rts w rt) = [b] \<and> ch_r (chans w c) = [] \<and> fit w b \<or>
            rq (rts w rt) = [] \<and> map wt_co (ch_r (chans w c)) = [b]"
  shows "\<exists>w2. liteco_resume (prog_seg c) fin a w = Some (w2, STATUS_WAITING) \<and> unbuffered c w2 \<and>
    ch_rt (chans w2 c) = rt \<and> rq (rts w2 rt) = [b] \<and> map wt_co (ch_w (chans w2 c)) = [a] \<and> ch_r (chans w2 c) = [] \<and>
    fit w2 b \<and> at_prog (\<lambda>p. \<exists>n. p = pushes es n) (progs w2 a) \<and> progs w2 b = progs w b"
proof -
  let ?v = "entered a w"
  have "at_prog (\<lambda>p. \<exists>n. p = pushes es n) (progs ?v a)" using w(3) by simp
  from at_prog_seg [OF this, of c] obtain n where seg: "prog_seg c a ?v = prog_run c a (pushes es n) ?v" by blast
  note run = entered_running [OF w(1,4)]
  obtain w1 where w1: "prog_run c a (pushes es n) ?v = Some (w1, None)" "blocked_run c a [b] ?v w1"
    "map wt_co (ch_w (chans w1 c)) = [a]" "ch_r (chans w1 c) = []" "at_prog (\<lambda>p. \<exists>n. p = pushes es n) (progs w1 a)" "fit w1 b"
  proof (cases "ch_r (chans w c)")
    case Nil
    then have q1: "rq (rts w rt) = [b]" "fit w b" using q by auto
    from push_blocks [OF run, of es n] Nil b(4) obtain w1 where
      w1: "prog_run c a (pushes es n) ?v = Some (w1, None)" "blocked_run c a (rq (rts w (ch_rt (chans w c)))) ?v w1"
        "map wt_co (ch_w (chans w1 c)) = [a]" "ch_r (chans w1 c) = []" "at_prog (\<lambda>p. \<exists>n. p = pushes es n) (progs w1 a)"
        "\<forall>f. f \<noteq> a \<longrightarrow> status_of w1 f = status_of ?v f" by auto
    have "fit w1 b" using w1(6) q1(2) b(3) by (simp add: fit_def)
    then show ?thesis using that w1(1-5) q1(1) w(2) by simp
  next
    case (Cons x xs)
    then have q1: "rq (rts w rt) = []" "ch_r (chans w c) = [x]" "wt_co x = b" using q by auto
    have "running c a [] ?v" using run q1(1) w(2) by simp
    from push_serves [OF this, of x b "es n"] q1(2,3) b obtain v1 where
      v1: "liteco_chan_push c (es n) True ?v = Some (v1, Return 0)" "served c a b ?v v1" by auto
    have r1: "running c a [b] v1" "ch_r (chans v1 c) = []" "ch_w (chans v1 c) = []" "status_of v1 b = STATUS_READY"
      "ch_rt (chans v1 c) = ch_rt (chans ?v c)" "progs v1 = progs ?v" using v1(2) by (simp_all add: served_def)
    from push_blocks [OF r1(1-3), of es "Suc n"] obtain w1 where
      w1: "prog_run c a (pushes es (Suc n)) v1 = Some (w1, None)" "blocked_run c a [b] v1 w1"
        "map wt_co (ch_w (chans w1 c)) = [a]" "ch_r (chans w1 c) = []" "at_prog (\<lambda>p. \<exists>n. p = pushes es n) (progs w1 a)"
        "\<forall>f. f \<noteq> a \<longrightarrow> status_of w1 f = status_of v1 f" by auto
    have "prog_run c a (pushes es n) ?v = Some (w1, None)"
      by (subst prog_run.simps, subst pushes.code) (simp add: v1(1) w1(1))
    moreover have "blocked_run c a [b] ?v w1" using w1(2) r1(5,6) by (auto simp: blocked_run_def)
    moreover have "fit w1 b" using w1(6) r1(4) b by (simp add: fit_def)
    ultimately show ?thesis using that [of w1] w1(3-5) by simp
  qed
  have bl: "ch_rt (chans w1 c) = rt" "rq (rts w1 rt) = [b]" "progs w1 b = progs w b"
    using w1(2) w(2) b(3) by (auto simp: blocked_run_def)
  from resume_waits [OF w(4), of c w1 "[b]" fin] seg w1(1,2) obtain w2 where
    "liteco_resume (prog_seg c) fin a w = Some (w2, STATUS_WAITING)" "unbuffered c w2" "chans w2 = chans w1"
    "rts w2 = rts w1" "cos w2 = cos w1" "progs w2 = progs w1" by auto
  then show ?thesis using w1(3-6) bl b(3) by (intro exI [of _ w2]) (simp add: fit_def)
qed

lemma pop_turn:
  fixes w :: "'a prog_world_scheme"
  assumes w: "unbuffered c w" "ch_rt (chans w c) = rt" "at_prog (\<lambda>p. p = pops l) (progs w b)" "fit w b"
    and a: "a \<noteq> NIL" "a \<noteq> liteco_ignore_awake_co" "a \<noteq> b" "ch_r (chans w c) = []"
    and q: "rq (rts w rt) = []" "map wt_co (ch_w (chans w c)) = [a]"
  shows "\<exists>w2. liteco_resume (prog_seg c) fin b w = Some (w2, STATUS_WAITING) \<and> unbuffered c w2 \<and>
    ch_rt (chans w2 c) = rt \<and> rq (rts w2 rt) = [a] \<and> map wt_co (ch_r (chans w2 c)) = [b] \<and> ch_w (chans w2 c) = [] \<and>
    fit w2 a \<and> at_prog (\<lambda>p. p = pops l) (progs w2 b) \<and> progs w2 a = progs w a"
proof -
  let ?v = "entered b w"
  have "at_prog (\<lambda>p. p = pops l) (progs ?v b)" using w(3) by simp
  from at_prog_seg [OF this, of c] have seg: "prog_seg c b ?v = prog_run c b (pops l) ?v" by blast
  obtain x where x: "ch_w (chans w c) = [x]" "wt_co x = a" using q(2) by auto
  have "running c b [] ?v" using entered_running [OF w(1,4)] q(1) w(2) by simp
  from pop_serves [OF this, of x a l] x a obtain v1 where
    v1: "liteco_chan_pop l c True ?v = Some (v1, Return (wt_ele x))" "served c b a ?v v1" by auto
  have r1: "running c b [a] v1" "ch_r (chans v1 c) = []" "ch_w (chans v1 c) = []" "status_of v1 a = STATUS_READY"
    "ch_rt (chans v1 c) = ch_rt (chans ?v c)" "progs v1 = progs ?v" using v1(2) by (simp_all add: served_def)
  from pop_blocks [OF r1(1-3), of l] obtain w1 where
    w1: "prog_run c b (pops l) v1 = Some (w1, None)" "blocked_run c b [a] v1 w1"
      "map wt_co (ch_r (chans w1 c)) = [b]" "ch_w (chans w1 c) = []" "at_prog (\<lambda>p. p = pops l) (progs w1 b)"
      "\<forall>f. f \<noteq> b \<longrightarrow> status_of w1 f = status_of v1 f" by auto
  have "prog_run c b (pops l) ?v = Some (w1, None)"
    by (subst prog_run.simps, subst pops.code) (simp add: v1(1) w1(1))
  moreover have bl: "blocked_run c b [a] ?v w1" using w1(2) r1(5,6) by (auto simp: blocked_run_def)
  ultimately obtain w2 where
    "liteco_resume (prog_seg c) fin b w = Some (w2, STATUS_WAITING)" "unbuffered c w2" "chans w2 = chans w1"
    "rts w2 = rts w1" "cos w2 = cos w1" "progs w2 = progs w1"
    using resume_waits [OF w(4), of c w1 "[a]" fin] seg by auto
  moreover have "fit w1 a" using w1(6) r1(4) a by (simp add: fit_def)
  moreover have "ch_rt (chans w1 c) = rt" "rq (rts w1 rt) = [a]" "progs w1 a = progs w a"
    using bl w(2) a(3) by (auto simp: blocked_run_def)
  ultimately show ?thesis using w1(3-5) by (intro exI [of _ w2]) (simp add: fit_def)
qed

lemma busy_keeps:
  fixes fin :: "'a prog_world_scheme callback"
  assumes a: "a \<noteq> NIL" "a \<noteq> liteco_ignore_awake_co" and b: "b \<noteq> NIL" "b \<noteq> liteco_ignore_awake_co" and ab: "a \<noteq> b"
  shows "keeps_busy (busy c es l rt a b) (prog_seg c) fin rt"
  unfolding keeps_busy_def
proof (intro allI impI)
  fix w :: "'a prog_world_scheme" assume I: "busy c es l rt a b w"
  have w: "unbuffered c w" "ch_rt (chans w c) = rt" "at_prog (\<lambda>p. \<exists>n. p = pushes es n) (progs w a)"
    "at_prog (\<lambda>p. p = pops l) (progs w b)" using I by (simp_all add: busy_def)
  have sq: "unbuffered c (set_rq rt q w)" "fit (set_rq rt q w) d = fit w d" "progs (set_rq rt q w) = progs w" for q d
    using w(1) by (simp_all add: unbuffered_def fit_def set_rq_def [of rt q w, THEN arg_cong [of _ _ progs]])
  have un: "mallocs w2 = []" if "unbuffered c w2" for w2 :: "'a prog_world_scheme"
    using that by (simp add: unbuffered_def chan_ready_def)
  show "\<exists>d q w1 st. rq (rts w rt) = d # q \<and> d \<noteq> NIL \<and>
    liteco_resume (prog_seg c) fin d (set_rq rt q w) = Some (w1, st) \<and> mallocs w1 = [] \<and> busy c es l rt a b w1"
  proof (cases "\<exists>q. rq (rts w rt) = a # q")
    case True
    then obtain q where q: "rq (rts w rt) = a # q" by blast
    let ?w = "set_rq rt q w"
    have "ch_w (chans ?w c) = []" "fit ?w a" and qs: "rq (rts ?w rt) = [b] \<and> ch_r (chans ?w c) = [] \<and> fit ?w b \<or>
        rq (rts ?w rt) = [] \<and> map wt_co (ch_r (chans ?w c)) = [b]"
      using I q ab sq(2) by (auto simp: busy_def)
    then obtain w2 where w2: "liteco_resume (prog_seg c) fin a ?w = Some (w2, STATUS_WAITING)" "unbuffered c w2"
        "ch_rt (chans w2 c) = rt" "rq (rts w2 rt) = [b]" "map wt_co (ch_w (chans w2 c)) = [a]" "ch_r (chans w2 c) = []"
        "fit w2 b" "at_prog (\<lambda>p. \<exists>n. p = pushes es n) (progs w2 a)" "progs w2 b = progs ?w b"
      using push_turn [of c ?w rt es a b fin] sq w b ab by auto
    then have "busy c es l rt a b w2" using w(4) sq(3) by (simp add: busy_def)
    then show ?thesis using q a(1) w2(1) un [OF w2(2)] by blast
  next
    case False
    then have q: "rq (rts w rt) = [b]" "map wt_co (ch_w (chans w c)) = [a]" "ch_r (chans w c) = []" "fit w b"
      using I by (auto simp: busy_def)
    let ?w = "set_rq rt [] w"
    obtain w2 where w2: "liteco_resume (prog_seg c) fin b ?w = Some (w2, STATUS_WAITING)" "unbuffered c w2"
        "ch_rt (chans w2 c) = rt" "rq (rts w2 rt) = [a]" "map wt_co (ch_r (chans w2 c)) = [b]" "ch_w (chans w2 c) = []"
        "fit w2 a" "at_prog (\<lambda>p. p = pops l) (progs w2 b)" "progs w2 a = progs ?w a"
      using pop_turn [of c ?w rt l b a fin] sq w q a ab by auto
    then have "busy c es l rt a b w2" using w(3) sq(3) by (simp add: busy_def)
    then show ?thesis using q(1) b(1) w2(1) un [OF w2(2)] by blast
  qed
qed

section \<open>Property\<close>

text \<open>C24: a pass of the runtime need not end. On a channel without a buffer one coroutine pushes in an
  endless loop and another one pops in an endless loop, both blocking. Each call puts the other
  coroutine into the queue that the pass empties: \<open>liteco_runtime_cb\<close> never returns, so that the event
  loop serves nothing else, no timer and no descriptor, any more. No call is to blame: for every number
  of turns, that many turns of the loop are made, and afterwards a coroutine is in the queue.\<close>

theorem channel_pass_starves:
  fixes w :: "'a prog_world_scheme"
  assumes "chan_ready c [] w" "chan_cap (chans w c) = 0" "ch_rt (chans w c) = rt"
    and "ch_w (chans w c) = []" "ch_r (chans w c) = []" "rq (rts w rt) = [a, b]" "a \<noteq> b"
    and "\<forall>d\<in>{a, b}. d \<noteq> NIL \<and> d \<noteq> liteco_ignore_awake_co \<and> status_of w d \<in> {STATUS_STARTING, STATUS_READY}"
    and "progs w a = Fresh (pushes es 0)" "progs w b = Fresh (pops l)"
  shows "liteco_runtime_cb (prog_seg c) fin rt w = None \<and>
    (\<forall>n. \<exists>w'. runtime_turns (prog_seg c) fin rt n w = Some w' \<and> rq (rts w' rt) \<noteq> [])"
proof -
  have k: "keeps_busy (busy c es l rt a b) (prog_seg c) fin rt" using assms(7,8) by (intro busy_keeps) auto
  have I: "busy c es l rt a b w"
    using assms by (auto simp: busy_def unbuffered_def fit_def at_prog_def)
  have "rq (rts v rt) \<noteq> []" if "busy c es l rt a b v" for v :: "'a prog_world_scheme"
    using that by (auto simp: busy_def)
  then have "\<exists>w'. runtime_turns (prog_seg c) fin rt n w = Some w' \<and> rq (rts w' rt) \<noteq> []" for n
    using busy_turns [OF k I, of n] by blast
  then show ?thesis using busy_loop [OF k I, of "[]"] by (simp add: liteco_runtime_cb_def)
qed

text \<open>Coroutine 31 pushes 7, 8, 9 and so on, coroutine 32 pops into the cell 200.\<close>

definition starve_chan :: "unit ch_world_scheme" where
  "starve_chan = upd_ch 20 (\<lambda>x. x\<lparr>queue := None\<rparr>) (demo_chan [] [] [])"

fun starve_prog :: "addr \<Rightarrow> saved" where
  "starve_prog d = Fresh (if d = 31 then pushes (\<lambda>n. n + 7) 0 else pops 200)"

theorem channel_pass_starves_witness:
  "liteco_runtime_cb (prog_seg 20) (\<lambda>_ _ w. w) 9 (demo_progs starve_chan starve_prog [31, 32]) = None"
proof -
  let ?w = "demo_progs starve_chan starve_prog [31, 32]"
  have "chan_ready 20 [] ?w"
    using demo_signal [of "[]" "[]" "[]"]
    by (simp add: chan_ready_def chan_ok_def plain_waiters_def waiting_cos_def starve_chan_def ring_abs_def)
      (simp add: demo_chan_def)
  moreover have "chan_cap (chans ?w 20) = 0" "ch_rt (chans ?w 20) = 9" "ch_w (chans ?w 20) = []" "ch_r (chans ?w 20) = []"
    by (simp_all add: starve_chan_def chan_cap_def)
  ultimately show ?thesis
    using channel_pass_starves [of 20 ?w 9 31 32 "\<lambda>n. n + 7" 200 "\<lambda>_ _ w. w"]
    by (simp add: liteco_ignore_awake_co_def)
qed

end
