(* ===== verification/Udp_Inbox.thy ===== *)
theory Udp_Inbox
  imports Udp_Props Channel_Runs
begin

text \<open>
  Datagram channels with all the datagrams that wait in the socket: the callback of the socket reads
  until there is nothing left, and puts the datagrams into the channel one after the other.
\<close>

section \<open>The kernel and the user\<close>

text \<open>\<open>inbox\<close> are the answers that \<open>recvmsg\<close> still gives before \<open>EAGAIN\<close>. The user hands out the
  elements of the list \<open>free\<close> in order, and puts one that comes back to the front.\<close>

record udp_env = udp_world +
  inbox :: "recv_result list"
  free :: "addr list"





section \<open>What the channel takes\<close>







section \<open>A push of the channel\<close>






section \<open>The whole inbox\<close>





lemma filled_env [simp]:
  fixes w :: "'a udp_env_scheme"
  shows "inbox (filled u e n p w) = inbox w" "free (filled u e n p w) = free w" "cos (filled u e n p w) = cos w"
    "asyncs (filled u e n p w) = asyncs w" "rts (filled u e n p w) = rts w" "ev (filled u e n p w) = ev w"
    "stores (filled u e n p w) = stores w"
  by (simp_all add: filled_def upd_ele_def)








section \<open>A concrete inbox\<close>






section \<open>Property\<close>



end
